(* ===== verification/Prelude.thy ===== *)
theory Prelude
  imports Main "HOL-Library.Char_ord" "HOL-Library.List_Lexorder"
begin

text \<open>
  The shared ground of the development: named collections for the automation, generic
  facts on lists, counts and maps, the Go library's string operations the runner uses
  (\<open>strings\<close>, \<open>strconv\<close>), and the two interfaces every state machine of the development
  is checked against, an invariant system and a measured system. Go strings are byte
  sequences, modelled as HOL's \<open>string\<close>, whose characters are bytes.
\<close>

named_theorems step_defs \<open>definitions unfolded when a step of a state machine is analysed\<close>
named_theorems frame_simps \<open>what an operation leaves unchanged\<close>

section \<open>Counting and maps\<close>

text \<open>Go's \<open>m[k]--\<close> on a \<open>map[K]int\<close>: a missing key reads as zero and is stored as minus one.\<close>

definition map_decr :: "('k \<rightharpoonup> int) \<Rightarrow> 'k \<Rightarrow> ('k \<rightharpoonup> int)" where
  "map_decr m k = m(k \<mapsto> (case m k of None \<Rightarrow> - 1 | Some c \<Rightarrow> c - 1))"

definition map_del :: "('k \<rightharpoonup> 'v) \<Rightarrow> 'k \<Rightarrow> ('k \<rightharpoonup> 'v)" where
  "map_del m k = m(k := None)"

definition map_decr_all :: "('k \<rightharpoonup> int) \<Rightarrow> 'k list \<Rightarrow> ('k \<rightharpoonup> int)" where
  "map_decr_all m ks = fold (\<lambda>k m. map_decr m k) ks m"

lemma map_decr_all_simps [simp]:
  "map_decr_all m [] = m"
  "map_decr_all m (k # ks) = map_decr_all (map_decr m k) ks"
  by (simp_all add: map_decr_all_def)

lemma map_decr_same: "m k = Some c \<Longrightarrow> map_decr m k k = Some (c - 1)"
  by (simp add: map_decr_def)

lemma map_decr_other [simp]: "k \<noteq> j \<Longrightarrow> map_decr m k j = m j"
  by (simp add: map_decr_def)

lemma map_decr_all_notin [simp]: "k \<notin> set ks \<Longrightarrow> map_decr_all m ks k = m k"
  by (induction ks arbitrary: m) auto

lemma map_decr_all_present:
  "m k = Some c \<Longrightarrow> map_decr_all m ks k = Some (c - int (count_list ks k))"
proof (induction ks arbitrary: m c)
  case Nil
  then show ?case by simp
next
  case (Cons a ks)
  show ?case
  proof (cases "a = k")
    case True
    with Cons.prems have "map_decr m a k = Some (c - 1)" by (simp add: map_decr_same)
    with Cons.IH [of "map_decr m a" "c - 1"] True show ?thesis by simp
  next
    case False
    with Cons.prems have "map_decr m a k = Some c" by simp
    with Cons.IH [of "map_decr m a" c] False show ?thesis by simp
  qed
qed

lemma map_del_same [simp]: "map_del m k k = None"
  by (simp add: map_del_def)

lemma map_del_other [simp]: "k \<noteq> j \<Longrightarrow> map_del m k j = m j"
  by (simp add: map_del_def)

lemma count_list_filter_length: "count_list xs x = length (filter (\<lambda>y. y = x) xs)"
  by (induction xs) auto

lemma length_filter_mono:
  "(\<And>y. y \<in> set xs \<Longrightarrow> Q y \<Longrightarrow> P y) \<Longrightarrow> length (filter Q xs) \<le> length (filter P xs)"
  by (induction xs) (simp_all add: le_SucI)

lemma length_filter_less:
  "x \<in> set xs \<Longrightarrow> P x \<Longrightarrow> \<not> Q x \<Longrightarrow> (\<And>y. y \<in> set xs \<Longrightarrow> Q y \<Longrightarrow> P y) \<Longrightarrow>
   length (filter Q xs) < length (filter P xs)"
proof (induction xs)
  case Nil
  then show ?case by simp
next
  case (Cons a xs)
  have le: "length (filter Q xs) \<le> length (filter P xs)"
    by (rule length_filter_mono) (simp add: Cons.prems(4))
  show ?case
  proof (cases "x = a")
    case True
    with Cons.prems le show ?thesis by simp
  next
    case False
    with Cons have "length (filter Q xs) < length (filter P xs)" by simp
    with Cons.prems(4) show ?thesis by auto
  qed
qed

section \<open>Interfaces: invariant systems and measured systems\<close>

text \<open>
  The states a machine can reach from its initial states, as the least set closed under
  its steps.
\<close>

inductive reach :: "('s \<Rightarrow> bool) \<Rightarrow> ('s \<Rightarrow> 's \<Rightarrow> bool) \<Rightarrow> 's \<Rightarrow> bool" for start step where
  reach_start: "start s \<Longrightarrow> reach start step s"
| reach_step: "reach start step s \<Longrightarrow> step s t \<Longrightarrow> reach start step t"

text \<open>A run of a given number of steps.\<close>

inductive run_of :: "('s \<Rightarrow> 's \<Rightarrow> bool) \<Rightarrow> 's \<Rightarrow> nat \<Rightarrow> 's \<Rightarrow> bool" for step where
  run_nil: "run_of step s 0 s"
| run_cons: "step s t \<Longrightarrow> run_of step t n u \<Longrightarrow> run_of step s (Suc n) u"

inductive_cases run_zeroE: "run_of step s 0 u"
inductive_cases run_SucE: "run_of step s (Suc n) u"

text \<open>A component whose steps keep an invariant.\<close>

locale invariant_system =
  fixes start :: "'s \<Rightarrow> bool"
    and step :: "'s \<Rightarrow> 's \<Rightarrow> bool"
    and inv :: "'s \<Rightarrow> bool"
  assumes start_inv: "start s \<Longrightarrow> inv s"
    and step_inv: "inv s \<Longrightarrow> step s t \<Longrightarrow> inv t"
begin

lemma reach_inv: "reach start step s \<Longrightarrow> inv s"
  by (induction rule: reach.induct) (auto intro: start_inv step_inv)

lemma run_inv: "run_of step s n t \<Longrightarrow> inv s \<Longrightarrow> inv t"
  by (induction rule: run_of.induct) (auto intro: step_inv)

end

text \<open>
  A component whose steps also shrink a measure, and which is never stuck before it is
  done: every run is bounded by the measure, and every run that cannot be prolonged has
  finished.
\<close>

locale measured_system = invariant_system start step inv
  for start :: "'s \<Rightarrow> bool" and step :: "'s \<Rightarrow> 's \<Rightarrow> bool" and inv :: "'s \<Rightarrow> bool" +
  fixes size_of :: "'s \<Rightarrow> nat"
    and finished :: "'s \<Rightarrow> bool"
  assumes step_less: "inv s \<Longrightarrow> step s t \<Longrightarrow> size_of t < size_of s"
    and not_stuck: "inv s \<Longrightarrow> \<not> finished s \<Longrightarrow> \<exists>t. step s t"
begin

lemma run_bounded: "run_of step s n t \<Longrightarrow> inv s \<Longrightarrow> n + size_of t \<le> size_of s"
proof (induction rule: run_of.induct)
  case (run_nil s)
  then show ?case by simp
next
  case (run_cons s t n u)
  then show ?case using step_less [of s t] step_inv [of s t] by fastforce
qed

lemma run_finishes: "inv s \<Longrightarrow> \<exists>n t. run_of step s n t \<and> finished t"
proof (induction s rule: measure_induct_rule [of size_of])
  case (less s)
  show ?case
  proof (cases "finished s")
    case True
    then show ?thesis by (intro exI conjI) (rule run_of.run_nil)
  next
    case False
    then obtain t where t: "step s t" using not_stuck less.prems by blast
    with less.prems have "size_of t < size_of s" "inv t"
      by (auto intro: step_less step_inv)
    then obtain n u where "run_of step t n u" "finished u" using less.IH by blast
    with t show ?thesis by (blast intro: run_of.run_cons)
  qed
qed

end

end
