(* ===== verification/Go_Strings.thy ===== *)
theory Go_Strings
  imports Prelude
begin

text \<open>
  The operations of Go's \<open>strings\<close> and \<open>strconv\<close> packages the runner's reference and
  template code is written with: \<open>LastIndex\<close>, \<open>Split\<close>, \<open>SplitN\<close>, \<open>HasPrefix\<close>, \<open>TrimSpace\<close>,
  \<open>Join\<close>, \<open>Itoa\<close> and \<open>Atoi\<close>, with the facts the components use about them.
\<close>

abbreviation dot :: char where "dot \<equiv> CHR ''.''"

section \<open>Searching and splitting at dots\<close>

text \<open>\<open>strings.LastIndex(s, ".")\<close>: \<open>None\<close> is Go's minus one.\<close>

definition last_dot :: "string \<Rightarrow> nat option" where
  "last_dot s =
     (if dot \<in> set s
      then Some (length s - 1 - length (takeWhile (\<lambda>c. c \<noteq> dot) (rev s)))
      else None)"

text \<open>\<open>strings.SplitN(s, ".", 2)\<close>.\<close>

definition split_n2 :: "string \<Rightarrow> string list" where
  "split_n2 s =
     (if dot \<in> set s
      then [takeWhile (\<lambda>c. c \<noteq> dot) s, drop (Suc (length (takeWhile (\<lambda>c. c \<noteq> dot) s))) s]
      else [s])"

text \<open>\<open>strings.Split(s, sep)\<close> for a one-byte separator.\<close>

fun split_at :: "char \<Rightarrow> string \<Rightarrow> string list" where
  "split_at sep [] = [[]]"
| "split_at sep (c # cs) =
     (if c = sep then [] # split_at sep cs
      else (case split_at sep cs of [] \<Rightarrow> [[c]] | w # ws \<Rightarrow> (c # w) # ws))"

fun join_with :: "string \<Rightarrow> string list \<Rightarrow> string" where
  "join_with sep [] = []"
| "join_with sep [w] = w"
| "join_with sep (w # v # ws) = w @ sep @ join_with sep (v # ws)"

lemma split_at_not_Nil [simp]: "split_at sep s \<noteq> []"
  by (induction s) (auto split: list.splits)

lemma join_split: "join_with [sep] (split_at sep s) = s"
proof (induction s)
  case Nil
  then show ?case by simp
next
  case (Cons c cs)
  obtain w ws where w: "split_at sep cs = w # ws"
    by (cases "split_at sep cs") auto
  with Cons.IH show ?case by (cases ws) auto
qed

lemma split_at_no_sep: "w \<in> set (split_at sep s) \<Longrightarrow> sep \<notin> set w"
  by (induction s arbitrary: w) (auto split: list.splits if_splits)

lemma last_dot_None_iff: "last_dot s = None \<longleftrightarrow> dot \<notin> set s"
  by (simp add: last_dot_def)

lemma last_dot_append_dot:
  assumes "dot \<notin> set r"
  shows "last_dot (p @ dot # r) = Some (length p)"
proof -
  from assms have "takeWhile (\<lambda>c. c \<noteq> dot) (rev r @ dot # rev p) = rev r"
    by (subst takeWhile_append2) auto
  then show ?thesis by (simp add: last_dot_def)
qed

lemma last_dot_Some:
  assumes "last_dot s = Some e"
  shows "e < length s" and "s ! e = dot" and "dot \<notin> set (drop (Suc e) s)"
proof -
  from assms have "dot \<in> set s" by (simp add: last_dot_def split: if_splits)
  then obtain p r where s: "s = p @ dot # r" and r: "dot \<notin> set r"
    by (blast dest: split_list_last)
  with assms last_dot_append_dot [OF r, of p] have e: "e = length p" by simp
  from s r e show "e < length s" "s ! e = dot" "dot \<notin> set (drop (Suc e) s)" by auto
qed

section \<open>Prefixes\<close>

fun has_prefix :: "string \<Rightarrow> string \<Rightarrow> bool" where
  "has_prefix s [] = True"
| "has_prefix [] (p # ps) = False"
| "has_prefix (c # cs) (p # ps) = (c = p \<and> has_prefix cs ps)"

fun strip_prefix :: "string \<Rightarrow> string \<Rightarrow> string option" where
  "strip_prefix [] s = Some s"
| "strip_prefix (p # ps) [] = None"
| "strip_prefix (p # ps) (c # cs) = (if c = p then strip_prefix ps cs else None)"

lemma strip_prefix_iff: "strip_prefix p s = Some r \<longleftrightarrow> s = p @ r"
  by (induction p s rule: strip_prefix.induct) auto

lemma strip_prefix_append [simp]: "strip_prefix p (p @ r) = Some r"
  by (simp add: strip_prefix_iff)

lemma has_prefix_iff: "has_prefix s p \<longleftrightarrow> (\<exists>r. s = p @ r)"
  by (induction s p rule: has_prefix.induct) auto

section \<open>Trimming white space\<close>

text \<open>
  \<open>strings.TrimSpace\<close> drops the code points of Unicode's white space at both ends. Their
  UTF-8 forms are written out: the six ASCII ones, U+0085, U+00A0, U+1680, U+2000 to
  U+200A, U+2028, U+2029, U+202F, U+205F and U+3000.
\<close>

definition ascii_space :: "char \<Rightarrow> bool" where
  "ascii_space c \<longleftrightarrow> of_char c \<in> {9, 10, 11, 12, 13, 32 :: nat}"

definition space2 :: "char \<Rightarrow> char \<Rightarrow> bool" where
  "space2 a b \<longleftrightarrow> of_char a = (194 :: nat) \<and> of_char b \<in> {133, 160 :: nat}"

definition space3 :: "char \<Rightarrow> char \<Rightarrow> char \<Rightarrow> bool" where
  "space3 a b c \<longleftrightarrow>
     (let x = of_char a :: nat; y = of_char b :: nat; z = of_char c :: nat in
      (x = 225 \<and> y = 154 \<and> z = 128) \<or>
      (x = 226 \<and> y = 128 \<and> (128 \<le> z \<and> z \<le> 138 \<or> z \<in> {168, 169, 175})) \<or>
      (x = 226 \<and> y = 129 \<and> z = 159) \<or>
      (x = 227 \<and> y = 128 \<and> z = 128))"

fun trim_left :: "string \<Rightarrow> string" where
  "trim_left [] = []"
| "trim_left (a # s) =
     (if ascii_space a then trim_left s
      else (case s of
              b # s2 \<Rightarrow>
                (if space2 a b then trim_left s2
                 else (case s2 of
                         c # s3 \<Rightarrow> if space3 a b c then trim_left s3 else a # s
                       | [] \<Rightarrow> a # s))
            | [] \<Rightarrow> a # s))"

text \<open>The same scan from the right, on the reversed string.\<close>

fun trim_left_rev :: "string \<Rightarrow> string" where
  "trim_left_rev [] = []"
| "trim_left_rev (a # s) =
     (if ascii_space a then trim_left_rev s
      else (case s of
              b # s2 \<Rightarrow>
                (if space2 b a then trim_left_rev s2
                 else (case s2 of
                         c # s3 \<Rightarrow> if space3 c b a then trim_left_rev s3 else a # s
                       | [] \<Rightarrow> a # s))
            | [] \<Rightarrow> a # s))"

definition trim_space :: "string \<Rightarrow> string" where
  "trim_space s = rev (trim_left_rev (rev (trim_left s)))"

section \<open>Decimal numbers\<close>

text \<open>\<open>strings.ToUpper\<close> and \<open>strings.ToLower\<close> on ASCII letters.\<close>

definition ascii_upper :: "char \<Rightarrow> char" where
  "ascii_upper c = (let n = of_char c :: nat in if 97 \<le> n \<and> n \<le> 122 then char_of (n - 32) else c)"

definition ascii_lower :: "char \<Rightarrow> char" where
  "ascii_lower c = (let n = of_char c :: nat in if 65 \<le> n \<and> n \<le> 90 then char_of (n + 32) else c)"

definition digit_char :: "nat \<Rightarrow> char" where
  "digit_char d = char_of (48 + d)"

fun nat_text :: "nat \<Rightarrow> string" where
  "nat_text n = (if n < 10 then [digit_char n] else nat_text (n div 10) @ [digit_char (n mod 10)])"

declare nat_text.simps [simp del]

text \<open>\<open>strconv.Itoa\<close>.\<close>

definition int_text :: "int \<Rightarrow> string" where
  "int_text i = (if i < 0 then CHR ''-'' # nat_text (nat (- i)) else nat_text (nat i))"

definition is_digit :: "char \<Rightarrow> bool" where
  "is_digit c \<longleftrightarrow> 48 \<le> (of_char c :: nat) \<and> (of_char c :: nat) \<le> 57"

definition digits_value :: "string \<Rightarrow> nat" where
  "digits_value ds = foldl (\<lambda>v c. 10 * v + (of_char c - 48)) 0 ds"

text \<open>
  \<open>strconv.Atoi\<close>: an optional sign, then at least one digit; a value outside 64 bits is an
  error, as is any other byte.
\<close>

definition atoi :: "string \<Rightarrow> int option" where
  "atoi s =
     (let (neg, ds) = (case s of
          [] \<Rightarrow> (False, [])
        | c # cs \<Rightarrow> if c = CHR ''-'' then (True, cs) else if c = CHR ''+'' then (False, cs) else (False, s));
          v = (if neg then - int (digits_value ds) else int (digits_value ds))
      in if ds \<noteq> [] \<and> list_all is_digit ds \<and> - (2 ^ 63) \<le> v \<and> v < 2 ^ 63 then Some v else None)"

section \<open>Quoting\<close>

text \<open>
  Text between single quotes, as the messages write it, and Go's \<open>%q\<close>: the quote and the
  backslash are escaped, control characters take their escape, bytes above ASCII (taken to
  be parts of printable characters) stay.
\<close>

definition squote :: "string \<Rightarrow> string" where
  "squote s = CHR 0x27 # s @ [CHR 0x27]"

definition hex_digit :: "nat \<Rightarrow> char" where
  "hex_digit d = (if d < 10 then char_of (48 + d) else char_of (87 + d))"

definition quote_char :: "char \<Rightarrow> string" where
  "quote_char c =
     (let n = of_char c :: nat; bs = CHR 0x5C in
      if n = 34 \<or> n = 92 then [bs, c]
      else if n = 7 then [bs, CHR ''a''] else if n = 8 then [bs, CHR ''b'']
      else if n = 12 then [bs, CHR ''f''] else if n = 10 then [bs, CHR ''n'']
      else if n = 13 then [bs, CHR ''r''] else if n = 9 then [bs, CHR ''t'']
      else if n = 11 then [bs, CHR ''v'']
      else if n < 32 \<or> n = 127 then [bs, CHR ''x'', hex_digit (n div 16), hex_digit (n mod 16)]
      else [c])"

definition dquote :: "string \<Rightarrow> string" where
  "dquote s = CHR 0x22 # concat (map quote_char s) @ [CHR 0x22]"

end
