(* ===== verification/Values.thy ===== *)
theory Values
  imports Go_Strings Complex_Main
begin

text \<open>
  The values a flow carries: Go's \<open>any\<close> as the runner uses it. JSON decoding yields nil,
  booleans, \<open>float64\<close>, strings, \<open>[]any\<close> and \<open>map[string]any\<close>; nodes and Go callers add
  ints and typed containers such as \<open>[]map[string]any\<close> or \<open>map[string]string\<close>, which some
  code (\<open>walkTyped\<close>) reads like the untyped ones and other code does not. A map is an
  association list with distinct keys. A finite \<open>float64\<close> is the rational it denotes.
\<close>

datatype go_float = Fin rat | PosInf | NegInf | NaN

datatype gval =
    GNil
  | GBool bool
  | GInt int
  | GFloat go_float
  | GStr string
  | GList "gval list"
  | GMap "(string \<times> gval) list"
  | GTSlice "gval list"
  | GTMap "(string \<times> gval) list"

text \<open>A Go \<open>map[string]any\<close> that is only looked up and updated, and the engine's map of them by node.\<close>

type_synonym outputs = "string \<rightharpoonup> gval"
type_synonym output_store = "string \<rightharpoonup> outputs"

text \<open>\<open>maps.Copy(dst, src)\<close>: the source's entries overwrite the destination's.\<close>

definition maps_copy :: "('k \<rightharpoonup> 'v) \<Rightarrow> ('k \<rightharpoonup> 'v) \<Rightarrow> ('k \<rightharpoonup> 'v)" where
  "maps_copy dst src = dst ++ src"

end
