(* ===== verification/Refs.thy ===== *)
theory Refs
  imports Values
begin

text \<open>
  Template references: the dotted lookup shared by the template resolver, input assembly
  and assertions (\<open>pkg/node/template_resolver.go\<close>: \<open>LookupPath\<close>, \<open>walkPath\<close>, \<open>walkTyped\<close>,
  \<open>sliceIndex\<close>), the read-only output view (\<open>pkg/node/output_view.go\<close>) and the engine's
  reading of \<open>node.output\<close> references (\<open>pkg/engine/engine.go\<close>). The lookup is
  characterised by three laws, stated as a locale and discharged for the code's model.
\<close>

section \<open>Walking into a value\<close>

definition slice_index :: "string \<Rightarrow> nat \<Rightarrow> nat option" where
  "slice_index segment len =
     (case atoi segment of
        Some i \<Rightarrow> if 0 \<le> i \<and> i < int len then Some (nat i) else None
      | None \<Rightarrow> None)"

definition index_into :: "gval list \<Rightarrow> string \<Rightarrow> gval option" where
  "index_into xs segment =
     (case slice_index segment (length xs) of Some i \<Rightarrow> Some (xs ! i) | None \<Rightarrow> None)"

fun walk_typed :: "gval \<Rightarrow> string \<Rightarrow> gval option" where
  "walk_typed (GTSlice xs) segment = index_into xs segment"
| "walk_typed (GTMap kvs) segment = map_of kvs segment"
| "walk_typed _ segment = None"

definition walk_step :: "gval \<Rightarrow> string \<Rightarrow> gval option" where
  "walk_step v segment =
     (case v of
        GMap kvs \<Rightarrow> map_of kvs segment
      | GList xs \<Rightarrow> index_into xs segment
      | container \<Rightarrow> walk_typed container segment)"

fun walk_path :: "gval \<Rightarrow> string list \<Rightarrow> gval option" where
  "walk_path v [] = Some v"
| "walk_path v (segment # segments) =
     (case walk_step v segment of None \<Rightarrow> None | Some next \<Rightarrow> walk_path next segments)"

lemma slice_index_bound: "slice_index segment len = Some i \<Longrightarrow> i < len"
  by (auto simp: slice_index_def split: option.splits if_splits)

lemma walk_path_append:
  "walk_path v (xs @ ys) = (case walk_path v xs of None \<Rightarrow> None | Some w \<Rightarrow> walk_path w ys)"
  by (induction v xs rule: walk_path.induct) (auto split: option.splits)

lemma walk_path_scalar:
  "v \<in> {GNil, GBool b, GInt i, GFloat f, GStr s} \<Longrightarrow> walk_path v (x # xs) = None"
  by (auto simp: walk_step_def)

section \<open>LookupPath\<close>

function lookup_from :: "(string \<Rightarrow> gval option) \<Rightarrow> string \<Rightarrow> nat option \<Rightarrow> gval option" where
  "lookup_from get ref None = None"
| "lookup_from get ref (Some e) =
     (if e = 0 then None
      else (case get (take e ref) of
              Some rv \<Rightarrow> walk_path rv (split_at dot (drop (Suc e) ref))
            | None \<Rightarrow> lookup_from get ref (last_dot (take e ref))))"
  by pat_completeness auto
termination
  by (relation "measure (\<lambda>(get, ref, eo). case eo of None \<Rightarrow> 0 | Some e \<Rightarrow> Suc e)")
    (auto split: option.splits dest: last_dot_Some(1))

definition lookup_path :: "string \<Rightarrow> (string \<Rightarrow> gval option) \<Rightarrow> gval option" where
  "lookup_path ref get =
     (case get ref of Some v \<Rightarrow> Some v | None \<Rightarrow> lookup_from get ref (last_dot ref))"

text \<open>The proper prefixes of a reference that end before a dot and are not empty.\<close>

definition dotted_prefix :: "string \<Rightarrow> string \<Rightarrow> bool" where
  "dotted_prefix p ref \<longleftrightarrow> p \<noteq> [] \<and> (\<exists>r. ref = p @ dot # r)"

definition root_at :: "string \<Rightarrow> nat \<Rightarrow> bool" where
  "root_at ref e \<longleftrightarrow> 0 < e \<and> e < length ref \<and> ref ! e = dot"

lemma dotted_prefix_root_at: "root_at ref e \<Longrightarrow> dotted_prefix (take e ref) ref"
  unfolding dotted_prefix_def root_at_def
  by (metis gr_implies_not0 id_take_nth_drop take_eq_Nil length_0_conv not_gr_zero)

lemma dotted_prefixD:
  "dotted_prefix p ref \<Longrightarrow> root_at ref (length p) \<and> take (length p) ref = p"
  by (auto simp: dotted_prefix_def root_at_def)

lemma last_dot_take_None: "last_dot (take n ref) = None \<Longrightarrow> e < n \<Longrightarrow> \<not> root_at ref e"
  by (auto simp: root_at_def in_set_conv_nth last_dot_None_iff)

lemma last_dot_take_Some:
  assumes "last_dot (take n ref) = Some k"
  shows "k < n" and "k < length ref" and "ref ! k = dot"
    and "k < e \<Longrightarrow> e < n \<Longrightarrow> \<not> root_at ref e"
proof -
  note k = last_dot_Some [OF assms]
  from k(1) show "k < n" "k < length ref" by auto
  with k(2) show "ref ! k = dot" by simp
  assume ke: "k < e" "e < n"
  show "\<not> root_at ref e"
  proof
    assume r: "root_at ref e"
    then have e: "e < length (take n ref)" "take n ref ! e = dot"
      using ke by (auto simp: root_at_def)
    have "drop (Suc k) (take n ref) ! (e - Suc k) = dot"
      using e ke by (subst nth_drop) auto
    moreover have "e - Suc k < length (drop (Suc k) (take n ref))" using e ke by auto
    ultimately have "dot \<in> set (drop (Suc k) (take n ref))" by (metis nth_mem)
    with k(3) show False by blast
  qed
qed

lemma lookup_from_none:
  "(\<And>e. root_at ref e \<Longrightarrow> e < n \<Longrightarrow> get (take e ref) = None) \<Longrightarrow>
   lookup_from get ref (last_dot (take n ref)) = None"
proof (induction n rule: less_induct)
  case (less n)
  show ?case
  proof (cases "last_dot (take n ref)")
    case None
    then show ?thesis by simp
  next
    case (Some k)
    note k = last_dot_take_Some [OF Some]
    show ?thesis
    proof (cases "k = 0")
      case True
      with Some show ?thesis by simp
    next
      case False
      with k have "root_at ref k" by (simp add: root_at_def)
      with less.prems k have "get (take k ref) = None" by blast
      moreover have "lookup_from get ref (last_dot (take k ref)) = None"
        using less.IH [OF k(1)] less.prems k(1) by (meson less_trans)
      ultimately show ?thesis using Some False by simp
    qed
  qed
qed

lemma lookup_from_some:
  "root_at ref e \<Longrightarrow> e < n \<Longrightarrow> get (take e ref) = Some rv \<Longrightarrow>
   (\<And>d. root_at ref d \<Longrightarrow> e < d \<Longrightarrow> d < n \<Longrightarrow> get (take d ref) = None) \<Longrightarrow>
   lookup_from get ref (last_dot (take n ref)) = walk_path rv (split_at dot (drop (Suc e) ref))"
proof (induction n rule: less_induct)
  case (less n)
  show ?case
  proof (cases "last_dot (take n ref)")
    case None
    with last_dot_take_None less.prems(1,2) show ?thesis by blast
  next
    case (Some k)
    note k = last_dot_take_Some [OF Some]
    from less.prems(1,2) k(4) have ek: "e \<le> k" by (meson not_le)
    with less.prems(1) have k0: "0 < k" by (auto simp: root_at_def)
    show ?thesis
    proof (cases "e = k")
      case True
      with Some k0 less.prems(3) show ?thesis by simp
    next
      case False
      with ek have ek': "e < k" by simp
      from k0 k have "root_at ref k" by (simp add: root_at_def)
      with less.prems(4) ek' k(1) have "get (take k ref) = None" by blast
      moreover have "lookup_from get ref (last_dot (take k ref)) =
          walk_path rv (split_at dot (drop (Suc e) ref))"
        using less.IH [OF k(1) less.prems(1) ek' less.prems(3)] less.prems(4) k(1)
        by (meson less_trans)
      ultimately show ?thesis using Some k0 by simp
    qed
  qed
qed

lemma dotted_prefix_cut:
  assumes "last_dot c = Some e" "0 < e"
  shows "dotted_prefix p c \<longleftrightarrow> p = take e c \<or> dotted_prefix p (take e c)"
proof -
  note e = last_dot_Some [OF assms(1)]
  have c: "c = take e c @ dot # drop (Suc e) c" using e(1,2) id_take_nth_drop by metis
  show ?thesis
  proof
    assume "dotted_prefix p c"
    then obtain r where r: "c = p @ dot # r" and p: "p \<noteq> []" by (auto simp: dotted_prefix_def)
    have le: "length p \<le> e"
    proof (rule ccontr)
      assume "\<not> length p \<le> e"
      then have "drop (Suc e) c = drop (Suc e) p @ dot # r" unfolding r by simp
      with e(3) show False by simp
    qed
    show "p = take e c \<or> dotted_prefix p (take e c)"
    proof (cases "length p = e")
      case True
      with r show ?thesis by auto
    next
      case False
      with le have "take e c = p @ dot # take (e - length p - 1) r" unfolding r by (cases "e - length p") auto
      with p show ?thesis by (auto simp: dotted_prefix_def)
    qed
  next
    assume "p = take e c \<or> dotted_prefix p (take e c)"
    then show "dotted_prefix p c"
      using c e(1) assms(2) unfolding dotted_prefix_def
      by (metis append.assoc append_Cons length_greater_0_conv length_take less_imp_le_nat min.absorb2)
  qed
qed

lemma dotted_prefix_cases:
  "dotted_prefix p c \<longleftrightarrow>
     (case last_dot c of None \<Rightarrow> False | Some e \<Rightarrow> 0 < e \<and> (p = take e c \<or> dotted_prefix p (take e c)))"
proof (cases "last_dot c")
  case None
  then have "dot \<notin> set c" by (simp add: last_dot_None_iff)
  then have "\<not> dotted_prefix p c" by (auto simp: dotted_prefix_def)
  with None show ?thesis by simp
next
  case (Some e)
  show ?thesis
  proof (cases "0 < e")
    case True
    with Some show ?thesis by (simp add: dotted_prefix_cut)
  next
    case False
    have "\<not> dotted_prefix p c"
    proof
      assume "dotted_prefix p c"
      then obtain r where r: "c = p @ dot # r" "p \<noteq> []" by (auto simp: dotted_prefix_def)
      then have "dot \<in> set (drop 1 c)" by (cases p) auto
      with last_dot_Some(3) [OF Some] False show False by simp
    qed
    with Some False show ?thesis by simp
  qed
qed

section \<open>The contract of the lookup\<close>

text \<open>
  What every client of the lookup relies on: an exact key wins; otherwise the longest
  dotted prefix that is known decides, and the rest of the reference walks into its value;
  otherwise nothing is found.
\<close>

locale dotted_lookup =
  fixes look :: "string \<Rightarrow> (string \<Rightarrow> gval option) \<Rightarrow> gval option"
    and walk :: "gval \<Rightarrow> string list \<Rightarrow> gval option"
  assumes exact: "get ref = Some v \<Longrightarrow> look ref get = Some v"
    and longest: "get ref = None \<Longrightarrow> dotted_prefix p ref \<Longrightarrow> get p = Some w \<Longrightarrow>
      (\<And>q. dotted_prefix q ref \<Longrightarrow> length p < length q \<Longrightarrow> get q = None) \<Longrightarrow>
      look ref get = walk w (split_at dot (drop (Suc (length p)) ref))"
    and unknown: "get ref = None \<Longrightarrow> (\<And>q. dotted_prefix q ref \<Longrightarrow> get q = None) \<Longrightarrow>
      look ref get = None"
begin

lemma longest_known_prefix:
  assumes "dotted_prefix p ref" and "get p \<noteq> None"
  obtains m w where "dotted_prefix m ref" "get m = Some w"
    "\<And>q. dotted_prefix q ref \<Longrightarrow> length m < length q \<Longrightarrow> get q = None"
proof -
  let ?P = "\<lambda>q. dotted_prefix q ref \<and> get q \<noteq> None"
  have "\<forall>q. ?P q \<longrightarrow> length q < length ref" by (auto simp: dotted_prefix_def)
  with assms obtain m where m: "?P m" "\<forall>q. ?P q \<longrightarrow> length q \<le> length m"
    using ex_has_greatest_nat [of ?P p length "length ref"] by blast
  then show thesis using that by (metis not_le option.exhaust)
qed

lemma look_found:
  "look ref get = Some v \<Longrightarrow> get ref \<noteq> None \<or> (\<exists>p. dotted_prefix p ref \<and> get p \<noteq> None)"
  using unknown [of get ref] by fastforce

text \<open>A lookup reads its source at the reference and its dotted prefixes only.\<close>

lemma look_cong:
  assumes ref: "get ref = get' ref" and pre: "\<And>q. dotted_prefix q ref \<Longrightarrow> get q = get' q"
  shows "look ref get = look ref get'"
proof (cases "get ref")
  case (Some v)
  moreover from this ref have "get' ref = Some v" by simp
  ultimately show ?thesis by (simp add: exact)
next
  case None
  show ?thesis
  proof (cases "\<exists>p. dotted_prefix p ref \<and> get p \<noteq> None")
    case True
    then obtain m w where m: "dotted_prefix m ref" "get m = Some w"
      and max: "\<And>q. dotted_prefix q ref \<Longrightarrow> length m < length q \<Longrightarrow> get q = None"
      using longest_known_prefix by blast
    have "look ref get = walk w (split_at dot (drop (Suc (length m)) ref))"
      using None m max by (rule longest)
    moreover have "look ref get' = walk w (split_at dot (drop (Suc (length m)) ref))"
      using longest [of get' ref m w] None ref m pre max by auto
    ultimately show ?thesis by simp
  next
    case False
    with None unknown [of get ref] unknown [of get' ref] ref pre show ?thesis by auto
  qed
qed

end

interpretation refs: dotted_lookup lookup_path walk_path
proof
  fix get :: "string \<Rightarrow> gval option" and ref v
  assume "get ref = Some v"
  then show "lookup_path ref get = Some v" by (simp add: lookup_path_def)
next
  fix get :: "string \<Rightarrow> gval option" and ref p w
  assume none: "get ref = None" and p: "dotted_prefix p ref" and w: "get p = Some w"
    and max: "\<And>q. dotted_prefix q ref \<Longrightarrow> length p < length q \<Longrightarrow> get q = None"
  have "lookup_from get ref (last_dot (take (length ref) ref)) =
      walk_path w (split_at dot (drop (Suc (length p)) ref))"
  proof (rule lookup_from_some)
    show "root_at ref (length p)" "get (take (length p) ref) = Some w"
      using dotted_prefixD [OF p] w by auto
    then show "length p < length ref" by (simp add: root_at_def)
    fix d assume "root_at ref d" "length p < d" "d < length ref"
    then show "get (take d ref) = None"
      using max [OF dotted_prefix_root_at] by simp
  qed
  with none show "lookup_path ref get = walk_path w (split_at dot (drop (Suc (length p)) ref))"
    by (simp add: lookup_path_def)
next
  fix get :: "string \<Rightarrow> gval option" and ref
  assume none: "get ref = None" and all: "\<And>q. dotted_prefix q ref \<Longrightarrow> get q = None"
  have "lookup_from get ref (last_dot (take (length ref) ref)) = None"
    by (rule lookup_from_none) (rule all, rule dotted_prefix_root_at)
  with none show "lookup_path ref get = None" by (simp add: lookup_path_def)
qed

section \<open>The output view\<close>

text \<open>
  \<open>NewOutputView\<close> copies the committed outputs of every node; values are immutable here, so
  the copy holds the same entries. A nil output map is present and empty.
\<close>

definition new_output_view :: "output_store \<Rightarrow> output_store" where
  "new_output_view outputs = (\<lambda>nodeID. map_option (maps_copy Map.empty) (outputs nodeID))"

definition has_node :: "output_store \<Rightarrow> string \<Rightarrow> bool" where
  "has_node view nodeID = (view nodeID \<noteq> None)"

definition view_get :: "output_store \<Rightarrow> string \<Rightarrow> string \<Rightarrow> gval option" where
  "view_get view nodeID outputKey =
     (case view nodeID of None \<Rightarrow> None | Some nodeOutputs \<Rightarrow> nodeOutputs outputKey)"

definition view_node :: "output_store \<Rightarrow> string \<Rightarrow> outputs" where
  "view_node view nodeID =
     (case view nodeID of None \<Rightarrow> Map.empty | Some nodeOutputs \<Rightarrow> maps_copy Map.empty nodeOutputs)"

lemma maps_copy_empty [simp]: "maps_copy Map.empty m = m"
  by (simp add: maps_copy_def)

lemma new_output_view_eq [simp]: "new_output_view s = s"
  by (rule ext) (simp add: new_output_view_def map_option_case split: option.splits)

text \<open>The contract of \<open>spi.OutputView\<close>.\<close>

locale output_view =
  fixes has :: "'v \<Rightarrow> string \<Rightarrow> bool"
    and get :: "'v \<Rightarrow> string \<Rightarrow> string \<Rightarrow> gval option"
    and node :: "'v \<Rightarrow> string \<Rightarrow> outputs"
  assumes get_has: "get v n k = Some x \<Longrightarrow> has v n"
    and node_get: "node v n k = get v n k"
begin

lemma get_absent: "\<not> has v n \<Longrightarrow> get v n k = None"
  using get_has [of v n k] by (cases "get v n k") auto

lemma node_absent: "\<not> has v n \<Longrightarrow> node v n = Map.empty"
  by (rule ext) (simp add: node_get get_absent)

end

interpretation snapshot: output_view has_node view_get view_node
  by unfold_locales
    (auto simp: has_node_def view_get_def view_node_def split: option.splits)

section \<open>Reading a reference\<close>

text \<open>\<open>parseDataRef\<close>: its error branch needs a split of neither one nor two parts.\<close>

definition parse_data_ref :: "string \<Rightarrow> string + string \<times> string" where
  "parse_data_ref ref =
     (case split_n2 ref of
        [a, b] \<Rightarrow> Inr (a, b)
      | [a] \<Rightarrow> Inr ([], a)
      | _ \<Rightarrow> Inl (''invalid reference format, expected '' @ squote ''nodeId.outputKey'' @ '' or ''
                 @ squote ''variableName'' @ '', got '' @ squote ref))"

function has_flow_input_root :: "string \<Rightarrow> (string \<Rightarrow> bool) \<Rightarrow> bool" where
  "has_flow_input_root candidate isFlowInput =
     (if isFlowInput candidate then True
      else (case last_dot candidate of
              None \<Rightarrow> False
            | Some e \<Rightarrow> if e = 0 then False else has_flow_input_root (take e candidate) isFlowInput))"
  by pat_completeness auto
termination
  by (relation "measure (\<lambda>(candidate, f). length candidate)") (auto dest: last_dot_Some(1))

declare has_flow_input_root.simps [simp del]

definition resolve_data_ref :: "string \<Rightarrow> output_store \<Rightarrow> string + string \<times> string" where
  "resolve_data_ref ref view =
     (case parse_data_ref ref of
        Inl err \<Rightarrow> Inl err
      | Inr (sourceNodeID, outputKey) \<Rightarrow>
          if sourceNodeID = [] \<or> has_node view sourceNodeID then Inr (sourceNodeID, outputKey)
          else if has_flow_input_root ref (\<lambda>key. view_get view [] key \<noteq> None) then Inr ([], ref)
          else Inr (sourceNodeID, outputKey))"

definition lookup_output :: "output_store \<Rightarrow> string \<Rightarrow> string \<Rightarrow> gval option" where
  "lookup_output view nodeID outputKey = lookup_path outputKey (view_get view nodeID)"

lemma has_flow_input_root_iff:
  "has_flow_input_root c isInput \<longleftrightarrow> isInput c \<or> (\<exists>p. dotted_prefix p c \<and> isInput p)"
proof (induction c isInput rule: has_flow_input_root.induct)
  case (1 c isInput)
  then show ?case
    by (subst has_flow_input_root.simps) (auto simp: dotted_prefix_cases [of _ c] split: option.splits)
qed

lemma parse_data_ref_total: "\<exists>n k. parse_data_ref ref = Inr (n, k)"
  by (simp add: parse_data_ref_def split_n2_def)

lemma resolve_data_ref_total: "\<exists>n k. resolve_data_ref ref view = Inr (n, k)"
  using parse_data_ref_total [of ref] by (auto simp: resolve_data_ref_def)

lemma resolve_data_ref_source:
  assumes "resolve_data_ref ref view = Inr (n, k)" and "n \<noteq> []"
  shows "parse_data_ref ref = Inr (n, k)"
  using assms by (auto simp: resolve_data_ref_def split: sum.splits if_splits)

section \<open>Properties\<close>

text \<open>
  How a dotted reference is read: a key with the reference's own name wins; otherwise the
  longest dotted prefix that is known decides, the rest of the reference walks into its value,
  and a shorter known prefix is never tried even when that walk finds nothing.
\<close>

theorem lookup_path_longest_prefix:
  assumes "get ref = None" and "ref = p @ dot # rest" and "p \<noteq> []" and "get p = Some v"
    and "\<And>q r. ref = q @ dot # r \<Longrightarrow> length p < length q \<Longrightarrow> get q = None"
  shows "lookup_path ref get = walk_path v (split_at dot rest)"
proof -
  have "dotted_prefix p ref" using assms(2,3) by (auto simp: dotted_prefix_def)
  moreover have "get q = None" if "dotted_prefix q ref" "length p < length q" for q
    using assms(5) that by (auto simp: dotted_prefix_def)
  moreover have "drop (Suc (length p)) ref = rest" using assms(2) by simp
  ultimately show ?thesis using refs.longest [OF assms(1) _ assms(4)] by simp
qed

theorem lookup_path_longest_prefix_witness:
  "lookup_path ''a.b.c'' [''a'' \<mapsto> GInt 1, ''a.b'' \<mapsto> GMap [(''c'', GBool True)]] = Some (GBool True)"
proof -
  let ?get = "[''a'' \<mapsto> GInt 1, ''a.b'' \<mapsto> GMap [(''c'', GBool True)]]"
  have "?get q = None" if "''a.b.c'' = q @ dot # r" "length ''a.b'' < length q" for q r
  proof -
    have "length q + Suc (length r) = 5" using arg_cong [OF that(1), of length] by simp
    then have "r = []" "length q = 4" using that(2) by (cases r; simp)+
    with that(1) show ?thesis by auto
  qed
  then have "lookup_path ''a.b.c'' ?get = walk_path (GMap [(''c'', GBool True)]) (split_at dot ''c'')"
    by (intro lookup_path_longest_prefix [of ?get _ "''a.b''"]) simp_all
  also have "\<dots> = Some (GBool True)" by code_simp
  finally show ?thesis .
qed

end
