(* ===== verification/Spi.thy ===== *)
theory Spi
  imports Values
begin

text \<open>
  The contract types of \<open>pkg/spi\<close>: errors and how a \<open>UserError\<close> is found in a chain, node
  kinds and run phases, the common part of a node's execution result with its \<open>Fail\<close> and
  \<open>MergeOutputs\<close>, and the trace context the runner copies onto its control-plane calls.
\<close>

section \<open>Errors\<close>

text \<open>
  A Go error value as the runner builds it: plain text, text wrapping a cause with \<open>%w\<close>, a
  \<open>UserError\<close>, the two context errors, and the engine's \<open>missingInputsError\<close>.
\<close>

datatype go_error =
    PlainError string
  | WrapError string go_error
  | UserError string string "go_error option"
  | MissingInputsError go_error
  | ContextCanceled
  | ContextDeadlineExceeded

fun error_text :: "go_error \<Rightarrow> string" where
  "error_text (PlainError msg) = msg"
| "error_text (WrapError msg cause) = msg"
| "error_text (UserError code msg (Some cause)) =
     (if msg \<noteq> [] then msg @ '': '' @ error_text cause else error_text cause)"
| "error_text (UserError code msg None) = (if msg \<noteq> [] then msg else code)"
| "error_text (MissingInputsError e) = error_text e"
| "error_text ContextCanceled = ''context canceled''"
| "error_text ContextDeadlineExceeded = ''context deadline exceeded''"

text \<open>\<open>errors.Unwrap\<close>.\<close>

fun unwrap :: "go_error \<Rightarrow> go_error option" where
  "unwrap (WrapError msg cause) = Some cause"
| "unwrap (UserError code msg cause) = cause"
| "unwrap (MissingInputsError e) = Some e"
| "unwrap _ = None"

text \<open>\<open>AsUserError\<close>: the first \<open>UserError\<close> of the chain, as its code and message.\<close>

fun as_user_error :: "go_error \<Rightarrow> (string \<times> string) option" where
  "as_user_error (UserError code msg cause) = Some (code, msg)"
| "as_user_error (WrapError msg cause) = as_user_error cause"
| "as_user_error (MissingInputsError e) = as_user_error e"
| "as_user_error _ = None"

definition safe_error_message :: "go_error option \<Rightarrow> string" where
  "safe_error_message err =
     (case err of
        None \<Rightarrow> []
      | Some e \<Rightarrow> (case as_user_error e of Some (code, msg) \<Rightarrow> msg | None \<Rightarrow> error_text e))"

definition error_code :: "go_error \<Rightarrow> string" where
  "error_code e = (case as_user_error e of Some (code, msg) \<Rightarrow> code | None \<Rightarrow> [])"

lemma as_user_error_unwrap:
  "as_user_error e = (case e of UserError code msg cause \<Rightarrow> Some (code, msg)
     | _ \<Rightarrow> (case unwrap e of None \<Rightarrow> None | Some c \<Rightarrow> as_user_error c))"
  by (cases e) auto

section \<open>Kinds and phases\<close>

datatype kind =
    KindRequest | KindDelay | KindModule | KindSetVariable | KindLoop | KindPoll
  | KindAssert | KindBranch | KindSse | KindWebhookWait

abbreviation run_when_on_success :: string where "run_when_on_success \<equiv> ''on_success''"
abbreviation run_when_always :: string where "run_when_always \<equiv> ''always''"

section \<open>Node results\<close>

text \<open>
  \<open>BaseExecutionResult\<close> without its timestamps. \<open>r_routed\<close> is present exactly for the results
  that implement \<open>RoutingResult\<close>.
\<close>

record exec_result =
  r_node_id :: string
  r_display_name :: string
  r_node_type :: kind
  r_run_when :: string
  r_inputs :: outputs
  r_outputs :: outputs
  r_error :: "go_error option"
  r_error_code :: "string option"
  r_error_msg :: "string option"
  r_skip_reason :: "string option"
  r_missing_inputs :: "string list"
  r_routed :: "string list option"

text \<open>\<open>Fail\<close>: a nil error is ignored; a \<open>UserError\<close> brings its own message and code.\<close>

definition fail_result :: "go_error option \<Rightarrow> string \<Rightarrow> ('a exec_result_scheme) \<Rightarrow> ('a exec_result_scheme)" where
  "fail_result err code r =
     (case err of
        None \<Rightarrow> r
      | Some e \<Rightarrow>
          (case as_user_error e of
             Some (ucode, umsg) \<Rightarrow>
               r\<lparr>r_error := Some e, r_error_msg := Some umsg, r_error_code := Some ucode\<rparr>
           | None \<Rightarrow>
               r\<lparr>r_error := Some e, r_error_msg := Some (error_text e), r_error_code := Some code\<rparr>))"

definition merge_outputs :: "outputs \<Rightarrow> ('a exec_result_scheme) \<Rightarrow> ('a exec_result_scheme)" where
  "merge_outputs outs r = r\<lparr>r_outputs := maps_copy (r_outputs r) outs\<rparr>"

section \<open>Trace context\<close>

record trace_context =
  traceparent :: string
  tracestate :: string

definition lower_hex :: "char \<Rightarrow> bool" where
  "lower_hex c \<longleftrightarrow> (let n = of_char c :: nat in (48 \<le> n \<and> n \<le> 57) \<or> (97 \<le> n \<and> n \<le> 102))"

text \<open>The anchored pattern \<open>hh-h{32}-h{16}-hh\<close> of lower-case hexadecimal digits.\<close>

definition traceparent_matches :: "string \<Rightarrow> bool" where
  "traceparent_matches s \<longleftrightarrow>
     (case split_at CHR ''-'' s of
        [a, b, c, d] \<Rightarrow>
          length a = 2 \<and> length b = 32 \<and> length c = 16 \<and> length d = 2 \<and>
          list_all lower_hex (a @ b @ c @ d)
      | _ \<Rightarrow> False)"

definition valid_tracestate :: "string \<Rightarrow> bool" where
  "valid_tracestate value \<longleftrightarrow>
     length value \<le> 512 \<and>
     list_all (\<lambda>c. 32 \<le> (of_char c :: nat) \<and> (of_char c :: nat) \<le> 126) value"

definition sanitized :: "trace_context \<Rightarrow> trace_context" where
  "sanitized t =
     (if \<not> traceparent_matches (traceparent t) then \<lparr>traceparent = [], tracestate = []\<rparr>
      else if \<not> valid_tracestate (tracestate t) then t\<lparr>tracestate := []\<rparr>
      else t)"

definition set_headers :: "trace_context \<Rightarrow> (string \<rightharpoonup> string) \<Rightarrow> (string \<rightharpoonup> string)" where
  "set_headers t header =
     (let clean = sanitized t in
      if traceparent clean = [] then header
      else
        (let header = header(''Traceparent'' \<mapsto> traceparent clean) in
         if tracestate clean \<noteq> [] then header(''Tracestate'' \<mapsto> tracestate clean) else header))"

definition sendable :: "string \<Rightarrow> bool" where
  "sendable s \<longleftrightarrow> list_all (\<lambda>c. 32 \<le> (of_char c :: nat) \<and> (of_char c :: nat) \<le> 126) s"

lemma traceparent_matches_sendable:
  assumes "traceparent_matches s"
  shows "sendable s"
proof -
  obtain a b c d where sp: "split_at CHR ''-'' s = [a, b, c, d]"
    and hex: "list_all lower_hex (a @ b @ c @ d)"
    using assms by (auto simp: traceparent_matches_def split: list.splits)
  have "s = join_with ''-'' [a, b, c, d]" using join_split [of "CHR ''-''" s] sp by simp
  then have "set s \<subseteq> {CHR ''-''} \<union> set (a @ b @ c @ d)" by auto
  moreover have "\<forall>x \<in> set (a @ b @ c @ d). 32 \<le> (of_char x :: nat) \<and> (of_char x :: nat) \<le> 126"
    using hex unfolding list_all_iff lower_hex_def Let_def by force
  moreover have "(of_char (CHR ''-'') :: nat) = 45" by simp
  ultimately show ?thesis by (auto simp: sendable_def list_all_iff)
qed

lemma sanitized_idem: "sanitized (sanitized t) = sanitized t"
  by (simp add: sanitized_def valid_tracestate_def)

lemma sanitized_sendable: "sendable (traceparent (sanitized t)) \<and> sendable (tracestate (sanitized t))"
  by (auto simp: sanitized_def traceparent_matches_sendable valid_tracestate_def)
    (simp_all add: sendable_def)

section \<open>Properties\<close>

text \<open>
  No header injection through a claimed job's trace context: whatever the control plane
  sent, each header the runner adds is one of the two trace headers and consists of printable
  ASCII, so it cannot end a header line; the other headers are left alone.
\<close>

theorem set_headers_safe:
  assumes "set_headers t header k = Some v" and "header k \<noteq> Some v"
  shows "sendable v \<and> v \<noteq> [] \<and> (k = ''Traceparent'' \<or> k = ''Tracestate'')"
  using assms sanitized_sendable [of t]
  by (auto simp: set_headers_def Let_def split: if_splits)

theorem set_headers_safe_witness:
  "sendable ''00-0123456789abcdef0123456789abcdef-0123456789abcdef-01''"
  using set_headers_safe [of "\<lparr>traceparent = ''00-0123456789abcdef0123456789abcdef-0123456789abcdef-01'',
      tracestate = []\<rparr>" Map.empty "''Traceparent''"]
  by (rule conjunct1) code_simp+

end
