(* ===== verification/Graph.thy ===== *)
theory Graph
  imports Refs Spi
begin

text \<open>
  Flows and the engine's graph of them: \<open>pkg/flow/flow.go\<close>, \<open>pkg/edge/edge.go\<close> and
  \<open>NewFlowEngine\<close> of \<open>pkg/engine/engine.go\<close>. The engine keys its maps by node pointer; a
  pointer is modelled by the node's position in \<open>flow.Nodes\<close>, so two nodes that share an ID
  stay apart, as in the code. The section ends with the well-formedness of the graph that
  \<open>NewFlowEngine\<close> builds, and with what an acyclic graph gives.
\<close>

section \<open>Flows\<close>

record flow_node =
  n_id :: string
  n_display_name :: string
  n_type :: kind
  n_run_when :: string
  n_input_schema :: "string list"
  n_output_schema :: "string list"

text \<open>\<open>GetRunWhen\<close>: an empty phase is the success phase; any other text is returned as it is.\<close>

definition get_run_when :: "flow_node \<Rightarrow> string" where
  "get_run_when n = (if n_run_when n = [] then run_when_on_success else n_run_when n)"

datatype edge_type = TypeDefault | TypeSuccess | TypeFailure | TypeOther string

record flow_edge =
  e_id :: string
  e_source :: string
  e_target :: string
  e_type :: edge_type

record flow =
  f_name :: string
  f_description :: string
  f_version :: string
  f_nodes :: "flow_node list"
  f_edges :: "flow_edge list"
  f_initial_inputs :: outputs

section \<open>The engine's graph\<close>

record engine =
  eng_name :: string
  eng_nodes :: "flow_node list"
  edge_output :: "nat \<Rightarrow> nat list"
  edge_source :: "nat \<Rightarrow> nat list"
  edge_input :: "nat \<rightharpoonup> int"
  node_map :: "string \<rightharpoonup> nat"

fun register_nodes :: "nat \<Rightarrow> flow_node list \<Rightarrow> engine \<Rightarrow> engine" where
  "register_nodes i [] e = e"
| "register_nodes i (n # ns) e =
     register_nodes (Suc i) ns
       (e\<lparr>node_map := (node_map e)(n_id n \<mapsto> i),
          edge_input := (edge_input e)(i \<mapsto> 0),
          edge_output := (edge_output e)(i := []),
          edge_source := (edge_source e)(i := [])\<rparr>)"

definition add_edge :: "nat \<Rightarrow> nat \<Rightarrow> engine \<Rightarrow> engine" where
  "add_edge s t e =
     e\<lparr>edge_output := (edge_output e)(s := edge_output e s @ [t]),
       edge_source := (edge_source e)(t := edge_source e t @ [s]),
       edge_input := (edge_input e)(t \<mapsto> (case edge_input e t of None \<Rightarrow> 1 | Some c \<Rightarrow> c + 1))\<rparr>"

fun register_edges :: "flow_edge list \<Rightarrow> engine \<Rightarrow> go_error + engine" where
  "register_edges [] e = Inr e"
| "register_edges (ed # eds) e =
     (case node_map e (e_source ed) of
        None \<Rightarrow> Inl (PlainError (''source node '' @ e_source ed @ '' not found in edge to node '' @ e_target ed))
      | Some s \<Rightarrow>
          (case node_map e (e_target ed) of
             None \<Rightarrow> Inl (PlainError (''target node '' @ e_target ed @ '' not found in edge to node '' @ e_source ed))
           | Some t \<Rightarrow> register_edges eds (add_edge s t e)))"

definition new_flow_engine :: "flow \<Rightarrow> go_error + engine" where
  "new_flow_engine fl =
     register_edges (f_edges fl)
       (register_nodes 0 (f_nodes fl)
          \<lparr>eng_name = f_name fl, eng_nodes = f_nodes fl, edge_output = (\<lambda>_. []),
           edge_source = (\<lambda>_. []), edge_input = Map.empty, node_map = Map.empty\<rparr>)"

definition node_at :: "engine \<Rightarrow> nat \<Rightarrow> flow_node" where
  "node_at e i = eng_nodes e ! i"

abbreviation node_id :: "engine \<Rightarrow> nat \<Rightarrow> string" where
  "node_id e i \<equiv> n_id (node_at e i)"

abbreviation num_nodes :: "engine \<Rightarrow> nat" where
  "num_nodes e \<equiv> length (eng_nodes e)"

abbreviation run_phase :: "engine \<Rightarrow> nat \<Rightarrow> string" where
  "run_phase e i \<equiv> get_run_when (node_at e i)"

text \<open>\<open>nodeDisplayName\<close>.\<close>

definition node_display_name :: "engine \<Rightarrow> string \<Rightarrow> string" where
  "node_display_name e nodeID =
     (case node_map e nodeID of
        Some i \<Rightarrow> if n_display_name (node_at e i) \<noteq> [] then n_display_name (node_at e i) else nodeID
      | None \<Rightarrow> nodeID)"

section \<open>Well-formedness\<close>

definition wf_engine :: "engine \<Rightarrow> bool" where
  "wf_engine e \<longleftrightarrow>
     (\<forall>i j. count_list (edge_output e i) j = count_list (edge_source e j) i) \<and>
     (\<forall>i j. j \<in> set (edge_output e i) \<longrightarrow> i < num_nodes e \<and> j < num_nodes e) \<and>
     (\<forall>i. edge_input e i =
        (if i < num_nodes e then Some (int (length (edge_source e i))) else None)) \<and>
     (\<forall>nodeID i. node_map e nodeID = Some i \<longrightarrow> i < num_nodes e \<and> node_id e i = nodeID)"

definition edge_rel :: "engine \<Rightarrow> (nat \<times> nat) set" where
  "edge_rel e = {(i, j). j \<in> set (edge_output e i)}"

text \<open>No two nodes share an ID.\<close>

definition distinct_ids :: "engine \<Rightarrow> bool" where
  "distinct_ids e \<longleftrightarrow> distinct (map n_id (eng_nodes e))"

text \<open>Every node runs in one of the two phases the scheduler knows.\<close>

definition known_phases :: "engine \<Rightarrow> bool" where
  "known_phases e \<longleftrightarrow>
     list_all (\<lambda>n. get_run_when n \<in> {run_when_on_success, run_when_always}) (eng_nodes e)"

lemma register_nodes_fields [simp]:
  "eng_nodes (register_nodes i ns e) = eng_nodes e"
  by (induction i ns e rule: register_nodes.induct) auto

lemma register_nodes_edges:
  "(\<forall>k. edge_output e k = []) \<and> (\<forall>k. edge_source e k = []) \<Longrightarrow>
   edge_output (register_nodes i ns e) k = [] \<and> edge_source (register_nodes i ns e) k = []"
  by (induction i ns e rule: register_nodes.induct) auto

lemma register_nodes_input:
  "edge_input (register_nodes i ns e) k =
     (if i \<le> k \<and> k < i + length ns then Some 0 else edge_input e k)"
  by (induction i ns e rule: register_nodes.induct) auto

lemma register_nodes_map:
  "node_map (register_nodes i ns e) nodeID = Some k \<Longrightarrow>
   (i \<le> k \<and> k < i + length ns \<and> n_id (ns ! (k - i)) = nodeID) \<or> node_map e nodeID = Some k"
proof (induction i ns e rule: register_nodes.induct)
  case (1 i e)
  then show ?case by simp
next
  case (2 i n ns e)
  let ?e = "e\<lparr>node_map := (node_map e)(n_id n \<mapsto> i), edge_input := (edge_input e)(i \<mapsto> 0),
              edge_output := (edge_output e)(i := []), edge_source := (edge_source e)(i := [])\<rparr>"
  from "2.prems" have "node_map (register_nodes (Suc i) ns ?e) nodeID = Some k" by simp
  then consider (inner) "Suc i \<le> k" "k < Suc i + length ns" "n_id (ns ! (k - Suc i)) = nodeID"
    | (outer) "node_map ?e nodeID = Some k"
    using "2.IH" by blast
  then show ?case
  proof cases
    case inner
    then have "k - i = Suc (k - Suc i)" by simp
    with inner show ?thesis by simp
  next
    case outer
    then show ?thesis by (auto split: if_splits)
  qed
qed

lemma wf_add_edge:
  assumes wf: "wf_engine e" and s: "s < num_nodes e" and t: "t < num_nodes e"
  shows "wf_engine (add_edge s t e)"
proof -
  have n: "eng_nodes (add_edge s t e) = eng_nodes e" "node_map (add_edge s t e) = node_map e"
    by (simp_all add: add_edge_def)
  have "count_list (edge_output (add_edge s t e) i) j = count_list (edge_source (add_edge s t e) j) i"
    for i j using wf by (auto simp: wf_engine_def add_edge_def)
  moreover have "j \<in> set (edge_output (add_edge s t e) i) \<Longrightarrow> i < num_nodes e \<and> j < num_nodes e"
    for i j using wf s t by (auto simp: wf_engine_def add_edge_def split: if_splits)
  moreover have "edge_input (add_edge s t e) i =
      (if i < num_nodes e then Some (int (length (edge_source (add_edge s t e) i))) else None)"
    for i using wf t by (simp add: wf_engine_def add_edge_def)
  ultimately show ?thesis using wf unfolding wf_engine_def node_at_def n by blast
qed

lemma register_edges_wf:
  "register_edges eds e = Inr e' \<Longrightarrow> wf_engine e \<Longrightarrow>
   wf_engine e' \<and> eng_nodes e' = eng_nodes e \<and> node_map e' = node_map e"
proof (induction eds e rule: register_edges.induct)
  case (1 e)
  then show ?case by simp
next
  case (2 ed eds e)
  from "2.prems"(1) obtain s t where st: "node_map e (e_source ed) = Some s"
      "node_map e (e_target ed) = Some t" "register_edges eds (add_edge s t e) = Inr e'"
    by (auto split: option.splits)
  with "2.prems"(2) have "s < num_nodes e" "t < num_nodes e" by (auto simp: wf_engine_def)
  with "2.prems"(2) have "wf_engine (add_edge s t e)" by (rule wf_add_edge)
  with "2.IH" st show ?case by (simp add: add_edge_def)
qed

lemma new_flow_engine_wf_nodes:
  assumes "new_flow_engine fl = Inr e"
  shows "wf_engine e \<and> eng_nodes e = f_nodes fl"
proof -
  let ?e0 = "\<lparr>eng_name = f_name fl, eng_nodes = f_nodes fl, edge_output = (\<lambda>_. []),
           edge_source = (\<lambda>_. []), edge_input = Map.empty, node_map = Map.empty\<rparr>"
  let ?e1 = "register_nodes 0 (f_nodes fl) ?e0"
  have "wf_engine ?e1"
    using register_nodes_map [of 0 "f_nodes fl" ?e0]
    by (auto simp: wf_engine_def register_nodes_edges register_nodes_input node_at_def)
  with assms show ?thesis by (auto simp: new_flow_engine_def dest: register_edges_wf)
qed

section \<open>Facts on well-formed graphs\<close>

lemma wf_source_iff: "wf_engine e \<Longrightarrow> i \<in> set (edge_source e j) \<longleftrightarrow> j \<in> set (edge_output e i)"
  by (metis count_list_0_iff wf_engine_def)

lemma wf_source_bound:
  "wf_engine e \<Longrightarrow> i \<in> set (edge_source e j) \<Longrightarrow> i < num_nodes e \<and> j < num_nodes e"
  using wf_source_iff [of e i j] unfolding wf_engine_def by blast

lemma wf_count: "wf_engine e \<Longrightarrow> count_list (edge_output e i) j = count_list (edge_source e j) i"
  unfolding wf_engine_def by blast

lemma wf_input:
  "wf_engine e \<Longrightarrow> edge_input e i = (if i < num_nodes e then Some (int (length (edge_source e i))) else None)"
  unfolding wf_engine_def by blast

lemma distinct_ids_inj:
  "distinct_ids e \<Longrightarrow> i < num_nodes e \<Longrightarrow> j < num_nodes e \<Longrightarrow> node_id e i = node_id e j \<Longrightarrow> i = j"
  using nth_eq_iff_index_eq [of "map n_id (eng_nodes e)" i j]
  by (simp add: distinct_ids_def node_at_def)

lemma known_phasesD:
  "known_phases e \<Longrightarrow> i < num_nodes e \<Longrightarrow>
   run_phase e i = run_when_on_success \<or> run_phase e i = run_when_always"
  by (auto simp: known_phases_def list_all_iff node_at_def)

lemma edge_rel_bound: "wf_engine e \<Longrightarrow> edge_rel e \<subseteq> {..<num_nodes e} \<times> {..<num_nodes e}"
  unfolding edge_rel_def wf_engine_def by blast

text \<open>In an acyclic graph every nonempty set of nodes has a member without predecessor in it.\<close>

lemma acyclic_minimal:
  assumes wf: "wf_engine e" and ac: "acyclic (edge_rel e)" and i: "i \<in> A"
  obtains m where "m \<in> A" and "\<And>p. p \<in> set (edge_source e m) \<Longrightarrow> p \<notin> A"
proof -
  have "finite (edge_rel e)" using edge_rel_bound [OF wf] by (rule finite_subset) auto
  then have "wf (edge_rel e)" using ac by (rule finite_acyclic_wf)
  then obtain m where "m \<in> A" "\<And>p. (p, m) \<in> edge_rel e \<Longrightarrow> p \<notin> A"
    using i by (metis wfE_min)
  with that show thesis using wf_source_iff [OF wf] by (fastforce simp: edge_rel_def)
qed

text \<open>A rank that every edge raises shows a graph acyclic; it is how concrete graphs are checked.\<close>

lemma rank_acyclic:
  assumes "\<And>i j. j \<in> set (edge_output e i) \<Longrightarrow> (r :: nat \<Rightarrow> nat) i < r j"
  shows "acyclic (edge_rel e)"
proof -
  have "edge_rel e \<subseteq> measure r" using assms by (auto simp: edge_rel_def)
  then show ?thesis by (meson acyclic_subset wf_acyclic wf_measure)
qed

text \<open>The check by which a concrete flow is shown sound: its edges go forward in flow order.\<close>

definition forward_edges :: "engine \<Rightarrow> bool" where
  "forward_edges e \<longleftrightarrow>
     list_all (\<lambda>i. list_all (\<lambda>j. i < j) (edge_output e i)) [0..<num_nodes e]"

lemma forward_acyclic: "wf_engine e \<Longrightarrow> forward_edges e \<Longrightarrow> acyclic (edge_rel e)"
proof -
  assume wf: "wf_engine e" and f: "forward_edges e"
  have "i < j" if "j \<in> set (edge_output e i)" for i j
  proof -
    have "i < num_nodes e" using wf that unfolding wf_engine_def by blast
    with f that show "i < j" by (simp add: forward_edges_def list_all_iff)
  qed
  then show ?thesis by (rule rank_acyclic)
qed

end
