(* ===== verification/Skips.thy ===== *)
theory Skips
  imports Graph
begin

text \<open>
  The engine's execution state and everything that reads it to decide whether a node runs:
  input validation and assembly (\<open>pkg/engine/engine.go\<close>), the skip conditions of
  \<open>pkg/engine/execution.go\<close> (upstream failure, fully dead, inputs of a skipped node, routed
  away) and the classification of a skip (\<open>pkg/engine/skipped.go\<close>).
\<close>

section \<open>The execution state\<close>

text \<open>What the observer is told, in order. \<open>ensureSynchronizedObserver\<close> serialises the calls.\<close>

datatype obs_event =
    NodeStarted string string kind
  | NodeFinished string string kind "exec_result option"

text \<open>
  \<open>executionState\<close> with the fields of \<open>FlowExecutionResult\<close> it writes (\<open>exec_results\<close>,
  \<open>final_outputs\<close>, \<open>res_error\<close>, \<open>res_success\<close>) and the observer's calls. A Go map to \<open>bool\<close> that
  only ever stores \<open>true\<close> is a set; the two-level \<open>deadEdges\<close> map is a set of pairs.
\<close>

record exec_state =
  all_outputs :: output_store
  remaining :: "nat \<rightharpoonup> int"
  executed_count :: int
  exec_results :: "string \<rightharpoonup> exec_result option"
  final_outputs :: outputs
  res_error :: "go_error option"
  res_success :: bool
  failed_nodes :: "string set"
  skipped_nodes :: "string set"
  failure_cause :: "string \<rightharpoonup> string"
  dead_edges :: "(string \<times> string) set"
  routed_away :: "string set"
  observed :: "obs_event list"

section \<open>Inputs of a node\<close>

fun first_input_error :: "string \<Rightarrow> output_store \<Rightarrow> string list \<Rightarrow> string option" where
  "first_input_error nodeID view [] = None"
| "first_input_error nodeID view (inputKey # keys) =
     (case resolve_data_ref inputKey view of
        Inl err \<Rightarrow> Some (''node '' @ nodeID @ '': invalid input reference '' @ squote inputKey @ '': '' @ err)
      | Inr (sourceNodeID, outputKey) \<Rightarrow>
          if \<not> has_node view sourceNodeID then
            Some (''node '' @ nodeID @ '': source node '' @ squote sourceNodeID @
                  '' not executed yet (required for input '' @ squote inputKey @ '')'')
          else (case lookup_output view sourceNodeID outputKey of
                  None \<Rightarrow> Some (''node '' @ nodeID @ '': output '' @ squote outputKey @
                                '' not found in source node '' @ squote sourceNodeID)
                | Some v \<Rightarrow> first_input_error nodeID view keys))"

definition validate_inputs :: "engine \<Rightarrow> nat \<Rightarrow> output_store \<Rightarrow> go_error option" where
  "validate_inputs e i view =
     map_option PlainError (first_input_error (node_id e i) view (n_input_schema (node_at e i)))"

text \<open>\<open>assembleInputs\<close> ignores the errors: an input that does not resolve is stored as nil.\<close>

definition assembled_value :: "output_store \<Rightarrow> string \<Rightarrow> gval" where
  "assembled_value view inputKey =
     (case resolve_data_ref inputKey view of
        Inl err \<Rightarrow> (case lookup_output view [] [] of Some v \<Rightarrow> v | None \<Rightarrow> GNil)
      | Inr (sourceNodeID, outputKey) \<Rightarrow>
          (case lookup_output view sourceNodeID outputKey of Some v \<Rightarrow> v | None \<Rightarrow> GNil))"

definition assemble_inputs :: "engine \<Rightarrow> nat \<Rightarrow> output_store \<Rightarrow> outputs" where
  "assemble_inputs e i view =
     fold (\<lambda>inputKey inputs. inputs(inputKey \<mapsto> assembled_value view inputKey))
       (n_input_schema (node_at e i)) Map.empty"

definition input_missing :: "output_store \<Rightarrow> string \<Rightarrow> bool" where
  "input_missing view inputKey =
     (case resolve_data_ref inputKey view of
        Inl err \<Rightarrow> True
      | Inr (sourceNodeID, outputKey) \<Rightarrow>
          \<not> has_node view sourceNodeID \<or> lookup_output view sourceNodeID outputKey = None)"

definition collect_missing_inputs :: "engine \<Rightarrow> nat \<Rightarrow> output_store \<Rightarrow> string list" where
  "collect_missing_inputs e i view = filter (input_missing view) (n_input_schema (node_at e i))"

section \<open>Skip conditions\<close>

text \<open>\<open>upstreamFailure\<close>: the cause recorded for the first predecessor that has one.\<close>

fun first_cause :: "engine \<Rightarrow> exec_state \<Rightarrow> nat list \<Rightarrow> string option" where
  "first_cause e st [] = None"
| "first_cause e st (p # ps) =
     (case failure_cause st (node_id e p) of Some cause \<Rightarrow> Some cause | None \<Rightarrow> first_cause e st ps)"

definition upstream_failure :: "engine \<Rightarrow> nat \<Rightarrow> exec_state \<Rightarrow> string option" where
  "upstream_failure e i st = first_cause e st (edge_source e i)"

definition is_fully_dead :: "engine \<Rightarrow> nat \<Rightarrow> exec_state \<Rightarrow> bool" where
  "is_fully_dead e i st \<longleftrightarrow>
     edge_source e i \<noteq> [] \<and>
     list_all (\<lambda>p. (node_id e p, node_id e i) \<in> dead_edges st
                 \<or> node_id e p \<in> skipped_nodes st \<or> node_id e p \<in> failed_nodes st)
       (edge_source e i)"

definition inputs_reference_skipped_node :: "engine \<Rightarrow> nat \<Rightarrow> exec_state \<Rightarrow> bool" where
  "inputs_reference_skipped_node e i st =
     list_ex
       (\<lambda>inputKey.
          (case parse_data_ref inputKey of
             Inl err \<Rightarrow> False
           | Inr (sourceNodeID, outputKey) \<Rightarrow>
               sourceNodeID \<noteq> [] \<and> sourceNodeID \<in> skipped_nodes st \<and>
               (case resolve_data_ref inputKey (new_output_view (all_outputs st)) of
                  Inl err \<Rightarrow> False
                | Inr (resolvedNodeID, key) \<Rightarrow> resolvedNodeID \<noteq> [])))
       (n_input_schema (node_at e i))"

definition is_routed_away :: "engine \<Rightarrow> nat \<Rightarrow> exec_state \<Rightarrow> bool" where
  "is_routed_away e i st \<longleftrightarrow>
     edge_source e i \<noteq> [] \<and>
     list_all (\<lambda>p. (node_id e p, node_id e i) \<in> dead_edges st \<or> node_id e p \<in> routed_away st)
       (edge_source e i)"

definition has_remaining_always_predecessor :: "engine \<Rightarrow> nat \<Rightarrow> exec_state \<Rightarrow> bool" where
  "has_remaining_always_predecessor e i st =
     list_ex (\<lambda>p. remaining st p \<noteq> None \<and> run_phase e p = run_when_always) (edge_source e i)"

section \<open>Why a node was skipped\<close>

abbreviation skip_reason_dependency_failed :: string where
  "skip_reason_dependency_failed \<equiv> ''dependency_failed''"
abbreviation skip_reason_dependency_skipped :: string where
  "skip_reason_dependency_skipped \<equiv> ''dependency_skipped''"
abbreviation skip_reason_missing_inputs :: string where
  "skip_reason_missing_inputs \<equiv> ''missing_inputs''"
abbreviation skip_reason_not_reachable :: string where
  "skip_reason_not_reachable \<equiv> ''not_reachable_after_main_phase''"
abbreviation skip_reason_routed_away :: string where
  "skip_reason_routed_away \<equiv> ''routed_away_by_branch''"

text \<open>The scan of \<open>routedAwayBy\<close>; the last argument is the branch found so far.\<close>

fun routed_scan :: "engine \<Rightarrow> string \<Rightarrow> exec_state \<Rightarrow> nat list \<Rightarrow> string \<Rightarrow> string option" where
  "routed_scan e nodeID st [] routedBy = (if routedBy = [] then None else Some routedBy)"
| "routed_scan e nodeID st (p # ps) routedBy =
     (let predID = node_id e p in
      if predID \<in> failed_nodes st then None
      else if (predID, nodeID) \<in> dead_edges st then
        routed_scan e nodeID st ps (if routedBy = [] then node_display_name e predID else routedBy)
      else if predID \<in> skipped_nodes st then routed_scan e nodeID st ps routedBy
      else None)"

definition routed_away_by :: "engine \<Rightarrow> nat \<Rightarrow> exec_state \<Rightarrow> string option" where
  "routed_away_by e i st =
     (if edge_source e i = [] then None
      else routed_scan e (node_id e i) st (edge_source e i) [])"

text \<open>
  The loop over the missing inputs: the failed and the skipped dependency found so far.
  An empty text stands for none, as in the code.
\<close>

fun blame :: "engine \<Rightarrow> exec_state \<Rightarrow> output_store \<Rightarrow> string list \<Rightarrow> string list \<Rightarrow>
    string \<Rightarrow> string \<Rightarrow> string \<times> string" where
  "blame e st view [] seen failedDep skippedDep = (failedDep, skippedDep)"
| "blame e st view (inputRef # refs) seen failedDep skippedDep =
     (case resolve_data_ref inputRef view of
        Inl err \<Rightarrow> blame e st view refs seen failedDep skippedDep
      | Inr (sourceNodeID, key) \<Rightarrow>
          if sourceNodeID = [] \<or> sourceNodeID \<in> set seen
          then blame e st view refs seen failedDep skippedDep
          else
            (let seen = sourceNodeID # seen in
             if failure_cause st sourceNodeID \<noteq> None \<and> failedDep = []
             then blame e st view refs seen (the (failure_cause st sourceNodeID)) skippedDep
             else if sourceNodeID \<in> skipped_nodes st \<and> skippedDep = []
             then blame e st view refs seen failedDep (node_display_name e sourceNodeID)
             else blame e st view refs seen failedDep skippedDep))"

text \<open>A Go map lookup of a string: the empty text when the key is missing.\<close>

definition cause_text :: "exec_state \<Rightarrow> string \<Rightarrow> string" where
  "cause_text st nodeID = (case failure_cause st nodeID of Some c \<Rightarrow> c | None \<Rightarrow> [])"

definition describe_skip_cause :: "engine \<Rightarrow> nat \<Rightarrow> exec_state \<Rightarrow> string \<times> string \<times> string list" where
  "describe_skip_cause e i st =
     (let outputView = new_output_view (all_outputs st);
          missingInputs = sort (collect_missing_inputs e i outputView)
      in case routed_away_by e i st of
           Some branchName \<Rightarrow>
             (skip_reason_routed_away,
              ''Skipped because branch '' @ dquote branchName @
                '' routed execution down a different path'',
              missingInputs)
         | None \<Rightarrow>
             (let (failedDep, skippedDep) = blame e st outputView missingInputs [] [] [] in
              if failedDep \<noteq> [] then
                (skip_reason_dependency_failed,
                 ''Skipped because step '' @ dquote failedDep @ '' failed'', missingInputs)
              else if skippedDep \<noteq> [] then
                (skip_reason_dependency_skipped,
                 ''Skipped because step '' @ dquote skippedDep @ '' was skipped'', missingInputs)
              else if missingInputs \<noteq> [] then
                (skip_reason_missing_inputs,
                 ''Skipped because required inputs were unavailable: ['' @
                   join_with '' '' missingInputs @ '']'', missingInputs)
              else if cause_text st (node_id e i) \<noteq> [] then
                (skip_reason_dependency_failed,
                 ''Skipped because step '' @ dquote (cause_text st (node_id e i)) @ '' failed'',
                 missingInputs)
              else
                (skip_reason_not_reachable,
                 ''Skipped because the node could not be reached after the main phase finished'',
                 missingInputs)))"

text \<open>
  \<open>NewSkippedResult\<close> wraps the base result in the kind's own type; of those, the branch result
  implements \<open>RoutingResult\<close>, with no routed target.
\<close>

definition new_skipped_result :: "kind \<Rightarrow> exec_result \<Rightarrow> exec_result" where
  "new_skipped_result k base = base\<lparr>r_routed := (if k = KindBranch then Some [] else None)\<rparr>"

definition create_skipped_node_result :: "engine \<Rightarrow> nat \<Rightarrow> go_error option \<Rightarrow> exec_state \<Rightarrow> exec_result" where
  "create_skipped_node_result e i validationErr st =
     (let (skipReason, describedMessage, missingInputs) = describe_skip_cause e i st;
          errorMessage =
            (case validationErr of
               Some err \<Rightarrow>
                 if error_text err \<noteq> [] \<and> skipReason = skip_reason_not_reachable
                 then error_text err else describedMessage
             | None \<Rightarrow> describedMessage)
      in new_skipped_result (n_type (node_at e i))
           \<lparr>r_node_id = node_id e i, r_display_name = n_display_name (node_at e i),
            r_node_type = n_type (node_at e i), r_run_when = run_phase e i,
            r_inputs = Map.empty, r_outputs = Map.empty, r_error = None,
            r_error_code = Some ''NODE_SKIPPED'', r_error_msg = Some errorMessage,
            r_skip_reason = Some skipReason, r_missing_inputs = missingInputs, r_routed = None\<rparr>)"

end
