(* ===== verification/Scheduler.thy ===== *)
theory Scheduler
  imports Skips
begin

text \<open>
  The flow scheduler (\<open>pkg/engine/execution.go\<close>). The scheduler loop owns the execution state;
  each started node runs in a goroutine of its own, against the outputs committed when it was
  started, and hands its result back on a channel. The loop's code between two channel
  operations is a function on configurations; a goroutine takes two steps (validation up to
  \<open>NodeStarted\<close>, and the node's run up to the send), and the steps of the loop and of all
  goroutines interleave in any order. What a node's \<open>Execute\<close> returns is arbitrary.
\<close>

section \<open>Recording results\<close>

definition mark_node_complete :: "engine \<Rightarrow> nat \<Rightarrow> exec_state \<Rightarrow> exec_state" where
  "mark_node_complete e i st =
     st\<lparr>remaining := map_del (map_decr_all (remaining st) (edge_output e i)) i\<rparr>"

definition mark_node_failed :: "engine \<Rightarrow> nat \<Rightarrow> exec_state \<Rightarrow> exec_state" where
  "mark_node_failed e i st =
     st\<lparr>failed_nodes := insert (node_id e i) (failed_nodes st),
        failure_cause := (failure_cause st)(node_id e i \<mapsto> node_display_name e (node_id e i))\<rparr>"

definition node_finished :: "engine \<Rightarrow> nat \<Rightarrow> exec_result option \<Rightarrow> obs_event" where
  "node_finished e i res =
     NodeFinished (node_id e i) (n_display_name (node_at e i)) (n_type (node_at e i)) res"

definition record_skipped_node :: "engine \<Rightarrow> nat \<Rightarrow> exec_state \<Rightarrow> exec_state" where
  "record_skipped_node e i st =
     (let result = create_skipped_node_result e i None st;
          st = st\<lparr>exec_results := (exec_results st)(node_id e i \<mapsto> Some result),
                  skipped_nodes := insert (node_id e i) (skipped_nodes st)\<rparr>;
          st = (if is_routed_away e i st
                then st\<lparr>routed_away := insert (node_id e i) (routed_away st)\<rparr> else st);
          st = st\<lparr>observed := observed st @ [node_finished e i (Some result)]\<rparr>
      in mark_node_complete e i st)"

text \<open>\<open>fmt.Sprintf("%s.%s", nodeID, key)\<close> for every key of the outputs, over the final outputs.\<close>

definition flatten_into :: "string \<Rightarrow> outputs \<Rightarrow> outputs \<Rightarrow> outputs" where
  "flatten_into nodeID outs final =
     (\<lambda>flatKey. case strip_prefix (nodeID @ [dot]) flatKey of
                  Some key \<Rightarrow> (case outs key of Some v \<Rightarrow> Some v | None \<Rightarrow> final flatKey)
                | None \<Rightarrow> final flatKey)"

definition propagate_node_outputs :: "engine \<Rightarrow> nat \<Rightarrow> exec_result \<Rightarrow> exec_state \<Rightarrow> exec_state" where
  "propagate_node_outputs e i res st =
     (let copiedOutputs = maps_copy Map.empty (r_outputs res) in
      st\<lparr>all_outputs := (all_outputs st)(node_id e i \<mapsto> copiedOutputs),
         final_outputs := flatten_into (node_id e i) copiedOutputs (final_outputs st)\<rparr>)"

definition record_routing_decision :: "engine \<Rightarrow> nat \<Rightarrow> exec_result option \<Rightarrow> exec_state \<Rightarrow> exec_state" where
  "record_routing_decision e i result st =
     (case result of
        None \<Rightarrow> st
      | Some res \<Rightarrow>
          (case r_routed res of
             None \<Rightarrow> st
           | Some targets \<Rightarrow>
               st\<lparr>dead_edges := dead_edges st \<union>
                   set (map (\<lambda>s. (node_id e i, node_id e s))
                     (filter (\<lambda>s. node_id e s \<notin> set targets) (edge_output e i)))\<rparr>))"

record run_result =
  rr_node :: nat
  rr_result :: "exec_result option"
  rr_err :: "go_error option"

definition keep_first_error :: "go_error \<Rightarrow> exec_state \<Rightarrow> exec_state" where
  "keep_first_error err st = (if res_error st = None then st\<lparr>res_error := Some err\<rparr> else st)"

definition record_on_success_result :: "engine \<Rightarrow> run_result \<Rightarrow> exec_state \<Rightarrow> exec_state" where
  "record_on_success_result e nr st =
     (let st = st\<lparr>exec_results := (exec_results st)(node_id e (rr_node nr) \<mapsto> rr_result nr)\<rparr>;
          st = (case rr_err nr of
                  Some err \<Rightarrow> mark_node_failed e (rr_node nr) (keep_first_error err st)
                | None \<Rightarrow> st\<lparr>executed_count := executed_count st + 1\<rparr>);
          st = (case rr_result nr of
                  Some res \<Rightarrow> propagate_node_outputs e (rr_node nr) res st
                | None \<Rightarrow> st)
      in if rr_err nr = None then record_routing_decision e (rr_node nr) (rr_result nr) st else st)"

definition record_on_success_results :: "engine \<Rightarrow> run_result list \<Rightarrow> exec_state \<Rightarrow> exec_state" where
  "record_on_success_results e completed st =
     fold (\<lambda>nr. mark_node_complete e (rr_node nr)) completed
       (fold (record_on_success_result e) completed st)"

definition record_always_result :: "engine \<Rightarrow> run_result \<Rightarrow> exec_state \<Rightarrow> exec_state" where
  "record_always_result e nr st =
     (let st = st\<lparr>exec_results := (exec_results st)(node_id e (rr_node nr) \<mapsto> rr_result nr)\<rparr>;
          st = (case rr_err nr of
                  None \<Rightarrow> st\<lparr>executed_count := executed_count st + 1\<rparr>
                | Some err \<Rightarrow> mark_node_failed e (rr_node nr) (keep_first_error err st));
          st = (case rr_result nr of
                  None \<Rightarrow> st
                | Some res \<Rightarrow> propagate_node_outputs e (rr_node nr) res st)
      in if rr_err nr = None then record_routing_decision e (rr_node nr) (rr_result nr) st else st)"

definition record_always_results :: "engine \<Rightarrow> run_result list \<Rightarrow> exec_state \<Rightarrow> exec_state" where
  "record_always_results e completed st =
     fold (\<lambda>nr. mark_node_complete e (rr_node nr)) completed
       (fold (record_always_result e) completed st)"

text \<open>\<open>errors.As(err, &missing)\<close>: the first \<open>missingInputsError\<close> of the chain.\<close>

fun as_missing_inputs :: "go_error \<Rightarrow> go_error option" where
  "as_missing_inputs (MissingInputsError err) = Some err"
| "as_missing_inputs (WrapError msg cause) = as_missing_inputs cause"
| "as_missing_inputs (UserError code msg (Some cause)) = as_missing_inputs cause"
| "as_missing_inputs _ = None"

definition settle_always_skip :: "engine \<Rightarrow> run_result \<Rightarrow> exec_state \<Rightarrow> run_result \<times> exec_state" where
  "settle_always_skip e finished st =
     (case Option.bind (rr_err finished) as_missing_inputs of
        None \<Rightarrow> (finished, st)
      | Some err \<Rightarrow>
          (let i = rr_node finished;
               st = st\<lparr>skipped_nodes := insert (node_id e i) (skipped_nodes st)\<rparr>;
               skipped = create_skipped_node_result e i (Some err) st;
               st = st\<lparr>observed := observed st @ [node_finished e i (Some skipped)]\<rparr>
           in (\<lparr>rr_node = i, rr_result = Some skipped, rr_err = None\<rparr>, st)))"

definition pending_nodes :: "engine \<Rightarrow> exec_state \<Rightarrow> nat list" where
  "pending_nodes e st = filter (\<lambda>i. remaining st i \<noteq> None) [0..<num_nodes e]"

definition finalize_execution :: "engine \<Rightarrow> exec_state \<Rightarrow> exec_state" where
  "finalize_execution e st =
     (if res_error st \<noteq> None then st\<lparr>res_success := False\<rparr>
      else if pending_nodes e st \<noteq> [] then
        st\<lparr>res_error := Some (PlainError (''cycle detected or unreachable nodes: '' @
             nat_text (length (pending_nodes e st)) @ '' nodes not executed''))\<rparr>
      else st\<lparr>res_success := True\<rparr>)"

section \<open>The scheduler\<close>

datatype pc = MainLoop | MainWait | AlwaysLoop | AlwaysWait | Finished

record exec_context =
  ec_inputs :: outputs
  ec_flow_inputs :: outputs
  ec_all_outputs :: output_store

record goroutine =
  g_node :: nat
  g_view :: output_store
  g_running :: bool

text \<open>
  A configuration: where the loop is, the scheduler's \<open>inFlight\<close> set and \<open>done\<close> channel, the live
  goroutines and the execution state. \<open>started\<close> and \<open>executed\<close> are history: the nodes given a
  goroutine, and the execution contexts handed to \<open>Execute\<close>.
\<close>

record config =
  pc :: pc
  in_flight :: "nat set"
  gos :: "goroutine list"
  done_ch :: "run_result list"
  xst :: exec_state
  started :: "nat list"
  executed :: "(nat \<times> exec_context) list"

definition ready :: "engine \<Rightarrow> string \<Rightarrow> config \<Rightarrow> nat list" where
  "ready e phase c =
     filter (\<lambda>i. remaining (xst c) i = Some 0 \<and> run_phase e i = phase \<and> i \<notin> in_flight c)
       [0..<num_nodes e]"

definition start :: "nat \<Rightarrow> config \<Rightarrow> config" where
  "start i c =
     c\<lparr>in_flight := insert i (in_flight c),
       gos := gos c @ [\<lparr>g_node = i, g_view = new_output_view (all_outputs (xst c)), g_running = False\<rparr>],
       started := started c @ [i]\<rparr>"

definition skip_node :: "engine \<Rightarrow> nat \<Rightarrow> config \<Rightarrow> config" where
  "skip_node e i c = c\<lparr>xst := record_skipped_node e i (xst c)\<rparr>"

definition set_cause :: "engine \<Rightarrow> nat \<Rightarrow> string \<Rightarrow> config \<Rightarrow> config" where
  "set_cause e i cause c =
     c\<lparr>xst := (xst c)\<lparr>failure_cause := (failure_cause (xst c))(node_id e i \<mapsto> cause)\<rparr>\<rparr>"

text \<open>One pass over the ready nodes; the flag says whether a node was skipped.\<close>

fun start_pass :: "engine \<Rightarrow> nat list \<Rightarrow> config \<Rightarrow> config \<times> bool" where
  "start_pass e [] c = (c, False)"
| "start_pass e (i # is) c =
     (case upstream_failure e i (xst c) of
        Some cause \<Rightarrow> (fst (start_pass e is (skip_node e i (set_cause e i cause c))), True)
      | None \<Rightarrow>
          if is_fully_dead e i (xst c) \<or> inputs_reference_skipped_node e i (xst c)
          then (fst (start_pass e is (skip_node e i c)), True)
          else start_pass e is (start i c))"

text \<open>The nodes whose count is not negative: what every pass that skips makes fewer.\<close>

definition countable_nodes :: "engine \<Rightarrow> config \<Rightarrow> nat" where
  "countable_nodes e c =
     length (filter (\<lambda>i. case remaining (xst c) i of None \<Rightarrow> False | Some n \<Rightarrow> 0 \<le> n)
       [0..<num_nodes e])"

lemma start_remaining [simp]: "remaining (xst (start i c)) = remaining (xst c)"
  by (simp add: start_def)

lemma set_cause_remaining [simp]: "remaining (xst (set_cause e i s c)) = remaining (xst c)"
  by (simp add: set_cause_def)

lemma record_skipped_remaining [simp]:
  "remaining (record_skipped_node e i st) = map_del (map_decr_all (remaining st) (edge_output e i)) i"
  by (simp add: record_skipped_node_def mark_node_complete_def Let_def)

lemma skip_node_remaining [simp]:
  "remaining (xst (skip_node e i c)) = map_del (map_decr_all (remaining (xst c)) (edge_output e i)) i"
  by (simp add: skip_node_def)

lemma map_decr_all_le:
  "map_decr_all m ks k = Some n \<Longrightarrow> 0 \<le> n \<Longrightarrow> \<exists>n'. m k = Some n' \<and> n \<le> n'"
proof (induction ks arbitrary: m)
  case Nil
  then show ?case by simp
next
  case (Cons a ks)
  then obtain n' where n': "map_decr m a k = Some n'" "n \<le> n'" by auto
  with Cons.prems(2) show ?case
    by (cases "a = k") (auto simp: map_decr_def split: option.splits if_splits)
qed

lemma skip_countable:
  "countable_nodes e (skip_node e i c) \<le> countable_nodes e c"
  "remaining (xst c) i = Some 0 \<Longrightarrow> i < num_nodes e \<Longrightarrow>
   countable_nodes e (skip_node e i c) < countable_nodes e c"
proof -
  let ?P = "\<lambda>c i. case remaining (xst c) i of None \<Rightarrow> False | Some n \<Rightarrow> (0::int) \<le> n"
  have mono: "?P (skip_node e i c) j \<Longrightarrow> ?P c j" for j
    by (cases "j = i")
      (auto split: option.splits dest: map_decr_all_le)
  then show "countable_nodes e (skip_node e i c) \<le> countable_nodes e c"
    unfolding countable_nodes_def by (rule length_filter_mono)
  show "remaining (xst c) i = Some 0 \<Longrightarrow> i < num_nodes e \<Longrightarrow>
      countable_nodes e (skip_node e i c) < countable_nodes e c"
    unfolding countable_nodes_def by (rule length_filter_less [of i]) (use mono in \<open>simp_all del: skip_node_remaining, simp\<close>)
qed

lemma start_pass_countable:
  "countable_nodes e (fst (start_pass e is c)) \<le> countable_nodes e c"
proof (induction e "is" c rule: start_pass.induct)
  case (1 e c)
  then show ?case by simp
next
  case (2 e i "is" c)
  have "countable_nodes e (set_cause e i s c) = countable_nodes e c" for s
    by (simp add: countable_nodes_def)
  moreover have "countable_nodes e (start i c) = countable_nodes e c"
    by (simp add: countable_nodes_def)
  ultimately show ?case
    using 2 skip_countable(1) [of e i] by (auto split: option.splits intro: order_trans) (metis order_trans)+
qed

lemma start_pass_skipped_countable:
  "snd (start_pass e is c) \<Longrightarrow> (\<forall>i \<in> set is. remaining (xst c) i = Some 0 \<and> i < num_nodes e) \<Longrightarrow>
   countable_nodes e (fst (start_pass e is c)) < countable_nodes e c"
proof (induction e "is" c rule: start_pass.induct)
  case (1 e c)
  then show ?case by simp
next
  case (2 e i "is" c)
  have cause: "countable_nodes e (set_cause e i s c) = countable_nodes e c" for s
    by (simp add: countable_nodes_def)
  have start: "countable_nodes e (start i c) = countable_nodes e c"
    by (simp add: countable_nodes_def)
  have skip: "countable_nodes e (fst (start_pass e is (skip_node e i d))) < countable_nodes e d"
    if "remaining (xst d) i = Some 0" for d
    using skip_countable(2) [OF that, of e] 2 start_pass_countable [of e "is" "skip_node e i d"] by simp
  show ?case
    using 2 start skip [of c] skip [of "set_cause e i s c" for s] cause
    by (auto split: option.splits if_splits)
qed

text \<open>
  \<open>startReadyOnSuccessNodes\<close>: passes until one skips nothing. A skip takes a node out of the
  counted ones and no step puts one back, so the loop ends in every graph, cyclic ones included.
\<close>

function start_ready_on_success :: "engine \<Rightarrow> config \<Rightarrow> config" where
  "start_ready_on_success e c =
     (let (c', skipped) = start_pass e (ready e run_when_on_success c) c in
      if skipped then start_ready_on_success e c' else c')"
  by pat_completeness auto
termination
proof (relation "measure (\<lambda>(e, c). countable_nodes e c)")
  show "wf (measure (\<lambda>(e, c). countable_nodes e c))" by simp
next
  fix e c x c' skipped
  assume x: "x = start_pass e (ready e run_when_on_success c) c" "(c', skipped) = x" "skipped"
  then have "snd (start_pass e (ready e run_when_on_success c) c)"
    and "c' = fst (start_pass e (ready e run_when_on_success c) c)"
    by (metis snd_conv, metis fst_conv)
  moreover have "\<forall>i \<in> set (ready e run_when_on_success c). remaining (xst c) i = Some 0 \<and> i < num_nodes e"
    by (simp add: ready_def)
  ultimately have "countable_nodes e c' < countable_nodes e c"
    using start_pass_skipped_countable by blast
  then show "((e, c'), (e, c)) \<in> measure (\<lambda>(e, c). countable_nodes e c)" by simp
qed

declare start_ready_on_success.simps [simp del]

fun skip_all :: "engine \<Rightarrow> nat list \<Rightarrow> config \<Rightarrow> config \<times> bool" where
  "skip_all e [] c = (c, False)"
| "skip_all e (i # is) c =
     (if is_routed_away e i (xst c) then (fst (skip_all e is (skip_node e i c)), True)
      else skip_all e is c)"

definition skip_routed_away_always_nodes :: "engine \<Rightarrow> config \<Rightarrow> config \<times> bool" where
  "skip_routed_away_always_nodes e c = skip_all e (ready e run_when_always c) c"

definition start_all :: "nat list \<Rightarrow> config \<Rightarrow> config" where
  "start_all is c = fold start is c"

text \<open>\<open>resolveBlockedAlwaysNodes\<close>: None when it finds nothing to run or to skip.\<close>

definition blocked_always_nodes :: "engine \<Rightarrow> exec_state \<Rightarrow> nat list" where
  "blocked_always_nodes e st =
     filter (\<lambda>i. run_phase e i = run_when_always \<and> remaining st i \<noteq> None \<and>
                 \<not> has_remaining_always_predecessor e i st)
       [0..<num_nodes e]"

definition resolve_blocked_always_nodes :: "engine \<Rightarrow> config \<Rightarrow> config option" where
  "resolve_blocked_always_nodes e c =
     (let st = xst c;
          outputView = new_output_view (all_outputs st);
          runnable = (\<lambda>i. \<not> is_routed_away e i st \<and> collect_missing_inputs e i outputView = []);
          toRun = filter runnable (blocked_always_nodes e st);
          toSkip = filter (\<lambda>i. \<not> runnable i) (blocked_always_nodes e st)
      in if toRun = [] \<and> toSkip = [] then None
         else Some (start_all toRun (fold (skip_node e) toSkip c)))"

text \<open>\<open>newPhaseScheduler\<close>: nothing in flight and a channel of its own.\<close>

definition new_phase_scheduler :: "config \<Rightarrow> config" where
  "new_phase_scheduler c = c\<lparr>in_flight := {}, done_ch := []\<rparr>"

text \<open>\<open>runOnSuccessPhase\<close>, from the top of its loop to its return or its wait.\<close>

definition main_loop_step :: "engine \<Rightarrow> config \<Rightarrow> config" where
  "main_loop_step e c =
     (let c = start_ready_on_success e c in
      if in_flight c = {} then (new_phase_scheduler c)\<lparr>pc := AlwaysLoop\<rparr> else c\<lparr>pc := MainWait\<rparr>)"

text \<open>\<open>runAlwaysPhase\<close>, from the top of its loop to a \<open>continue\<close>, its wait or its return.\<close>

definition always_loop_step :: "engine \<Rightarrow> config \<Rightarrow> config" where
  "always_loop_step e c =
     (let c = start_ready_on_success e c;
          (c, skipped) = skip_routed_away_always_nodes e c
      in if skipped then c\<lparr>pc := AlwaysLoop\<rparr>
         else
           (let c = start_all (ready e run_when_always c) c in
            if in_flight c = {} then
              (case resolve_blocked_always_nodes e c of
                 None \<Rightarrow> c\<lparr>pc := Finished, xst := finalize_execution e (xst c)\<rparr>
               | Some c \<Rightarrow> c\<lparr>pc := AlwaysLoop\<rparr>)
            else c\<lparr>pc := AlwaysWait\<rparr>))"

definition main_receive :: "engine \<Rightarrow> run_result \<Rightarrow> config \<Rightarrow> config" where
  "main_receive e nr c =
     c\<lparr>pc := MainLoop, in_flight := in_flight c - {rr_node nr},
       xst := record_on_success_results e [nr] (xst c)\<rparr>"

definition always_receive :: "engine \<Rightarrow> run_result \<Rightarrow> config \<Rightarrow> config" where
  "always_receive e nr c =
     (let c = c\<lparr>pc := AlwaysLoop, in_flight := in_flight c - {rr_node nr}\<rparr> in
      if run_phase e (rr_node nr) = run_when_on_success
      then c\<lparr>xst := record_on_success_results e [nr] (xst c)\<rparr>
      else (case settle_always_skip e nr (xst c) of
              (settled, st) \<Rightarrow> c\<lparr>xst := record_always_results e [settled] st\<rparr>))"

section \<open>A node's goroutine\<close>

text \<open>
  What \<open>Execute\<close>, inside the middleware and the assertion pass, may return: a result, or an
  error with or without a result. A nil result without an error is not one of them: every node
  kind returns a result when it succeeds, and \<open>runNode\<close> dereferences it then.
\<close>

datatype outcome = Returned exec_result | Erred "exec_result option" go_error

fun outcome_result :: "outcome \<Rightarrow> exec_result option" where
  "outcome_result (Returned res) = Some res"
| "outcome_result (Erred res err) = res"

fun outcome_error :: "outcome \<Rightarrow> go_error option" where
  "outcome_error (Returned res) = None"
| "outcome_error (Erred res err) = Some err"

definition input_error :: "engine \<Rightarrow> nat \<Rightarrow> go_error \<Rightarrow> go_error" where
  "input_error e i err =
     (if run_phase e i = run_when_always then MissingInputsError err
      else UserError ''NODE_INPUT_VALIDATION_FAILED'' (error_text err) (Some err))"

definition build_execution_context :: "engine \<Rightarrow> nat \<Rightarrow> output_store \<Rightarrow> exec_context" where
  "build_execution_context e i view =
     \<lparr>ec_inputs = assemble_inputs e i view, ec_flow_inputs = view_node view [],
      ec_all_outputs = view\<rparr>"

definition observe :: "obs_event \<Rightarrow> config \<Rightarrow> config" where
  "observe ev c = c\<lparr>xst := (xst c)\<lparr>observed := observed (xst c) @ [ev]\<rparr>\<rparr>"

definition send :: "nat \<Rightarrow> run_result \<Rightarrow> config \<Rightarrow> config" where
  "send k nr c = c\<lparr>gos := take k (gos c) @ drop (Suc k) (gos c), done_ch := done_ch c @ [nr]\<rparr>"

text \<open>\<open>runNode\<close> up to the call of the executor; a node whose inputs are not there is sent back.\<close>

definition go_begin :: "engine \<Rightarrow> nat \<Rightarrow> config \<Rightarrow> config" where
  "go_begin e k c =
     (let g = gos c ! k; i = g_node g in
      case validate_inputs e i (g_view g) of
        Some err \<Rightarrow> send k \<lparr>rr_node = i, rr_result = None, rr_err = Some (input_error e i err)\<rparr> c
      | None \<Rightarrow>
          observe (NodeStarted (node_id e i) (n_display_name (node_at e i)) (n_type (node_at e i)))
            (c\<lparr>gos := (gos c)[k := g\<lparr>g_running := True\<rparr>],
               executed := executed c @ [(i, build_execution_context e i (g_view g))]\<rparr>))"

text \<open>The executor returns: \<open>NodeFinished\<close>, then the send on the channel.\<close>

definition go_finish :: "engine \<Rightarrow> nat \<Rightarrow> outcome \<Rightarrow> config \<Rightarrow> config" where
  "go_finish e k out c =
     (let i = g_node (gos c ! k) in
      send k \<lparr>rr_node = i, rr_result = outcome_result out, rr_err = outcome_error out\<rparr>
        (observe (node_finished e i (outcome_result out)) c))"

section \<open>Runs\<close>

text \<open>
  One step of the program: the loop moves on, the loop receives the oldest result, or the k-th
  goroutine takes one of its two steps. None means that the step is not possible.
\<close>

datatype action = Move | Receive | Begin nat | Finish nat outcome

fun perform :: "engine \<Rightarrow> action \<Rightarrow> config \<Rightarrow> config option" where
  "perform e Move c =
     (case pc c of
        MainLoop \<Rightarrow> Some (main_loop_step e c)
      | AlwaysLoop \<Rightarrow> Some (always_loop_step e c)
      | _ \<Rightarrow> None)"
| "perform e Receive c =
     (case done_ch c of
        [] \<Rightarrow> None
      | nr # rest \<Rightarrow>
          (case pc c of
             MainWait \<Rightarrow> Some (main_receive e nr (c\<lparr>done_ch := rest\<rparr>))
           | AlwaysWait \<Rightarrow> Some (always_receive e nr (c\<lparr>done_ch := rest\<rparr>))
           | _ \<Rightarrow> None))"
| "perform e (Begin k) c =
     (if k < length (gos c) \<and> \<not> g_running (gos c ! k) then Some (go_begin e k c) else None)"
| "perform e (Finish k out) c =
     (if k < length (gos c) \<and> g_running (gos c ! k) then Some (go_finish e k out c) else None)"

fun perform_all :: "engine \<Rightarrow> action list \<Rightarrow> config \<Rightarrow> config option" where
  "perform_all e [] c = Some c"
| "perform_all e (a # as) c =
     (case perform e a c of None \<Rightarrow> None | Some c' \<Rightarrow> perform_all e as c')"

inductive engine_step :: "engine \<Rightarrow> config \<Rightarrow> config \<Rightarrow> bool" for e where
  step_main: "pc c = MainLoop \<Longrightarrow> engine_step e c (main_loop_step e c)"
| step_always: "pc c = AlwaysLoop \<Longrightarrow> engine_step e c (always_loop_step e c)"
| step_main_receive: "pc c = MainWait \<Longrightarrow> done_ch c = nr # rest \<Longrightarrow>
    engine_step e c (main_receive e nr (c\<lparr>done_ch := rest\<rparr>))"
| step_always_receive: "pc c = AlwaysWait \<Longrightarrow> done_ch c = nr # rest \<Longrightarrow>
    engine_step e c (always_receive e nr (c\<lparr>done_ch := rest\<rparr>))"
| step_begin: "k < length (gos c) \<Longrightarrow> \<not> g_running (gos c ! k) \<Longrightarrow> engine_step e c (go_begin e k c)"
| step_finish: "k < length (gos c) \<Longrightarrow> g_running (gos c ! k) \<Longrightarrow>
    engine_step e c (go_finish e k out c)"

inductive_cases engine_stepE: "engine_step e c c'"

lemma perform_step: "perform e a c = Some c' \<Longrightarrow> engine_step e c c'"
  by (cases "(e, a, c)" rule: perform.cases)
    (auto split: pc.splits list.splits if_splits intro: engine_step.intros)

lemma step_perform: "engine_step e c c' \<Longrightarrow> \<exists>a. perform e a c = Some c'"
proof (induction rule: engine_step.induct)
  case (step_main c)
  then show ?case by (intro exI [of _ Move]) simp
next
  case (step_always c)
  then show ?case by (intro exI [of _ Move]) simp
next
  case (step_main_receive c nr rest)
  then show ?case by (intro exI [of _ Receive]) simp
next
  case (step_always_receive c nr rest)
  then show ?case by (intro exI [of _ Receive]) simp
next
  case (step_begin k c)
  then show ?case by (intro exI [of _ "Begin k"]) simp
next
  case (step_finish k c out)
  then show ?case by (intro exI [of _ "Finish k out"]) simp
qed

text \<open>\<open>executeNodes\<close> up to the first phase: the initial inputs are the outputs of the empty ID.\<close>

definition init_state :: "engine \<Rightarrow> outputs \<Rightarrow> exec_state" where
  "init_state e initialInputs =
     \<lparr>all_outputs = Map.empty([] \<mapsto> initialInputs), remaining = edge_input e, executed_count = 0,
      exec_results = Map.empty, final_outputs = Map.empty, res_error = None, res_success = False,
      failed_nodes = {}, skipped_nodes = {}, failure_cause = Map.empty, dead_edges = {},
      routed_away = {}, observed = []\<rparr>"

definition init_config :: "engine \<Rightarrow> outputs \<Rightarrow> config" where
  "init_config e initialInputs =
     \<lparr>pc = MainLoop, in_flight = {}, gos = [], done_ch = [], xst = init_state e initialInputs,
      started = [], executed = []\<rparr>"

definition initial :: "engine \<Rightarrow> config \<Rightarrow> bool" where
  "initial e c \<longleftrightarrow> (\<exists>inputs. c = init_config e inputs)"

abbreviation reachable :: "engine \<Rightarrow> config \<Rightarrow> bool" where
  "reachable e \<equiv> reach (initial e) (engine_step e)"

lemma perform_all_reachable:
  "perform_all e as c = Some c' \<Longrightarrow> reachable e c \<Longrightarrow> reachable e c'"
  by (induction e as c rule: perform_all.induct)
    (auto split: option.splits intro: reach_step perform_step)

lemma init_reachable: "reachable e (init_config e inputs)"
  by (rule reach_start) (auto simp: initial_def)

end
