(* ===== verification/Scheduler_Inv.thy ===== *)
theory Scheduler_Inv
  imports Scheduler
begin

text \<open>
  What the scheduler keeps: the structural invariant of a configuration (counts, in-flight
  nodes, goroutines and channel agree), the decomposition of the loop's functions into small
  acts with their guards, and the two interfaces of the prelude discharged for the engine:
  its steps keep the invariant, and they shrink a measure and are never stuck before the end.
\<close>

section \<open>Counts\<close>

text \<open>
  \<open>remainingInputs\<close> holds the nodes that are not complete, each with the number of its incoming
  edges whose source is not complete; the sources of a complete node are complete.
\<close>

definition counts_ok :: "engine \<Rightarrow> (nat \<rightharpoonup> int) \<Rightarrow> bool" where
  "counts_ok e rem \<longleftrightarrow>
     dom rem \<subseteq> {..<num_nodes e} \<and>
     (\<forall>i n. rem i = Some n \<longrightarrow> n = int (length (filter (\<lambda>p. p \<in> dom rem) (edge_source e i)))) \<and>
     (\<forall>i < num_nodes e. i \<notin> dom rem \<longrightarrow> set (edge_source e i) \<inter> dom rem = {})"

definition complete_map :: "engine \<Rightarrow> nat \<Rightarrow> (nat \<rightharpoonup> int) \<Rightarrow> (nat \<rightharpoonup> int)" where
  "complete_map e i rem = map_del (map_decr_all rem (edge_output e i)) i"

lemma length_filter_remove:
  "i \<in> D \<Longrightarrow> length (filter (\<lambda>p. p \<in> D) xs) = length (filter (\<lambda>p. p \<in> D - {i}) xs) + count_list xs i"
  by (induction xs) auto

lemma counts_zero:
  assumes "counts_ok e rem" and "rem i = Some 0"
  shows "set (edge_source e i) \<inter> dom rem = {}"
proof -
  have "length (filter (\<lambda>p. p \<in> dom rem) (edge_source e i)) = 0"
    using assms by (fastforce simp: counts_ok_def)
  then show ?thesis by (auto simp: filter_empty_conv)
qed

lemma counts_preds:
  "counts_ok e rem \<Longrightarrow> i < num_nodes e \<Longrightarrow> rem i = None \<or> rem i = Some 0 \<Longrightarrow> p \<in> set (edge_source e i) \<Longrightarrow>
   rem p = None"
  using counts_zero [of e rem i] by (fastforce simp: counts_ok_def)

lemma complete_map_value:
  assumes wf: "wf_engine e" and ok: "counts_ok e rem" and i: "rem i = Some 0"
  shows "complete_map e i rem j =
    (if j = i then None
     else map_option (\<lambda>n. n - int (count_list (edge_source e j) i)) (rem j))"
proof (cases "j = i")
  case True
  then show ?thesis by (simp add: complete_map_def)
next
  case False
  show ?thesis
  proof (cases "rem j")
    case None
    have "j \<notin> set (edge_output e i)"
    proof
      assume j: "j \<in> set (edge_output e i)"
      then have "i \<in> set (edge_source e j)" using wf_source_iff [OF wf] by simp
      moreover have "j < num_nodes e" using wf_source_bound [OF wf calculation] by simp
      ultimately have "rem i = None" using counts_preds [OF ok] None by blast
      with i show False by simp
    qed
    with None False show ?thesis by (simp add: complete_map_def)
  next
    case (Some n)
    then show ?thesis using False wf_count [OF wf]
      by (simp add: complete_map_def map_decr_all_present)
  qed
qed

lemma complete_map_dom:
  "wf_engine e \<Longrightarrow> counts_ok e rem \<Longrightarrow> rem i = Some 0 \<Longrightarrow> dom (complete_map e i rem) = dom rem - {i}"
  by (auto simp: complete_map_value dom_def split: if_splits)

lemma complete_map_zero:
  assumes "wf_engine e" and "counts_ok e rem" and "rem i = Some 0" and "rem j = Some 0" and "j \<noteq> i"
  shows "complete_map e i rem j = Some 0"
proof -
  have "i \<notin> set (edge_source e j)" using counts_zero [OF assms(2,4)] assms(3) by auto
  then show ?thesis using assms by (simp add: complete_map_value)
qed

lemma complete_map_counts:
  assumes wf: "wf_engine e" and ok: "counts_ok e rem" and i: "rem i = Some 0"
  shows "counts_ok e (complete_map e i rem)"
proof -
  note dom' = complete_map_dom [OF assms] and val = complete_map_value [OF assms]
  have iD: "i \<in> dom rem" using i by auto
  have "dom (complete_map e i rem) \<subseteq> {..<num_nodes e}"
    using ok unfolding dom' counts_ok_def by blast
  moreover have "n = int (length (filter (\<lambda>p. p \<in> dom rem - {i}) (edge_source e j)))"
    if n: "complete_map e i rem j = Some n" for j n
  proof -
    from n val obtain m where m: "rem j = Some m" "n = m - int (count_list (edge_source e j) i)"
      by (auto split: if_splits)
    with ok have "m = int (length (filter (\<lambda>p. p \<in> dom rem) (edge_source e j)))"
      by (simp add: counts_ok_def)
    with m length_filter_remove [OF iD, of "edge_source e j"] show ?thesis by simp
  qed
  moreover have "set (edge_source e j) \<inter> (dom rem - {i}) = {}"
    if "j < num_nodes e" "j \<notin> dom rem - {i}" for j
  proof (cases "j = i")
    case True
    then show ?thesis using counts_zero [OF ok i] by auto
  next
    case False
    with that have "j \<notin> dom rem" by simp
    with that(1) ok have "set (edge_source e j) \<inter> dom rem = {}" unfolding counts_ok_def by blast
    then show ?thesis by blast
  qed
  ultimately show ?thesis unfolding counts_ok_def dom' by blast
qed

lemma init_counts: "wf_engine e \<Longrightarrow> counts_ok e (edge_input e)"
proof -
  assume wf: "wf_engine e"
  have dom: "dom (edge_input e) = {..<num_nodes e}" by (auto simp: wf_input [OF wf] dom_def)
  have "filter (\<lambda>p. p < num_nodes e) (edge_source e i) = edge_source e i" for i
    using wf_source_bound [OF wf, of _ i] by (simp add: filter_id_conv)
  then show ?thesis
    by (auto simp: counts_ok_def dom wf_input [OF wf] split: if_splits)
qed

section \<open>Acts of the scheduler\<close>

text \<open>
  The loop's functions as small acts, each under the condition the code tests before it: a
  ready node is started or skipped, the loop waits, changes phase or stops. Goroutine steps
  and receives are acts as they are. Invariants are proved act by act.
\<close>

abbreviation loop_pc :: "config \<Rightarrow> bool" where
  "loop_pc c \<equiv> pc c = MainLoop \<or> pc c = AlwaysLoop"

inductive act :: "engine \<Rightarrow> config \<Rightarrow> config \<Rightarrow> bool" for e where
  act_start: "loop_pc c \<Longrightarrow> i \<in> set (ready e run_when_on_success c) \<Longrightarrow> upstream_failure e i (xst c) = None \<Longrightarrow>
    \<not> is_fully_dead e i (xst c) \<Longrightarrow> \<not> inputs_reference_skipped_node e i (xst c) \<Longrightarrow>
    act e c (start i c)"
| act_skip_failed: "loop_pc c \<Longrightarrow> i \<in> set (ready e run_when_on_success c) \<Longrightarrow>
    upstream_failure e i (xst c) = Some cause \<Longrightarrow>
    act e c (skip_node e i (set_cause e i cause c))"
| act_skip_dead: "loop_pc c \<Longrightarrow> i \<in> set (ready e run_when_on_success c) \<Longrightarrow>
    upstream_failure e i (xst c) = None \<Longrightarrow>
    is_fully_dead e i (xst c) \<or> inputs_reference_skipped_node e i (xst c) \<Longrightarrow>
    act e c (skip_node e i c)"
| act_start_always: "pc c = AlwaysLoop \<Longrightarrow> i \<in> set (ready e run_when_always c) \<Longrightarrow>
    \<not> is_routed_away e i (xst c) \<Longrightarrow> act e c (start i c)"
| act_skip_always: "pc c = AlwaysLoop \<Longrightarrow> i \<in> set (ready e run_when_always c) \<Longrightarrow>
    is_routed_away e i (xst c) \<Longrightarrow> act e c (skip_node e i c)"
| act_main_wait: "pc c = MainLoop \<Longrightarrow> in_flight c \<noteq> {} \<Longrightarrow> act e c (c\<lparr>pc := MainWait\<rparr>)"
| act_always_wait: "pc c = AlwaysLoop \<Longrightarrow> in_flight c \<noteq> {} \<Longrightarrow> act e c (c\<lparr>pc := AlwaysWait\<rparr>)"
| act_phase: "pc c = MainLoop \<Longrightarrow> in_flight c = {} \<Longrightarrow> ready e run_when_on_success c = [] \<Longrightarrow>
    act e c ((new_phase_scheduler c)\<lparr>pc := AlwaysLoop\<rparr>)"
| act_stop: "pc c = AlwaysLoop \<Longrightarrow> in_flight c = {} \<Longrightarrow> dom (remaining (xst c)) = {} \<Longrightarrow>
    act e c (c\<lparr>pc := Finished, xst := finalize_execution e (xst c)\<rparr>)"
| act_main_receive: "pc c = MainWait \<Longrightarrow> done_ch c = nr # rest \<Longrightarrow>
    act e c (main_receive e nr (c\<lparr>done_ch := rest\<rparr>))"
| act_always_receive: "pc c = AlwaysWait \<Longrightarrow> done_ch c = nr # rest \<Longrightarrow>
    act e c (always_receive e nr (c\<lparr>done_ch := rest\<rparr>))"
| act_begin: "k < length (gos c) \<Longrightarrow> \<not> g_running (gos c ! k) \<Longrightarrow> act e c (go_begin e k c)"
| act_finish: "k < length (gos c) \<Longrightarrow> g_running (gos c ! k) \<Longrightarrow> act e c (go_finish e k out c)"

inductive_cases actE: "act e c c'"

section \<open>The structural invariant\<close>

definition handles :: "config \<Rightarrow> nat list" where
  "handles c = map g_node (gos c) @ map rr_node (done_ch c)"

definition sched_inv :: "engine \<Rightarrow> config \<Rightarrow> bool" where
  "sched_inv e c \<longleftrightarrow>
     counts_ok e (remaining (xst c)) \<and>
     (\<forall>i \<in> in_flight c. remaining (xst c) i = Some 0) \<and>
     distinct (handles c) \<and> set (handles c) = in_flight c \<and>
     distinct (started c) \<and> in_flight c \<subseteq> set (started c) \<and>
     (\<forall>i \<in> set (started c). i < num_nodes e \<and> (i \<in> in_flight c \<or> remaining (xst c) i = None)) \<and>
     (\<forall>nr \<in> set (done_ch c). rr_err nr = None \<longrightarrow> rr_result nr \<noteq> None) \<and>
     (pc c = MainWait \<or> pc c = AlwaysWait \<longrightarrow> in_flight c \<noteq> {}) \<and>
     (pc c = MainLoop \<or> pc c = MainWait \<longrightarrow>
        (\<forall>i \<in> set (started c). run_phase e i = run_when_on_success)) \<and>
     (pc c = Finished \<longrightarrow> dom (remaining (xst c)) = {})"

lemma sched_invI:
  "counts_ok e (remaining (xst c)) \<Longrightarrow>
   (\<And>i. i \<in> in_flight c \<Longrightarrow> remaining (xst c) i = Some 0) \<Longrightarrow>
   distinct (handles c) \<Longrightarrow> set (handles c) = in_flight c \<Longrightarrow>
   distinct (started c) \<Longrightarrow> in_flight c \<subseteq> set (started c) \<Longrightarrow>
   (\<And>i. i \<in> set (started c) \<Longrightarrow> i < num_nodes e \<and> (i \<in> in_flight c \<or> remaining (xst c) i = None)) \<Longrightarrow>
   (\<And>nr. nr \<in> set (done_ch c) \<Longrightarrow> rr_err nr = None \<Longrightarrow> rr_result nr \<noteq> None) \<Longrightarrow>
   (pc c = MainWait \<or> pc c = AlwaysWait \<Longrightarrow> in_flight c \<noteq> {}) \<Longrightarrow>
   (\<And>i. pc c = MainLoop \<or> pc c = MainWait \<Longrightarrow> i \<in> set (started c) \<Longrightarrow>
      run_phase e i = run_when_on_success) \<Longrightarrow>
   (pc c = Finished \<Longrightarrow> dom (remaining (xst c)) = {}) \<Longrightarrow> sched_inv e c"
  unfolding sched_inv_def by (intro conjI ballI impI) (assumption | iprover)+

lemma sched_invD:
  assumes "sched_inv e c"
  shows "counts_ok e (remaining (xst c))"
    and "i \<in> in_flight c \<Longrightarrow> remaining (xst c) i = Some 0"
    and "distinct (handles c)" and "set (handles c) = in_flight c"
    and "distinct (started c)" and "in_flight c \<subseteq> set (started c)"
    and "i \<in> set (started c) \<Longrightarrow> i < num_nodes e"
    and "i \<in> set (started c) \<Longrightarrow> i \<in> in_flight c \<or> remaining (xst c) i = None"
    and "nr \<in> set (done_ch c) \<Longrightarrow> rr_err nr = None \<Longrightarrow> rr_result nr \<noteq> None"
    and "pc c = MainWait \<or> pc c = AlwaysWait \<Longrightarrow> in_flight c \<noteq> {}"
    and "pc c = MainLoop \<or> pc c = MainWait \<Longrightarrow> i \<in> set (started c) \<Longrightarrow>
      run_phase e i = run_when_on_success"
    and "pc c = Finished \<Longrightarrow> dom (remaining (xst c)) = {}"
  by (insert assms, unfold sched_inv_def, (elim conjE, (assumption | drule (1) bspec, (assumption | elim conjE, assumption | iprover) | iprover | drule (1) mp, drule (1) bspec, assumption))+)

text \<open>The engines the theorems are about: a graph \<open>NewFlowEngine\<close> built, acyclic, with known phases.\<close>

definition sound_engine :: "engine \<Rightarrow> bool" where
  "sound_engine e \<longleftrightarrow> wf_engine e \<and> acyclic (edge_rel e) \<and> known_phases e"

lemma record_on_success_remaining:
  "remaining (record_on_success_results e [nr] st) = complete_map e (rr_node nr) (remaining st)"
  by (simp add: record_on_success_results_def record_on_success_result_def mark_node_complete_def
      complete_map_def Let_def mark_node_failed_def keep_first_error_def propagate_node_outputs_def
      record_routing_decision_def split: option.splits)

lemma record_always_same: "record_always_result = record_on_success_result"
  by (intro ext) (simp add: record_always_result_def record_on_success_result_def Let_def
      split: option.splits)

lemma record_always_results_same: "record_always_results = record_on_success_results"
  by (intro ext) (simp add: record_always_results_def record_on_success_results_def record_always_same)

lemma settle_remaining [simp]: "remaining (snd (settle_always_skip e nr st)) = remaining st"
  by (simp add: settle_always_skip_def Let_def split: option.splits)

lemma settle_node [simp]: "rr_node (fst (settle_always_skip e nr st)) = rr_node nr"
  by (simp add: settle_always_skip_def Let_def split: option.splits)

text \<open>What a receive does to the scheduler's side, whichever phase it happens in.\<close>

lemma receive_fields:
  "remaining (xst (main_receive e nr c)) = complete_map e (rr_node nr) (remaining (xst c))"
  "in_flight (main_receive e nr c) = in_flight c - {rr_node nr}"
  "gos (main_receive e nr c) = gos c" "done_ch (main_receive e nr c) = done_ch c"
  "started (main_receive e nr c) = started c" "executed (main_receive e nr c) = executed c"
  "pc (main_receive e nr c) = MainLoop"
  "remaining (xst (always_receive e nr c)) = complete_map e (rr_node nr) (remaining (xst c))"
  "in_flight (always_receive e nr c) = in_flight c - {rr_node nr}"
  "gos (always_receive e nr c) = gos c" "done_ch (always_receive e nr c) = done_ch c"
  "started (always_receive e nr c) = started c" "executed (always_receive e nr c) = executed c"
  "pc (always_receive e nr c) = AlwaysLoop"
  by (simp_all add: main_receive_def always_receive_def record_on_success_remaining
      record_always_results_same Let_def split: prod.split)
    (metis fst_conv snd_conv settle_node settle_remaining)

lemma skip_node_fields [simp]:
  "in_flight (skip_node e i c) = in_flight c" "gos (skip_node e i c) = gos c"
  "done_ch (skip_node e i c) = done_ch c" "started (skip_node e i c) = started c"
  "executed (skip_node e i c) = executed c" "pc (skip_node e i c) = pc c"
  by (simp_all add: skip_node_def)

lemma set_cause_fields [simp]:
  "in_flight (set_cause e i s c) = in_flight c" "gos (set_cause e i s c) = gos c"
  "done_ch (set_cause e i s c) = done_ch c" "started (set_cause e i s c) = started c"
  "executed (set_cause e i s c) = executed c" "pc (set_cause e i s c) = pc c"
  by (simp_all add: set_cause_def)

lemma start_fields [simp]:
  "in_flight (start i c) = insert i (in_flight c)" "xst (start i c) = xst c"
  "done_ch (start i c) = done_ch c" "started (start i c) = started c @ [i]"
  "executed (start i c) = executed c" "pc (start i c) = pc c"
  "gos (start i c) = gos c @ [\<lparr>g_node = i, g_view = all_outputs (xst c), g_running = False\<rparr>]"
  by (simp_all add: start_def)

lemma send_fields [simp]:
  "in_flight (send k nr c) = in_flight c" "xst (send k nr c) = xst c" "started (send k nr c) = started c"
  "executed (send k nr c) = executed c" "pc (send k nr c) = pc c"
  "done_ch (send k nr c) = done_ch c @ [nr]"
  "gos (send k nr c) = take k (gos c) @ drop (Suc k) (gos c)"
  by (simp_all add: send_def)

lemma observe_fields [simp]:
  "in_flight (observe ev c) = in_flight c" "started (observe ev c) = started c"
  "executed (observe ev c) = executed c" "pc (observe ev c) = pc c" "done_ch (observe ev c) = done_ch c"
  "gos (observe ev c) = gos c" "remaining (xst (observe ev c)) = remaining (xst c)"
  "observed (xst (observe ev c)) = observed (xst c) @ [ev]"
  "all_outputs (xst (observe ev c)) = all_outputs (xst c)"
  "exec_results (xst (observe ev c)) = exec_results (xst c)"
  "failed_nodes (xst (observe ev c)) = failed_nodes (xst c)"
  "skipped_nodes (xst (observe ev c)) = skipped_nodes (xst c)"
  "failure_cause (xst (observe ev c)) = failure_cause (xst c)"
  "dead_edges (xst (observe ev c)) = dead_edges (xst c)"
  "routed_away (xst (observe ev c)) = routed_away (xst c)"
  "res_error (xst (observe ev c)) = res_error (xst c)"
  "final_outputs (xst (observe ev c)) = final_outputs (xst c)"
  "res_success (xst (observe ev c)) = res_success (xst c)"
  "executed_count (xst (observe ev c)) = executed_count (xst c)"
  by (simp_all add: observe_def)

lemma finalize_remaining [simp]: "remaining (finalize_execution e st) = remaining st"
  by (simp add: finalize_execution_def)

lemma new_phase_fields [simp]:
  "in_flight (new_phase_scheduler c) = {}" "done_ch (new_phase_scheduler c) = []"
  "gos (new_phase_scheduler c) = gos c" "xst (new_phase_scheduler c) = xst c"
  "started (new_phase_scheduler c) = started c" "executed (new_phase_scheduler c) = executed c"
  by (simp_all add: new_phase_scheduler_def)

lemma split_at_index:
  assumes "k < length xs"
  obtains ys x zs where "xs = ys @ x # zs" "length ys = k" "x = xs ! k" "take k xs = ys" "drop (Suc k) xs = zs"
  using id_take_nth_drop [OF assms] assms that by (metis length_take min.absorb4)

lemma send_handles:
  assumes "k < length (gos c)" and "rr_node nr = g_node (gos c ! k)"
  shows "set (handles (send k nr c)) = set (handles c)"
    and "distinct (handles (send k nr c)) = distinct (handles c)"
proof -
  obtain xs g ys where g: "gos c = xs @ g # ys" "take k (gos c) = xs" "drop (Suc k) (gos c) = ys"
    "g = gos c ! k" using assms(1) by (rule split_at_index)
  have h: "handles c = map g_node xs @ g_node g # map g_node ys @ map rr_node (done_ch c)"
    by (simp add: handles_def g(1))
  have h': "handles (send k nr c) = map g_node xs @ map g_node ys @ map rr_node (done_ch c) @ [g_node g]"
    using assms(2) by (simp add: handles_def g(2,3) g(4) [symmetric])
  show "set (handles (send k nr c)) = set (handles c)"
    and "distinct (handles (send k nr c)) = distinct (handles c)"
    unfolding h h' by auto
qed

lemma ready_iff: "i \<in> set (ready e phase c) \<longleftrightarrow>
   i < num_nodes e \<and> remaining (xst c) i = Some 0 \<and> run_phase e i = phase \<and> i \<notin> in_flight c"
  by (auto simp: ready_def)

lemma ready_distinct: "distinct (ready e phase c)"
  by (simp add: ready_def)

lemma sched_inv_start:
  assumes inv: "sched_inv e c" and i: "i < num_nodes e" "remaining (xst c) i = Some 0" "i \<notin> in_flight c"
    and pc: "pc c = AlwaysLoop \<or> (pc c = MainLoop \<and> run_phase e i = run_when_on_success)"
  shows "sched_inv e (start i c)"
proof (rule sched_invI)
  note D = sched_invD [OF inv]
  have h: "handles (start i c) = map g_node (gos c) @ i # map rr_node (done_ch c)"
    by (simp add: handles_def)
  show "distinct (handles (start i c))" using D(3,4) i(3) unfolding h by (auto simp: handles_def)
  show "set (handles (start i c)) = in_flight (start i c)"
    using D(4) unfolding h by (auto simp: handles_def)
  have "i \<notin> set (started c)" using D(8) i by fastforce
  then show "distinct (started (start i c))" using D(5) by simp
  fix j
  show "j < num_nodes e \<and> (j \<in> in_flight (start i c) \<or> remaining (xst (start i c)) j = None)"
    if "j \<in> set (started (start i c))" using that D(7) [of j] D(8) [of j] i by auto
  show "remaining (xst (start i c)) j = Some 0" if "j \<in> in_flight (start i c)"
    using that D(2) i by auto
  show "run_phase e j = run_when_on_success"
    if "pc (start i c) = MainLoop \<or> pc (start i c) = MainWait" "j \<in> set (started (start i c))"
    using that D(11) pc by auto
qed (use sched_invD [OF inv] pc in auto)

lemma sched_inv_complete:
  assumes wf: "wf_engine e" and inv: "sched_inv e c" and i: "remaining (xst c) i = Some 0"
    and rem: "remaining (xst c') = complete_map e i (remaining (xst c))"
    and flight: "in_flight c' = in_flight c - {i}" and st: "started c' = started c"
    and pc: "pc c' = MainLoop \<and> (pc c = MainLoop \<or> pc c = MainWait) \<or> pc c' = AlwaysLoop"
    and h: "distinct (handles c')" "set (handles c') = in_flight c'"
    and ch: "set (done_ch c') \<subseteq> set (done_ch c)"
  shows "sched_inv e c'"
proof (rule sched_invI)
  note D = sched_invD [OF inv]
  show "counts_ok e (remaining (xst c'))" unfolding rem by (rule complete_map_counts [OF wf D(1) i])
  fix j
  show "remaining (xst c') j = Some 0" if "j \<in> in_flight c'"
    using that D(2) complete_map_zero [OF wf D(1) i] unfolding rem flight by blast
  show "j < num_nodes e \<and> (j \<in> in_flight c' \<or> remaining (xst c') j = None)"
    if "j \<in> set (started c')"
    using that D(7,8) complete_map_value [OF wf D(1) i, of j] unfolding rem flight st by auto
  show "run_phase e j = run_when_on_success"
    if "pc c' = MainLoop \<or> pc c' = MainWait" "j \<in> set (started c')"
    using that D(11) pc unfolding st by auto
  fix nr assume "nr \<in> set (done_ch c')" "rr_err nr = None"
  then show "rr_result nr \<noteq> None" using D(9) ch by blast
qed (use sched_invD [OF inv] pc h in \<open>auto simp: flight st\<close>)

lemma sched_inv_skip:
  assumes "wf_engine e" and "sched_inv e c" and "i \<in> set (ready e phase c)" and "loop_pc c"
  shows "sched_inv e (skip_node e i c)"
proof (rule sched_inv_complete [OF assms(1,2), of i])
  note D = sched_invD [OF assms(2)]
  have h: "handles (skip_node e i c) = handles c" by (simp add: handles_def)
  show "distinct (handles (skip_node e i c))" using D(3) unfolding h .
  show "set (handles (skip_node e i c)) = in_flight (skip_node e i c)" using D(4) unfolding h by simp
qed (use assms in \<open>auto simp: ready_iff complete_map_def\<close>)

lemma sched_inv_set_cause [simp]: "sched_inv e (set_cause e i s c) = sched_inv e c"
  by (simp add: sched_inv_def handles_def)

lemma set_cause_ready [simp]: "ready e phase (set_cause e i s c) = ready e phase c"
  by (simp add: ready_def)

lemma sched_inv_send:
  assumes inv: "sched_inv e c" and "k < length (gos c)" and "rr_node nr = g_node (gos c ! k)"
    and "rr_err nr = None \<longrightarrow> rr_result nr \<noteq> None"
  shows "sched_inv e (send k nr c)"
proof (rule sched_invI)
  note D = sched_invD [OF inv]
  show "distinct (handles (send k nr c))" "set (handles (send k nr c)) = in_flight (send k nr c)"
    using send_handles [OF assms(2,3)] D(3,4) by simp_all
  fix nr' assume "nr' \<in> set (done_ch (send k nr c))" "rr_err nr' = None"
  then show "rr_result nr' \<noteq> None" using D(9) assms(4) by auto
qed (use sched_invD [OF inv] in auto)

lemma sched_inv_observe [simp]: "sched_inv e (observe ev c) = sched_inv e c"
  by (simp add: sched_inv_def handles_def)

lemma sched_inv_running:
  assumes "sched_inv e c" and "k < length (gos c)"
  shows "sched_inv e (c\<lparr>gos := (gos c)[k := (gos c ! k)\<lparr>g_running := True\<rparr>], executed := ex\<rparr>)"
proof -
  have "map g_node ((gos c)[k := (gos c ! k)\<lparr>g_running := True\<rparr>]) = map g_node (gos c)"
    using assms(2) by (simp add: map_update list_update_same_conv)
  then show ?thesis using assms by (simp add: sched_inv_def handles_def)
qed

lemma sched_inv_receive:
  assumes wf: "wf_engine e" and inv: "sched_inv e c" and nr: "done_ch c = nr # rest"
    and pc: "pc c = MainWait \<or> pc c = AlwaysWait"
  shows "pc c = MainWait \<Longrightarrow> sched_inv e (main_receive e nr (c\<lparr>done_ch := rest\<rparr>))"
    and "sched_inv e (always_receive e nr (c\<lparr>done_ch := rest\<rparr>))"
proof -
  note D = sched_invD [OF inv]
  have h0: "handles c = map g_node (gos c) @ rr_node nr # map rr_node rest"
    using nr by (simp add: handles_def)
  then have "rr_node nr \<in> in_flight c" using D(4) by auto
  then have i: "remaining (xst c) (rr_node nr) = Some 0" by (rule D(2))
  have h: "distinct (map g_node (gos c) @ map rr_node rest)"
    using D(3) unfolding h0 by simp
  have hs: "set (map g_node (gos c) @ map rr_node rest) = in_flight c - {rr_node nr}"
    using D(3) unfolding D(4) [symmetric] h0 by auto
  show "pc c = MainWait \<Longrightarrow> sched_inv e (main_receive e nr (c\<lparr>done_ch := rest\<rparr>))"
    by (rule sched_inv_complete [OF wf inv i])
      (use h hs nr pc in \<open>auto simp: receive_fields handles_def simp del: set_map\<close>)
  show "sched_inv e (always_receive e nr (c\<lparr>done_ch := rest\<rparr>))"
    by (rule sched_inv_complete [OF wf inv i])
      (use h hs nr pc in \<open>auto simp: receive_fields handles_def simp del: set_map\<close>)
qed

lemma act_sched_inv:
  assumes "act e c c'" and wf: "wf_engine e" and inv: "sched_inv e c"
  shows "sched_inv e c'"
  using assms(1)
proof cases
  case (act_start i)
  with inv show ?thesis by (auto simp: ready_iff intro: sched_inv_start)
next
  case (act_skip_failed i cause)
  with inv wf show ?thesis by (auto intro: sched_inv_skip)
next
  case (act_skip_dead i)
  with inv wf show ?thesis by (blast intro: sched_inv_skip)
next
  case (act_start_always i)
  with inv show ?thesis by (auto simp: ready_iff intro: sched_inv_start)
next
  case (act_skip_always i)
  with inv wf show ?thesis by (blast intro: sched_inv_skip)
next
  case act_main_wait
  with inv show ?thesis by (simp add: sched_inv_def handles_def)
next
  case act_always_wait
  with inv show ?thesis by (simp add: sched_inv_def handles_def)
next
  case act_phase
  with inv show ?thesis by (simp add: sched_inv_def handles_def)
next
  case act_stop
  with inv show ?thesis by (simp add: sched_inv_def handles_def)
next
  case (act_main_receive nr rest)
  with inv wf show ?thesis by (simp add: sched_inv_receive)
next
  case (act_always_receive nr rest)
  with inv wf show ?thesis by (simp add: sched_inv_receive)
next
  case (act_begin k)
  with inv show ?thesis
    by (auto simp: go_begin_def Let_def split: option.splits intro!: sched_inv_send sched_inv_running)
next
  case (act_finish k out)
  have "outcome_error out = None \<longrightarrow> outcome_result out \<noteq> None" by (cases out) auto
  with act_finish inv show ?thesis
    by (auto simp: go_finish_def Let_def intro!: sched_inv_send)
qed

lemma init_sched_inv: "wf_engine e \<Longrightarrow> sched_inv e (init_config e inputs)"
  by (simp add: sched_inv_def init_config_def init_state_def init_counts handles_def)

section \<open>The loop's functions are sequences of acts\<close>

abbreviation acts :: "engine \<Rightarrow> config \<Rightarrow> config \<Rightarrow> bool" where
  "acts e \<equiv> (act e)\<^sup>*\<^sup>*"

lemma acts_sched_inv: "acts e c c' \<Longrightarrow> wf_engine e \<Longrightarrow> sched_inv e c \<Longrightarrow> sched_inv e c'"
  by (induction rule: rtranclp_induct) (auto intro: act_sched_inv)

lemma ready_skip:
  assumes "wf_engine e" and "sched_inv e c" and "i \<in> set (ready e phase c)"
    and "j \<in> set (ready e phase' c)" and "j \<noteq> i"
  shows "j \<in> set (ready e phase' (skip_node e i c))"
proof -
  have "remaining (xst (skip_node e i c)) = complete_map e i (remaining (xst c))"
    by (simp add: complete_map_def)
  moreover have "complete_map e i (remaining (xst c)) j = Some 0"
    using assms by (intro complete_map_zero sched_invD(1)) (auto simp: ready_iff)
  ultimately show ?thesis using assms(4) by (auto simp: ready_iff)
qed

lemma ready_start: "j \<in> set (ready e phase c) \<Longrightarrow> j \<noteq> i \<Longrightarrow> j \<in> set (ready e phase (start i c))"
  by (auto simp: ready_iff)

lemma start_all_fields:
  "in_flight (start_all is c) = set is \<union> in_flight c" "xst (start_all is c) = xst c"
  "pc (start_all is c) = pc c"
  unfolding start_all_def by (induction "is" arbitrary: c) auto

lemma ready_start_all: "ready e phase (start_all (ready e phase c) c) = []"
  unfolding ready_def by (auto simp: filter_empty_conv start_all_fields)

lemma start_pass_pc: "pc (fst (start_pass e is c)) = pc c"
  by (induction e "is" c rule: start_pass.induct) (auto split: option.splits)

lemma start_pass_no_skip: "\<not> snd (start_pass e is c) \<Longrightarrow> fst (start_pass e is c) = start_all is c"
  by (induction e "is" c rule: start_pass.induct)
    (auto simp: start_all_def split: option.splits if_splits)

lemma acts_start_pass:
  assumes "wf_engine e" and "sched_inv e c" and "loop_pc c" and "distinct is"
    and "\<And>i. i \<in> set is \<Longrightarrow> i \<in> set (ready e run_when_on_success c)"
  shows "acts e c (fst (start_pass e is c))"
  using assms(2-)
proof (induction "is" arbitrary: c)
  case Nil
  then show ?case by simp
next
  case (Cons i "is")
  have i: "i \<in> set (ready e run_when_on_success c)" using Cons.prems by simp
  have chain: "acts e c (fst (start_pass e is c'))"
    if "act e c c'" "pc c' = pc c" "\<And>j. j \<in> set is \<Longrightarrow> j \<in> set (ready e run_when_on_success c')" for c'
  proof -
    have "sched_inv e c'" using act_sched_inv that(1) assms(1) Cons.prems(1) by blast
    then have "acts e c' (fst (start_pass e is c'))"
      using Cons.IH Cons.prems that by auto
    with that(1) show ?thesis by (rule converse_rtranclp_into_rtranclp)
  qed
  have skip_ready: "j \<in> set (ready e run_when_on_success (skip_node e i (set_cause e i s c)))"
    "j \<in> set (ready e run_when_on_success (skip_node e i c))" if "j \<in> set is" for j s
    using that Cons.prems i assms(1)
    by (auto intro!: ready_skip [of _ _ i run_when_on_success])
  show ?case
  proof (cases "upstream_failure e i (xst c)")
    case (Some cause)
    have "acts e c (fst (start_pass e is (skip_node e i (set_cause e i cause c))))"
      using Cons.prems(2) i Some skip_ready by (intro chain act_skip_failed) auto
    with Some show ?thesis by simp
  next
    case None
    show ?thesis
    proof (cases "is_fully_dead e i (xst c) \<or> inputs_reference_skipped_node e i (xst c)")
      case True
      then have "acts e c (fst (start_pass e is (skip_node e i c)))"
        using Cons.prems(2) i None skip_ready by (intro chain act_skip_dead) auto
      with None True show ?thesis by simp
    next
      case False
      then have "acts e c (fst (start_pass e is (start i c)))"
        using Cons.prems i None by (intro chain act_start) (auto intro!: ready_start)
      with None False show ?thesis by simp
    qed
  qed
qed

lemma acts_start_ready:
  assumes "wf_engine e" and "sched_inv e c" and "loop_pc c"
  shows "acts e c (start_ready_on_success e c) \<and> pc (start_ready_on_success e c) = pc c \<and>
    ready e run_when_on_success (start_ready_on_success e c) = []"
  using assms
proof (induction e c rule: start_ready_on_success.induct)
  case (1 e c)
  let ?p = "start_pass e (ready e run_when_on_success c) c"
  have a: "acts e c (fst ?p)" using 1 by (intro acts_start_pass) (auto simp: ready_distinct)
  have inv: "sched_inv e (fst ?p)" using acts_sched_inv a "1.prems" by blast
  show ?case
  proof (cases "snd ?p")
    case True
    then have "start_ready_on_success e c = start_ready_on_success e (fst ?p)"
      by (subst start_ready_on_success.simps) (simp add: case_prod_beta)
    moreover have "acts e (fst ?p) (start_ready_on_success e (fst ?p)) \<and>
        pc (start_ready_on_success e (fst ?p)) = pc (fst ?p) \<and>
        ready e run_when_on_success (start_ready_on_success e (fst ?p)) = []"
      by (rule "1.IH" [OF refl _ _ "1.prems"(1) inv])
        (use True "1.prems" in \<open>auto simp: start_pass_pc prod_eq_iff\<close>)
    ultimately show ?thesis using a by (auto simp: start_pass_pc intro: rtranclp_trans)
  next
    case False
    then have "start_ready_on_success e c = fst ?p"
      by (subst start_ready_on_success.simps) (simp add: case_prod_beta)
    with a False show ?thesis
      by (simp add: start_all_fields start_pass_no_skip ready_start_all)
  qed
qed

lemma skip_all_pc: "pc (fst (skip_all e is c)) = pc c"
  by (induction e "is" c rule: skip_all.induct) auto

lemma skip_all_no_skip:
  "\<not> snd (skip_all e is c) \<Longrightarrow> fst (skip_all e is c) = c \<and> (\<forall>i \<in> set is. \<not> is_routed_away e i (xst c))"
  by (induction e "is" c rule: skip_all.induct) (auto split: if_splits)

lemma acts_skip_all:
  assumes "wf_engine e" and "sched_inv e c" and "pc c = AlwaysLoop" and "distinct is"
    and "\<And>i. i \<in> set is \<Longrightarrow> i \<in> set (ready e run_when_always c)"
  shows "acts e c (fst (skip_all e is c)) \<and>
    (snd (skip_all e is c) \<longrightarrow> (act e)\<^sup>+\<^sup>+ c (fst (skip_all e is c)))"
  using assms(2-)
proof (induction "is" arbitrary: c)
  case Nil
  then show ?case by simp
next
  case (Cons i "is")
  show ?case
  proof (cases "is_routed_away e i (xst c)")
    case True
    have i: "i \<in> set (ready e run_when_always c)" using Cons.prems by simp
    have a: "act e c (skip_node e i c)" using True i Cons.prems by (blast intro: act_skip_always)
    have "sched_inv e (skip_node e i c)" using act_sched_inv a assms(1) Cons.prems(1) by blast
    moreover have "j \<in> set (ready e run_when_always (skip_node e i c))" if "j \<in> set is" for j
      using that Cons.prems i assms(1) by (auto intro!: ready_skip)
    ultimately have "acts e (skip_node e i c) (fst (skip_all e is (skip_node e i c)))"
      using Cons.IH [of "skip_node e i c"] Cons.prems by auto
    with a have "(act e)\<^sup>+\<^sup>+ c (fst (skip_all e is (skip_node e i c)))"
      by (rule rtranclp_into_tranclp2)
    with True show ?thesis by (simp add: tranclp_into_rtranclp)
  next
    case False
    with Cons.IH [of c] Cons.prems show ?thesis by simp
  qed
qed

lemma acts_start_all:
  assumes "wf_engine e" and "sched_inv e c" and "pc c = AlwaysLoop" and "distinct is"
    and "\<And>i. i \<in> set is \<Longrightarrow> i \<in> set (ready e run_when_always c) \<and> \<not> is_routed_away e i (xst c)"
  shows "acts e c (start_all is c)"
  using assms(2-)
proof (induction "is" arbitrary: c)
  case Nil
  then show ?case by (simp add: start_all_def)
next
  case (Cons i "is")
  have a: "act e c (start i c)" using Cons.prems by (auto intro: act_start_always)
  have "sched_inv e (start i c)" using act_sched_inv a assms(1) Cons.prems(1) by blast
  moreover have "j \<in> set (ready e run_when_always (start i c))" if "j \<in> set is" for j
    using that Cons.prems by (auto intro!: ready_start)
  ultimately have "acts e (start i c) (start_all is (start i c))"
    using Cons.IH [of "start i c"] Cons.prems by auto
  with a show ?case by (simp add: start_all_def converse_rtranclp_into_rtranclp)
qed

text \<open>When nothing is running and nothing is ready, an acyclic graph has nothing left.\<close>

lemma nothing_pending:
  assumes e: "sound_engine e" and inv: "sched_inv e c" and idle: "in_flight c = {}"
    and r1: "ready e run_when_on_success c = []" and r2: "ready e run_when_always c = []"
  shows "dom (remaining (xst c)) = {}"
proof (rule ccontr)
  assume "dom (remaining (xst c)) \<noteq> {}"
  then obtain i where "i \<in> dom (remaining (xst c))" by blast
  then obtain m where m: "m \<in> dom (remaining (xst c))"
      "\<And>p. p \<in> set (edge_source e m) \<Longrightarrow> p \<notin> dom (remaining (xst c))"
    using e acyclic_minimal unfolding sound_engine_def by metis
  note ok = sched_invD(1) [OF inv]
  have len: "m < num_nodes e" using m(1) ok by (auto simp: counts_ok_def)
  obtain n where n: "remaining (xst c) m = Some n" using m(1) by blast
  have "filter (\<lambda>p. p \<in> dom (remaining (xst c))) (edge_source e m) = []"
    using m(2) by (auto simp: filter_empty_conv)
  moreover have "n = int (length (filter (\<lambda>p. p \<in> dom (remaining (xst c))) (edge_source e m)))"
    using ok n unfolding counts_ok_def by blast
  ultimately have "remaining (xst c) m = Some 0" using n by (metis list.size(3) of_nat_0)
  moreover have "run_phase e m = run_when_on_success \<or> run_phase e m = run_when_always"
    using e len by (auto simp: sound_engine_def dest: known_phasesD)
  ultimately have "m \<in> set (ready e run_when_on_success c) \<or> m \<in> set (ready e run_when_always c)"
    using len idle by (auto simp: ready_iff)
  with r1 r2 show False by simp
qed

lemma blocked_none: "dom (remaining (xst c)) = {} \<Longrightarrow> resolve_blocked_always_nodes e c = None"
  by (simp add: resolve_blocked_always_nodes_def blocked_always_nodes_def Let_def)

lemma main_loop_acts:
  assumes "wf_engine e" and "sched_inv e c" and "pc c = MainLoop"
  shows "(act e)\<^sup>+\<^sup>+ c (main_loop_step e c)"
proof -
  let ?c = "start_ready_on_success e c"
  have c: "acts e c ?c" "pc ?c = MainLoop" "ready e run_when_on_success ?c = []"
    using acts_start_ready [of e c] assms by simp_all
  have "act e ?c (main_loop_step e c)"
    using c act_phase [of ?c e] act_main_wait [of ?c e] by (simp add: main_loop_step_def Let_def)
  with c(1) show ?thesis by (rule rtranclp_into_tranclp1)
qed

lemma always_loop_acts:
  assumes e: "sound_engine e" and inv: "sched_inv e c" and pc: "pc c = AlwaysLoop"
  shows "(act e)\<^sup>+\<^sup>+ c (always_loop_step e c)"
proof -
  have wf: "wf_engine e" using e by (simp add: sound_engine_def)
  let ?c1 = "start_ready_on_success e c"
  have c1: "acts e c ?c1" "pc ?c1 = AlwaysLoop" "ready e run_when_on_success ?c1 = []"
    using acts_start_ready [OF wf inv] pc by simp_all
  have inv1: "sched_inv e ?c1" using acts_sched_inv [OF c1(1) wf inv] .
  let ?s = "skip_all e (ready e run_when_always ?c1) ?c1"
  have s: "acts e ?c1 (fst ?s)" "snd ?s \<Longrightarrow> (act e)\<^sup>+\<^sup>+ ?c1 (fst ?s)"
    using acts_skip_all [OF wf inv1 c1(2) ready_distinct] by auto
  show ?thesis
  proof (cases "snd ?s")
    case True
    then have "always_loop_step e c = (fst ?s)\<lparr>pc := AlwaysLoop\<rparr>"
      by (simp add: always_loop_step_def skip_routed_away_always_nodes_def Let_def case_prod_beta)
    also have "\<dots> = fst ?s" using c1(2) skip_all_pc [of e _ ?c1] by (intro config.equality) simp_all
    finally show ?thesis using s(2) [OF True] c1(1) by (simp add: rtranclp_tranclp_tranclp)
  next
    case False
    let ?c2 = "start_all (ready e run_when_always ?c1) ?c1"
    have s1: "fst ?s = ?c1" "\<forall>i \<in> set (ready e run_when_always ?c1). \<not> is_routed_away e i (xst ?c1)"
      using skip_all_no_skip [OF False] by auto
    have c2: "acts e ?c1 ?c2"
      using s1 by (intro acts_start_all wf inv1 c1(2) ready_distinct) auto
    have inv2: "sched_inv e ?c2" using acts_sched_inv [OF c2 wf inv1] .
    have "act e ?c2 (always_loop_step e c)"
    proof (cases "in_flight ?c2 = {}")
      case True
      have "ready e run_when_on_success ?c2 = []"
        using c1(3) by (simp add: ready_def start_all_fields filter_empty_conv)
      with True have d: "dom (remaining (xst ?c2)) = {}"
        by (intro nothing_pending [OF e inv2] ready_start_all)
      then have "always_loop_step e c = ?c2\<lparr>pc := Finished, xst := finalize_execution e (xst ?c2)\<rparr>"
        using False s1(1) True
        by (simp add: always_loop_step_def skip_routed_away_always_nodes_def Let_def case_prod_beta
            blocked_none)
      then show ?thesis using act_stop [of ?c2 e] True d c1(2) by (simp add: start_all_fields)
    next
      case False
      then have "always_loop_step e c = ?c2\<lparr>pc := AlwaysWait\<rparr>"
        using \<open>\<not> snd ?s\<close> s1(1)
        by (simp add: always_loop_step_def skip_routed_away_always_nodes_def Let_def case_prod_beta)
      then show ?thesis using act_always_wait [of ?c2 e] False c1(2) by (simp add: start_all_fields)
    qed
    with c1(1) c2 show ?thesis by (meson rtranclp_into_tranclp1 rtranclp_trans)
  qed
qed

lemma engine_step_acts:
  assumes "engine_step e c c'" and e: "sound_engine e" and inv: "sched_inv e c"
  shows "(act e)\<^sup>+\<^sup>+ c c'"
  using assms(1)
proof cases
  case step_main
  with e inv show ?thesis by (simp add: main_loop_acts sound_engine_def)
next
  case step_always
  with e inv show ?thesis by (simp add: always_loop_acts)
qed (auto intro: act.intros tranclp.r_into_trancl)

section \<open>The measure\<close>

text \<open>
  Every node pays six for waiting, four once started, three while it runs and two while its
  result is in the channel; the loop's own position pays the rest.
\<close>

definition waiting_nodes :: "engine \<Rightarrow> config \<Rightarrow> nat" where
  "waiting_nodes e c =
     length (filter (\<lambda>i. remaining (xst c) i \<noteq> None \<and> i \<notin> in_flight c) [0..<num_nodes e])"

definition gos_weight :: "goroutine list \<Rightarrow> nat" where
  "gos_weight gs = sum_list (map (\<lambda>g. if g_running g then 3 else 4) gs)"

fun pc_rank :: "pc \<Rightarrow> nat" where
  "pc_rank MainLoop = 4"
| "pc_rank MainWait = 3"
| "pc_rank AlwaysLoop = 2"
| "pc_rank AlwaysWait = 1"
| "pc_rank Finished = 0"

definition config_size :: "engine \<Rightarrow> config \<Rightarrow> nat" where
  "config_size e c = 6 * waiting_nodes e c + gos_weight (gos c) + 2 * length (done_ch c) + pc_rank (pc c)"

lemma waiting_start:
  "i < num_nodes e \<Longrightarrow> remaining (xst c) i \<noteq> None \<Longrightarrow> i \<notin> in_flight c \<Longrightarrow>
   waiting_nodes e (start i c) < waiting_nodes e c"
  unfolding waiting_nodes_def by (rule length_filter_less [of i]) auto

lemma waiting_skip:
  assumes "wf_engine e" and "sched_inv e c" and "i \<in> set (ready e phase c)"
  shows "waiting_nodes e (skip_node e i c) < waiting_nodes e c"
proof -
  have i: "remaining (xst c) i = Some 0" "i < num_nodes e" "i \<notin> in_flight c"
    using assms(3) by (auto simp: ready_iff)
  have "remaining (xst (skip_node e i c)) = complete_map e i (remaining (xst c))"
    by (simp add: complete_map_def)
  note val = this complete_map_value [OF assms(1) sched_invD(1) [OF assms(2)] i(1)]
  show ?thesis
    unfolding waiting_nodes_def by (rule length_filter_less [of i]) (use i val in \<open>auto split: if_splits\<close>)
qed

lemma waiting_complete:
  assumes "wf_engine e" and "sched_inv e c" and "remaining (xst c) i = Some 0"
    and rem: "remaining (xst c') = complete_map e i (remaining (xst c))"
    and flight: "in_flight c' = in_flight c - {i}"
  shows "waiting_nodes e c' \<le> waiting_nodes e c"
  unfolding waiting_nodes_def rem flight
  by (rule length_filter_mono)
    (use complete_map_value [OF assms(1) sched_invD(1) [OF assms(2)] assms(3)] in
      \<open>auto split: if_splits\<close>)

lemma gos_weight_update:
  assumes "k < length gs" and "\<not> g_running (gs ! k)"
  shows "gos_weight (gs[k := (gs ! k)\<lparr>g_running := True\<rparr>]) < gos_weight gs"
proof -
  obtain ys g zs where g: "gs = ys @ g # zs" "length ys = k" "g = gs ! k"
    using assms(1) by (rule split_at_index)
  have "gs[k := g\<lparr>g_running := True\<rparr>] = ys @ g\<lparr>g_running := True\<rparr> # zs"
    by (simp add: g(1,2) list_update_append)
  moreover have "\<not> g_running g" using assms(2) g(3) by simp
  ultimately show ?thesis unfolding g(3) [symmetric] by (subst (2) g(1)) (simp add: gos_weight_def)
qed

lemma gos_weight_remove:
  assumes "k < length gs"
  shows "gos_weight (take k gs @ drop (Suc k) gs) + 3 \<le> gos_weight gs"
proof -
  obtain ys g zs where "gs = ys @ g # zs" "take k gs = ys" "drop (Suc k) gs = zs"
    using assms(1) by (rule split_at_index)
  then show ?thesis by (simp add: gos_weight_def)
qed

lemma waiting_cong:
  "remaining (xst c') = remaining (xst c) \<Longrightarrow> in_flight c' = in_flight c \<Longrightarrow>
   waiting_nodes e c' = waiting_nodes e c"
  by (simp add: waiting_nodes_def)

lemma size_start:
  "i \<in> set (ready e phase c) \<Longrightarrow> config_size e (start i c) < config_size e c"
  using waiting_start [of i e c] by (auto simp: config_size_def gos_weight_def ready_iff)

lemma size_skip:
  "wf_engine e \<Longrightarrow> sched_inv e c \<Longrightarrow> i \<in> set (ready e phase c) \<Longrightarrow>
   config_size e (skip_node e i c) < config_size e c"
  using waiting_skip [of e c i phase] by (simp add: config_size_def)

lemma size_set_cause [simp]: "config_size e (set_cause e i s c) = config_size e c"
  by (simp add: config_size_def waiting_nodes_def)

lemma size_send:
  assumes "k < length (gos c)" and "gos c' = gos c" and "waiting_nodes e c' = waiting_nodes e c"
    and "done_ch c' = done_ch c" and "pc c' = pc c"
  shows "config_size e (send k nr c') < config_size e c"
  using assms gos_weight_remove [OF assms(1)] waiting_cong [of "send k nr c'" c' e]
  by (simp add: config_size_def)

lemma size_receive:
  assumes wf: "wf_engine e" and inv: "sched_inv e c" and ch: "done_ch c = nr # rest"
    and rem: "remaining (xst c') = complete_map e (rr_node nr) (remaining (xst c))"
    and flight: "in_flight c' = in_flight c - {rr_node nr}"
    and same: "gos c' = gos c" "done_ch c' = rest" "pc_rank (pc c') \<le> pc_rank (pc c) + 1"
  shows "config_size e c' < config_size e c"
proof -
  have "rr_node nr \<in> in_flight c" using sched_invD(4) [OF inv] ch by (auto simp: handles_def)
  then have "waiting_nodes e c' \<le> waiting_nodes e c"
    using waiting_complete [OF wf inv _ rem flight] sched_invD(2) [OF inv] by blast
  then show ?thesis using same ch by (simp add: config_size_def)
qed

lemma act_less:
  assumes "act e c c'" and wf: "wf_engine e" and inv: "sched_inv e c"
  shows "config_size e c' < config_size e c"
  using assms(1)
proof cases
  case (act_start i)
  then show ?thesis by (simp add: size_start)
next
  case (act_skip_failed i cause)
  with size_skip [of e "set_cause e i cause c" i run_when_on_success] wf inv show ?thesis by simp
next
  case (act_skip_dead i)
  with size_skip wf inv show ?thesis by blast
next
  case (act_start_always i)
  then show ?thesis by (simp add: size_start)
next
  case (act_skip_always i)
  with size_skip wf inv show ?thesis by blast
next
  case (act_main_receive nr rest)
  then show ?thesis by (intro size_receive [OF wf inv, of nr rest]) (simp_all add: receive_fields)
next
  case (act_always_receive nr rest)
  then show ?thesis by (intro size_receive [OF wf inv, of nr rest]) (simp_all add: receive_fields)
next
  case (act_begin k)
  then show ?thesis
    using gos_weight_update [of k "gos c"] gos_weight_remove [of k "gos c"]
    by (auto simp: go_begin_def Let_def config_size_def waiting_nodes_def split: option.splits
        intro!: size_send [unfolded config_size_def waiting_nodes_def])
next
  case (act_finish k out)
  then show ?thesis
    by (auto simp: go_finish_def Let_def waiting_nodes_def intro!: size_send)
qed (use inv in \<open>auto simp: config_size_def waiting_nodes_def dest: sched_invD(4) [symmetric]
       simp: handles_def\<close>)

lemma acts_less:
  "(act e)\<^sup>+\<^sup>+ c c' \<Longrightarrow> wf_engine e \<Longrightarrow> sched_inv e c \<Longrightarrow> config_size e c' < config_size e c"
proof (induction rule: tranclp_induct)
  case (base y)
  then show ?case by (rule act_less)
next
  case (step y z)
  then have "sched_inv e y" using acts_sched_inv tranclp_into_rtranclp by metis
  then have "config_size e z < config_size e y" using act_less step by blast
  with step show ?case by simp
qed

lemma init_size: "config_size e (init_config e inputs) \<le> 6 * num_nodes e + 4"
proof -
  have "waiting_nodes e (init_config e inputs) \<le> num_nodes e"
    unfolding waiting_nodes_def by (metis diff_zero length_filter_le length_upt)
  then show ?thesis by (simp add: config_size_def init_config_def gos_weight_def)
qed

section \<open>The interfaces discharged\<close>

text \<open>The runs the properties speak of: of a sound engine, from its initial configurations.\<close>

definition sound_start :: "engine \<Rightarrow> config \<Rightarrow> bool" where
  "sound_start e c \<longleftrightarrow> sound_engine e \<and> initial e c"

definition sound_inv :: "engine \<Rightarrow> config \<Rightarrow> bool" where
  "sound_inv e c \<longleftrightarrow> sound_engine e \<and> sched_inv e c"

definition finished :: "config \<Rightarrow> bool" where
  "finished c \<longleftrightarrow> pc c = Finished"

lemma sound_start_inv: "sound_start e c \<Longrightarrow> sound_inv e c"
  by (auto simp: sound_start_def sound_inv_def sound_engine_def initial_def init_sched_inv)

lemma sound_step_inv: "sound_inv e c \<Longrightarrow> engine_step e c c' \<Longrightarrow> sound_inv e c'"
  using engine_step_acts [of e c c'] acts_sched_inv [of e c c']
  by (simp add: sound_inv_def sound_engine_def tranclp_into_rtranclp)

lemma sound_not_stuck:
  assumes "sound_inv e c" and "\<not> finished c"
  shows "\<exists>c'. engine_step e c c'"
proof (cases "loop_pc c")
  case True
  then show ?thesis by (auto intro: engine_step.intros)
next
  case False
  with assms(2) have wait: "pc c = MainWait \<or> pc c = AlwaysWait"
    by (cases "pc c") (auto simp: finished_def)
  have inv: "sched_inv e c" using assms(1) by (simp add: sound_inv_def)
  have "handles c \<noteq> []" using sched_invD(4,10) [OF inv] wait by auto
  then consider "gos c \<noteq> []" | nr rest where "done_ch c = nr # rest"
    by (cases "done_ch c") (auto simp: handles_def)
  then show ?thesis
  proof cases
    case 1
    then have "0 < length (gos c)" by simp
    then show ?thesis by (cases "g_running (gos c ! 0)") (auto intro: step_begin step_finish)
  next
    case 2
    with wait show ?thesis by (auto intro: engine_step.intros)
  qed
qed

interpretation sched: measured_system "sound_start e" "engine_step e" "sound_inv e"
    "config_size e" finished for e
proof
  show "sound_start e s \<Longrightarrow> sound_inv e s" for s by (rule sound_start_inv)
  show "sound_inv e s \<Longrightarrow> engine_step e s t \<Longrightarrow> sound_inv e t" for s t by (rule sound_step_inv)
  show "config_size e t < config_size e s" if "sound_inv e s" "engine_step e s t" for s t
    using that engine_step_acts [of e s t] acts_less [of e s t]
    by (simp add: sound_inv_def sound_engine_def)
  show "sound_inv e s \<Longrightarrow> \<not> finished s \<Longrightarrow> \<exists>t. engine_step e s t" for s by (rule sound_not_stuck)
qed

text \<open>Reachable by the program's steps is reachable by acts, so invariants are proved on acts.\<close>

abbreviation act_reachable :: "engine \<Rightarrow> config \<Rightarrow> bool" where
  "act_reachable e \<equiv> reach (sound_start e) (act e)"

lemma acts_reach: "acts e c c' \<Longrightarrow> act_reachable e c \<Longrightarrow> act_reachable e c'"
  by (induction rule: rtranclp_induct) (auto intro: reach_step)

lemma act_reachable_inv: "act_reachable e c \<Longrightarrow> sound_inv e c"
proof (induction rule: reach.induct)
  case (reach_start s)
  then show ?case by (rule sound_start_inv)
next
  case (reach_step s t)
  then show ?case using act_sched_inv [of e s t] by (simp add: sound_inv_def sound_engine_def)
qed

lemma reachable_act_reachable:
  assumes "reachable e c" and "sound_engine e"
  shows "act_reachable e c"
  using assms
proof (induction rule: reach.induct)
  case (reach_start s)
  then show ?case by (intro reach.reach_start) (simp add: sound_start_def)
next
  case (reach_step s t)
  then have r: "act_reachable e s" by simp
  then have "(act e)\<^sup>+\<^sup>+ s t"
    using engine_step_acts reach_step act_reachable_inv [OF r] by (simp add: sound_inv_def)
  with r show ?case using acts_reach tranclp_into_rtranclp by metis
qed

lemma reachable_inv: "reachable e c \<Longrightarrow> sound_engine e \<Longrightarrow> sched_inv e c"
  using reachable_act_reachable act_reachable_inv sound_inv_def by blast

end
