(* ===== verification/Settle.thy ===== *)
theory Settle
  imports Scheduler_Inv
begin

text \<open>
  How an act changes what the execution state says about nodes: most acts leave it alone, a
  skip or a receive settles one node and touches the entries of that node's ID only. Node IDs
  are distinct here, as the flow's validation and the editor's documents have them.
\<close>

text \<open>The engines of this part.\<close>

definition named_engine :: "engine \<Rightarrow> bool" where
  "named_engine e \<longleftrightarrow> sound_engine e \<and> distinct_ids e"

definition done_node :: "engine \<Rightarrow> exec_state \<Rightarrow> nat \<Rightarrow> bool" where
  "done_node e st i \<longleftrightarrow> i < num_nodes e \<and> remaining st i = None"

text \<open>What the state says under an ID.\<close>

definition same_at :: "exec_state \<Rightarrow> exec_state \<Rightarrow> string \<Rightarrow> bool" where
  "same_at st st' nodeID \<longleftrightarrow>
     exec_results st' nodeID = exec_results st nodeID \<and>
     (nodeID \<in> failed_nodes st') = (nodeID \<in> failed_nodes st) \<and>
     (nodeID \<in> skipped_nodes st') = (nodeID \<in> skipped_nodes st) \<and>
     failure_cause st' nodeID = failure_cause st nodeID \<and>
     all_outputs st' nodeID = all_outputs st nodeID \<and>
     (nodeID \<in> routed_away st') = (nodeID \<in> routed_away st) \<and>
     (\<forall>t. ((nodeID, t) \<in> dead_edges st') = ((nodeID, t) \<in> dead_edges st))"

definition settles :: "engine \<Rightarrow> nat \<Rightarrow> exec_state \<Rightarrow> exec_state \<Rightarrow> bool" where
  "settles e i st st' \<longleftrightarrow>
     remaining st' = complete_map e i (remaining st) \<and>
     (\<forall>nodeID. nodeID \<noteq> node_id e i \<longrightarrow> same_at st st' nodeID)"

definition untouched :: "exec_state \<Rightarrow> exec_state \<Rightarrow> bool" where
  "untouched st st' \<longleftrightarrow> remaining st' = remaining st \<and> (\<forall>nodeID. same_at st st' nodeID)"

lemma same_atD:
  assumes "same_at st st' nodeID"
  shows "exec_results st' nodeID = exec_results st nodeID"
    and "nodeID \<in> failed_nodes st' \<longleftrightarrow> nodeID \<in> failed_nodes st"
    and "nodeID \<in> skipped_nodes st' \<longleftrightarrow> nodeID \<in> skipped_nodes st"
    and "failure_cause st' nodeID = failure_cause st nodeID"
    and "all_outputs st' nodeID = all_outputs st nodeID"
    and "nodeID \<in> routed_away st' \<longleftrightarrow> nodeID \<in> routed_away st"
    and "(nodeID, t) \<in> dead_edges st' \<longleftrightarrow> (nodeID, t) \<in> dead_edges st"
  using assms by (simp_all add: same_at_def)

lemma untouched_refl: "untouched st st"
  by (simp add: untouched_def same_at_def)

section \<open>The fields a skip and a receive write\<close>

lemma record_skipped_fields:
  "exec_results (record_skipped_node e i st) =
     (exec_results st)(node_id e i \<mapsto> Some (create_skipped_node_result e i None st))"
  "skipped_nodes (record_skipped_node e i st) = insert (node_id e i) (skipped_nodes st)"
  "failed_nodes (record_skipped_node e i st) = failed_nodes st"
  "failure_cause (record_skipped_node e i st) = failure_cause st"
  "all_outputs (record_skipped_node e i st) = all_outputs st"
  "final_outputs (record_skipped_node e i st) = final_outputs st"
  "dead_edges (record_skipped_node e i st) = dead_edges st"
  "res_error (record_skipped_node e i st) = res_error st"
  "res_success (record_skipped_node e i st) = res_success st"
  "observed (record_skipped_node e i st) =
     observed st @ [node_finished e i (Some (create_skipped_node_result e i None st))]"
  "routed_away (record_skipped_node e i st) =
     (if is_routed_away e i st then insert (node_id e i) (routed_away st) else routed_away st)"
  by (simp_all add: record_skipped_node_def mark_node_complete_def is_routed_away_def Let_def)

text \<open>The result a receive records, after an always node without inputs was settled as a skip.\<close>

lemma record_fields:
  fixes st :: exec_state and e :: engine
  defines "st' \<equiv> \<lambda>nr. record_on_success_results e [nr] st"
  shows "exec_results (st' nr) = (exec_results st)(node_id e (rr_node nr) \<mapsto> rr_result nr)"
    and "skipped_nodes (st' nr) = skipped_nodes st"
    and "failed_nodes (st' nr) =
      (if rr_err nr = None then failed_nodes st else insert (node_id e (rr_node nr)) (failed_nodes st))"
    and "failure_cause (st' nr) =
      (if rr_err nr = None then failure_cause st
       else (failure_cause st)(node_id e (rr_node nr) \<mapsto> node_display_name e (node_id e (rr_node nr))))"
    and "all_outputs (st' nr) =
      (case rr_result nr of None \<Rightarrow> all_outputs st
       | Some res \<Rightarrow> (all_outputs st)(node_id e (rr_node nr) \<mapsto> r_outputs res))"
    and "final_outputs (st' nr) =
      (case rr_result nr of None \<Rightarrow> final_outputs st
       | Some res \<Rightarrow> flatten_into (node_id e (rr_node nr)) (r_outputs res) (final_outputs st))"
    and "res_error (st' nr) = (if res_error st = None then rr_err nr else res_error st)"
    and "routed_away (st' nr) = routed_away st"
    and "observed (st' nr) = observed st"
    and "res_success (st' nr) = res_success st"
  unfolding st'_def record_on_success_results_def record_on_success_result_def mark_node_complete_def
    mark_node_failed_def keep_first_error_def propagate_node_outputs_def record_routing_decision_def Let_def
  by (auto split: option.splits)

lemma record_dead_edges:
  "dead_edges (record_on_success_results e [nr] st) =
     dead_edges st \<union>
     (case (rr_err nr, rr_result nr) of
        (None, Some res) \<Rightarrow>
          (case r_routed res of
             None \<Rightarrow> {}
           | Some targets \<Rightarrow>
               {(node_id e (rr_node nr), node_id e s) | s.
                  s \<in> set (edge_output e (rr_node nr)) \<and> node_id e s \<notin> set targets})
      | _ \<Rightarrow> {})"
  unfolding record_on_success_results_def record_on_success_result_def mark_node_complete_def
    mark_node_failed_def keep_first_error_def propagate_node_outputs_def record_routing_decision_def Let_def
  by (auto split: option.splits)

lemma settles_skip: "settles e i st (record_skipped_node e i st)"
  by (simp add: settles_def same_at_def record_skipped_fields complete_map_def)

lemma settles_skip_cause:
  "settles e i st (record_skipped_node e i (st\<lparr>failure_cause := (failure_cause st)(node_id e i \<mapsto> s)\<rparr>))"
  by (simp add: settles_def same_at_def record_skipped_fields complete_map_def is_routed_away_def)

lemma settles_record: "settles e (rr_node nr) st (record_on_success_results e [nr] st)"
  by (auto simp: settles_def same_at_def record_fields record_dead_edges record_on_success_remaining
      split: option.splits)

lemma settles_always:
  "settles e (rr_node nr) st
     (record_on_success_results e [fst (settle_always_skip e nr st)] (snd (settle_always_skip e nr st)))"
  by (auto simp: settles_def same_at_def record_fields record_dead_edges record_on_success_remaining
      settle_always_skip_def Let_def split: option.splits)

lemma main_receive_xst: "xst (main_receive e nr c) = record_on_success_results e [nr] (xst c)"
  by (simp add: main_receive_def)

lemma always_receive_xst:
  "xst (always_receive e nr c) =
     (if run_phase e (rr_node nr) = run_when_on_success then record_on_success_results e [nr] (xst c)
      else record_on_success_results e [fst (settle_always_skip e nr (xst c))]
        (snd (settle_always_skip e nr (xst c))))"
  by (simp add: always_receive_def record_always_results_same Let_def case_prod_beta)

lemma go_begin_untouched: "untouched (xst c) (xst (go_begin e k c))"
  by (auto simp: go_begin_def Let_def untouched_def same_at_def split: option.splits)

lemma go_finish_untouched: "untouched (xst c) (xst (go_finish e k out c))"
  by (auto simp: go_finish_def Let_def untouched_def same_at_def)

lemma finalize_untouched: "untouched st (finalize_execution e st)"
  by (simp add: finalize_execution_def untouched_def same_at_def)

section \<open>Stability\<close>

lemma settled_done:
  assumes "wf_engine e" and "sched_inv e c" and "remaining (xst c) i = Some 0" and "i < num_nodes e"
    and "settles e i (xst c) st'"
  shows "done_node e st' j \<longleftrightarrow> done_node e (xst c) j \<or> j = i"
  using assms complete_map_value [OF assms(1) sched_invD(1) [OF assms(2)] assms(3), of j]
  by (auto simp: done_node_def settles_def)

lemma settles_other:
  "settles e i st st' \<Longrightarrow> distinct_ids e \<Longrightarrow> i < num_nodes e \<Longrightarrow> j < num_nodes e \<Longrightarrow> j \<noteq> i \<Longrightarrow>
   same_at st st' (node_id e j)"
  using distinct_ids_inj [of e j i] by (auto simp: settles_def)

text \<open>A predecessor of a node that was started or is done is done.\<close>

lemma pred_done:
  assumes "wf_engine e" and "sched_inv e c" and "i < num_nodes e"
    and "done_node e (xst c) i \<or> i \<in> set (started c) \<or> remaining (xst c) i = Some 0"
    and "p \<in> set (edge_source e i)"
  shows "done_node e (xst c) p"
proof -
  have "remaining (xst c) i = None \<or> remaining (xst c) i = Some 0"
    using assms(4) sched_invD(2,8) [OF assms(2), of i] by (auto simp: done_node_def)
  then have "remaining (xst c) p = None"
    using counts_preds [OF sched_invD(1) [OF assms(2)] assms(3)] assms(5) by blast
  with wf_source_bound [OF assms(1,5)] show ?thesis by (simp add: done_node_def)
qed

end
