(* ===== verification/Containment.thy ===== *)
theory Containment
  imports Settle
begin

text \<open>
  Failures and skips: what the state says of a node that is done, of one that is running and of
  one that waits, kept by every act. A failure blocks exactly the success-phase nodes below it,
  a recorded cause leads back along edges to a node that failed, an always node is skipped by
  the scheduler only when a branch routed every path to it away, and the run's error is set
  exactly when a node failed.
\<close>

section \<open>The facts\<close>

definition caused_by :: "engine \<Rightarrow> exec_state \<Rightarrow> nat \<Rightarrow> string \<Rightarrow> bool" where
  "caused_by e st i cause \<longleftrightarrow>
     (\<exists>f. done_node e st f \<and> node_id e f \<in> failed_nodes st \<and> (f, i) \<in> (edge_rel e)\<^sup>* \<and>
          cause = node_display_name e (node_id e f))"

definition blocked :: "engine \<Rightarrow> exec_state \<Rightarrow> nat \<Rightarrow> bool" where
  "blocked e st i \<longleftrightarrow> (\<exists>p \<in> set (edge_source e i). failure_cause st (node_id e p) \<noteq> None)"

definition fresh_at :: "exec_state \<Rightarrow> string \<Rightarrow> bool" where
  "fresh_at st nodeID \<longleftrightarrow>
     nodeID \<notin> failed_nodes st \<and> nodeID \<notin> skipped_nodes st \<and> failure_cause st nodeID = None \<and>
     exec_results st nodeID = None"

definition skip_recorded :: "exec_state \<Rightarrow> string \<Rightarrow> bool" where
  "skip_recorded st nodeID \<longleftrightarrow>
     (\<exists>res reason. exec_results st nodeID = Some (Some res) \<and> r_skip_reason res = Some reason)"

definition settled_ok :: "engine \<Rightarrow> nat list \<Rightarrow> exec_state \<Rightarrow> nat \<Rightarrow> bool" where
  "settled_ok e began st i \<longleftrightarrow>
     exec_results st (node_id e i) \<noteq> None \<and>
     (node_id e i \<in> failed_nodes st \<longrightarrow> i \<in> set began \<and> failure_cause st (node_id e i) \<noteq> None) \<and>
     (\<forall>x. failure_cause st (node_id e i) = Some x \<longrightarrow> caused_by e st i x) \<and>
     (node_id e i \<in> skipped_nodes st \<longrightarrow> skip_recorded st (node_id e i)) \<and>
     (i \<notin> set began \<longrightarrow> node_id e i \<in> skipped_nodes st \<and> node_id e i \<notin> failed_nodes st) \<and>
     (run_phase e i = run_when_on_success \<longrightarrow>
        (i \<in> set began \<longrightarrow> node_id e i \<notin> skipped_nodes st \<and> \<not> blocked e st i \<and>
           (failure_cause st (node_id e i) \<noteq> None \<longrightarrow> node_id e i \<in> failed_nodes st)) \<and>
        (blocked e st i \<longrightarrow> failure_cause st (node_id e i) \<noteq> None)) \<and>
     (run_phase e i = run_when_always \<longrightarrow>
        (i \<notin> set began \<longrightarrow> is_routed_away e i st) \<and>
        (failure_cause st (node_id e i) \<noteq> None \<longrightarrow> node_id e i \<in> failed_nodes st))"

definition node_facts :: "engine \<Rightarrow> nat list \<Rightarrow> exec_state \<Rightarrow> nat \<Rightarrow> bool" where
  "node_facts e began st i \<longleftrightarrow>
     (if remaining st i = None then settled_ok e began st i
      else fresh_at st (node_id e i) \<and>
           (i \<in> set began \<and> run_phase e i = run_when_on_success \<longrightarrow> \<not> blocked e st i))"

definition facts_inv :: "engine \<Rightarrow> config \<Rightarrow> bool" where
  "facts_inv e c \<longleftrightarrow>
     (\<forall>i < num_nodes e. node_facts e (started c) (xst c) i) \<and>
     (\<forall>nodeID. nodeID \<notin> node_id e ` {..<num_nodes e} \<longrightarrow> fresh_at (xst c) nodeID) \<and>
     (res_error (xst c) = None \<longleftrightarrow> failed_nodes (xst c) = {}) \<and>
     (res_success (xst c) \<longleftrightarrow> pc c = Finished \<and> failed_nodes (xst c) = {})"

section \<open>Stability\<close>

lemma blocked_cong:
  "(\<And>p. p \<in> set (edge_source e i) \<Longrightarrow> same_at st st' (node_id e p)) \<Longrightarrow> blocked e st' i = blocked e st i"
  by (auto simp: blocked_def same_at_def)

lemma routed_cong:
  "(\<And>p. p \<in> set (edge_source e i) \<Longrightarrow> same_at st st' (node_id e p)) \<Longrightarrow>
   is_routed_away e i st' = is_routed_away e i st"
  by (auto simp: is_routed_away_def same_at_def list_all_iff)

lemma fresh_cong: "same_at st st' nodeID \<Longrightarrow> fresh_at st' nodeID = fresh_at st nodeID"
  by (simp add: fresh_at_def same_at_def)

lemma skip_recorded_cong: "same_at st st' nodeID \<Longrightarrow> skip_recorded st' nodeID = skip_recorded st nodeID"
  by (simp add: skip_recorded_def same_at_def)

lemma settled_ok_mono:
  assumes ok: "settled_ok e began st i" and same: "same_at st st' (node_id e i)"
    and preds: "\<And>p. p \<in> set (edge_source e i) \<Longrightarrow> same_at st st' (node_id e p)"
    and cause: "\<And>x. caused_by e st i x \<Longrightarrow> caused_by e st' i x"
    and began: "i \<in> set began' \<longleftrightarrow> i \<in> set began"
  shows "settled_ok e began' st' i"
proof -
  have b: "blocked e st' i = blocked e st i" by (rule blocked_cong) (rule preds)
  have r: "is_routed_away e i st' = is_routed_away e i st" by (rule routed_cong) (rule preds)
  show ?thesis
    using ok cause
    unfolding settled_ok_def began b r skip_recorded_cong [OF same] same_atD(1-4) [OF same]
    by blast
qed

lemma node_facts_untouched:
  assumes "untouched st st'" and "node_facts e began st i"
  shows "node_facts e began st' i"
proof -
  have same: "same_at st st' nodeID" "remaining st' = remaining st" for nodeID
    using assms(1) by (auto simp: untouched_def)
  have "caused_by e st i x \<Longrightarrow> caused_by e st' i x" for x
    using same by (auto simp: caused_by_def done_node_def same_at_def)
  then show ?thesis
    using assms(2) settled_ok_mono [of e began st i st' began] blocked_cong [of e i st st'] fresh_cong [OF same(1)]
    by (auto simp: node_facts_def same)
qed

lemma caused_by_settles:
  assumes "wf_engine e" and "distinct_ids e" and "sched_inv e c" and "remaining (xst c) i = Some 0"
    and "i < num_nodes e" and s: "settles e i (xst c) st'" and "caused_by e (xst c) j x"
  shows "caused_by e st' j x"
proof -
  obtain f where f: "done_node e (xst c) f" "node_id e f \<in> failed_nodes (xst c)" "(f, j) \<in> (edge_rel e)\<^sup>*"
      "x = node_display_name e (node_id e f)"
    using assms(7) unfolding caused_by_def by blast
  have "f \<noteq> i" using f(1) assms(4) by (auto simp: done_node_def)
  then have "same_at (xst c) st' (node_id e f)"
    using settles_other [OF s assms(2,5), of f] f(1) by (simp add: done_node_def)
  moreover have "done_node e st' f" using settled_done [OF assms(1,3,4,5) s] f(1) by simp
  ultimately show ?thesis using f(2-4) unfolding caused_by_def same_at_def by blast
qed

lemma node_facts_settles:
  assumes wf: "wf_engine e" and ids: "distinct_ids e" and inv: "sched_inv e c"
    and i: "remaining (xst c) i = Some 0" "i < num_nodes e"
    and s: "settles e i (xst c) st'" and j: "j < num_nodes e" "j \<noteq> i"
    and facts: "node_facts e (started c) (xst c) j"
  shows "node_facts e (started c) st' j"
proof -
  have same: "same_at (xst c) st' (node_id e j)" by (rule settles_other [OF s ids i(2) j])
  have rem: "(remaining st' j = None) = (remaining (xst c) j = None)"
    using settled_done [OF wf inv i s, of j] j by (simp add: done_node_def)
  have preds: "same_at (xst c) st' (node_id e p)"
    if "remaining (xst c) j = None \<or> j \<in> set (started c)" "p \<in> set (edge_source e j)" for p
  proof -
    have "done_node e (xst c) p"
      using that pred_done [OF wf inv j(1) _ that(2)] j(1) by (auto simp: done_node_def)
    then have "p < num_nodes e" "p \<noteq> i" using i by (auto simp: done_node_def)
    then show ?thesis by (rule settles_other [OF s ids i(2)])
  qed
  show ?thesis
  proof (cases "remaining (xst c) j = None")
    case True
    then have "settled_ok e (started c) st' j"
      using facts preds caused_by_settles [OF wf ids inv i s]
      by (intro settled_ok_mono [OF _ same]) (auto simp: node_facts_def)
    with True rem show ?thesis by (simp add: node_facts_def)
  next
    case False
    have "blocked e st' j = blocked e (xst c) j" if "j \<in> set (started c)"
      using that preds by (intro blocked_cong) blast
    moreover have "fresh_at (xst c) (node_id e j) \<and>
        (j \<in> set (started c) \<and> run_phase e j = run_when_on_success \<longrightarrow> \<not> blocked e (xst c) j)"
      using False facts unfolding node_facts_def by argo
    ultimately have "fresh_at st' (node_id e j) \<and>
        (j \<in> set (started c) \<and> run_phase e j = run_when_on_success \<longrightarrow> \<not> blocked e st' j)"
      unfolding fresh_cong [OF same] by blast
    with False rem show ?thesis unfolding node_facts_def by argo
  qed
qed

text \<open>The invariant after an act that settles node \<open>i\<close>, from the facts of that node alone.\<close>

lemma facts_settles:
  assumes wf: "wf_engine e" and ids: "distinct_ids e" and inv: "sched_inv e c" and facts: "facts_inv e c"
    and i: "remaining (xst c) i = Some 0" "i < num_nodes e" and s: "settles e i (xst c) (xst c')"
    and st: "started c' = started c" and pc: "pc c' \<noteq> Finished" "pc c \<noteq> Finished"
    and new: "settled_ok e (started c) (xst c') i"
    and err: "res_error (xst c') = None \<longleftrightarrow> failed_nodes (xst c') = {}"
    and succ: "res_success (xst c') = res_success (xst c)"
  shows "facts_inv e c'"
proof -
  have "remaining (xst c') i = None"
    using settled_done [OF wf inv i s, of i] by (simp add: done_node_def)
  with new have "node_facts e (started c') (xst c') i" by (simp add: node_facts_def st)
  moreover have "node_facts e (started c') (xst c') j" if "j < num_nodes e" "j \<noteq> i" for j
    using node_facts_settles [OF wf ids inv i s that] facts that unfolding facts_inv_def st by blast
  moreover have "fresh_at (xst c') nodeID" if "nodeID \<notin> node_id e ` {..<num_nodes e}" for nodeID
  proof -
    have "nodeID \<noteq> node_id e i" using that i(2) by auto
    then have "same_at (xst c) (xst c') nodeID" using s by (simp add: settles_def)
    with that facts show ?thesis by (simp add: facts_inv_def fresh_cong)
  qed
  ultimately show ?thesis using err succ pc facts unfolding facts_inv_def by blast
qed

section \<open>Every act keeps the facts\<close>

lemma upstream_none: "upstream_failure e i st = None \<longleftrightarrow> \<not> blocked e st i"
proof -
  have "first_cause e st ps = None \<longleftrightarrow> \<not> (\<exists>p \<in> set ps. failure_cause st (node_id e p) \<noteq> None)" for ps
    by (induction ps) (auto split: option.splits)
  then show ?thesis by (simp add: upstream_failure_def blocked_def)
qed

lemma upstream_some:
  "upstream_failure e i st = Some cause \<Longrightarrow>
   \<exists>p \<in> set (edge_source e i). failure_cause st (node_id e p) = Some cause"
proof -
  have "first_cause e st ps = Some cause \<Longrightarrow> \<exists>p \<in> set ps. failure_cause st (node_id e p) = Some cause" for ps
    by (induction ps) (auto split: option.splits)
  then show "upstream_failure e i st = Some cause \<Longrightarrow> ?thesis" by (simp add: upstream_failure_def)
qed

lemma skipped_result_reason:
  "\<exists>reason. r_skip_reason (create_skipped_node_result e i err st) = Some reason"
  by (simp add: create_skipped_node_result_def new_skipped_result_def case_prod_beta Let_def)

lemma preds_same:
  assumes "wf_engine e" and "distinct_ids e" and "sched_inv e c" and "remaining (xst c) i = Some 0"
    and "i < num_nodes e" and "settles e i (xst c) st'" and "p \<in> set (edge_source e i)"
  shows "same_at (xst c) st' (node_id e p)"
proof -
  have "done_node e (xst c) p" using pred_done [OF assms(1,3,5) _ assms(7)] assms(4) by simp
  then have "p < num_nodes e" "p \<noteq> i" using assms(4) by (auto simp: done_node_def)
  then show ?thesis by (rule settles_other [OF assms(6,2,5)])
qed

lemma caused_by_edge:
  "caused_by e st p x \<Longrightarrow> wf_engine e \<Longrightarrow> p \<in> set (edge_source e i) \<Longrightarrow> caused_by e st i x"
  unfolding caused_by_def by (metis (mono_tags, lifting) edge_rel_def mem_Collect_eq case_prodI
      rtrancl.rtrancl_into_rtrancl wf_source_iff)

lemma facts_at:
  assumes "facts_inv e c" and "i < num_nodes e"
  shows "remaining (xst c) i \<noteq> None \<Longrightarrow> fresh_at (xst c) (node_id e i)"
    and "remaining (xst c) i \<noteq> None \<Longrightarrow> i \<in> set (started c) \<Longrightarrow>
      run_phase e i = run_when_on_success \<Longrightarrow> \<not> blocked e (xst c) i"
    and "remaining (xst c) i = None \<Longrightarrow> settled_ok e (started c) (xst c) i"
  using assms unfolding facts_inv_def node_facts_def by (metis (full_types))+

lemma facts_skip:
  assumes wf: "wf_engine e" and ids: "distinct_ids e" and inv: "sched_inv e c" and facts: "facts_inv e c"
    and i: "i \<in> set (ready e phase c)" and pc: "loop_pc c"
    and st: "xst c' = record_skipped_node e i ((xst c)\<lparr>failure_cause := fc\<rparr>)"
    and fc: "fc = failure_cause (xst c) \<and> \<not> blocked e (xst c) i \<or>
      fc = failure_cause (xst c) \<and> phase = run_when_always \<and> is_routed_away e i (xst c) \<or>
      (\<exists>cause. upstream_failure e i (xst c) = Some cause \<and> phase = run_when_on_success \<and>
         fc = (failure_cause (xst c))(node_id e i \<mapsto> cause))"
    and always: "phase = run_when_always \<Longrightarrow> is_routed_away e i (xst c)"
    and same: "started c' = started c" "pc c' = pc c"
  shows "facts_inv e c'"
proof -
  have r: "remaining (xst c) i = Some 0" "i < num_nodes e" "run_phase e i = phase" "i \<notin> in_flight c"
    using i by (auto simp: ready_iff)
  have s: "settles e i (xst c) (xst c')"
    using fc settles_skip [of e i "xst c"] settles_skip_cause [of e i "xst c"] unfolding st by auto
  have fresh: "fresh_at (xst c) (node_id e i)" using facts_at(1) [OF facts r(2)] r(1) by simp
  have nst: "i \<notin> set (started c)" using sched_invD(8) [OF inv, of i] r by auto
  note p = preds_same [OF wf ids inv r(1,2) s]
  have b: "blocked e (xst c') i = blocked e (xst c) i" by (rule blocked_cong) (rule p)
  have ra: "is_routed_away e i (xst c') = is_routed_away e i (xst c)" by (rule routed_cong) (rule p)
  have cause: "caused_by e (xst c') i x" if x: "upstream_failure e i (xst c) = Some x" for x
  proof -
    obtain p where p: "p \<in> set (edge_source e i)" "failure_cause (xst c) (node_id e p) = Some x"
      using upstream_some [OF x] by blast
    have "done_node e (xst c) p" using pred_done [OF wf inv r(2) _ p(1)] r(1) by simp
    then have "caused_by e (xst c) p x"
      using facts_at(3) [OF facts, of p] p(2) by (simp add: done_node_def settled_ok_def)
    then have "caused_by e (xst c) i x" using caused_by_edge wf p(1) by blast
    then show ?thesis using caused_by_settles wf ids inv r(1,2) s by blast
  qed
  have "failure_cause (xst c') (node_id e i) = fc (node_id e i)"
    by (simp add: st record_skipped_fields)
  moreover have "settled_ok e (started c) (xst c') i"
    unfolding settled_ok_def b ra using fc always fresh nst r(3) cause skipped_result_reason
    by (auto simp: st record_skipped_fields fresh_at_def skip_recorded_def upstream_none)
  ultimately show ?thesis
    using facts pc same
    by (intro facts_settles [OF wf ids inv facts r(1,2) s])
      (auto simp: st record_skipped_fields facts_inv_def)
qed

lemma facts_receive:
  assumes wf: "wf_engine e" and ids: "distinct_ids e" and inv: "sched_inv e c" and facts: "facts_inv e c"
    and i: "i \<in> in_flight c" and pc: "pc c \<noteq> Finished" "pc c' \<noteq> Finished" and st: "started c' = started c"
    and nr: "xst c' = record_on_success_results e [nr] st0" "rr_node nr = i"
    and st0: "st0 = xst c \<or>
      (run_phase e i = run_when_always \<and> rr_err nr = None \<and>
       (\<exists>res reason obs. rr_result nr = Some res \<and> r_skip_reason res = Some reason \<and>
          st0 = (xst c)\<lparr>skipped_nodes := insert (node_id e i) (skipped_nodes (xst c)), observed := obs\<rparr>))"
  shows "facts_inv e c'"
proof -
  have began: "i \<in> set (started c)" using sched_invD(6) [OF inv] i by blast
  have r: "remaining (xst c) i = Some 0" "i < num_nodes e"
    using sched_invD(2,7) [OF inv] i began by auto
  have s: "settles e i (xst c) (xst c')"
    using st0 nr
    by (auto simp: settles_def same_at_def record_fields record_dead_edges record_on_success_remaining
        split: option.splits)
  have fresh: "fresh_at (xst c) (node_id e i)" using facts_at(1) [OF facts r(2)] r(1) by simp
  have nb: "run_phase e i = run_when_on_success \<Longrightarrow> \<not> blocked e (xst c) i"
    using facts_at(2) [OF facts r(2) _ began] r(1) by simp
  note p = preds_same [OF wf ids inv r s]
  have b: "blocked e (xst c') i = blocked e (xst c) i" by (rule blocked_cong) (rule p)
  have dn: "done_node e (xst c') i" using settled_done [OF wf inv r s] by simp
  have "caused_by e (xst c') i (node_display_name e (node_id e i))" if "rr_err nr \<noteq> None"
    using that dn nr by (auto simp: caused_by_def record_fields)
  then have "settled_ok e (started c) (xst c') i"
    unfolding settled_ok_def b using st0 nr began fresh nb
    by (auto simp: record_fields fresh_at_def skip_recorded_def split: option.splits)
  then show ?thesis
    using facts pc st0 nr
    by (intro facts_settles [OF wf ids inv facts r s st pc(2,1)])
      (auto simp: record_fields facts_inv_def)
qed

lemma facts_untouched:
  assumes "facts_inv e c" and "untouched (xst c) (xst c')" and "started c' = started c"
    and "res_error (xst c') = res_error (xst c)"
    and "res_success (xst c') \<longleftrightarrow> pc c' = Finished \<and> failed_nodes (xst c') = {}"
  shows "facts_inv e c'"
proof -
  have same: "same_at (xst c) (xst c') nodeID" for nodeID using assms(2) by (simp add: untouched_def)
  then have "failed_nodes (xst c') = failed_nodes (xst c)" by (auto simp: same_at_def)
  then show ?thesis
    using assms node_facts_untouched [OF assms(2)] fresh_cong [OF same]
    unfolding facts_inv_def by simp
qed

lemma facts_start:
  assumes inv: "sched_inv e c" and facts: "facts_inv e c" and i: "i \<in> set (ready e phase c)"
    and ok: "phase = run_when_on_success \<Longrightarrow> \<not> blocked e (xst c) i"
  shows "facts_inv e (start i c)"
proof -
  have r: "remaining (xst c) i = Some 0" "run_phase e i = phase" using i by (auto simp: ready_iff)
  have "node_facts e (started c @ [i]) (xst c) j" if "node_facts e (started c) (xst c) j" for j
  proof (cases "j = i")
    case True
    with that r ok show ?thesis by (simp add: node_facts_def)
  next
    case False
    then have "settled_ok e (started c @ [i]) (xst c) j = settled_ok e (started c) (xst c) j"
      by (simp add: settled_ok_def)
    with that False show ?thesis by (simp add: node_facts_def)
  qed
  with facts show ?thesis by (simp add: facts_inv_def)
qed

lemma act_facts:
  assumes "act e c c'" and e: "named_engine e" and inv: "sched_inv e c" and facts: "facts_inv e c"
  shows "facts_inv e c'"
proof -
  have wf: "wf_engine e" and ids: "distinct_ids e" using e by (auto simp: named_engine_def sound_engine_def)
  have succ: "\<not> res_success (xst c)" if "pc c \<noteq> Finished" using that facts by (simp add: facts_inv_def)
  from assms(1) show ?thesis
  proof cases
    case (act_start i)
    then show ?thesis using facts_start [OF inv facts] upstream_none by auto
  next
    case (act_skip_failed i cause)
    then show ?thesis
      by (intro facts_skip [OF wf ids inv facts, of i run_when_on_success]) (auto simp: skip_node_def set_cause_def)
  next
    case (act_skip_dead i)
    then show ?thesis
      by (intro facts_skip [OF wf ids inv facts, of i run_when_on_success _ "failure_cause (xst c)"])
        (auto simp: skip_node_def upstream_none)
  next
    case (act_start_always i)
    then show ?thesis using facts_start [OF inv facts, of i run_when_always] by simp
  next
    case (act_skip_always i)
    then show ?thesis
      by (intro facts_skip [OF wf ids inv facts, of i run_when_always _ "failure_cause (xst c)"])
        (auto simp: skip_node_def)
  next
    case act_main_wait
    then show ?thesis using facts succ by (intro facts_untouched [OF facts]) (auto simp: untouched_refl)
  next
    case act_always_wait
    then show ?thesis using facts succ by (intro facts_untouched [OF facts]) (auto simp: untouched_refl)
  next
    case act_phase
    then show ?thesis using facts succ by (intro facts_untouched [OF facts]) (auto simp: untouched_refl)
  next
    case act_stop
    have "res_error (finalize_execution e (xst c)) = res_error (xst c)"
      "res_success (finalize_execution e (xst c)) \<longleftrightarrow> res_error (xst c) = None"
      using act_stop by (auto simp: finalize_execution_def pending_nodes_def filter_empty_conv)
    moreover have "failed_nodes (finalize_execution e (xst c)) = failed_nodes (xst c)"
      by (simp add: finalize_execution_def)
    ultimately show ?thesis
      using act_stop facts
      by (intro facts_untouched [OF facts]) (auto simp: finalize_untouched facts_inv_def)
  next
    case (act_main_receive nr rest)
    then have "rr_node nr \<in> in_flight c" using sched_invD(4) [OF inv] by (auto simp: handles_def)
    then show ?thesis using act_main_receive
      by (intro facts_receive [OF wf ids inv facts, of "rr_node nr" _ nr "xst c"])
        (auto simp: receive_fields main_receive_xst)
  next
    case (act_always_receive nr rest)
    then have fl: "rr_node nr \<in> in_flight c" using sched_invD(4) [OF inv] by (auto simp: handles_def)
    then have "run_phase e (rr_node nr) = run_when_on_success \<or> run_phase e (rr_node nr) = run_when_always"
      using sched_invD(6,7) [OF inv] e by (auto simp: named_engine_def sound_engine_def dest: known_phasesD)
    then show ?thesis
    proof (cases "run_phase e (rr_node nr) = run_when_on_success")
      case True
      with fl act_always_receive show ?thesis
        by (intro facts_receive [OF wf ids inv facts, of "rr_node nr" _ nr "xst c"])
          (auto simp: receive_fields always_receive_xst)
    next
      case False
      then have "run_phase e (rr_node nr) = run_when_always"
        using \<open>run_phase e (rr_node nr) = run_when_on_success \<or> run_phase e (rr_node nr) = run_when_always\<close>
        by simp
      then show ?thesis using fl act_always_receive skipped_result_reason
        by (intro facts_receive [OF wf ids inv facts, of "rr_node nr" _
              "fst (settle_always_skip e nr (xst c))" "snd (settle_always_skip e nr (xst c))"])
          (auto simp: receive_fields always_receive_xst settle_always_skip_def Let_def split: option.splits)
    qed
  next
    case (act_begin k)
    have "pc (go_begin e k c) = pc c" "started (go_begin e k c) = started c"
      "res_error (xst (go_begin e k c)) = res_error (xst c)"
      "res_success (xst (go_begin e k c)) = res_success (xst c)"
      "failed_nodes (xst (go_begin e k c)) = failed_nodes (xst c)"
      by (simp_all add: go_begin_def Let_def split: option.split)
    with act_begin facts show ?thesis
      by (intro facts_untouched [OF facts]) (auto simp: go_begin_untouched facts_inv_def)
  next
    case (act_finish k out)
    have "pc (go_finish e k out c) = pc c" "started (go_finish e k out c) = started c"
      "res_error (xst (go_finish e k out c)) = res_error (xst c)"
      "res_success (xst (go_finish e k out c)) = res_success (xst c)"
      "failed_nodes (xst (go_finish e k out c)) = failed_nodes (xst c)"
      by (simp_all add: go_finish_def Let_def)
    with act_finish facts show ?thesis
      by (intro facts_untouched [OF facts]) (auto simp: go_finish_untouched facts_inv_def)
  qed
qed

lemma init_facts: "wf_engine e \<Longrightarrow> facts_inv e (init_config e inputs)"
  by (simp add: facts_inv_def init_config_def init_state_def node_facts_def fresh_at_def blocked_def wf_input)

text \<open>The facts are an invariant of the acts, together with the structural one.\<close>

definition facts_start_inv :: "engine \<Rightarrow> config \<Rightarrow> bool" where
  "facts_start_inv e c \<longleftrightarrow> named_engine e \<and> sched_inv e c \<and> facts_inv e c"

definition named_start :: "engine \<Rightarrow> config \<Rightarrow> bool" where
  "named_start e c \<longleftrightarrow> named_engine e \<and> initial e c"

interpretation facts: invariant_system "named_start e" "act e" "facts_start_inv e" for e
proof
  show "named_start e s \<Longrightarrow> facts_start_inv e s" for s
    by (auto simp: named_start_def facts_start_inv_def initial_def init_facts init_sched_inv
        named_engine_def sound_engine_def)
  show "facts_start_inv e s \<Longrightarrow> act e s t \<Longrightarrow> facts_start_inv e t" for s t
    using act_facts [of e s t] act_sched_inv [of e s t]
    by (auto simp: facts_start_inv_def named_engine_def sound_engine_def)
qed

lemma act_reach_named:
  "reach (sound_start e) (act e) c \<Longrightarrow> named_engine e \<Longrightarrow> reach (named_start e) (act e) c"
  by (induction rule: reach.induct)
    (auto simp: sound_start_def named_start_def intro: reach.intros)

lemma named_reachable:
  assumes "reachable e c" and "named_engine e"
  shows "reach (named_start e) (act e) c"
  using assms reachable_act_reachable act_reach_named by (simp add: named_engine_def)

lemma reachable_facts:
  assumes "reachable e c" and "named_engine e"
  shows "facts_inv e c" and "sched_inv e c"
  using facts.reach_inv [OF named_reachable [OF assms]] by (simp_all add: facts_start_inv_def)

end
