(* ===== verification/Dataflow.thy ===== *)
theory Dataflow
  imports Containment
begin

text \<open>
  What a node sees and what it publishes: the outputs under a node's ID are exactly those of its
  recorded result, a goroutine's snapshot agrees with the final outputs of all its predecessors,
  a node's \<open>Execute\<close> is called at most once, with inputs that validated and resolve in that
  snapshot, and the flattened final outputs are the published ones.
\<close>

section \<open>The facts\<close>

definition start_outputs :: "outputs \<Rightarrow> string \<Rightarrow> outputs option" where
  "start_outputs inputs nodeID = (if nodeID = [] then Some inputs else None)"

definition result_outputs :: "exec_state \<Rightarrow> string \<Rightarrow> outputs option" where
  "result_outputs st nodeID =
     (case exec_results st nodeID of Some (Some res) \<Rightarrow> Some (r_outputs res) | _ \<Rightarrow> None)"

definition published :: "engine \<Rightarrow> outputs \<Rightarrow> nat list \<Rightarrow> exec_state \<Rightarrow> nat \<Rightarrow> outputs option" where
  "published e inputs began st i =
     (case (if remaining st i = None \<and> i \<in> set began then result_outputs st (node_id e i) else None) of
        Some outs \<Rightarrow> Some outs
      | None \<Rightarrow> start_outputs inputs (node_id e i))"

definition view_ok :: "engine \<Rightarrow> exec_state \<Rightarrow> nat \<Rightarrow> output_store \<Rightarrow> bool" where
  "view_ok e st i view \<longleftrightarrow>
     (\<forall>p \<in> set (edge_source e i). view (node_id e p) = all_outputs st (node_id e p))"

definition call_ok :: "engine \<Rightarrow> exec_state \<Rightarrow> nat \<Rightarrow> exec_context \<Rightarrow> bool" where
  "call_ok e st i ec \<longleftrightarrow>
     view_ok e st i (ec_all_outputs ec) \<and> validate_inputs e i (ec_all_outputs ec) = None \<and>
     ec = build_execution_context e i (ec_all_outputs ec)"

definition data_inv :: "engine \<Rightarrow> outputs \<Rightarrow> config \<Rightarrow> bool" where
  "data_inv e inputs c \<longleftrightarrow>
     (\<forall>i < num_nodes e. all_outputs (xst c) (node_id e i) = published e inputs (started c) (xst c) i) \<and>
     (\<forall>g \<in> set (gos c). view_ok e (xst c) (g_node g) (g_view g)) \<and>
     (\<forall>(i, ec) \<in> set (executed c). i \<in> set (started c) \<and> call_ok e (xst c) i ec) \<and>
     distinct (map fst (executed c)) \<and>
     (\<forall>g \<in> set (gos c). \<not> g_running g \<longrightarrow> g_node g \<notin> fst ` set (executed c))"

section \<open>Stability\<close>

lemma view_ok_cong:
  "(\<And>p. p \<in> set (edge_source e i) \<Longrightarrow> same_at st st' (node_id e p)) \<Longrightarrow> view_ok e st' i view = view_ok e st i view"
  by (simp add: view_ok_def same_at_def)

lemma published_cong:
  "same_at st st' (node_id e i) \<Longrightarrow> (remaining st' i = None) = (remaining st i = None) \<Longrightarrow>
   (i \<in> set began') = (i \<in> set began) \<Longrightarrow> published e inputs began' st' i = published e inputs began st i"
  unfolding published_def result_outputs_def by (simp only: same_atD(1))

lemma data_views:
  assumes "data_inv e inputs c"
    and same: "\<And>i p. i \<in> set (started c) \<Longrightarrow> p \<in> set (edge_source e i) \<Longrightarrow>
      same_at (xst c) st' (node_id e p)"
    and "\<And>g. g \<in> set (gos c) \<Longrightarrow> g_node g \<in> set (started c)"
  shows "\<And>g. g \<in> set (gos c) \<Longrightarrow> view_ok e st' (g_node g) (g_view g)"
    and "\<And>i ec. (i, ec) \<in> set (executed c) \<Longrightarrow> i \<in> set (started c) \<and> call_ok e st' i ec"
proof -
  have v: "view_ok e st' i view = view_ok e (xst c) i view" if "i \<in> set (started c)" for i view
    by (rule view_ok_cong) (rule same [OF that])
  show "\<And>g. g \<in> set (gos c) \<Longrightarrow> view_ok e st' (g_node g) (g_view g)"
    using assms(1,3) v unfolding data_inv_def by blast
  show "\<And>i ec. (i, ec) \<in> set (executed c) \<Longrightarrow> i \<in> set (started c) \<and> call_ok e st' i ec"
    using assms(1) v unfolding data_inv_def call_ok_def by blast
qed

lemma gos_started: "sched_inv e c \<Longrightarrow> g \<in> set (gos c) \<Longrightarrow> g_node g \<in> set (started c)"
proof -
  assume inv: "sched_inv e c" and g: "g \<in> set (gos c)"
  then have "g_node g \<in> set (handles c)" by (auto simp: handles_def)
  then show ?thesis using sched_invD(4,6) [OF inv] by blast
qed

lemma data_settles:
  assumes wf: "wf_engine e" and ids: "distinct_ids e" and inv: "sched_inv e c" and data: "data_inv e inputs c"
    and i: "remaining (xst c) i = Some 0" "i < num_nodes e" and s: "settles e i (xst c) (xst c')"
    and same: "started c' = started c" "gos c' = gos c" "executed c' = executed c"
    and new: "all_outputs (xst c') (node_id e i) = published e inputs (started c) (xst c') i"
  shows "data_inv e inputs c'"
proof -
  have preds: "same_at (xst c) (xst c') (node_id e p)" if "k \<in> set (started c)" "p \<in> set (edge_source e k)" for k p
  proof -
    have "done_node e (xst c) p"
      using pred_done [OF wf inv sched_invD(7) [OF inv that(1)] _ that(2)] that(1) by blast
    then have "p < num_nodes e" "p \<noteq> i" using i by (auto simp: done_node_def)
    then show ?thesis by (rule settles_other [OF s ids i(2)])
  qed
  have v: "view_ok e (xst c') (g_node g) (g_view g)" if "g \<in> set (gos c)" for g
    using preds gos_started [OF inv] that by (intro data_views(1) [OF data]) blast+
  have x: "i \<in> set (started c) \<and> call_ok e (xst c') i ec" if "(i, ec) \<in> set (executed c)" for i ec
    using preds gos_started [OF inv] that by (intro data_views(2) [OF data]) blast+
  have "all_outputs (xst c') (node_id e j) = published e inputs (started c) (xst c') j" if j: "j < num_nodes e" for j
  proof (cases "j = i")
    case True
    then show ?thesis using new by simp
  next
    case False
    have same: "same_at (xst c) (xst c') (node_id e j)" by (rule settles_other [OF s ids i(2) j False])
    have "(remaining (xst c') j = None) = (remaining (xst c) j = None)"
      using settled_done [OF wf inv i s, of j] j False by (simp add: done_node_def)
    then have "published e inputs (started c) (xst c') j = published e inputs (started c) (xst c) j"
      by (rule published_cong [OF same _ refl])
    moreover have "all_outputs (xst c) (node_id e j) = published e inputs (started c) (xst c) j"
      using data j by (simp add: data_inv_def)
    ultimately show ?thesis using same by (simp add: same_at_def)
  qed
  moreover have "distinct (map fst (executed c))"
    "\<forall>g \<in> set (gos c). \<not> g_running g \<longrightarrow> g_node g \<notin> fst ` set (executed c)"
    using data unfolding data_inv_def by blast+
  ultimately show ?thesis unfolding data_inv_def same using v x by blast
qed

lemma data_untouched:
  assumes data: "data_inv e inputs c" and u: "untouched (xst c) (xst c')"
    and same: "started c' = started c"
    and gos: "\<And>g. g \<in> set (gos c') \<Longrightarrow> \<exists>g0 \<in> set (gos c). g_node g = g_node g0 \<and> g_view g = g_view g0"
    and ex: "\<And>i ec. (i, ec) \<in> set (executed c') \<Longrightarrow> (i, ec) \<in> set (executed c) \<or>
      (i \<in> set (started c) \<and> call_ok e (xst c) i ec)"
    and d: "distinct (map fst (executed c'))"
    and r: "\<And>g. g \<in> set (gos c') \<Longrightarrow> \<not> g_running g \<Longrightarrow> g_node g \<notin> fst ` set (executed c')"
  shows "data_inv e inputs c'"
proof -
  have st: "same_at (xst c) (xst c') nodeID" "remaining (xst c') = remaining (xst c)" for nodeID
    using u by (auto simp: untouched_def)
  have p: "published e inputs (started c') (xst c') i = published e inputs (started c) (xst c) i" for i
    by (rule published_cong [OF st(1)]) (simp_all add: st(2) same)
  have v: "view_ok e (xst c') i view = view_ok e (xst c) i view" for i view
    by (rule view_ok_cong) (rule st(1))
  have a: "all_outputs (xst c') = all_outputs (xst c)" using st(1) by (auto simp: same_at_def)
  have "\<forall>i < num_nodes e. all_outputs (xst c') (node_id e i) = published e inputs (started c') (xst c') i"
    unfolding p a using data by (simp add: data_inv_def)
  moreover have "\<forall>g \<in> set (gos c'). view_ok e (xst c') (g_node g) (g_view g)"
    unfolding v using gos data unfolding data_inv_def by metis
  moreover have "i \<in> set (started c') \<and> call_ok e (xst c') i ec" if "(i, ec) \<in> set (executed c')" for i ec
    unfolding call_ok_def v same using ex [OF that] data unfolding data_inv_def call_ok_def by blast
  ultimately show ?thesis unfolding data_inv_def using d r by blast
qed

section \<open>Every act keeps the facts\<close>

lemma data_skip:
  assumes wf: "wf_engine e" and ids: "distinct_ids e" and inv: "sched_inv e c" and data: "data_inv e inputs c"
    and i: "i \<in> set (ready e phase c)"
    and st: "xst c' = record_skipped_node e i ((xst c)\<lparr>failure_cause := fc\<rparr>)"
    and s: "settles e i (xst c) (xst c')"
    and same: "started c' = started c" "gos c' = gos c" "executed c' = executed c"
  shows "data_inv e inputs c'"
proof -
  have r: "remaining (xst c) i = Some 0" "i < num_nodes e" "i \<notin> in_flight c"
    using i by (auto simp: ready_iff)
  have "i \<notin> set (started c)" using sched_invD(8) [OF inv, of i] r by auto
  moreover have "all_outputs (xst c) (node_id e i) = published e inputs (started c) (xst c) i"
    using data r(2) by (simp add: data_inv_def)
  ultimately have "all_outputs (xst c') (node_id e i) = published e inputs (started c) (xst c') i"
    by (simp add: st record_skipped_fields published_def)
  then show ?thesis by (rule data_settles [OF wf ids inv data r(1,2) s same])
qed

lemma data_receive:
  assumes wf: "wf_engine e" and ids: "distinct_ids e" and inv: "sched_inv e c" and data: "data_inv e inputs c"
    and i: "i \<in> in_flight c" and s: "settles e i (xst c) (xst c')"
    and nr: "xst c' = record_on_success_results e [nr] st0" "rr_node nr = i"
    and st0: "all_outputs st0 = all_outputs (xst c)"
    and same: "started c' = started c" "gos c' = gos c" "executed c' = executed c"
  shows "data_inv e inputs c'"
proof -
  have began: "i \<in> set (started c)" using sched_invD(6) [OF inv] i by blast
  have r: "remaining (xst c) i = Some 0" "i < num_nodes e"
    using sched_invD(2,7) [OF inv] i began by auto
  have "remaining (xst c') i = None"
    using settled_done [OF wf inv r s, of i] by (simp add: done_node_def)
  moreover have "all_outputs (xst c) (node_id e i) = published e inputs (started c) (xst c) i"
    using data r(2) by (simp add: data_inv_def)
  then have "all_outputs (xst c) (node_id e i) = start_outputs inputs (node_id e i)"
    using r(1) by (simp add: published_def)
  ultimately have "all_outputs (xst c') (node_id e i) = published e inputs (started c) (xst c') i"
    using began nr st0 by (simp add: record_fields published_def result_outputs_def split: option.split)
  then show ?thesis by (rule data_settles [OF wf ids inv data r s same])
qed

lemma data_start:
  assumes inv: "sched_inv e c" and data: "data_inv e inputs c" and i: "i \<in> set (ready e phase c)"
  shows "data_inv e inputs (start i c)"
proof -
  have r: "remaining (xst c) i = Some 0" "i \<notin> in_flight c" using i by (auto simp: ready_iff)
  have nst: "i \<notin> set (started c)" using sched_invD(8) [OF inv, of i] r by auto
  have "published e inputs (started c @ [i]) (xst c) j = published e inputs (started c) (xst c) j" for j
    by (cases "j = i") (simp_all add: published_def r(1))
  moreover have "i \<notin> fst ` set (executed c)" using nst data by (auto simp: data_inv_def)
  moreover have "view_ok e (xst c) i (all_outputs (xst c))" by (simp add: view_ok_def)
  moreover have "\<forall>(k, ec) \<in> set (executed c). k \<in> set (started c @ [i]) \<and> call_ok e (xst c) k ec"
    using data by (auto simp: data_inv_def)
  ultimately show ?thesis using data by (simp add: data_inv_def)
qed

lemma data_begin:
  assumes inv: "sched_inv e c" and data: "data_inv e inputs c" and k: "k < length (gos c)" "\<not> g_running (gos c ! k)"
  shows "data_inv e inputs (go_begin e k c)"
proof -
  let ?g = "gos c ! k"
  have g: "?g \<in> set (gos c)" using k by simp
  have dist: "distinct (map g_node (gos c))" using sched_invD(3) [OF inv] by (simp add: handles_def)
  have fresh: "g_node ?g \<notin> fst ` set (executed c)" using data g k(2) by (auto simp: data_inv_def)
  show ?thesis
  proof (cases "validate_inputs e (g_node ?g) (g_view ?g)")
    case (Some err)
    have "set (gos (go_begin e k c)) \<subseteq> set (gos c)" "executed (go_begin e k c) = executed c"
      using Some by (auto simp: go_begin_def Let_def dest: in_set_takeD in_set_dropD)
    moreover have "started (go_begin e k c) = started c" using Some by (simp add: go_begin_def Let_def)
    ultimately show ?thesis using data
      by (intro data_untouched [OF data go_begin_untouched]) (auto simp: data_inv_def)
  next
    case None
    let ?ec = "build_execution_context e (g_node ?g) (g_view ?g)"
    have b: "gos (go_begin e k c) = (gos c)[k := ?g\<lparr>g_running := True\<rparr>]"
      "executed (go_begin e k c) = executed c @ [(g_node ?g, ?ec)]" "started (go_begin e k c) = started c"
      using None by (simp_all add: go_begin_def Let_def)
    have other: "h \<in> set (gos c) \<and> g_node h \<noteq> g_node ?g"
      if h: "h \<in> set ((gos c)[k := ?g\<lparr>g_running := True\<rparr>])" "\<not> g_running h" for h
    proof -
      obtain j where j0: "j < length ((gos c)[k := ?g\<lparr>g_running := True\<rparr>])"
          "(gos c)[k := ?g\<lparr>g_running := True\<rparr>] ! j = h"
        using h(1) unfolding in_set_conv_nth by blast
      have jk: "j \<noteq> k"
      proof
        assume "j = k"
        then have "h = ?g\<lparr>g_running := True\<rparr>" using j0(2) k(1) by simp
        with h(2) show False by simp
      qed
      with j0 have j: "j < length (gos c)" "gos c ! j = h" by simp_all
      then have "g_node h \<noteq> g_node ?g" using jk k(1) nth_eq_iff_index_eq [OF dist, of j k] by simp
      then show ?thesis using j nth_mem by blast
    qed
    have "call_ok e (xst c) (g_node ?g) ?ec"
      using data g None by (auto simp: call_ok_def build_execution_context_def data_inv_def)
    moreover have "g_node ?g \<in> set (started c)" by (rule gos_started [OF inv g])
    moreover have "\<exists>g0 \<in> set (gos c). g_node h = g_node g0 \<and> g_view h = g_view g0"
      if h: "h \<in> set ((gos c)[k := ?g\<lparr>g_running := True\<rparr>])" for h
    proof -
      have "h = ?g\<lparr>g_running := True\<rparr> \<or> h \<in> set (gos c)" using h set_update_subset_insert by fastforce
      then show ?thesis using g by auto
    qed
    ultimately show ?thesis
      using data fresh other
      by (intro data_untouched [OF data go_begin_untouched]) (auto simp: b data_inv_def)
  qed
qed

lemma data_finish:
  assumes data: "data_inv e inputs c" and k: "k < length (gos c)"
  shows "data_inv e inputs (go_finish e k out c)"
proof -
  have "set (gos (go_finish e k out c)) \<subseteq> set (gos c)" "executed (go_finish e k out c) = executed c"
    "started (go_finish e k out c) = started c"
    by (auto simp: go_finish_def Let_def dest: in_set_takeD in_set_dropD)
  then show ?thesis using data
    by (intro data_untouched [OF data go_finish_untouched]) (auto simp: data_inv_def)
qed

lemma act_data:
  assumes "act e c c'" and e: "named_engine e" and inv: "sched_inv e c" and data: "data_inv e inputs c"
  shows "data_inv e inputs c'"
proof -
  have wf: "wf_engine e" and ids: "distinct_ids e" using e by (auto simp: named_engine_def sound_engine_def)
  have quiet: "data_inv e inputs c'" if "untouched (xst c) (xst c')" "started c' = started c"
    "gos c' = gos c" "executed c' = executed c"
    using that data by (intro data_untouched [OF data]) (auto simp: data_inv_def)
  have fl: "rr_node nr \<in> in_flight c" if "done_ch c = nr # rest" for nr rest
    using that sched_invD(4) [OF inv] by (auto simp: handles_def)
  from assms(1) show ?thesis
  proof cases
    case (act_skip_failed i cause)
    then show ?thesis using settles_skip_cause [of e i "xst c" cause]
      by (intro data_skip [OF wf ids inv data]) (auto simp: skip_node_def set_cause_def)
  next
    case (act_skip_dead i)
    then show ?thesis using settles_skip [of e i "xst c"]
      by (intro data_skip [OF wf ids inv data, of i _ _ "failure_cause (xst c)"]) (auto simp: skip_node_def)
  next
    case (act_skip_always i)
    then show ?thesis using settles_skip [of e i "xst c"]
      by (intro data_skip [OF wf ids inv data, of i _ _ "failure_cause (xst c)"]) (auto simp: skip_node_def)
  next
    case (act_main_receive nr rest)
    then show ?thesis using settles_record [of e nr "xst c"]
      by (intro data_receive [OF wf ids inv data, of "rr_node nr" _ nr "xst c"])
        (auto simp: receive_fields main_receive_xst fl)
  next
    case (act_always_receive nr rest)
    have "all_outputs (snd (settle_always_skip e nr (xst c))) = all_outputs (xst c)"
      by (simp add: settle_always_skip_def Let_def split: option.splits)
    then show ?thesis
      using settles_record [of e nr "xst c"] settles_always [of e nr "xst c"] act_always_receive
      by (cases "run_phase e (rr_node nr) = run_when_on_success")
        (auto simp: receive_fields always_receive_xst fl intro!: data_receive [OF wf ids inv data])
  next
    case (act_start i)
    then show ?thesis using data_start [OF inv data] by blast
  next
    case (act_start_always i)
    then show ?thesis using data_start [OF inv data] by blast
  next
    case act_main_wait
    show ?thesis by (rule quiet) (simp_all add: act_main_wait untouched_refl)
  next
    case act_always_wait
    show ?thesis by (rule quiet) (simp_all add: act_always_wait untouched_refl)
  next
    case act_phase
    show ?thesis by (rule quiet) (simp_all add: act_phase untouched_refl)
  next
    case act_stop
    show ?thesis by (rule quiet) (simp_all add: act_stop finalize_untouched)
  next
    case (act_begin k)
    then show ?thesis using data_begin [OF inv data] by blast
  next
    case (act_finish k out)
    then show ?thesis using data_finish [OF data] by blast
  qed
qed

definition data_start_inv :: "engine \<Rightarrow> outputs \<Rightarrow> config \<Rightarrow> bool" where
  "data_start_inv e inputs c \<longleftrightarrow> named_engine e \<and> sched_inv e c \<and> facts_inv e c \<and> data_inv e inputs c"

interpretation data: invariant_system "\<lambda>c. named_engine e \<and> c = init_config e inputs" "act e"
    "data_start_inv e inputs" for e inputs
proof
  fix s
  assume s: "named_engine e \<and> s = init_config e inputs"
  then have "wf_engine e" by (simp add: named_engine_def sound_engine_def)
  moreover from this have "data_inv e inputs (init_config e inputs)"
    by (simp add: data_inv_def init_config_def init_state_def published_def start_outputs_def)
  ultimately show "data_start_inv e inputs s"
    using s by (simp add: data_start_inv_def init_sched_inv init_facts)
next
  fix s t
  show "data_start_inv e inputs s \<Longrightarrow> act e s t \<Longrightarrow> data_start_inv e inputs t"
    using act_facts [of e s t] act_sched_inv [of e s t] act_data [of e s t inputs]
    by (auto simp: data_start_inv_def named_engine_def sound_engine_def)
qed

text \<open>The configurations of the runs with given initial inputs.\<close>

definition run_reaches :: "engine \<Rightarrow> outputs \<Rightarrow> config \<Rightarrow> bool" where
  "run_reaches e inputs c \<longleftrightarrow> (\<exists>n. run_of (engine_step e) (init_config e inputs) n c)"

lemma run_of_acts:
  "run_of (engine_step e) c n c' \<Longrightarrow> sound_engine e \<Longrightarrow> sched_inv e c \<Longrightarrow> acts e c c'"
proof (induction rule: run_of.induct)
  case (run_nil s)
  then show ?case by simp
next
  case (run_cons s t n u)
  then have "(act e)\<^sup>+\<^sup>+ s t" by (blast intro: engine_step_acts)
  moreover from this have "sched_inv e t"
    using acts_sched_inv run_cons.prems tranclp_into_rtranclp sound_engine_def by metis
  ultimately show ?case using run_cons by (meson rtranclp_trans tranclp_into_rtranclp)
qed

lemma acts_reach_from: "acts e c c' \<Longrightarrow> reach S (act e) c \<Longrightarrow> reach S (act e) c'"
  by (induction rule: rtranclp_induct) (auto intro: reach_step)

lemma run_invariants:
  assumes "run_reaches e inputs c" and e: "named_engine e"
  shows "sched_inv e c" and "facts_inv e c" and "data_inv e inputs c"
proof -
  have wf: "wf_engine e" "sound_engine e" using e by (auto simp: named_engine_def sound_engine_def)
  obtain n where "run_of (engine_step e) (init_config e inputs) n c"
    using assms(1) by (auto simp: run_reaches_def)
  then have "acts e (init_config e inputs) c"
    using run_of_acts wf init_sched_inv by blast
  then have "reach (\<lambda>c. named_engine e \<and> c = init_config e inputs) (act e) c"
    by (rule acts_reach_from) (simp add: reach_start e)
  then have "data_start_inv e inputs c" by (rule data.reach_inv)
  then show "sched_inv e c" and "facts_inv e c" and "data_inv e inputs c"
    by (simp_all add: data_start_inv_def)
qed

end
