(* ===== verification/Demo.thy ===== *)
theory Demo
  imports Dataflow
begin

text \<open>
  Concrete flows and runs: a flow whose check fails beside an independent step and a cleanup,
  and the executable step function driven through whole runs of it. They show that the
  hypotheses of the properties can hold.
\<close>

definition demo_node :: "string \<Rightarrow> kind \<Rightarrow> string \<Rightarrow> string list \<Rightarrow> flow_node" where
  "demo_node nodeID k phase inputs =
     \<lparr>n_id = nodeID, n_display_name = [], n_type = k, n_run_when = phase,
      n_input_schema = inputs, n_output_schema = []\<rparr>"

definition demo_edge :: "string \<Rightarrow> string \<Rightarrow> flow_edge" where
  "demo_edge s t = \<lparr>e_id = s @ t, e_source = s, e_target = t, e_type = TypeSuccess\<rparr>"

definition cleanup_flow :: flow where
  "cleanup_flow =
     \<lparr>f_name = ''f'', f_description = [], f_version = ''1'',
      f_nodes = [demo_node ''a'' KindRequest [] [], demo_node ''b'' KindAssert [] [''a.id''],
                 demo_node ''c'' KindRequest [] [], demo_node ''d'' KindRequest ''always'' [''a.id''],
                 demo_node ''o'' KindDelay [] []],
      f_edges = [demo_edge ''a'' ''b'', demo_edge ''b'' ''c'', demo_edge ''b'' ''d''],
      f_initial_inputs = Map.empty\<rparr>"

definition built :: "flow \<Rightarrow> engine" where
  "built fl = projr (new_flow_engine fl)"

definition demo_result :: "engine \<Rightarrow> nat \<Rightarrow> outputs \<Rightarrow> exec_result" where
  "demo_result e i outs =
     \<lparr>r_node_id = node_id e i, r_display_name = [], r_node_type = n_type (node_at e i),
      r_run_when = run_phase e i, r_inputs = Map.empty, r_outputs = outs, r_error = None,
      r_error_code = None, r_error_msg = None, r_skip_reason = None, r_missing_inputs = [],
      r_routed = None\<rparr>"

text \<open>Node a publishes an id, node b fails, the others succeed.\<close>

definition cleanup_run :: "action list" where
  "cleanup_run =
     (let e = built cleanup_flow in
      [Move, Begin 0, Finish 0 (Returned (demo_result e 0 [''id'' \<mapsto> GStr ''7''])), Receive, Move,
       Begin 0, Begin 1, Finish 1 (Erred None (PlainError ''no'')), Receive, Move,
       Finish 0 (Returned (demo_result e 4 Map.empty)), Receive, Move,
       Move, Begin 0, Finish 0 (Returned (demo_result e 3 Map.empty)), Receive, Move])"

definition run_demo :: "flow \<Rightarrow> action list \<Rightarrow> config" where
  "run_demo fl as = the (perform_all (built fl) as (init_config (built fl) Map.empty))"

lemma built_eq: "\<not> isl (new_flow_engine fl) \<Longrightarrow> new_flow_engine fl = Inr (built fl)"
  by (simp add: built_def)

lemma named_engineI:
  assumes "\<not> isl (new_flow_engine fl)" and "forward_edges (built fl)" and "known_phases (built fl)"
    and "distinct_ids (built fl)"
  shows "named_engine (built fl)"
  using new_flow_engine_wf_nodes [OF built_eq [OF assms(1)]] forward_acyclic assms(2-4)
  by (simp add: named_engine_def sound_engine_def)

lemma perform_all_run:
  "perform_all e as c = Some c' \<Longrightarrow> \<exists>n. run_of (engine_step e) c n c'"
proof (induction e as c rule: perform_all.induct)
  case (1 e c)
  then show ?case by (auto intro: run_of.run_nil)
next
  case (2 e a as c)
  then obtain c1 where c1: "perform e a c = Some c1" "perform_all e as c1 = Some c'"
    by (auto split: option.splits)
  then obtain n where "run_of (engine_step e) c1 n c'" using "2.IH" by blast
  with perform_step [OF c1(1)] show ?case by (blast intro: run_of.run_cons)
qed

lemma run_demo_reaches:
  assumes "perform_all (built fl) as (init_config (built fl) Map.empty) \<noteq> None"
  shows "reachable (built fl) (run_demo fl as)" and "run_reaches (built fl) Map.empty (run_demo fl as)"
proof -
  have "perform_all (built fl) as (init_config (built fl) Map.empty) = Some (run_demo fl as)"
    using assms by (auto simp: run_demo_def)
  then show "reachable (built fl) (run_demo fl as)" "run_reaches (built fl) Map.empty (run_demo fl as)"
    by (auto simp: run_reaches_def intro: perform_all_reachable init_reachable dest: perform_all_run)
qed

lemma cleanup_named: "named_engine (built cleanup_flow)"
  by (rule named_engineI; code_simp)

lemma cleanup_reached:
  "perform_all (built cleanup_flow) cleanup_run (init_config (built cleanup_flow) Map.empty) \<noteq> None"
  by code_simp

lemma cleanup_finished: "pc (run_demo cleanup_flow cleanup_run) = Finished"
  by code_simp

lemma cleanup_states:
  "failed_nodes (xst (run_demo cleanup_flow cleanup_run)) = {''b''}"
  "skipped_nodes (xst (run_demo cleanup_flow cleanup_run)) = {''c''}"
  "started (run_demo cleanup_flow cleanup_run) = [0, 4, 1, 3]"
  by code_simp+

lemmas cleanup_demo = run_demo_reaches [OF cleanup_reached] cleanup_finished cleanup_states

end
