(* ===== verification/Phases.thy ===== *)
theory Phases
  imports Demo
begin

text \<open>
  The order of the two phases: the cleanup phase begins when every node that no always node
  leads to is complete, and it never starts one of those again.
\<close>

definition after_always :: "engine \<Rightarrow> nat \<Rightarrow> bool" where
  "after_always e i \<longleftrightarrow> (\<exists>a. run_phase e a = run_when_always \<and> a < num_nodes e \<and> (a, i) \<in> (edge_rel e)\<^sup>*)"

definition phase_inv :: "engine \<Rightarrow> config \<Rightarrow> bool" where
  "phase_inv e c \<longleftrightarrow>
     (pc c \<noteq> MainLoop \<and> pc c \<noteq> MainWait \<longrightarrow>
        (\<forall>i < num_nodes e. \<not> after_always e i \<longrightarrow> remaining (xst c) i = None))"

lemma goroutine_pc [simp]: "pc (go_begin e k c) = pc c" "pc (go_finish e k out c) = pc c"
  by (simp_all add: go_begin_def go_finish_def Let_def split: option.split)

lemma after_always_pred:
  "wf_engine e \<Longrightarrow> p \<in> set (edge_source e i) \<Longrightarrow> after_always e p \<Longrightarrow> after_always e i"
  unfolding after_always_def
  by (metis (mono_tags, lifting) edge_rel_def mem_Collect_eq case_prodI rtrancl.rtrancl_into_rtrancl
      wf_source_iff)

lemma act_done_mono:
  assumes "act e c c'" and wf: "wf_engine e" and inv: "sched_inv e c" and i: "remaining (xst c) i = None"
  shows "remaining (xst c') i = None"
proof -
  have none: "complete_map e j (remaining (xst c)) i = None" if "remaining (xst c) j = Some 0" for j
    using complete_map_value [OF wf sched_invD(1) [OF inv] that] i by simp
  have fl: "remaining (xst c) (rr_node nr) = Some 0" if "done_ch c = nr # rest" for nr rest
    using that sched_invD(2,4) [OF inv] by (auto simp: handles_def)
  from assms(1) show ?thesis
  proof cases
    case (act_main_receive nr rest)
    then show ?thesis using none [OF fl] by (simp add: receive_fields)
  next
    case (act_always_receive nr rest)
    then show ?thesis using none [OF fl] by (simp add: receive_fields)
  next
    case (act_begin k)
    then show ?thesis using i go_begin_untouched [of c e k] by (simp add: untouched_def)
  next
    case (act_finish k out)
    then show ?thesis using i go_finish_untouched [of c e k out] by (simp add: untouched_def)
  qed (use i none in \<open>auto simp: complete_map_def ready_iff\<close>)
qed

lemma phase_start:
  assumes e: "sound_engine e" and inv: "sched_inv e c" and idle: "in_flight c = {}"
    and r: "ready e run_when_on_success c = []" and i: "i < num_nodes e" "\<not> after_always e i"
  shows "remaining (xst c) i = None"
proof (rule ccontr)
  have wf: "wf_engine e" and ac: "acyclic (edge_rel e)" using e by (auto simp: sound_engine_def)
  note ok = sched_invD(1) [OF inv]
  let ?A = "{j. remaining (xst c) j \<noteq> None \<and> \<not> after_always e j}"
  assume "remaining (xst c) i \<noteq> None"
  then have "i \<in> ?A" using i by simp
  then have "\<exists>m \<in> ?A. \<forall>p \<in> set (edge_source e m). p \<notin> ?A"
    by (rule acyclic_minimal [OF wf ac]) (rule bexI, rule ballI)
  then obtain m where m: "m \<in> ?A" "\<And>p. p \<in> set (edge_source e m) \<Longrightarrow> p \<notin> ?A" by blast
  have len: "m < num_nodes e" using m(1) ok by (auto simp: counts_ok_def)
  have "remaining (xst c) p = None" if "p \<in> set (edge_source e m)" for p
  proof -
    have "\<not> after_always e p" using m(1) after_always_pred [OF wf that] by blast
    then show ?thesis using m(2) [OF that] by simp
  qed
  then have "filter (\<lambda>p. p \<in> dom (remaining (xst c))) (edge_source e m) = []"
    by (auto simp: filter_empty_conv)
  moreover obtain n where n: "remaining (xst c) m = Some n" using m(1) by auto
  moreover have "n = int (length (filter (\<lambda>p. p \<in> dom (remaining (xst c))) (edge_source e m)))"
    using ok n unfolding counts_ok_def by blast
  ultimately have zero: "remaining (xst c) m = Some 0" by (metis list.size(3) of_nat_0)
  have "run_phase e m \<noteq> run_when_always"
    using m(1) len by (auto simp: after_always_def)
  then have "run_phase e m = run_when_on_success"
    using e len by (auto simp: sound_engine_def dest: known_phasesD)
  then have "m \<in> set (ready e run_when_on_success c)" using zero len idle by (simp add: ready_iff)
  with r show False by simp
qed

lemma act_phase_inv:
  assumes "act e c c'" and e: "sound_engine e" and inv: "sched_inv e c" and ph: "phase_inv e c"
  shows "phase_inv e c'"
proof (cases "pc c = MainLoop \<and> pc c' = AlwaysLoop")
  case True
  from assms(1) True show ?thesis
  proof cases
    case act_phase
    then show ?thesis using phase_start [OF e inv] by (simp add: phase_inv_def)
  qed (auto simp: receive_fields)
next
  case False
  have "pc c \<noteq> MainLoop \<and> pc c \<noteq> MainWait" if "pc c' \<noteq> MainLoop \<and> pc c' \<noteq> MainWait"
    using assms(1) False that
    by cases (auto simp: receive_fields)
  then show ?thesis
    using ph act_done_mono [OF assms(1) _ inv] e unfolding phase_inv_def sound_engine_def by blast
qed

definition phase_start_inv :: "engine \<Rightarrow> config \<Rightarrow> bool" where
  "phase_start_inv e c \<longleftrightarrow> sound_engine e \<and> sched_inv e c \<and> phase_inv e c"

interpretation phases: invariant_system "sound_start e" "act e" "phase_start_inv e" for e
proof
  show "sound_start e s \<Longrightarrow> phase_start_inv e s" for s
    using init_sched_inv
    by (auto simp: sound_start_def phase_start_inv_def sound_engine_def initial_def phase_inv_def)
      (simp_all add: init_config_def)
  show "phase_start_inv e s \<Longrightarrow> act e s t \<Longrightarrow> phase_start_inv e t" for s t
    using act_sched_inv [of e s t] act_phase_inv [of e s t]
    by (auto simp: phase_start_inv_def sound_engine_def)
qed

lemma reachable_phase: "reachable e c \<Longrightarrow> sound_engine e \<Longrightarrow> phase_inv e c"
  using reachable_act_reachable phases.reach_inv phase_start_inv_def by blast

end
