(* ===== verification/Engine_Props.thy ===== *)
theory Engine_Props
  imports Phases
begin

text \<open>
  The properties of the flow scheduler, for every interleaving of the scheduler loop with the
  nodes' goroutines and for every result a node may return. \<open>sound_engine\<close> is a graph built by
  \<open>NewFlowEngine\<close>, acyclic, whose nodes run in one of the two known phases; \<open>named_engine\<close> adds
  that node IDs are distinct.
\<close>

section \<open>Shared facts\<close>

lemma finished_done:
  assumes "sched_inv e c" and "pc c = Finished"
  shows "remaining (xst c) i = None"
  using sched_invD(12) [OF assms] by (auto simp: dom_def)

lemma finished_settled:
  assumes "reachable e c" and "named_engine e" and "pc c = Finished" and "i < num_nodes e"
  shows "settled_ok e (started c) (xst c) i"
  by (rule facts_at(3) [OF reachable_facts(1) [OF assms(1,2)] assms(4)])
    (rule finished_done [OF reachable_facts(2) [OF assms(1,2)] assms(3)])

lemma named_sound: "named_engine e \<Longrightarrow> sound_engine e"
  by (simp add: named_engine_def)

text \<open>A path of which every node after the first runs in the success phase.\<close>

definition success_path :: "engine \<Rightarrow> (nat \<times> nat) set" where
  "success_path e = {(p, q). (p, q) \<in> edge_rel e \<and> run_phase e q = run_when_on_success}\<^sup>+"

lemma blocked_along:
  assumes "reachable e c" and "named_engine e" and "pc c = Finished" and f: "node_id e f \<in> failed_nodes (xst c)"
    and "(f, i) \<in> success_path e"
  shows "failure_cause (xst c) (node_id e i) \<noteq> None \<and> i \<notin> set (started c)"
  using assms(5) unfolding success_path_def
proof (induction rule: trancl_induct)
  case (base i)
  have wf: "wf_engine e" using assms(2) by (simp add: named_engine_def sound_engine_def)
  from base have i: "i \<in> set (edge_output e f)" "run_phase e i = run_when_on_success"
    by (auto simp: edge_rel_def)
  then have "f < num_nodes e" "i < num_nodes e" using wf unfolding wf_engine_def by blast+
  then have "failure_cause (xst c) (node_id e f) \<noteq> None"
    using finished_settled [OF assms(1-3)] f unfolding settled_ok_def by blast
  then have "blocked e (xst c) i" using i wf_source_iff [OF wf] unfolding blocked_def by blast
  then show ?case using finished_settled [OF assms(1-3) \<open>i < num_nodes e\<close>] i(2)
    unfolding settled_ok_def by blast
next
  case (step p i)
  have wf: "wf_engine e" using assms(2) by (simp add: named_engine_def sound_engine_def)
  from step have i: "i \<in> set (edge_output e p)" "run_phase e i = run_when_on_success"
    by (auto simp: edge_rel_def)
  then have "i < num_nodes e" using wf unfolding wf_engine_def by blast
  moreover have "blocked e (xst c) i" using step.IH i wf_source_iff [OF wf] unfolding blocked_def by blast
  ultimately show ?case using finished_settled [OF assms(1-3)] i(2) unfolding settled_ok_def by blast
qed

section \<open>The properties\<close>

text \<open>
  Claim C1. Every execution of a flow ends: whatever the nodes return and however the loop and the
  goroutines interleave, a run takes at most \<open>6 n + 4\<close> steps for \<open>n\<close> nodes, and from every
  configuration it reaches it can go on until the loop has returned. In particular the loop
  never waits on a channel nobody will send to.
\<close>

theorem flow_execution_terminates:
  assumes "new_flow_engine fl = Inr e" and "acyclic (edge_rel e)" and "known_phases e"
  shows "run_of (engine_step e) (init_config e inputs) n c \<Longrightarrow> n \<le> 6 * num_nodes e + 4 \<and>
    (\<exists>m c'. run_of (engine_step e) c m c' \<and> pc c' = Finished)"
proof -
  assume r: "run_of (engine_step e) (init_config e inputs) n c"
  have "sound_start e (init_config e inputs)"
    using assms new_flow_engine_wf_nodes by (auto simp: sound_start_def sound_engine_def initial_def)
  then have inv: "sound_inv e (init_config e inputs)" by (rule sound_start_inv)
  then show ?thesis
    using sched.run_bounded [OF r inv] init_size [of e inputs]
      sched.run_finishes [OF sched.run_inv [OF r inv]]
    by (auto simp: finished_def)
qed

theorem flow_execution_terminates_witness:
  "\<exists>m c'. run_of (engine_step (built cleanup_flow)) (init_config (built cleanup_flow) Map.empty) m c' \<and>
     pc c' = Finished"
proof -
  have "\<not> isl (new_flow_engine cleanup_flow)" by code_simp
  then have b: "new_flow_engine cleanup_flow = Inr (built cleanup_flow)" by (rule built_eq)
  moreover have "acyclic (edge_rel (built cleanup_flow))" "known_phases (built cleanup_flow)"
    using cleanup_named by (auto simp: named_engine_def sound_engine_def)
  ultimately show ?thesis using flow_execution_terminates [OF _ _ _ run_nil] by blast
qed

text \<open>
  When a flow's execution has ended, every node of the flow has a recorded result and none
  is left pending, so the error that reports a cycle or unreachable nodes is not raised.
\<close>

theorem finished_all_recorded:
  assumes "reachable e c" and "named_engine e" and "pc c = Finished" and "i < num_nodes e"
  shows "exec_results (xst c) (node_id e i) \<noteq> None \<and> pending_nodes e (xst c) = []"
  using finished_settled [OF assms] finished_done [OF reachable_facts(2) [OF assms(1,2)] assms(3)]
  by (simp add: settled_ok_def pending_nodes_def)

theorem finished_all_recorded_witness:
  "exec_results (xst (run_demo cleanup_flow cleanup_run)) (node_id (built cleanup_flow) 2) \<noteq> None"
proof -
  have "2 < num_nodes (built cleanup_flow)" by code_simp
  then show ?thesis
    using finished_all_recorded [OF cleanup_demo(1) cleanup_named cleanup_demo(3)] by blast
qed

text \<open>
  Claim C2. A failure stops exactly the work below it. When the run has ended and a node has failed,
  no node that success-phase nodes lead to from it was ever started: each is recorded as
  skipped, with a failed step as its cause.
\<close>

theorem failure_stops_dependants:
  assumes "reachable e c" and "named_engine e" and "pc c = Finished"
    and "node_id e f \<in> failed_nodes (xst c)" and "(f, i) \<in> success_path e"
  shows "i \<notin> set (started c) \<and> node_id e i \<in> skipped_nodes (xst c) \<and>
    failure_cause (xst c) (node_id e i) \<noteq> None"
proof -
  have b: "failure_cause (xst c) (node_id e i) \<noteq> None \<and> i \<notin> set (started c)"
    using assms by (rule blocked_along)
  obtain p where "(p, i) \<in> edge_rel e"
    using assms(5) unfolding success_path_def by (auto elim: tranclE)
  moreover have "wf_engine e" using assms(2) by (simp add: named_engine_def sound_engine_def)
  ultimately have "i < num_nodes e" unfolding edge_rel_def wf_engine_def by blast
  with b finished_settled [OF assms(1-3)] show ?thesis unfolding settled_ok_def by blast
qed

theorem failure_stops_dependants_witness:
  "2 \<notin> set (started (run_demo cleanup_flow cleanup_run))"
proof -
  have "2 \<in> set (edge_output (built cleanup_flow) 1) \<and>
      run_phase (built cleanup_flow) 2 = run_when_on_success \<and> node_id (built cleanup_flow) 1 = ''b''"
    by code_simp
  then have "(1, 2) \<in> success_path (built cleanup_flow)" "node_id (built cleanup_flow) 1 = ''b''"
    by (auto simp: success_path_def edge_rel_def)
  then show ?thesis
    using failure_stops_dependants [OF cleanup_demo(1) cleanup_named cleanup_demo(3), of 1 2]
    by (simp add: cleanup_demo)
qed

text \<open>
  Nothing else is stopped by a failure: a success-phase node that was skipped because of a
  failed step has that step above it in the graph, and the recorded cause is the step's display
  name. This holds at every moment of a run.
\<close>

theorem failure_cause_leads_back:
  assumes "reachable e c" and "named_engine e" and "failure_cause (xst c) (node_id e i) = Some cause"
    and "i < num_nodes e"
  shows "\<exists>f < num_nodes e. node_id e f \<in> failed_nodes (xst c) \<and> (f, i) \<in> (edge_rel e)\<^sup>* \<and>
    cause = node_display_name e (node_id e f)"
proof -
  note facts = reachable_facts(1) [OF assms(1,2)]
  have "remaining (xst c) i = None"
    using facts_at(1) [OF facts assms(4)] assms(3) unfolding fresh_at_def by (metis option.distinct(1))
  then have "caused_by e (xst c) i cause"
    using facts_at(3) [OF facts assms(4)] assms(3) unfolding settled_ok_def by blast
  then show ?thesis unfolding caused_by_def done_node_def by blast
qed

theorem failure_cause_leads_back_witness:
  "\<exists>f < num_nodes (built cleanup_flow). (f, 2) \<in> (edge_rel (built cleanup_flow))\<^sup>*"
proof -
  have "failure_cause (xst (run_demo cleanup_flow cleanup_run)) (node_id (built cleanup_flow) 2) = Some ''b''"
    and "2 < num_nodes (built cleanup_flow)" by code_simp+
  then show ?thesis
    using failure_cause_leads_back [OF cleanup_demo(1) cleanup_named, of 2 "''b''"] by blast
qed

text \<open>
  Claim C6. The verdict of a run: when it has ended, it succeeded exactly when no node failed, and an
  error is reported exactly when one did.
\<close>

theorem success_iff_no_failure:
  assumes "reachable e c" and "named_engine e" and "pc c = Finished"
  shows "(res_success (xst c) \<longleftrightarrow> failed_nodes (xst c) = {}) \<and>
    (res_error (xst c) = None \<longleftrightarrow> failed_nodes (xst c) = {})"
  using reachable_facts(1) [OF assms(1,2)] assms(3) by (simp add: facts_inv_def)

theorem success_iff_no_failure_witness:
  "\<not> res_success (xst (run_demo cleanup_flow cleanup_run))"
  using success_iff_no_failure [OF cleanup_demo(1) cleanup_named cleanup_demo(3)] cleanup_demo(4) by simp

text \<open>
  Claim C5. A cleanup node keeps its turn whatever failed: when the run has ended, an always node was
  started, unless every path to it was routed away by a branch.
\<close>

theorem cleanup_keeps_its_turn:
  assumes "reachable e c" and "named_engine e" and "pc c = Finished" and "i < num_nodes e"
    and "run_phase e i = run_when_always"
  shows "i \<in> set (started c) \<or> (is_routed_away e i (xst c) \<and> node_id e i \<in> skipped_nodes (xst c))"
  using finished_settled [OF assms(1-4)] assms(5) unfolding settled_ok_def by blast

theorem cleanup_keeps_its_turn_witness:
  "3 \<in> set (started (run_demo cleanup_flow cleanup_run)) \<or>
   node_id (built cleanup_flow) 3 \<in> skipped_nodes (xst (run_demo cleanup_flow cleanup_run))"
proof -
  have "3 < num_nodes (built cleanup_flow)" "run_phase (built cleanup_flow) 3 = run_when_always"
    by code_simp+
  then show ?thesis
    using cleanup_keeps_its_turn [OF cleanup_demo(1) cleanup_named cleanup_demo(3)] by blast
qed

text \<open>
  Claim C3. A node is started at most once, and only when all its predecessors are complete, each with
  a recorded result.
\<close>

theorem started_after_predecessors:
  assumes "reachable e c" and "named_engine e" and "i \<in> set (started c)" and "p \<in> set (edge_source e i)"
  shows "distinct (started c) \<and> remaining (xst c) p = None \<and> exec_results (xst c) (node_id e p) \<noteq> None"
proof -
  note facts = reachable_facts(1) [OF assms(1,2)] and inv = reachable_facts(2) [OF assms(1,2)]
  have wf: "wf_engine e" using assms(2) by (simp add: named_engine_def sound_engine_def)
  have "done_node e (xst c) p"
    using pred_done [OF wf inv sched_invD(7) [OF inv assms(3)] _ assms(4)] assms(3) by blast
  then show ?thesis
    using sched_invD(5) [OF inv] facts_at(3) [OF facts] unfolding done_node_def settled_ok_def by blast
qed

theorem started_after_predecessors_witness:
  "remaining (xst (run_demo cleanup_flow cleanup_run)) 1 = None"
proof -
  have "1 \<in> set (edge_source (built cleanup_flow) 3)" by code_simp
  then show ?thesis
    using started_after_predecessors [OF cleanup_demo(1) cleanup_named, of 3 1] by (simp add: cleanup_demo)
qed



text \<open>
  What is published under a node's ID is what its recorded result holds: once a node that was
  started is complete with a result, \<open>allOutputs\<close> has the outputs of that result, no more and no
  less, and a node that was not started has published nothing.
\<close>

theorem published_is_recorded:
  assumes "run_reaches e inputs c" and "named_engine e" and "i < num_nodes e" and "node_id e i \<noteq> []"
  shows "all_outputs (xst c) (node_id e i) =
    (if i \<in> set (started c) \<and> remaining (xst c) i = None
     then result_outputs (xst c) (node_id e i) else None)"
proof -
  have "all_outputs (xst c) (node_id e i) = published e inputs (started c) (xst c) i"
    using run_invariants(3) [OF assms(1,2)] assms(3) by (simp add: data_inv_def)
  then show ?thesis using assms(4) by (simp add: published_def start_outputs_def split: option.split)
qed

theorem published_is_recorded_witness:
  "all_outputs (xst (run_demo cleanup_flow cleanup_run)) (node_id (built cleanup_flow) 2) = None"
proof -
  have "2 < num_nodes (built cleanup_flow)" "node_id (built cleanup_flow) 2 \<noteq> []" by code_simp+
  then show ?thesis
    using published_is_recorded [OF cleanup_demo(2) cleanup_named, of 2] by (simp add: cleanup_demo)
qed

text \<open>
  The cleanup phase waits for the rest: when an always node is started, every node that no
  always node leads to is already complete.
\<close>

theorem cleanup_runs_last:
  assumes "reachable e c" and "sound_engine e" and "a \<in> set (started c)"
    and "run_phase e a = run_when_always" and "i < num_nodes e" and "\<not> after_always e i"
  shows "remaining (xst c) i = None"
proof -
  have "pc c \<noteq> MainLoop \<and> pc c \<noteq> MainWait"
    using sched_invD(11) [OF reachable_inv [OF assms(1,2)] _ assms(3)] assms(4) by auto
  then show ?thesis using reachable_phase [OF assms(1,2)] assms(5,6) unfolding phase_inv_def by blast
qed

theorem cleanup_runs_last_witness:
  "remaining (xst (run_demo cleanup_flow cleanup_run)) 4 = None"
proof -
  let ?e = "built cleanup_flow"
  have r: "run_phase ?e 3 = run_when_always" "4 < num_nodes ?e" "run_phase ?e 4 \<noteq> run_when_always"
    and s: "edge_source ?e 4 = []" by code_simp+
  have "\<not> after_always ?e 4"
    unfolding after_always_def
  proof (safe)
    fix a assume a: "run_phase ?e a = run_when_always" "(a, 4) \<in> (edge_rel ?e)\<^sup>*"
    from a(2) show False
    proof (cases rule: rtrancl.cases)
      case rtrancl_refl
      with a(1) r(3) show False by simp
    next
      case (rtrancl_into_rtrancl b)
      moreover have "wf_engine ?e" using cleanup_named by (simp add: named_engine_def sound_engine_def)
      ultimately have "b \<in> set (edge_source ?e 4)" using wf_source_iff by (simp add: edge_rel_def)
      with s show False by simp
    qed
  qed
  then show ?thesis
    using cleanup_runs_last [OF cleanup_demo(1) named_sound [OF cleanup_named], of 3 4] r
    by (simp add: cleanup_demo)
qed

text \<open>
  The result channel is never full: the goroutines alive, the results in the channel and the
  nodes in flight are the same nodes, so at most \<open>n\<close> results wait for \<open>n\<close> nodes and a goroutine
  that is done can always send and end.
\<close>

theorem channel_never_full:
  assumes "reachable e c" and "sound_engine e"
  shows "in_flight c = set (map g_node (gos c) @ map rr_node (done_ch c)) \<and>
    length (gos c) + length (done_ch c) \<le> num_nodes e"
proof -
  note inv = reachable_inv [OF assms]
  have h: "set (handles c) = in_flight c" "distinct (handles c)" using sched_invD(3,4) [OF inv] by auto
  have "in_flight c \<subseteq> {..<num_nodes e}" using sched_invD(6,7) [OF inv] by blast
  then have "card (set (handles c)) \<le> num_nodes e"
    using h(1) card_mono [of "{..<num_nodes e}" "in_flight c"] by simp
  then have "length (handles c) \<le> num_nodes e" using h(2) by (simp add: distinct_card)
  with h(1) show ?thesis by (simp add: handles_def)
qed

theorem channel_never_full_witness:
  "length (done_ch (run_demo cleanup_flow cleanup_run)) \<le> num_nodes (built cleanup_flow)"
  using channel_never_full [OF cleanup_demo(1) named_sound [OF cleanup_named]] by simp

end
