(* ===== verification/Http_Calls.thy ===== *)
theory Http_Calls
  imports Spi "HOL-Library.Multiset"
begin

text \<open>
  Outbound HTTP calls (\<open>pkg/httpcall\<close>): the execution-wide call limit, the collector that groups
  a node's calls, the path template a group is keyed by, and the pacer that spaces requests. A
  time is a number of nanoseconds; the clock readings are arguments. Each locked section is one
  step, so a sequence of them is any interleaving of the concurrent callers.
\<close>

section \<open>The limiter\<close>

record limiter =
  lim_limit :: int
  lim_started :: int

definition limit_exceeded :: "int \<Rightarrow> go_error" where
  "limit_exceeded limit =
     UserError ''HTTP_CALL_LIMIT_EXCEEDED''
       (''The execution reached its limit of '' @ int_text limit @ '' HTTP calls'') None"

text \<open>\<open>reserve\<close>; the receiver is nil when the context carries no limiter.\<close>

definition reserve :: "limiter option \<Rightarrow> go_error option \<times> limiter option" where
  "reserve l =
     (case l of
        None \<Rightarrow> (None, None)
      | Some l \<Rightarrow>
          if lim_limit l > 0 \<and> lim_started l \<ge> lim_limit l
          then (Some (limit_exceeded (lim_limit l)), Some l)
          else (None, Some (l\<lparr>lim_started := lim_started l + 1\<rparr>)))"

text \<open>The outcomes of a number of reservations, in the order the lock serves them.\<close>

fun reservations :: "nat \<Rightarrow> limiter option \<Rightarrow> go_error option list" where
  "reservations 0 l = []"
| "reservations (Suc n) l = (case reserve l of (err, l') \<Rightarrow> err # reservations n l')"

section \<open>The collector\<close>

record group_key =
  k_node :: string
  k_method :: string
  k_host :: string
  k_path :: string

record call_record =
  c_key :: group_key
  c_started_at :: int
  c_duration_ms :: int
  c_status :: int
  c_transport_err :: string
  c_bytes :: "int option"

record call_group =
  g_key :: group_key
  g_started_at :: int
  g_offsets :: "int list"
  g_durations :: "int list"
  g_statuses :: "int list"
  g_transport_errors :: "string \<rightharpoonup> string"
  g_bytes :: "int list"

text \<open>\<open>Duration.Milliseconds\<close> truncates towards zero.\<close>

definition milliseconds :: "int \<Rightarrow> int" where
  "milliseconds d = (if 0 \<le> d then d div 1000000 else - ((- d) div 1000000))"

definition append_call :: "call_record \<Rightarrow> call_group \<Rightarrow> call_group" where
  "append_call call gr =
     (let i = length (g_offsets gr);
          gr = gr\<lparr>g_offsets := g_offsets gr @ [milliseconds (c_started_at call - g_started_at gr)],
                        g_durations := g_durations gr @ [c_duration_ms call],
                        g_statuses := g_statuses gr @ [c_status call]\<rparr>;
          gr = (if c_transport_err call \<noteq> []
                   then gr\<lparr>g_transport_errors :=
                          (g_transport_errors gr)(nat_text i \<mapsto> c_transport_err call)\<rparr>
                   else gr)
      in case c_bytes call of
           Some b \<Rightarrow> gr\<lparr>g_bytes := g_bytes gr @ [b]\<rparr>
         | None \<Rightarrow> gr)"

definition empty_group :: "call_record \<Rightarrow> call_group" where
  "empty_group call =
     \<lparr>g_key = c_key call, g_started_at = c_started_at call, g_offsets = [], g_durations = [],
      g_statuses = [], g_transport_errors = Map.empty, g_bytes = []\<rparr>"

text \<open>The body of the loop of \<open>Groups\<close> on its two variables.\<close>

definition place_call :: "call_record \<Rightarrow> (group_key \<rightharpoonup> nat) \<times> call_group list \<Rightarrow>
    (group_key \<rightharpoonup> nat) \<times> call_group list" where
  "place_call call st =
     (case st of (index, groups) \<Rightarrow>
        (case index (c_key call) of
           Some position \<Rightarrow> (index, groups[position := append_call call (groups ! position)])
         | None \<Rightarrow>
             (index(c_key call \<mapsto> length groups), groups @ [append_call call (empty_group call)])))"

definition groups_of :: "call_record list \<Rightarrow> call_group list" where
  "groups_of calls = snd (fold place_call (sort_key c_started_at calls) (Map.empty, []))"

section \<open>Starting and finishing a call\<close>

record outcome_of_call =
  o_status :: int
  o_transport_error :: string
  o_bytes :: "int option"

definition finish_call :: "outcome_of_call \<Rightarrow> int \<Rightarrow> call_record \<Rightarrow> call_record list \<Rightarrow> call_record list" where
  "finish_call out now call calls =
     calls @ [call\<lparr>c_duration_ms := milliseconds (now - c_started_at call), c_status := o_status out,
                   c_bytes := o_bytes out,
                   c_transport_err :=
                     (if o_status out = 0
                      then (if o_transport_error out \<noteq> [] then o_transport_error out else ''connect'')
                      else c_transport_err call)\<rparr>]"

section \<open>Path templates\<close>

definition str_index :: "string \<Rightarrow> string \<Rightarrow> nat option" where
  "str_index s sub = find (\<lambda>i. take (length sub) (drop i s) = sub) [0..<Suc (length s)]"

fun cut_outside_templates :: "char \<Rightarrow> nat \<Rightarrow> string \<Rightarrow> string" where
  "cut_outside_templates sep depth [] = []"
| "cut_outside_templates sep depth [c] = (if c = sep \<and> depth = 0 then [] else [c])"
| "cut_outside_templates sep depth (c # d # s) =
     (if c = CHR ''{'' \<and> d = CHR ''{'' then c # d # cut_outside_templates sep (Suc depth) s
      else if c = CHR ''}'' \<and> d = CHR ''}'' \<and> 0 < depth
      then c # d # cut_outside_templates sep (depth - 1) s
      else if c = sep \<and> depth = 0 then []
      else c # cut_outside_templates sep depth (d # s))"

definition authority_path :: "string \<Rightarrow> string" where
  "authority_path value = dropWhile (\<lambda>c. c \<noteq> CHR ''/'') value"

lemma str_index_bound: "str_index s sub = Some i \<Longrightarrow> i \<le> length s \<and> take (length sub) (drop i s) = sub"
  by (auto simp: str_index_def find_Some_iff simp del: upt_Suc)

lemma str_index_fits: "str_index s sub = Some i \<Longrightarrow> i + length sub \<le> length s"
  using str_index_bound [of s sub i] by (metis add.commute length_drop length_take min.cobounded2
      min.absorb_iff1 le_diff_conv2 nat_le_linear)

function normalize_expressions :: "string \<Rightarrow> string" where
  "normalize_expressions path =
     (case str_index path ''{{'' of
        None \<Rightarrow> path
      | Some start \<Rightarrow>
          (case str_index (drop start path) ''}}'' of
             None \<Rightarrow> path
           | Some end \<Rightarrow>
               take start path @ ''{'' @ trim_space (take (end - 2) (drop (start + 2) path)) @ ''}'' @
                 normalize_expressions (drop (start + end + 2) path)))"
  by pat_completeness auto
termination
  by (relation "measure length") (auto dest!: str_index_fits)

declare normalize_expressions.simps [simp del]

definition path_template :: "string \<Rightarrow> string" where
  "path_template template =
     (let path = trim_space template;
          path = cut_outside_templates CHR ''?'' 0 path;
          path = cut_outside_templates CHR ''#'' 0 path;
          scheme = str_index path ''://'';
          firstSlash = str_index path ''/'';
          path =
            (if (case scheme of None \<Rightarrow> False
                 | Some s \<Rightarrow> (case firstSlash of None \<Rightarrow> True | Some f \<Rightarrow> s < f))
             then authority_path (drop (the scheme + 3) path)
             else if has_prefix path ''//'' then authority_path (drop 2 path)
             else if has_prefix path ''{{'' then
               (case str_index path ''}}'' of
                  Some end \<Rightarrow> dropWhile (\<lambda>c. c = CHR ''}'') (drop (end + 2) path)
                | None \<Rightarrow> path)
             else path);
          path = (if path = [] then ''/'' else path)
      in normalize_expressions path)"

section \<open>The pacer\<close>

text \<open>
  One waiter holding the gate: it arrives at a time, waits for the interval to pass since the
  last start and leaves no earlier than its timer; the start is recorded as the last one.
\<close>

definition pace :: "int \<Rightarrow> int \<Rightarrow> int \<times> int \<Rightarrow> int" where
  "pace interval prev a = (case a of (arrival, late) \<Rightarrow> max arrival (prev + interval) + late)"

fun paced_starts :: "int \<Rightarrow> int \<Rightarrow> (int \<times> int) list \<Rightarrow> int list" where
  "paced_starts interval prev [] = []"
| "paced_starts interval prev (a # as) =
     (let t = pace interval prev a in t # paced_starts interval t as)"

section \<open>Facts\<close>

lemma fold_append_fields:
  "g_key (fold append_call cs g) = g_key g"
  "g_started_at (fold append_call cs g) = g_started_at g"
  "g_offsets (fold append_call cs g) =
     g_offsets g @ map (\<lambda>r. milliseconds (c_started_at r - g_started_at g)) cs"
  "g_durations (fold append_call cs g) = g_durations g @ map c_duration_ms cs"
  "g_statuses (fold append_call cs g) = g_statuses g @ map c_status cs"
  "g_bytes (fold append_call cs g) = g_bytes g @ List.map_filter c_bytes cs"
  by (induction cs arbitrary: g)
    (simp_all add: append_call_def Let_def List.map_filter_def split: option.split)

text \<open>The keys in the order of their first call, and the calls of a key.\<close>

definition first_keys :: "call_record list \<Rightarrow> group_key list" where
  "first_keys cs = rev (remdups (rev (map c_key cs)))"

definition calls_of :: "group_key \<Rightarrow> call_record list \<Rightarrow> call_record list" where
  "calls_of k cs = filter (\<lambda>r. c_key r = k) cs"

definition group_spec :: "call_record list \<Rightarrow> group_key \<Rightarrow> call_group" where
  "group_spec cs k = fold append_call (calls_of k cs) (empty_group (hd (calls_of k cs)))"

lemma first_keys_snoc:
  "first_keys (cs @ [c]) = (if c_key c \<in> set (first_keys cs) then first_keys cs else first_keys cs @ [c_key c])"
  by (simp add: first_keys_def)

lemma first_keys_set: "set (first_keys cs) = c_key ` set cs" "distinct (first_keys cs)"
  by (simp_all add: first_keys_def)

lemma calls_of_nil: "calls_of k cs = [] \<longleftrightarrow> k \<notin> set (first_keys cs)"
  by (auto simp: calls_of_def first_keys_set filter_empty_conv)

lemma group_spec_snoc:
  "group_spec (cs @ [c]) k =
     (if c_key c \<noteq> k then group_spec cs k
      else if k \<in> set (first_keys cs) then append_call c (group_spec cs k)
      else append_call c (empty_group c))"
  using calls_of_nil [of k cs]
  by (cases "calls_of k cs") (auto simp: group_spec_def calls_of_def)

lemma fold_place:
  "case fold place_call cs (Map.empty, []) of (index, groups) \<Rightarrow>
     groups = map (group_spec cs) (first_keys cs) \<and>
     (\<forall>k n. index k = Some n \<longleftrightarrow> n < length (first_keys cs) \<and> first_keys cs ! n = k)"
proof (induction cs rule: rev_induct)
  case Nil
  then show ?case by (simp add: first_keys_def)
next
  case (snoc c cs)
  obtain index groups where f: "fold place_call cs (Map.empty, []) = (index, groups)"
    by (cases "fold place_call cs (Map.empty, [])")
  have g: "groups = map (group_spec cs) (first_keys cs)"
    and i: "\<And>k n. index k = Some n \<longleftrightarrow> n < length (first_keys cs) \<and> first_keys cs ! n = k"
    using snoc f by auto
  have d: "distinct (first_keys cs)" by (rule first_keys_set)
  have st: "fold place_call (cs @ [c]) (Map.empty, []) = place_call c (index, groups)" by (simp add: f)
  show ?case
  proof (cases "index (c_key c)")
    case None
    then have new: "c_key c \<notin> set (first_keys cs)" using i by (metis in_set_conv_nth option.distinct(1))
    have "map (group_spec cs) (first_keys cs) = map (group_spec (cs @ [c])) (first_keys cs)"
      using new by (auto simp: group_spec_snoc)
    moreover have "(index(c_key c \<mapsto> length groups)) k = Some n \<longleftrightarrow>
        n < Suc (length (first_keys cs)) \<and> (first_keys cs @ [c_key c]) ! n = k" for k n
      using i [of k n] new g by (auto simp: nth_append less_Suc_eq dest: nth_mem)
    ultimately show ?thesis
      using None new unfolding st by (simp add: place_call_def first_keys_snoc g group_spec_snoc)
  next
    case (Some n)
    then have n: "n < length (first_keys cs)" "first_keys cs ! n = c_key c" using i by auto
    then have old: "c_key c \<in> set (first_keys cs)" by (metis nth_mem)
    have "(map (group_spec cs) (first_keys cs))[n := append_call c (group_spec cs (c_key c))] =
        map (group_spec (cs @ [c])) (first_keys cs)"
    proof (rule nth_equalityI)
      fix m
      assume "m < length ((map (group_spec cs) (first_keys cs))[n := append_call c (group_spec cs (c_key c))])"
      then have m: "m < length (first_keys cs)" by simp
      show "(map (group_spec cs) (first_keys cs))[n := append_call c (group_spec cs (c_key c))] ! m =
          map (group_spec (cs @ [c])) (first_keys cs) ! m"
        using m n old nth_eq_iff_index_eq [OF d m n(1)]
        by (cases "m = n") (auto simp: group_spec_snoc)
    qed simp
    moreover have "place_call c (index, groups) = (index, groups[n := append_call c (groups ! n)])"
      using Some by (simp add: place_call_def)
    moreover have "groups ! n = group_spec cs (c_key c)" using n by (simp add: g)
    ultimately have "place_call c (index, groups) = (index, map (group_spec (cs @ [c])) (first_keys cs))"
      using g by simp
    then show ?thesis using old i unfolding st by (simp add: first_keys_snoc)
  qed
qed

lemma groups_of_spec:
  "groups_of calls =
     map (group_spec (sort_key c_started_at calls)) (first_keys (sort_key c_started_at calls))"
  using fold_place [of "sort_key c_started_at calls"] by (auto simp: groups_of_def split: prod.splits)

lemma group_spec_fields:
  assumes "k \<in> set (first_keys cs)"
  shows "g_key (group_spec cs k) = k"
    and "g_started_at (group_spec cs k) = c_started_at (hd (calls_of k cs))"
    and "g_offsets (group_spec cs k) =
      map (\<lambda>r. milliseconds (c_started_at r - c_started_at (hd (calls_of k cs)))) (calls_of k cs)"
    and "g_durations (group_spec cs k) = map c_duration_ms (calls_of k cs)"
    and "g_statuses (group_spec cs k) = map c_status (calls_of k cs)"
proof -
  have "hd (calls_of k cs) \<in> set (calls_of k cs)" using calls_of_nil [of k cs] assms by simp
  then have "c_key (hd (calls_of k cs)) = k" by (simp add: calls_of_def)
  then show "g_key (group_spec cs k) = k"
    and "g_started_at (group_spec cs k) = c_started_at (hd (calls_of k cs))"
    and "g_offsets (group_spec cs k) =
      map (\<lambda>r. milliseconds (c_started_at r - c_started_at (hd (calls_of k cs)))) (calls_of k cs)"
    and "g_durations (group_spec cs k) = map c_duration_ms (calls_of k cs)"
    and "g_statuses (group_spec cs k) = map c_status (calls_of k cs)"
    by (simp_all add: group_spec_def fold_append_fields empty_group_def)
qed

lemma filter_equals_singleton: "distinct ks \<Longrightarrow> x \<in> set ks \<Longrightarrow> length (filter (\<lambda>y. y = x) ks) = 1"
  by (induction ks) (auto simp: filter_empty_conv)

lemma partition_length:
  "distinct ks \<Longrightarrow> c_key ` set xs \<subseteq> set ks \<Longrightarrow> sum_list (map (\<lambda>k. length (calls_of k xs)) ks) = length xs"
proof (induction xs)
  case Nil
  then show ?case by (simp add: calls_of_def)
next
  case (Cons x xs)
  have "sum_list (map (\<lambda>k. length (calls_of k (x # xs))) ks) =
      sum_list (map (\<lambda>k. (if c_key x = k then 1 else 0) + length (calls_of k xs)) ks)"
    by (intro arg_cong [of _ _ sum_list] map_cong) (auto simp: calls_of_def)
  also have "\<dots> = sum_list (map (\<lambda>k. if c_key x = k then 1 else 0) ks) + length xs"
    using Cons by (simp add: sum_list_addf)
  also have "sum_list (map (\<lambda>k. if c_key x = k then (1::nat) else 0) ks) = 1"
  proof -
    have "sum_list (map (\<lambda>k. if c_key x = k then (1::nat) else 0) ks) = count_list ks (c_key x)"
      by (induction ks) auto
    also have "\<dots> = 1" using Cons.prems by (simp add: count_list_filter_length filter_equals_singleton)
    finally show ?thesis .
  qed
  finally show ?case by simp
qed

lemma reservations_some:
  "0 < limit \<Longrightarrow> 0 \<le> k \<Longrightarrow> k \<le> limit \<Longrightarrow>
   reservations n (Some \<lparr>lim_limit = limit, lim_started = k\<rparr>) =
     replicate (min n (nat (limit - k))) None @
     replicate (n - nat (limit - k)) (Some (limit_exceeded limit))"
proof (induction n arbitrary: k)
  case 0
  then show ?case by simp
next
  case (Suc n)
  show ?case
  proof (cases "k = limit")
    case True
    then show ?thesis using Suc.IH [of k] Suc.prems by (simp add: reserve_def)
  next
    case False
    then have "nat (limit - k) = Suc (nat (limit - (k + 1)))" using Suc.prems by simp
    then show ?thesis using Suc.IH [of "k + 1"] Suc.prems False by (simp add: reserve_def)
  qed
qed

lemma paced_from: "0 \<le> interval \<Longrightarrow> \<forall>a \<in> set as. 0 \<le> snd a \<Longrightarrow> t \<in> set (paced_starts interval prev as) \<Longrightarrow>
   prev + interval \<le> t"
proof (induction as arbitrary: prev)
  case Nil
  then show ?case by simp
next
  case (Cons a as)
  have p: "prev + interval \<le> pace interval prev a"
    using Cons.prems(2) by (cases a) (auto simp: pace_def max_def)
  show ?case
  proof (cases "t = pace interval prev a")
    case True
    with p show ?thesis by simp
  next
    case False
    then have "pace interval prev a + interval \<le> t" using Cons by (simp add: Let_def)
    with p Cons.prems(1) show ?thesis by simp
  qed
qed

section \<open>Properties\<close>

text \<open>
  The call limit is exact: of any number of calls an execution's nodes try to start, in any
  order, exactly the first \<open>limit\<close> are let through and every later one is refused with
  \<open>HTTP_CALL_LIMIT_EXCEEDED\<close>; a limit of zero or less refuses none.
\<close>

theorem limiter_exact:
  "reservations n (Some \<lparr>lim_limit = limit, lim_started = 0\<rparr>) =
     (if 0 < limit
      then replicate (min n (nat limit)) None @ replicate (n - nat limit) (Some (limit_exceeded limit))
      else replicate n None)"
proof (cases "0 < limit")
  case True
  then show ?thesis using reservations_some [of limit 0 n] by simp
next
  case False
  then have "reservations n (Some \<lparr>lim_limit = limit, lim_started = k\<rparr>) = replicate n None" for k
    by (induction n arbitrary: k) (simp_all add: reserve_def)
  with False show ?thesis by simp
qed

text \<open>
  Grouping loses and invents nothing. There is one group per node, method, host and path
  template, in the order of their first calls; its parallel arrays hold, in start order, exactly
  the calls with that key, so index \<open>i\<close> of each describes the same call; and the groups together
  count every collected call once.
\<close>

theorem groups_partition_calls:
  fixes calls :: "call_record list"
  defines "cs \<equiv> sort_key c_started_at calls"
  shows "map g_key (groups_of calls) = first_keys cs \<and>
    map g_statuses (groups_of calls) = map (\<lambda>k. map c_status (calls_of k cs)) (first_keys cs) \<and>
    map g_durations (groups_of calls) = map (\<lambda>k. map c_duration_ms (calls_of k cs)) (first_keys cs) \<and>
    map g_offsets (groups_of calls) =
      map (\<lambda>k. map (\<lambda>r. milliseconds (c_started_at r - c_started_at (hd (calls_of k cs)))) (calls_of k cs))
        (first_keys cs) \<and>
    distinct (map g_key (groups_of calls)) \<and>
    sum_list (map (\<lambda>g. length (g_offsets g)) (groups_of calls)) = length calls"
proof -
  have g: "groups_of calls = map (group_spec cs) (first_keys cs)" by (simp add: groups_of_spec cs_def)
  have keys: "map g_key (groups_of calls) = first_keys cs"
    by (simp add: g group_spec_fields(1) map_idI)
  have "sum_list (map (\<lambda>g. length (g_offsets g)) (groups_of calls)) =
      sum_list (map (\<lambda>k. length (calls_of k cs)) (first_keys cs))"
    unfolding g map_map
    by (intro arg_cong [of _ _ sum_list] map_cong) (simp_all add: group_spec_fields(3))
  also have "\<dots> = length calls"
    using partition_length [OF first_keys_set(2), of cs cs] by (simp add: first_keys_set(1) cs_def)
  finally show ?thesis using keys by (simp add: g group_spec_fields first_keys_set)
qed

text \<open>
  Pacing: whatever the arrival times, and however late a timer fires, two request starts of
  executions that share a pacer are at least the interval apart.
\<close>

theorem pacer_spaces_starts:
  assumes "0 \<le> interval" and "\<forall>a \<in> set as. 0 \<le> snd a" and "i < j"
    and "j < length (paced_starts interval prev as)"
  shows "paced_starts interval prev as ! i + interval \<le> paced_starts interval prev as ! j"
  using assms(2-)
proof (induction as arbitrary: prev i j)
  case Nil
  then show ?case by simp
next
  case (Cons a as)
  obtain j' where j: "j = Suc j'" using Cons.prems(2) by (cases j) auto
  show ?case
  proof (cases i)
    case 0
    have "paced_starts interval (pace interval prev a) as ! j' \<in>
        set (paced_starts interval (pace interval prev a) as)"
      using Cons.prems(3) j by (simp add: Let_def)
    then have "pace interval prev a + interval \<le> paced_starts interval (pace interval prev a) as ! j'"
      using paced_from [OF assms(1), of as] Cons.prems(1) by simp
    then show ?thesis by (simp add: 0 j Let_def)
  next
    case (Suc i')
    then show ?thesis using Cons j by (simp add: Let_def)
  qed
qed

theorem pacer_spaces_starts_witness:
  "paced_starts 5 0 [(1, 0), (2, 1)] ! 0 + 5 \<le> paced_starts 5 0 [(1, 0), (2, 1)] ! 1"
  by (rule pacer_spaces_starts) (simp_all add: Let_def)

fun template_depth :: "nat \<Rightarrow> string \<Rightarrow> nat" where
  "template_depth depth [] = depth"
| "template_depth depth [c] = depth"
| "template_depth depth (c # d # s) =
     (if c = CHR ''{'' \<and> d = CHR ''{'' then template_depth (Suc depth) s
      else if c = CHR ''}'' \<and> d = CHR ''}'' \<and> 0 < depth then template_depth (depth - 1) s
      else template_depth depth (d # s))"

lemma cut_drops:
  "sep \<noteq> CHR ''{'' \<Longrightarrow> sep \<noteq> CHR ''}'' \<Longrightarrow> template_depth depth s = 0 \<Longrightarrow>
   cut_outside_templates sep depth (s @ sep # q) = cut_outside_templates sep depth s"
proof (induction sep depth s rule: cut_outside_templates.induct)
  case (1 sep depth)
  then show ?case by (cases q) simp_all
next
  case (2 sep depth c)
  then show ?case by (cases q) auto
next
  case (3 sep depth c d s)
  then show ?case by (auto split: if_splits)
qed

text \<open>
  The path a group reports carries no query string: in a template whose expressions are
  closed before the first question mark outside them, everything from that question mark on is
  dropped before the path is formed.
\<close>

theorem query_is_dropped:
  assumes "template_depth 0 s = 0"
  shows "cut_outside_templates CHR ''?'' 0 (s @ CHR ''?'' # q) = cut_outside_templates CHR ''?'' 0 s"
  using cut_drops [OF _ _ assms, of "CHR ''?''" q] by simp

theorem query_is_dropped_witness:
  "cut_outside_templates CHR ''?'' 0 ''/a/{{b?c}}?token=1'' = ''/a/{{b?c}}'' \<and>
   path_template ''{{base}}/a/{{ b }}?token=1'' = ''/a/{b}''"
proof -
  have "cut_outside_templates CHR ''?'' 0 (''/a/{{b?c}}'' @ CHR ''?'' # ''token=1'') =
      cut_outside_templates CHR ''?'' 0 ''/a/{{b?c}}''"
    by (rule query_is_dropped) simp
  moreover have "cut_outside_templates CHR ''?'' 0 ''/a/{{b?c}}'' = ''/a/{{b?c}}''" by code_simp
  moreover have "path_template ''{{base}}/a/{{ b }}?token=1'' = ''/a/{b}''" by code_simp
  ultimately show ?thesis by simp
qed

end
