(* ===== verification/Reporter.thy ===== *)
theory Reporter
  imports Spi
begin

text \<open>
  The progress reporter of a claimed job (\<open>internal/runtime/event_reporter.go\<close>): events get
  consecutive sequence numbers, wait in a queue, are drained into batches of bounded size and are
  put back when the control plane did not take them. A flush holds \<open>flushMu\<close> while it sends, so
  one batch is out at a time, while other goroutines go on enqueueing.
\<close>

section \<open>State and operations\<close>

text \<open>An event; \<open>e_size\<close> is the length of its JSON encoding, which \<open>eventSize\<close> computes.\<close>

record progress_event =
  e_sequence :: int
  e_kind :: string
  e_size :: int

record reporter =
  next_sequence :: int
  pending :: "progress_event list"
  pending_bytes :: int

definition max_batch_events :: nat where "max_batch_events = 16"
definition max_batch_bytes :: int where "max_batch_bytes = 32 * 1024"
definition flush_retries :: nat where "flush_retries = 3"

text \<open>The locked part of \<open>enqueue\<close>; the flag says whether the caller flushes.\<close>

definition enqueue :: "string \<Rightarrow> int \<Rightarrow> reporter \<Rightarrow> bool \<times> reporter" where
  "enqueue eventType encoded r =
     (let r = r\<lparr>next_sequence := next_sequence r + 1\<rparr>;
          event = \<lparr>e_sequence = next_sequence r, e_kind = eventType, e_size = encoded\<rparr>;
          r = r\<lparr>pending := pending r @ [event], pending_bytes := pending_bytes r + e_size event\<rparr>
      in (max_batch_events \<le> length (pending r) \<or> max_batch_bytes \<le> pending_bytes r, r))"

text \<open>The loop that sizes a batch: how many events fit, given those counted and their bytes.\<close>

fun fitting :: "nat \<Rightarrow> int \<Rightarrow> progress_event list \<Rightarrow> nat \<times> int" where
  "fitting count bytes [] = (count, bytes)"
| "fitting count bytes (ev # evs) =
     (if max_batch_events \<le> count then (count, bytes)
      else if 0 < count \<and> max_batch_bytes < bytes + e_size ev then (count, bytes)
      else fitting (Suc count) (bytes + e_size ev) evs)"

definition drain_pending :: "reporter \<Rightarrow> (progress_event list \<times> int) \<times> reporter" where
  "drain_pending r =
     (if pending r = [] then (([], 0), r)
      else
        (let (count, bytes) = fitting 0 0 (pending r);
             batch = take count (pending r);
             r = r\<lparr>pending := drop count (pending r), pending_bytes := pending_bytes r - bytes\<rparr>;
             r = (if pending r = [] then r\<lparr>pending_bytes := 0\<rparr> else r)
         in ((batch, bytes), r)))"

definition prepend_pending :: "progress_event list \<Rightarrow> int \<Rightarrow> reporter \<Rightarrow> reporter" where
  "prepend_pending events bytes r =
     (if events = [] then r
      else r\<lparr>pending := events @ pending r, pending_bytes := pending_bytes r + bytes\<rparr>)"

text \<open>
  What \<open>flushBatch\<close> does with the control plane's reply to a batch that is not empty: the flag is
  its first result, and the error its second.
\<close>

definition batch_bytes_of :: "progress_event list \<Rightarrow> int" where
  "batch_bytes_of evs = sum_list (map e_size evs)"

definition unaccepted :: "int \<Rightarrow> progress_event list \<Rightarrow> progress_event list" where
  "unaccepted lastAccepted batch = filter (\<lambda>ev. lastAccepted < e_sequence ev) batch"

definition settle_batch :: "progress_event list \<Rightarrow> int \<Rightarrow> go_error + int \<Rightarrow> reporter \<Rightarrow>
    (bool \<times> go_error option) \<times> reporter" where
  "settle_batch batch batchBytes reply r =
     (case reply of
        Inl err \<Rightarrow> ((False, Some err), prepend_pending batch batchBytes r)
      | Inr lastAccepted \<Rightarrow>
          if e_sequence (last batch) \<le> lastAccepted then ((True, None), r)
          else ((False, None),
                prepend_pending (unaccepted lastAccepted batch)
                  (batch_bytes_of (unaccepted lastAccepted batch)) r))"

text \<open>
  \<open>flushBatch\<close> and \<open>Flush\<close> when nobody enqueues meanwhile. The control plane is a parameter: from
  its state and a batch it gives a reply and a new state.
\<close>

definition flush_batch :: "('w \<Rightarrow> progress_event list \<Rightarrow> (go_error + int) \<times> 'w) \<Rightarrow> 'w \<Rightarrow> reporter \<Rightarrow>
    (bool \<times> go_error option) \<times> 'w \<times> reporter" where
  "flush_batch post w r =
     (case drain_pending r of ((batch, batchBytes), r) \<Rightarrow>
        if batch = [] then ((False, None), w, r)
        else (case post w batch of (reply, w) \<Rightarrow>
                (case settle_batch batch batchBytes reply r of (res, r) \<Rightarrow> (res, w, r))))"

lemma fitting_count:
  "fitting count bytes evs = (n, b) \<Longrightarrow> count \<le> n \<and> n \<le> count + length evs \<and>
   b = bytes + batch_bytes_of (take (n - count) evs)"
proof (induction count bytes evs rule: fitting.induct)
  case (1 count bytes)
  then show ?case by (simp add: batch_bytes_of_def)
next
  case (2 count bytes ev evs)
  show ?case
  proof (cases "max_batch_events \<le> count \<or> 0 < count \<and> max_batch_bytes < bytes + e_size ev")
    case True
    with "2.prems" have "count = n" "bytes = b" by (auto split: if_splits)
    then show ?thesis by (simp add: batch_bytes_of_def)
  next
    case False
    then have "fitting (Suc count) (bytes + e_size ev) evs = (n, b)" using "2.prems" by (auto split: if_splits)
    with "2.IH" False have IH: "Suc count \<le> n" "n \<le> Suc count + length evs"
        "b = bytes + e_size ev + batch_bytes_of (take (n - Suc count) evs)" by auto
    then have "n - count = Suc (n - Suc count)" by simp
    then have "take (n - count) (ev # evs) = ev # take (n - Suc count) evs" by simp
    with IH show ?thesis by (simp add: batch_bytes_of_def)
  qed
qed

lemma fitting_first: "evs \<noteq> [] \<Longrightarrow> 0 < fst (fitting 0 0 evs)"
proof -
  assume "evs \<noteq> []"
  then obtain ev evs' where e: "evs = ev # evs'" by (cases evs) auto
  obtain n b where f: "fitting (Suc 0) (e_size ev) evs' = (n, b)" by (cases "fitting (Suc 0) (e_size ev) evs'")
  then have "Suc 0 \<le> n" using fitting_count by blast
  then show ?thesis using e f by (simp add: max_batch_events_def)
qed

lemma drain_parts:
  assumes "drain_pending r = ((batch, b), r')"
  shows "pending r = batch @ pending r'" and "next_sequence r' = next_sequence r"
    and "pending r \<noteq> [] \<Longrightarrow> batch \<noteq> []"
    and "b = batch_bytes_of batch"
    and "pending_bytes r = batch_bytes_of (pending r) \<Longrightarrow> pending_bytes r' = batch_bytes_of (pending r')"
proof -
  obtain n c where f: "fitting 0 0 (pending r) = (n, c)" by (cases "fitting 0 0 (pending r)")
  have fc: "c = batch_bytes_of (take n (pending r))" using fitting_count [OF f] by simp
  have split: "batch_bytes_of (pending r) = batch_bytes_of (take n (pending r)) + batch_bytes_of (drop n (pending r))"
    unfolding batch_bytes_of_def by (metis append_take_drop_id map_append sum_list_append)
  have n0: "pending r \<noteq> [] \<Longrightarrow> 0 < n" using fitting_first [of "pending r"] f by simp
  have full: "batch = take n (pending r) \<and> b = c \<and> pending r' = drop n (pending r) \<and>
      next_sequence r' = next_sequence r \<and>
      pending_bytes r' = (if drop n (pending r) = [] then 0 else pending_bytes r - c)" if "pending r \<noteq> []"
    using assms f that by (auto simp: drain_pending_def Let_def)
  have none: "batch = [] \<and> b = 0 \<and> r' = r" if "pending r = []"
    using assms that by (auto simp: drain_pending_def)
  show "pending r = batch @ pending r'" "next_sequence r' = next_sequence r"
    using full none by (cases "pending r = []"; simp)+
  show "batch \<noteq> []" if "pending r \<noteq> []" using full [OF that] n0 [OF that] that by auto
  show "b = batch_bytes_of batch"
    using full none fc by (cases "pending r = []") (simp_all add: batch_bytes_of_def)
  show "pending_bytes r' = batch_bytes_of (pending r')" if "pending_bytes r = batch_bytes_of (pending r)"
  proof (cases "pending r = []")
    case True
    with none that show ?thesis by simp
  next
    case False
    with full fc split that show ?thesis by (auto simp: batch_bytes_of_def)
  qed
qed

function flush :: "('w \<Rightarrow> progress_event list \<Rightarrow> (go_error + int) \<times> 'w) \<Rightarrow> 'w \<Rightarrow> reporter \<Rightarrow>
    go_error option \<times> 'w \<times> reporter" where
  "flush post w r =
     (case flush_batch post w r of ((sent, err), w', r') \<Rightarrow>
        if err \<noteq> None \<or> \<not> sent then (err, w', r') else flush post w' r')"
  by pat_completeness auto

lemma flush_batch_sent:
  assumes "flush_batch post w r = ((True, err), w', r')"
  shows "length (pending r') < length (pending r)"
proof -
  obtain batch b r1 where d: "drain_pending r = ((batch, b), r1)" by (metis prod.exhaust)
  with assms have ne: "batch \<noteq> []" by (auto simp: flush_batch_def)
  obtain reply w1 where p: "post w batch = (reply, w1)" by (cases "post w batch")
  have "settle_batch batch b reply r1 = ((True, err), r')"
    using assms d ne p by (auto simp: flush_batch_def split: prod.splits)
  then have "r' = r1" by (auto simp: settle_batch_def split: sum.splits if_splits)
  with drain_parts(1) [OF d] ne show ?thesis by simp
qed

termination flush
proof (relation "measure (\<lambda>(post, w, r). length (pending r))", goal_cases)
  case 1
  then show ?case by simp
next
  case 2
  then show ?case by (auto dest: flush_batch_sent [OF sym])
qed

declare flush.simps [simp del]

text \<open>\<open>FlushWithRetry\<close>; the flags say whether the context still allowed each backoff sleep.\<close>

fun flush_attempts :: "nat \<Rightarrow> ('w \<Rightarrow> progress_event list \<Rightarrow> (go_error + int) \<times> 'w) \<Rightarrow> bool list \<Rightarrow> 'w \<Rightarrow>
    reporter \<Rightarrow> go_error option \<times> 'w \<times> reporter" where
  "flush_attempts 0 post sleeps w r = (None, w, r)"
| "flush_attempts (Suc n) post sleeps w r =
     (case flush post w r of (err, w', r') \<Rightarrow>
        if err = None \<or> n = 0 then (err, w', r')
        else (case sleeps of
                True # sleeps \<Rightarrow> flush_attempts n post sleeps w' r'
              | _ \<Rightarrow> (err, w', r')))"

definition flush_with_retry :: "('w \<Rightarrow> progress_event list \<Rightarrow> (go_error + int) \<times> 'w) \<Rightarrow> bool list \<Rightarrow> 'w \<Rightarrow>
    reporter \<Rightarrow> go_error option \<times> 'w \<times> reporter" where
  "flush_with_retry post sleeps w r = flush_attempts flush_retries post sleeps w r"

section \<open>Enqueueing while a batch is out\<close>

text \<open>
  The reporter with the batch \<open>flushMu\<close> protects, if one is out, and the events acknowledged so
  far. Any goroutine may enqueue at any time; the flush drains, and later settles its batch with
  whatever the control plane replied, errors and partial acceptance included.
\<close>

record reporter_sys =
  rep :: reporter
  batch_out :: "(progress_event list \<times> int) option"
  acked :: "progress_event list"

inductive reporter_step :: "reporter_sys \<Rightarrow> reporter_sys \<Rightarrow> bool" where
  rs_enqueue: "enqueue eventType encoded (rep s) = (full, r) \<Longrightarrow> reporter_step s (s\<lparr>rep := r\<rparr>)"
| rs_drain: "batch_out s = None \<Longrightarrow> drain_pending (rep s) = ((batch, b), r) \<Longrightarrow> batch \<noteq> [] \<Longrightarrow>
    reporter_step s (s\<lparr>rep := r, batch_out := Some (batch, b)\<rparr>)"
| rs_reply: "batch_out s = Some (batch, b) \<Longrightarrow> settle_batch batch b reply (rep s) = (res, r) \<Longrightarrow>
    reporter_step s
      (s\<lparr>rep := r, batch_out := None,
         acked := acked s @
           (case reply of Inl err \<Rightarrow> [] | Inr lastAccepted \<Rightarrow>
              filter (\<lambda>ev. e_sequence ev \<le> lastAccepted) batch)\<rparr>)"

inductive_cases reporter_stepE: "reporter_step s t"

definition reporter_start :: "reporter_sys \<Rightarrow> bool" where
  "reporter_start s \<longleftrightarrow>
     s = \<lparr>rep = \<lparr>next_sequence = 0, pending = [], pending_bytes = 0\<rparr>, batch_out = None, acked = []\<rparr>"

definition out_events :: "reporter_sys \<Rightarrow> progress_event list" where
  "out_events s = (case batch_out s of None \<Rightarrow> [] | Some (batch, b) \<Rightarrow> batch)"

definition reporter_inv :: "reporter_sys \<Rightarrow> bool" where
  "reporter_inv s \<longleftrightarrow>
     0 \<le> next_sequence (rep s) \<and>
     map e_sequence (acked s @ out_events s @ pending (rep s)) = [1..next_sequence (rep s)] \<and>
     pending_bytes (rep s) = batch_bytes_of (pending (rep s)) \<and>
     (\<forall>batch b. batch_out s = Some (batch, b) \<longrightarrow> batch \<noteq> [] \<and> b = batch_bytes_of batch)"

lemma sorted_filter_split:
  "sorted_wrt (<) (map f xs) \<Longrightarrow> filter (\<lambda>x. f x \<le> (l :: int)) xs @ filter (\<lambda>x. l < f x) xs = xs"
proof (induction xs)
  case Nil
  then show ?case by simp
next
  case (Cons x xs)
  show ?case
  proof (cases "f x \<le> l")
    case True
    with Cons show ?thesis by simp
  next
    case False
    then have "filter (\<lambda>x. f x \<le> l) (x # xs) = []" "filter (\<lambda>x. l < f x) (x # xs) = x # xs"
      using Cons.prems by (auto simp: filter_empty_conv filter_id_conv)
    then show ?thesis by simp
  qed
qed

lemma settle_parts:
  assumes "settle_batch batch b reply r = ((sent, err), r')" and "batch \<noteq> []"
    and "sorted_wrt (<) (map e_sequence batch)" and "b = batch_bytes_of batch"
    and "pending_bytes r = batch_bytes_of (pending r)"
  shows "(case reply of Inl e \<Rightarrow> [] | Inr l \<Rightarrow> filter (\<lambda>ev. e_sequence ev \<le> l) batch) @ pending r' =
      batch @ pending r"
    and "pending_bytes r' = batch_bytes_of (pending r')" and "next_sequence r' = next_sequence r"
proof -
  have split: "filter (\<lambda>ev. e_sequence ev \<le> l) batch @ unaccepted l batch = batch" for l
    unfolding unaccepted_def by (rule sorted_filter_split) (rule assms(3))
  have all: "filter (\<lambda>ev. e_sequence ev \<le> l) batch = batch" if "e_sequence (last batch) \<le> l" for l
  proof -
    have "e_sequence ev \<le> e_sequence (last batch)" if ev: "ev \<in> set batch" for ev
    proof -
      have "batch = butlast batch @ [last batch]" using assms(2) by simp
      then have s: "sorted_wrt (<) (map e_sequence (butlast batch) @ [e_sequence (last batch)])"
        using assms(3) by (metis list.simps(8,9) map_append)
      show ?thesis using ev \<open>batch = butlast batch @ [last batch]\<close> s
        by (metis (no_types, lifting) Un_iff append_Nil2 empty_set in_set_conv_decomp image_eqI less_imp_le
            list.set_map order_refl set_ConsD set_append sorted_wrt_append list.set_intros(1) empty_iff)
    qed
    with that show ?thesis by (simp add: filter_id_conv) force
  qed
  show "(case reply of Inl e \<Rightarrow> [] | Inr l \<Rightarrow> filter (\<lambda>ev. e_sequence ev \<le> l) batch) @ pending r' =
      batch @ pending r"
    using assms(1) split all
    by (auto simp: settle_batch_def prepend_pending_def split: sum.splits if_splits)
      (metis append_assoc append_Nil2)+
  show "pending_bytes r' = batch_bytes_of (pending r')" "next_sequence r' = next_sequence r"
    using assms(1,4,5)
    by (auto simp: settle_batch_def prepend_pending_def batch_bytes_of_def split: sum.splits if_splits)
qed

lemma upto_sorted: "sorted_wrt (<) [i..j :: int]"
  by (simp add: strict_sorted_iff)

lemma reporter_step_inv:
  assumes "reporter_inv s" and "reporter_step s t"
  shows "reporter_inv t"
  using assms(2)
proof cases
  case (rs_enqueue eventType encoded full r)
  have n: "0 \<le> next_sequence (rep s)" using assms(1) by (simp add: reporter_inv_def)
  have "r = \<lparr>next_sequence = next_sequence (rep s) + 1,
      pending = pending (rep s) @ [\<lparr>e_sequence = next_sequence (rep s) + 1, e_kind = eventType, e_size = encoded\<rparr>],
      pending_bytes = pending_bytes (rep s) + encoded\<rparr>"
    using rs_enqueue(2) by (auto simp: enqueue_def Let_def)
  moreover have "[1..next_sequence (rep s) + 1] = [1..next_sequence (rep s)] @ [next_sequence (rep s) + 1]"
    using n by (simp add: upto_rec2)
  ultimately show ?thesis using assms(1) n rs_enqueue(1)
    by (auto simp: reporter_inv_def out_events_def batch_bytes_of_def)
next
  case (rs_drain batch b r)
  note d = drain_parts [OF rs_drain(3)]
  have inv: "map e_sequence (acked s @ pending (rep s)) = [1..next_sequence (rep s)]"
    "pending_bytes (rep s) = batch_bytes_of (pending (rep s))" "0 \<le> next_sequence (rep s)"
    using assms(1) rs_drain(2) by (simp_all add: reporter_inv_def out_events_def)
  have "acked t @ out_events t @ pending (rep t) = acked s @ pending (rep s)"
    unfolding d(1) using rs_drain(1) by (simp add: out_events_def)
  moreover have "pending_bytes (rep t) = batch_bytes_of (pending (rep t))"
    using d(5) inv(2) rs_drain(1) by simp
  moreover have "next_sequence (rep t) = next_sequence (rep s)" using d(2) rs_drain(1) by simp
  moreover have "batch_out t = Some (batch, b)" using rs_drain(1) by simp
  ultimately show ?thesis
    using inv(1,3) rs_drain(4) d(4) unfolding reporter_inv_def by (metis option.inject prod.inject)
next
  case (rs_reply batch b reply res r)
  obtain sent err where res: "res = (sent, err)" by (cases res)
  have "sorted_wrt (<) (map e_sequence (acked s @ batch @ pending (rep s)))"
    using assms(1) rs_reply(2) upto_sorted by (simp add: reporter_inv_def out_events_def)
  then have "sorted_wrt (<) (map e_sequence batch)" by (simp add: sorted_wrt_append)
  moreover have "batch \<noteq> []" "b = batch_bytes_of batch" "pending_bytes (rep s) = batch_bytes_of (pending (rep s))"
    using assms(1) rs_reply(2) by (auto simp: reporter_inv_def)
  ultimately have p: "(case reply of Inl e \<Rightarrow> [] | Inr l \<Rightarrow> filter (\<lambda>ev. e_sequence ev \<le> l) batch) @ pending r =
      batch @ pending (rep s)" "pending_bytes r = batch_bytes_of (pending r)"
      "next_sequence r = next_sequence (rep s)"
    using settle_parts [OF rs_reply(3) [unfolded res]] by auto
  have "acked t @ out_events t @ pending (rep t) = acked s @ out_events s @ pending (rep s)"
    using p(1) rs_reply(1,2) by (simp add: out_events_def)
  then show ?thesis using assms(1) p rs_reply(1) by (simp add: reporter_inv_def)
qed

interpretation reporting: invariant_system reporter_start reporter_step reporter_inv
proof
  show "reporter_start s \<Longrightarrow> reporter_inv s" for s
    by (simp add: reporter_start_def reporter_inv_def out_events_def batch_bytes_of_def)
  show "reporter_inv s \<Longrightarrow> reporter_step s t \<Longrightarrow> reporter_inv t" for s t by (rule reporter_step_inv)
qed

section \<open>Properties\<close>

text \<open>
  Claim C21. No progress event is lost, repeated or reordered on the runner's side: in every
  interleaving of enqueues with flushes, failed and partly accepted batches included, the
  acknowledged events, the batch being sent and the queue are together, in this order, exactly
  the sequence numbers given out so far.
\<close>

theorem events_in_order:
  assumes "reach reporter_start reporter_step s"
  shows "map e_sequence (acked s @ out_events s @ pending (rep s)) = [1..next_sequence (rep s)]"
  using reporting.reach_inv [OF assms] by (simp add: reporter_inv_def)

theorem events_in_order_witness:
  "map e_sequence [\<lparr>e_sequence = 1, e_kind = ''a'', e_size = 9\<rparr>] = [1..1]"
proof -
  let ?s0 = "\<lparr>rep = \<lparr>next_sequence = 0, pending = [], pending_bytes = 0\<rparr>, batch_out = None, acked = []\<rparr>"
  let ?r = "\<lparr>next_sequence = 1, pending = [\<lparr>e_sequence = 1, e_kind = ''a'', e_size = 9\<rparr>], pending_bytes = 9\<rparr>"
  have "reach reporter_start reporter_step ?s0" by (rule reach_start) (simp add: reporter_start_def)
  moreover have "enqueue ''a'' 9 (rep ?s0) = (False, ?r)" by code_simp
  then have "reporter_step ?s0 (?s0\<lparr>rep := ?r\<rparr>)" by (rule rs_enqueue)
  ultimately have "reach reporter_start reporter_step (?s0\<lparr>rep := ?r\<rparr>)" by (rule reach_step)
  from events_in_order [OF this] show ?thesis by (simp add: out_events_def)
qed

lemma fitting_small:
  "fitting count bytes evs = (n, b) \<Longrightarrow> count \<le> max_batch_events \<Longrightarrow> count \<le> 1 \<or> bytes \<le> max_batch_bytes \<Longrightarrow>
   n \<le> max_batch_events \<and> (n \<le> 1 \<or> b \<le> max_batch_bytes)"
proof (induction count bytes evs rule: fitting.induct)
  case (1 count bytes)
  then show ?case by simp
next
  case (2 count bytes ev evs)
  show ?case
  proof (cases "max_batch_events \<le> count \<or> 0 < count \<and> max_batch_bytes < bytes + e_size ev")
    case True
    with "2.prems" show ?thesis by (auto split: if_splits)
  next
    case False
    then have "fitting (Suc count) (bytes + e_size ev) evs = (n, b)" using "2.prems" by (auto split: if_splits)
    with "2.IH" False show ?thesis by auto
  qed
qed

text \<open>
  Every batch sent is one the control plane accepts: it is not empty, holds at most 16
  events, and at most 32 KiB unless it is a single event larger than that; and what is drained is
  the front of the queue.
\<close>

theorem batches_are_bounded:
  assumes "drain_pending r = ((batch, b), r')" and "pending r \<noteq> []"
  shows "batch \<noteq> [] \<and> length batch \<le> 16 \<and> b = batch_bytes_of batch \<and>
    (length batch = 1 \<or> batch_bytes_of batch \<le> 32 * 1024) \<and> pending r = batch @ pending r'"
proof -
  note d = drain_parts [OF assms(1)]
  obtain n c where f: "fitting 0 0 (pending r) = (n, c)" by (cases "fitting 0 0 (pending r)")
  have bn: "batch = take n (pending r)" "b = c"
    using assms f by (auto simp: drain_pending_def Let_def)
  have "n \<le> max_batch_events \<and> (n \<le> 1 \<or> c \<le> max_batch_bytes)" using fitting_small [OF f] by simp
  moreover have "length batch = n" using bn fitting_count [OF f] by simp
  moreover have "0 < length batch" using d(3) assms(2) by simp
  ultimately have "length batch \<le> 16" "length batch = 1 \<or> b \<le> 32 * 1024"
    using bn(2) unfolding max_batch_events_def max_batch_bytes_def by linarith+
  with d(1,3,4) assms(2) show ?thesis by metis
qed

theorem batches_are_bounded_witness:
  "batch_bytes_of (fst (fst (drain_pending
     \<lparr>next_sequence = 2, pending = [\<lparr>e_sequence = 1, e_kind = [], e_size = 20000\<rparr>,
        \<lparr>e_sequence = 2, e_kind = [], e_size = 20000\<rparr>], pending_bytes = 40000\<rparr>))) = 20000"
proof -
  let ?r = "\<lparr>next_sequence = 2, pending = [\<lparr>e_sequence = 1, e_kind = [], e_size = 20000\<rparr>,
        \<lparr>e_sequence = 2, e_kind = [], e_size = 20000\<rparr>], pending_bytes = 40000\<rparr> :: reporter"
  obtain batch b r' where d: "drain_pending ?r = ((batch, b), r')" by (metis prod.exhaust)
  have "b = batch_bytes_of batch" using batches_are_bounded [OF d] by simp
  moreover have "snd (fst (drain_pending ?r)) = 20000" by code_simp
  ultimately show ?thesis using d by simp
qed

text \<open>
  A flush may report success with events left behind. When the control plane accepts a batch
  only in part, \<open>Flush\<close> and \<open>FlushWithRetry\<close> return without an error and without a further
  attempt, although unsent events are back in the queue.
\<close>

theorem flush_hides_partial_acceptance:
  "\<exists>post (w :: unit) r r'. flush_with_retry post [] w r = (None, w, r') \<and> pending r' \<noteq> []"
proof -
  let ?ev = "\<lambda>n. \<lparr>e_sequence = n, e_kind = [], e_size = 1\<rparr>"
  let ?r = "\<lparr>next_sequence = 2, pending = [?ev 1, ?ev 2], pending_bytes = 2\<rparr> :: reporter"
  let ?r' = "\<lparr>next_sequence = 2, pending = [?ev 2], pending_bytes = 1\<rparr> :: reporter"
  let ?post = "\<lambda>(w :: unit) (batch :: progress_event list). (Inr 1 :: go_error + int, w)"
  have "flush_batch ?post () ?r = ((False, None), (), ?r')"
    by (simp add: flush_batch_def drain_pending_def max_batch_events_def max_batch_bytes_def Let_def
        settle_batch_def unaccepted_def prepend_pending_def batch_bytes_of_def)
  then have "flush ?post () ?r = (None, (), ?r')" by (simp add: flush.simps)
  then have "flush_with_retry ?post [] () ?r = (None, (), ?r')"
    by (simp add: flush_with_retry_def flush_retries_def numeral_3_eq_3)
  then show ?thesis by (intro exI [of _ ?post] exI [of _ "()"] exI [of _ ?r] exI [of _ ?r']) simp
qed

text \<open>
  When the control plane takes every batch whole, a flush that returns without an error has
  emptied the queue.
\<close>

theorem flush_empties_queue:
  assumes "\<And>w batch reply w'. post w batch = (reply, w') \<Longrightarrow> batch \<noteq> [] \<Longrightarrow>
      (\<exists>err. reply = Inl err) \<or> (\<exists>l. reply = Inr l \<and> e_sequence (last batch) \<le> l)"
    and "flush post w r = (None, w', r')"
  shows "pending r' = []"
  using assms(2)
proof (induction "length (pending r)" arbitrary: w r rule: less_induct)
  case (less r w)
  obtain sent err w1 r1 where f: "flush_batch post w r = ((sent, err), w1, r1)" by (metis prod.exhaust)
  show ?case
  proof (cases "err \<noteq> None \<or> \<not> sent")
    case True
    then have "err = None" "\<not> sent" "r' = r1" using less.prems f by (auto simp: flush.simps [of post w r])
    obtain batch b r2 where d: "drain_pending r = ((batch, b), r2)" by (metis prod.exhaust)
    show ?thesis
    proof (cases "batch = []")
      case True
      then have "r1 = r2" using f d by (simp add: flush_batch_def)
      moreover have "pending r = []" using drain_parts(3) [OF d] True by blast
      ultimately show ?thesis using drain_parts(1) [OF d] \<open>r' = r1\<close> by simp
    next
      case False
      obtain reply w2 where p: "post w batch = (reply, w2)" by (cases "post w batch")
      then have "settle_batch batch b reply r2 = ((sent, err), r1)"
        using f d False by (auto simp: flush_batch_def split: prod.splits)
      with assms(1) [OF p False] \<open>err = None\<close> \<open>\<not> sent\<close> show ?thesis
        by (auto simp: settle_batch_def)
    qed
  next
    case False
    then have "flush post w1 r1 = (None, w', r')" using less.prems f by (simp add: flush.simps [of post w r])
    moreover have "length (pending r1) < length (pending r)"
      using flush_batch_sent [of post w r err w1 r1] f False by simp
    ultimately show ?thesis using less.hyps by blast
  qed
qed

theorem flush_empties_queue_witness:
  "pending (snd (snd (flush (\<lambda>w batch. (Inr (e_sequence (last batch)), w)) ()
     \<lparr>next_sequence = 1, pending = [\<lparr>e_sequence = 1, e_kind = [], e_size = 1\<rparr>], pending_bytes = 1\<rparr>))) = []"
proof -
  let ?post = "\<lambda>(w :: unit) batch. (Inr (e_sequence (last batch)) :: go_error + int, w)"
  let ?r = "\<lparr>next_sequence = 1, pending = [\<lparr>e_sequence = 1, e_kind = [], e_size = 1\<rparr>], pending_bytes = 1\<rparr>
    :: reporter"
  have "fst (flush ?post () ?r) = None" by code_simp
  then have "flush ?post () ?r = (None, fst (snd (flush ?post () ?r)), snd (snd (flush ?post () ?r)))"
    by (metis prod.collapse)
  then show ?thesis by (rule flush_empties_queue [rotated]) auto
qed

end
