(* ===== verification/Runtime.thy ===== *)
theory Runtime
  imports Spi
begin

text \<open>
  The runner's job lifecycle (\<open>internal/runtime/runtime.go\<close>): the claim loop and its slots, the
  workers that execute claimed jobs, and the heartbeat loop that learns of rejected leases. Every
  locked section is one step; claims, workers and heartbeats interleave freely, and what the
  control plane answers is arbitrary.
\<close>

section \<open>State\<close>

text \<open>
  A claim is one \<open>activeJob\<close> with the worker that executes it; its position in \<open>claims\<close> is the
  pointer. \<open>cl_lost\<close> is history: the lease was rejected while the worker had not decided on a
  completion yet.
\<close>

datatype worker_pc = Spawned | Running | Decided | Removed | Released

record claim =
  cl_job :: nat
  cl_pc :: worker_pc
  cl_registered :: bool
  cl_cancelled :: bool
  cl_reported :: "string option"
  cl_lost :: bool

record runtime =
  slot_limit :: nat
  slots :: nat
  polling :: bool
  active :: "nat \<rightharpoonup> nat"
  rejected :: "nat set"
  claims :: "claim list"
  heartbeat :: "nat list option"

section \<open>Operations\<close>

definition acquire_slot :: "runtime \<Rightarrow> runtime option" where
  "acquire_slot r = (if slots r < slot_limit r then Some (r\<lparr>slots := slots r + 1\<rparr>) else None)"

text \<open>\<open>releaseSlot\<close>: the \<open>default\<close> of its select leaves an empty semaphore alone.\<close>

definition release_slot :: "runtime \<Rightarrow> runtime" where
  "release_slot r = r\<lparr>slots := slots r - 1\<rparr>"

definition is_rejected :: "nat \<Rightarrow> runtime \<Rightarrow> bool" where
  "is_rejected jobID r \<longleftrightarrow> jobID \<in> rejected r"

definition update_claim :: "nat \<Rightarrow> (claim \<Rightarrow> claim) \<Rightarrow> runtime \<Rightarrow> runtime" where
  "update_claim k f r = r\<lparr>claims := (claims r)[k := f (claims r ! k)]\<rparr>"

definition store_active_job :: "nat \<Rightarrow> runtime \<Rightarrow> runtime" where
  "store_active_job jobID r =
     r\<lparr>claims := claims r @ [\<lparr>cl_job = jobID, cl_pc = Spawned, cl_registered = False,
                              cl_cancelled = False, cl_reported = None, cl_lost = False\<rparr>],
       active := (active r)(jobID \<mapsto> length (claims r))\<rparr>"

definition cancel_on_rejection :: "nat \<Rightarrow> runtime \<Rightarrow> runtime" where
  "cancel_on_rejection k r =
     (let r = update_claim k (\<lambda>c. c\<lparr>cl_registered := True\<rparr>) r in
      if is_rejected (cl_job (claims r ! k)) r
      then update_claim k (\<lambda>c. c\<lparr>cl_cancelled := True\<rparr>) r else r)"

definition undecided :: "claim \<Rightarrow> bool" where
  "undecided c \<longleftrightarrow> cl_pc c = Spawned \<or> cl_pc c = Running"

definition mark_job_rejected :: "nat \<Rightarrow> runtime \<Rightarrow> runtime" where
  "mark_job_rejected jobID r =
     (let r = (case active r jobID of
                 Some k \<Rightarrow>
                   update_claim k
                     (\<lambda>c. c\<lparr>cl_cancelled := cl_cancelled c \<or> cl_registered c,
                            cl_lost := cl_lost c \<or> undecided c\<rparr>) r
               | None \<Rightarrow> r)
      in r\<lparr>active := (active r)(jobID := None), rejected := insert jobID (rejected r)\<rparr>)"

definition remove_active_job :: "nat \<Rightarrow> runtime \<Rightarrow> runtime" where
  "remove_active_job jobID r =
     r\<lparr>active := (active r)(jobID := None), rejected := rejected r - {jobID}\<rparr>"

text \<open>
  How a run ends, and the completion \<open>executeClaimedJob\<close> sends for it: none when the lease was
  rejected, which each of its paths checks first.
\<close>

datatype job_end = DefinitionInvalid | ExecutionFailed | EncodingFailed | Succeeded

fun job_status :: "job_end \<Rightarrow> string" where
  "job_status Succeeded = ''completed''"
| "job_status _ = ''failed''"

definition report_completion :: "nat \<Rightarrow> job_end \<Rightarrow> runtime \<Rightarrow> runtime" where
  "report_completion k how r =
     update_claim k
       (\<lambda>c. c\<lparr>cl_pc := Decided,
              cl_reported := (if is_rejected (cl_job c) r then None else Some (job_status how))\<rparr>) r"

text \<open>\<open>activeJobIDs\<close>: the keys of the map, in an order that does not matter.\<close>

definition active_job_ids :: "runtime \<Rightarrow> nat list" where
  "active_job_ids r = filter (\<lambda>j. active r j \<noteq> None) (remdups (map cl_job (claims r)))"

section \<open>Steps\<close>

datatype rt_action =
    AcquireSlot | ClaimFails | ClaimReturns nat
  | BeginRun nat | EndRun nat job_end | RemoveJob nat | FreeSlot nat
  | CollectIDs | HeartbeatFails | HeartbeatReturns "nat list"

definition at_pc :: "nat \<Rightarrow> worker_pc \<Rightarrow> runtime \<Rightarrow> bool" where
  "at_pc k p r \<longleftrightarrow> k < length (claims r) \<and> cl_pc (claims r ! k) = p"

definition set_pc :: "nat \<Rightarrow> worker_pc \<Rightarrow> runtime \<Rightarrow> runtime" where
  "set_pc k p r = update_claim k (\<lambda>c. c\<lparr>cl_pc := p\<rparr>) r"

text \<open>
  The rejections of one heartbeat reply; the control plane answers about the jobs it was asked
  about. \<open>removeActiveJob\<close> and \<open>releaseSlot\<close> are deferred and run after the completion.
\<close>

fun rt_perform :: "rt_action \<Rightarrow> runtime \<Rightarrow> runtime option" where
  "rt_perform AcquireSlot r =
     (if polling r then None else map_option (\<lambda>r. r\<lparr>polling := True\<rparr>) (acquire_slot r))"
| "rt_perform ClaimFails r =
     (if polling r then Some (release_slot (r\<lparr>polling := False\<rparr>)) else None)"
| "rt_perform (ClaimReturns jobID) r =
     (if polling r then Some (store_active_job jobID (r\<lparr>polling := False\<rparr>)) else None)"
| "rt_perform (BeginRun k) r =
     (if at_pc k Spawned r then Some (set_pc k Running (cancel_on_rejection k r)) else None)"
| "rt_perform (EndRun k how) r =
     (if at_pc k Running r then Some (report_completion k how r) else None)"
| "rt_perform (RemoveJob k) r =
     (if at_pc k Decided r
      then Some (set_pc k Removed (remove_active_job (cl_job (claims r ! k)) r)) else None)"
| "rt_perform (FreeSlot k) r =
     (if at_pc k Removed r then Some (set_pc k Released (release_slot r)) else None)"
| "rt_perform CollectIDs r =
     (if heartbeat r = None \<and> active_job_ids r \<noteq> []
      then Some (r\<lparr>heartbeat := Some (active_job_ids r)\<rparr>) else None)"
| "rt_perform HeartbeatFails r =
     (if heartbeat r = None then None else Some (r\<lparr>heartbeat := None\<rparr>))"
| "rt_perform (HeartbeatReturns rejections) r =
     (case heartbeat r of
        None \<Rightarrow> None
      | Some asked \<Rightarrow>
          if set rejections \<subseteq> set asked
          then Some (fold mark_job_rejected rejections (r\<lparr>heartbeat := None\<rparr>)) else None)"

inductive rt_step :: "runtime \<Rightarrow> runtime \<Rightarrow> bool" where
  rt_stepI: "rt_perform a r = Some r' \<Longrightarrow> rt_step r r'"

inductive_cases rt_stepE: "rt_step r r'"

definition rt_start :: "runtime \<Rightarrow> bool" where
  "rt_start r \<longleftrightarrow>
     slots r = 0 \<and> \<not> polling r \<and> active r = Map.empty \<and> rejected r = {} \<and> claims r = [] \<and>
     heartbeat r = None"

section \<open>Slots\<close>

definition live_claims :: "claim list \<Rightarrow> nat" where
  "live_claims cs = length (filter (\<lambda>c. cl_pc c \<noteq> Released) cs)"

definition slots_inv :: "runtime \<Rightarrow> bool" where
  "slots_inv r \<longleftrightarrow>
     slots r = live_claims (claims r) + (if polling r then 1 else 0) \<and> slots r \<le> slot_limit r"

lemma live_update:
  assumes "k < length cs" and "cl_pc (cs ! k) \<noteq> Released"
  shows "live_claims (cs[k := c]) = (if cl_pc c = Released then live_claims cs - 1 else live_claims cs)"
    and "0 < live_claims cs"
proof -
  have "cs = take k cs @ cs ! k # drop (Suc k) cs" using assms(1) by (rule id_take_nth_drop)
  then have "live_claims cs = live_claims (take k cs @ cs ! k # drop (Suc k) cs)" by (rule arg_cong)
  also have "\<dots> = live_claims (take k cs) + Suc (live_claims (drop (Suc k) cs))"
    using assms(2) by (simp add: live_claims_def)
  finally have "live_claims cs = live_claims (take k cs) + Suc (live_claims (drop (Suc k) cs))" .
  then show "live_claims (cs[k := c]) = (if cl_pc c = Released then live_claims cs - 1 else live_claims cs)"
    and "0 < live_claims cs"
    by (simp_all add: upd_conv_take_nth_drop [OF assms(1)] live_claims_def)
qed

lemma live_update_same:
  assumes "k < length cs" and "cl_pc c = cl_pc (cs ! k)"
  shows "live_claims (cs[k := c]) = live_claims cs"
proof -
  have "cs = take k cs @ cs ! k # drop (Suc k) cs" using assms(1) by (rule id_take_nth_drop)
  then have "live_claims cs = live_claims (take k cs @ cs ! k # drop (Suc k) cs)" by (rule arg_cong)
  also have "\<dots> = live_claims (cs[k := c])"
    using assms(2) unfolding upd_conv_take_nth_drop [OF assms(1)] by (simp add: live_claims_def)
  finally show ?thesis by simp
qed

definition active_ok :: "runtime \<Rightarrow> bool" where
  "active_ok r \<longleftrightarrow> (\<forall>j k. active r j = Some k \<longrightarrow> k < length (claims r) \<and> cl_job (claims r ! k) = j)"

lemma mark_fields:
  assumes "active_ok r"
  shows "slots (mark_job_rejected j r) = slots r" "polling (mark_job_rejected j r) = polling r"
    "slot_limit (mark_job_rejected j r) = slot_limit r"
    "live_claims (claims (mark_job_rejected j r)) = live_claims (claims r)"
    "map cl_job (claims (mark_job_rejected j r)) = map cl_job (claims r)"
    "map cl_pc (claims (mark_job_rejected j r)) = map cl_pc (claims r)"
    "active_ok (mark_job_rejected j r)"
    "rejected (mark_job_rejected j r) = insert j (rejected r)"
    "length (claims (mark_job_rejected j r)) = length (claims r)"
proof -
  have b: "k < length (claims r)" if "active r j = Some k" for k
    using assms that by (simp add: active_ok_def)
  show "slots (mark_job_rejected j r) = slots r" "polling (mark_job_rejected j r) = polling r"
    "slot_limit (mark_job_rejected j r) = slot_limit r"
    "rejected (mark_job_rejected j r) = insert j (rejected r)"
    "length (claims (mark_job_rejected j r)) = length (claims r)"
    by (simp_all add: mark_job_rejected_def update_claim_def Let_def split: option.split)
  show "live_claims (claims (mark_job_rejected j r)) = live_claims (claims r)"
    using b by (simp add: mark_job_rejected_def update_claim_def Let_def live_update_same split: option.split)
  show jobs: "map cl_job (claims (mark_job_rejected j r)) = map cl_job (claims r)"
    "map cl_pc (claims (mark_job_rejected j r)) = map cl_pc (claims r)"
    using b by (auto simp: mark_job_rejected_def update_claim_def Let_def map_update list_update_same_conv
        split: option.split)
  show "active_ok (mark_job_rejected j r)"
    using assms
    by (auto simp: active_ok_def mark_job_rejected_def update_claim_def Let_def nth_list_update
        split: option.splits if_splits)
qed

lemma fold_mark:
  "active_ok r \<Longrightarrow>
   (let r' = fold mark_job_rejected js r in
      slots r' = slots r \<and> polling r' = polling r \<and> slot_limit r' = slot_limit r \<and>
      live_claims (claims r') = live_claims (claims r) \<and> map cl_job (claims r') = map cl_job (claims r) \<and>
      active_ok r')"
  by (induction js arbitrary: r) (simp_all add: Let_def mark_fields)

definition rt_inv :: "runtime \<Rightarrow> bool" where
  "rt_inv r \<longleftrightarrow> slots_inv r \<and> active_ok r"

lemma active_ok_update:
  "active_ok r \<Longrightarrow> (\<And>c. cl_job (f c) = cl_job c) \<Longrightarrow> active_ok (update_claim k f r)"
  unfolding active_ok_def update_claim_def
proof (intro allI impI conjI)
  fix j m
  assume ok: "\<forall>j k. active r j = Some k \<longrightarrow> k < length (claims r) \<and> cl_job (claims r ! k) = j"
    and f: "\<And>c. cl_job (f c) = cl_job c"
    and m: "active (r\<lparr>claims := (claims r)[k := f (claims r ! k)]\<rparr>) j = Some m"
  from ok m have "m < length (claims r)" "cl_job (claims r ! m) = j" by auto
  then show "m < length (claims (r\<lparr>claims := (claims r)[k := f (claims r ! k)]\<rparr>))"
    "cl_job (claims (r\<lparr>claims := (claims r)[k := f (claims r ! k)]\<rparr>) ! m) = j"
    using f by (cases "m = k"; simp)+
qed

lemma update_fields [simp]:
  "slots (update_claim k f r) = slots r" "polling (update_claim k f r) = polling r"
  "slot_limit (update_claim k f r) = slot_limit r" "active (update_claim k f r) = active r"
  "rejected (update_claim k f r) = rejected r" "heartbeat (update_claim k f r) = heartbeat r"
  "claims (update_claim k f r) = (claims r)[k := f (claims r ! k)]"
  by (simp_all add: update_claim_def)

lemma cancel_fields [simp]:
  "slots (cancel_on_rejection k r) = slots r" "polling (cancel_on_rejection k r) = polling r"
  "slot_limit (cancel_on_rejection k r) = slot_limit r" "active (cancel_on_rejection k r) = active r"
  "rejected (cancel_on_rejection k r) = rejected r"
  "length (claims (cancel_on_rejection k r)) = length (claims r)"
  by (simp_all add: cancel_on_rejection_def Let_def)

lemma cancel_claims:
  "k < length (claims r) \<Longrightarrow>
   claims (cancel_on_rejection k r) =
     (claims r)[k := (claims r ! k)\<lparr>cl_registered := True,
        cl_cancelled := cl_cancelled (claims r ! k) \<or> cl_job (claims r ! k) \<in> rejected r\<rparr>]"
  by (auto simp: cancel_on_rejection_def Let_def is_rejected_def intro!: nth_equalityI
      simp: nth_list_update)

lemma rt_step_inv:
  assumes inv: "rt_inv r" and "rt_perform a r = Some r'"
  shows "rt_inv r'"
proof -
  have s: "slots r = live_claims (claims r) + (if polling r then 1 else 0)" "slots r \<le> slot_limit r"
    and ok: "active_ok r" using inv by (auto simp: rt_inv_def slots_inv_def)
  show ?thesis
  proof (cases a)
    case AcquireSlot
    then show ?thesis using assms(2) s ok
      by (auto simp: rt_inv_def slots_inv_def acquire_slot_def active_ok_def split: if_splits)
  next
    case ClaimFails
    then show ?thesis using assms(2) s ok
      by (auto simp: rt_inv_def slots_inv_def release_slot_def active_ok_def split: if_splits)
  next
    case (ClaimReturns j)
    then show ?thesis using assms(2) s ok
      by (auto simp: rt_inv_def slots_inv_def store_active_job_def active_ok_def live_claims_def nth_append
          split: if_splits) (meson less_SucI)+
  next
    case (BeginRun k)
    then have k: "k < length (claims r)" "cl_pc (claims r ! k) = Spawned"
      and r': "r' = set_pc k Running (cancel_on_rejection k r)"
      using assms(2) by (auto simp: at_pc_def split: if_splits)
    have "active_ok r'"
      using ok k by (auto simp: r' active_ok_def set_pc_def cancel_claims nth_list_update)
    moreover have "live_claims (claims r') = live_claims (claims r)"
      using k live_update [of k "claims r"] by (simp add: r' set_pc_def cancel_claims)
    ultimately show ?thesis using s by (simp add: rt_inv_def slots_inv_def r' set_pc_def)
  next
    case (EndRun k how)
    then have k: "k < length (claims r)" "cl_pc (claims r ! k) = Running"
      and r': "r' = report_completion k how r" using assms(2) by (auto simp: at_pc_def split: if_splits)
    then have "live_claims (claims r') = live_claims (claims r)"
      using live_update [of k "claims r"] by (simp add: report_completion_def)
    then show ?thesis using s ok
      by (simp add: rt_inv_def slots_inv_def r' report_completion_def active_ok_update)
  next
    case (RemoveJob k)
    then have k: "k < length (claims r)" "cl_pc (claims r ! k) = Decided"
      and r': "r' = set_pc k Removed (remove_active_job (cl_job (claims r ! k)) r)"
      using assms(2) by (auto simp: at_pc_def split: if_splits)
    then have "live_claims (claims r') = live_claims (claims r)"
      using live_update [of k "claims r"] by (simp add: set_pc_def remove_active_job_def)
    moreover have "active_ok (remove_active_job (cl_job (claims r ! k)) r)"
      using ok by (auto simp: active_ok_def remove_active_job_def split: if_splits)
    then have "active_ok r'" unfolding r' set_pc_def by (rule active_ok_update) simp
    ultimately show ?thesis using s
      by (simp add: rt_inv_def slots_inv_def r' set_pc_def remove_active_job_def)
  next
    case (FreeSlot k)
    then have k: "k < length (claims r)" "cl_pc (claims r ! k) = Removed"
      and r': "r' = set_pc k Released (release_slot r)"
      using assms(2) by (auto simp: at_pc_def split: if_splits)
    then have "live_claims (claims r') = live_claims (claims r) - 1" "0 < live_claims (claims r)"
      using live_update [of k "claims r"] by (simp_all add: set_pc_def release_slot_def)
    moreover have "active_ok (release_slot r)" using ok by (simp add: active_ok_def release_slot_def)
    then have "active_ok r'" unfolding r' set_pc_def by (rule active_ok_update) simp
    ultimately show ?thesis using s
      by (simp add: rt_inv_def slots_inv_def r' set_pc_def release_slot_def)
  next
    case CollectIDs
    then show ?thesis using assms(2) s ok
      by (auto simp: rt_inv_def slots_inv_def active_ok_def split: if_splits)
  next
    case HeartbeatFails
    then show ?thesis using assms(2) s ok
      by (auto simp: rt_inv_def slots_inv_def active_ok_def split: if_splits)
  next
    case (HeartbeatReturns js)
    have "active_ok (r\<lparr>heartbeat := None\<rparr>)" using ok by (simp add: active_ok_def)
    from fold_mark [OF this, of js] show ?thesis
      using HeartbeatReturns assms(2) s
      by (auto simp: rt_inv_def slots_inv_def Let_def split: option.splits if_splits)
  qed
qed

interpretation lifecycle: invariant_system rt_start rt_step rt_inv
proof
  show "rt_start r \<Longrightarrow> rt_inv r" for r
    by (auto simp: rt_start_def rt_inv_def slots_inv_def live_claims_def active_ok_def)
  show "rt_inv r \<Longrightarrow> rt_step r r' \<Longrightarrow> rt_inv r'" for r r'
    by (auto elim: rt_stepE intro: rt_step_inv)
qed

section \<open>Rejected leases\<close>

definition claim_ok :: "nat set \<Rightarrow> claim \<Rightarrow> bool" where
  "claim_ok rej c \<longleftrightarrow>
     (cl_pc c \<noteq> Spawned \<longrightarrow> cl_registered c) \<and>
     (cl_lost c \<longrightarrow>
        (undecided c \<longrightarrow> cl_job c \<in> rej) \<and> (cl_pc c = Running \<longrightarrow> cl_cancelled c) \<and>
        (\<not> undecided c \<longrightarrow> cl_reported c = None))"

definition lost_inv :: "runtime \<Rightarrow> bool" where
  "lost_inv r \<longleftrightarrow>
     (distinct (map cl_job (claims r)) \<longrightarrow> (\<forall>c \<in> set (claims r). claim_ok (rejected r) c))"

lemma claims_update_ok:
  "\<forall>c \<in> set cs. P c \<Longrightarrow> P c' \<Longrightarrow> \<forall>c \<in> set (cs[k := c']). P c"
  using set_update_subset_insert [of cs k c'] by blast

lemma claim_ok_mono: "claim_ok rej c \<Longrightarrow> rej \<subseteq> rej' \<Longrightarrow> claim_ok rej' c"
  by (auto simp: claim_ok_def)

lemma mark_lost:
  assumes "lost_inv r" and "active_ok r"
  shows "lost_inv (mark_job_rejected j r)"
  unfolding lost_inv_def
proof
  assume "distinct (map cl_job (claims (mark_job_rejected j r)))"
  then have "distinct (map cl_job (claims r))" by (simp add: mark_fields(5) [OF assms(2)])
  then have old: "\<forall>c \<in> set (claims r). claim_ok (rejected r) c" using assms(1) by (simp add: lost_inv_def)
  have old': "\<forall>c \<in> set (claims r). claim_ok (insert j (rejected r)) c"
    using old by (meson claim_ok_mono subset_insertI)
  show "\<forall>c \<in> set (claims (mark_job_rejected j r)). claim_ok (rejected (mark_job_rejected j r)) c"
  proof (cases "active r j")
    case None
    then show ?thesis using old' by (simp add: mark_job_rejected_def)
  next
    case (Some k)
    then have k: "k < length (claims r)" "cl_job (claims r ! k) = j" using assms(2) by (auto simp: active_ok_def)
    let ?c = "(claims r ! k)\<lparr>cl_cancelled := cl_cancelled (claims r ! k) \<or> cl_registered (claims r ! k),
        cl_lost := cl_lost (claims r ! k) \<or> undecided (claims r ! k)\<rparr>"
    have c: "claims (mark_job_rejected j r) = (claims r)[k := ?c]"
      using Some by (simp add: mark_job_rejected_def)
    have "claim_ok (insert j (rejected r)) (claims r ! k)" using old' k by simp
    then have "claim_ok (insert j (rejected r)) ?c"
      using k(2) by (auto simp: claim_ok_def undecided_def)
    then have "\<forall>c \<in> set ((claims r)[k := ?c]). claim_ok (insert j (rejected r)) c"
      by (rule claims_update_ok [OF old'])
    then show ?thesis by (simp only: c mark_fields(8) [OF assms(2)])
  qed
qed

lemma fold_mark_lost: "lost_inv r \<Longrightarrow> active_ok r \<Longrightarrow> lost_inv (fold mark_job_rejected js r)"
  by (induction js arbitrary: r) (simp_all add: mark_lost mark_fields)

lemma step_jobs:
  assumes "rt_perform a r = Some r'" and "active_ok r"
  shows "map cl_job (claims r') = map cl_job (claims r) \<or> (\<exists>j. map cl_job (claims r') = map cl_job (claims r) @ [j])"
proof (cases a)
  case (HeartbeatReturns js)
  have "active_ok (r\<lparr>heartbeat := None\<rparr>)" using assms(2) by (simp add: active_ok_def)
  from fold_mark [OF this, of js] show ?thesis
    using HeartbeatReturns assms(1) by (auto simp: Let_def split: option.splits if_splits)
qed (use assms(1) in \<open>auto simp: acquire_slot_def release_slot_def store_active_job_def set_pc_def at_pc_def
       cancel_claims report_completion_def remove_active_job_def map_update list_update_same_conv
       split: if_splits\<close>)

lemma rt_step_lost:
  assumes "rt_perform a r = Some r'" and inv: "rt_inv r" and lost: "lost_inv r"
  shows "lost_inv r'"
  unfolding lost_inv_def
proof
  have ok: "active_ok r" using inv by (simp add: rt_inv_def)
  assume d': "distinct (map cl_job (claims r'))"
  then have d: "distinct (map cl_job (claims r))" using step_jobs [OF assms(1) ok] by auto
  then have old: "\<forall>c \<in> set (claims r). claim_ok (rejected r) c" using lost by (simp add: lost_inv_def)
  have at: "claim_ok (rejected r) (claims r ! k)" if "k < length (claims r)" for k using old that by simp
  show "\<forall>c \<in> set (claims r'). claim_ok (rejected r') c"
  proof (cases a)
    case (ClaimReturns j)
    then show ?thesis using assms(1) old
      by (auto simp: store_active_job_def claim_ok_def split: if_splits)
  next
    case (BeginRun k)
    then have k: "k < length (claims r)" "cl_pc (claims r ! k) = Spawned"
      and r': "r' = set_pc k Running (cancel_on_rejection k r)"
      using assms(1) by (auto simp: at_pc_def split: if_splits)
    show ?thesis
      using at [OF k(1)] k
      by (simp add: r' set_pc_def cancel_claims) (rule claims_update_ok [OF old], simp add: claim_ok_def undecided_def)
  next
    case (EndRun k how)
    then have k: "k < length (claims r)" "cl_pc (claims r ! k) = Running"
      and r': "r' = report_completion k how r" using assms(1) by (auto simp: at_pc_def split: if_splits)
    let ?c = "(claims r ! k)\<lparr>cl_pc := Decided, cl_reported :=
        (if is_rejected (cl_job (claims r ! k)) r then None else Some (job_status how))\<rparr>"
    have "claim_ok (rejected r) ?c"
      using at [OF k(1)] k(2) by (auto simp: claim_ok_def undecided_def is_rejected_def)
    then have "\<forall>c \<in> set ((claims r)[k := ?c]). claim_ok (rejected r) c" by (rule claims_update_ok [OF old])
    then show ?thesis by (simp only: r' report_completion_def update_fields)
  next
    case (RemoveJob k)
    then have k: "k < length (claims r)" "cl_pc (claims r ! k) = Decided"
      and r': "r' = set_pc k Removed (remove_active_job (cl_job (claims r ! k)) r)"
      using assms(1) by (auto simp: at_pc_def split: if_splits)
    have "claim_ok (rejected r - {cl_job (claims r ! k)}) c"
      if c: "c \<in> set ((claims r)[k := (claims r ! k)\<lparr>cl_pc := Removed\<rparr>])" for c
    proof -
      obtain m where m: "m < length (claims r)" "c = (claims r)[k := (claims r ! k)\<lparr>cl_pc := Removed\<rparr>] ! m"
        using c by (auto simp: in_set_conv_nth)
      show ?thesis
      proof (cases "m = k")
        case True
        then show ?thesis using m at [OF k(1)] k by (auto simp: claim_ok_def undecided_def)
      next
        case False
        then have "cl_job (claims r ! m) \<noteq> cl_job (claims r ! k)"
          using nth_eq_iff_index_eq [OF d, of m k] m(1) k(1) by simp
        then show ?thesis using m at [OF m(1)] False by (auto simp: claim_ok_def)
      qed
    qed
    then show ?thesis by (simp add: r' set_pc_def remove_active_job_def)
  next
    case (FreeSlot k)
    then have k: "k < length (claims r)" "cl_pc (claims r ! k) = Removed"
      and r': "r' = set_pc k Released (release_slot r)"
      using assms(1) by (auto simp: at_pc_def split: if_splits)
    show ?thesis
      using at [OF k(1)] k
      by (simp add: r' set_pc_def release_slot_def)
        (rule claims_update_ok [OF old], auto simp: claim_ok_def undecided_def)
  next
    case (HeartbeatReturns js)
    have "lost_inv (r\<lparr>heartbeat := None\<rparr>)" "active_ok (r\<lparr>heartbeat := None\<rparr>)"
      using lost ok by (simp_all add: lost_inv_def active_ok_def)
    then have "lost_inv r'"
      using HeartbeatReturns assms(1) fold_mark_lost by (auto split: option.splits if_splits)
    with d' show ?thesis by (simp add: lost_inv_def)
  qed (use assms(1) old in \<open>auto simp: acquire_slot_def release_slot_def split: if_splits\<close>)
qed

definition lease_inv :: "runtime \<Rightarrow> bool" where
  "lease_inv r \<longleftrightarrow> rt_inv r \<and> lost_inv r"

interpretation leases: invariant_system rt_start rt_step lease_inv
proof
  show "rt_start r \<Longrightarrow> lease_inv r" for r
    using lifecycle.start_inv by (auto simp: lease_inv_def rt_start_def lost_inv_def)
  show "lease_inv r \<Longrightarrow> rt_step r r' \<Longrightarrow> lease_inv r'" for r r'
    by (auto simp: lease_inv_def elim!: rt_stepE intro: rt_step_inv rt_step_lost)
qed

section \<open>Properties\<close>

text \<open>
  Claim C19. The runner never works on more jobs than configured, and never leaks or double-frees a
  slot: at every moment the slots taken are exactly the claim being polled for and the claimed
  jobs whose worker has not ended, at most \<open>MaxParallelFlows\<close> of them.
\<close>

theorem slots_are_exact:
  assumes "reach rt_start rt_step r"
  shows "slots r = live_claims (claims r) + (if polling r then 1 else 0) \<and> slots r \<le> slot_limit r"
  using lifecycle.reach_inv [OF assms] by (simp add: rt_inv_def slots_inv_def)

fun rt_perform_all :: "rt_action list \<Rightarrow> runtime \<Rightarrow> runtime option" where
  "rt_perform_all [] r = Some r"
| "rt_perform_all (a # as) r =
     (case rt_perform a r of None \<Rightarrow> None | Some r' \<Rightarrow> rt_perform_all as r')"

lemma rt_perform_all_reach:
  "rt_perform_all as r = Some r' \<Longrightarrow> reach rt_start rt_step r \<Longrightarrow> reach rt_start rt_step r'"
  by (induction as r rule: rt_perform_all.induct)
    (auto split: option.splits intro: reach_step rt_stepI)

definition idle_runtime :: "nat \<Rightarrow> runtime" where
  "idle_runtime n =
     \<lparr>slot_limit = n, slots = 0, polling = False, active = Map.empty, rejected = {}, claims = [],
      heartbeat = None\<rparr>"

lemma idle_reach: "reach rt_start rt_step (idle_runtime n)"
  by (rule reach_start) (simp add: rt_start_def idle_runtime_def)

text \<open>Where a sequence of steps leads from the idle runtime with one slot.\<close>

definition after_steps :: "rt_action list \<Rightarrow> runtime" where
  "after_steps as = the (rt_perform_all as (idle_runtime 1))"

lemma after_reach:
  "rt_perform_all as (idle_runtime 1) \<noteq> None \<Longrightarrow> reach rt_start rt_step (after_steps as)"
  using rt_perform_all_reach [OF _ idle_reach] by (auto simp: after_steps_def)

text \<open>A claimed job; and one whose lease a heartbeat rejects while it runs.\<close>

definition claimed_runtime :: runtime where
  "claimed_runtime = after_steps [AcquireSlot, ClaimReturns 7]"

definition lost_runtime :: runtime where
  "lost_runtime =
     after_steps [AcquireSlot, ClaimReturns 7, BeginRun 0, CollectIDs, HeartbeatReturns [7],
                  EndRun 0 Succeeded, RemoveJob 0]"

lemma claimed_reach: "reach rt_start rt_step claimed_runtime"
  unfolding claimed_runtime_def by (rule after_reach) code_simp

lemma lost_reach: "reach rt_start rt_step lost_runtime"
  unfolding lost_runtime_def by (rule after_reach) code_simp

theorem slots_are_exact_witness: "slots claimed_runtime = 1"
proof -
  have "live_claims (claims claimed_runtime) = 1" "\<not> polling claimed_runtime" by code_simp+
  then show ?thesis using slots_are_exact [OF claimed_reach] by simp
qed



text \<open>
  A rejection that arrives late poisons the next claim of the same job. A heartbeat that was
  sent while job 7 ran is answered with a rejection after the job completed and was removed; the
  rejection stays behind, so when the job is claimed again its run is cancelled as it begins and
  its end is not reported, although nobody rejected that lease.
\<close>

theorem late_rejection_cancels_next_claim:
  "\<exists>r c1 c2. reach rt_start rt_step r \<and> claims r = [c1, c2] \<and> cl_job c1 = cl_job c2 \<and>
     cl_reported c1 = Some ''completed'' \<and> \<not> cl_lost c2 \<and> cl_cancelled c2 \<and>
     cl_pc c2 = Decided \<and> cl_reported c2 = None"
proof -
  let ?c1 = "\<lparr>cl_job = 7, cl_pc = Released, cl_registered = True, cl_cancelled = False,
      cl_reported = Some ''completed'', cl_lost = False\<rparr>"
  let ?c2 = "\<lparr>cl_job = 7, cl_pc = Decided, cl_registered = True, cl_cancelled = True,
      cl_reported = None, cl_lost = False\<rparr>"
  let ?as = "[AcquireSlot, ClaimReturns 7, BeginRun 0, CollectIDs, EndRun 0 Succeeded, RemoveJob 0, FreeSlot 0,
      HeartbeatReturns [7], AcquireSlot, ClaimReturns 7, BeginRun 1, EndRun 1 Succeeded]"
  obtain r where r: "rt_perform_all ?as (idle_runtime 1) = Some r" "claims r = [?c1, ?c2]"
    by (simp add: idle_runtime_def acquire_slot_def store_active_job_def at_pc_def set_pc_def
        cancel_on_rejection_def is_rejected_def Let_def report_completion_def remove_active_job_def
        release_slot_def mark_job_rejected_def update_claim_def active_job_ids_def)
  then have "reach rt_start rt_step r" using idle_reach by (blast intro: rt_perform_all_reach)
  with r(2) show ?thesis by (intro exI [of _ r] exI [of _ ?c1] exI [of _ ?c2]) simp
qed

end
