(* ===== verification/Assertions.thy ===== *)
theory Assertions
  imports Spi
begin

text \<open>
  Assertions and outputs: the operators (\<open>pkg/operators\<close>), an assertion and its evaluation
  (\<open>pkg/node/assertion.go\<close>, \<open>assertion_eval.go\<close>), and the engine's pass over a node's
  successful result (\<open>applyAssertionsAndOutputs\<close> of \<open>pkg/engine/execution.go\<close>). An interface
  value is the record of its methods: an extractor is what \<open>Extract\<close> and, where it has one,
  \<open>ExtractText\<close> do with a response context, whose type is a parameter; \<open>x_target\<close> is the path,
  header name or query parameter of the extractor types that have one. What Go's \<open>strconv\<close> and
  \<open>regexp\<close> compute about floating-point text and about patterns is the record \<open>go_text\<close>.
\<close>

section \<open>Text and numbers of a value\<close>

text \<open>\<open>strconv.FormatFloat(x, 'f', -1, 64)\<close>, \<open>%v\<close> of a \<open>float64\<close>, \<open>strconv.ParseFloat(s, 64)\<close> and
  \<open>regexp.MatchString\<close>.\<close>

record go_text =
  format_float :: "go_float \<Rightarrow> string"
  float_v :: "go_float \<Rightarrow> string"
  parse_float :: "string \<Rightarrow> go_error + go_float"
  match_string :: "string \<Rightarrow> string \<Rightarrow> go_error + bool"

definition bool_text :: "bool \<Rightarrow> string" where
  "bool_text b = (if b then ''true'' else ''false'')"

text \<open>\<open>fmt.Sprintf("%v", v)\<close>: a slice in brackets, a map with its keys in order.\<close>

fun value_text :: "go_text \<Rightarrow> gval \<Rightarrow> string" where
  "value_text g GNil = ''<nil>''"
| "value_text g (GBool b) = bool_text b"
| "value_text g (GInt i) = int_text i"
| "value_text g (GFloat x) = float_v g x"
| "value_text g (GStr s) = s"
| "value_text g (GList vs) = ''['' @ join_with '' '' (map (value_text g) vs) @ '']''"
| "value_text g (GTSlice vs) = ''['' @ join_with '' '' (map (value_text g) vs) @ '']''"
| "value_text g (GMap kvs) =
     ''map['' @ join_with '' '' (map (\<lambda>kt. fst kt @ '':'' @ snd kt)
       (sort_key fst (map (\<lambda>kv. (fst kv, value_text g (snd kv))) kvs))) @ '']''"
| "value_text g (GTMap kvs) =
     ''map['' @ join_with '' '' (map (\<lambda>kt. fst kt @ '':'' @ snd kt)
       (sort_key fst (map (\<lambda>kv. (fst kv, value_text g (snd kv))) kvs))) @ '']''"

fun to_string :: "go_text \<Rightarrow> gval \<Rightarrow> string" where
  "to_string g GNil = []"
| "to_string g (GStr s) = s"
| "to_string g (GFloat x) = format_float g x"
| "to_string g (GInt i) = int_text i"
| "to_string g (GBool b) = bool_text b"
| "to_string g v = value_text g v"

text \<open>Go's conversion \<open>float64(i)\<close>: 53 significant bits, to nearest, ties to even.\<close>

fun bit_count :: "nat \<Rightarrow> nat" where
  "bit_count n = (if n = 0 then 0 else Suc (bit_count (n div 2)))"

declare bit_count.simps [simp del]

definition round_nat :: "nat \<Rightarrow> nat" where
  "round_nat n =
     (let e = bit_count n - 53; q = n div 2 ^ e; r = n mod 2 ^ e in
      if e = 0 then n
      else if 2 * r > 2 ^ e \<or> (2 * r = 2 ^ e \<and> odd q) then Suc q * 2 ^ e else q * 2 ^ e)"

definition float_of_int :: "int \<Rightarrow> go_float" where
  "float_of_int i = Fin (of_int (if i < 0 then - int (round_nat (nat (- i))) else int (round_nat (nat i))))"

fun to_float :: "go_text \<Rightarrow> gval \<Rightarrow> go_error + go_float" where
  "to_float g (GFloat x) = Inr x"
| "to_float g (GInt i) = Inr (float_of_int i)"
| "to_float g (GStr s) = parse_float g s"
| "to_float g v = parse_float g (value_text g v)"

text \<open>The order of \<open>float64\<close> values: every comparison with NaN is false.\<close>

fun float_less :: "go_float \<Rightarrow> go_float \<Rightarrow> bool" where
  "float_less (Fin x) (Fin y) = (x < y)"
| "float_less NaN _ = False"
| "float_less _ NaN = False"
| "float_less NegInf y = (y \<noteq> NegInf)"
| "float_less x PosInf = (x \<noteq> PosInf)"
| "float_less _ _ = False"

fun float_eq :: "go_float \<Rightarrow> go_float \<Rightarrow> bool" where
  "float_eq (Fin x) (Fin y) = (x = y)"
| "float_eq PosInf PosInf = True"
| "float_eq NegInf NegInf = True"
| "float_eq _ _ = False"

definition float_le :: "go_float \<Rightarrow> go_float \<Rightarrow> bool" where
  "float_le x y \<longleftrightarrow> float_less x y \<or> float_eq x y"

fun is_empty :: "go_text \<Rightarrow> gval \<Rightarrow> bool" where
  "is_empty g GNil = True"
| "is_empty g (GStr s) = (s = [])"
| "is_empty g (GList vs) = (vs = [])"
| "is_empty g (GMap kvs) = (kvs = [])"
| "is_empty g v = (to_string g v = [])"

section \<open>Operators\<close>

fun contains :: "string \<Rightarrow> string \<Rightarrow> bool" where
  "contains s w = (has_prefix s w \<or> (case s of [] \<Rightarrow> False | c # cs \<Rightarrow> contains cs w))"

declare contains.simps [simp del]

definition not_numeric :: "string \<Rightarrow> go_text \<Rightarrow> gval \<Rightarrow> go_error \<Rightarrow> go_error" where
  "not_numeric what g v e =
     WrapError (what @ '' '' @ value_text g v @ '' is not numeric: '' @ error_text e) e"

definition compare_numeric ::
    "go_text \<Rightarrow> gval \<Rightarrow> gval \<Rightarrow> (go_float \<Rightarrow> go_float \<Rightarrow> bool) \<Rightarrow> go_error + bool" where
  "compare_numeric g actual expected cmp =
     (case to_float g actual of
        Inl e \<Rightarrow> Inl (not_numeric ''actual value'' g actual e)
      | Inr a \<Rightarrow>
          (case to_float g expected of
             Inl e \<Rightarrow> Inl (not_numeric ''expected value'' g expected e)
           | Inr b \<Rightarrow> Inr (cmp a b)))"

definition between :: "go_text \<Rightarrow> gval \<Rightarrow> gval \<Rightarrow> go_error + bool" where
  "between g actual expected =
     (case expected of
        GList [low, high] \<Rightarrow>
          (case to_float g actual of
             Inl e \<Rightarrow> Inl (not_numeric ''actual value'' g actual e)
           | Inr v \<Rightarrow>
               (case to_float g low of
                  Inl e \<Rightarrow> Inl (not_numeric ''lower bound'' g low e)
                | Inr l \<Rightarrow>
                    (case to_float g high of
                       Inl e \<Rightarrow> Inl (not_numeric ''upper bound'' g high e)
                     | Inr h \<Rightarrow> Inr (float_le l v \<and> float_le v h))))
      | _ \<Rightarrow> Inl (PlainError (''between requires a [min, max] pair, got '' @ value_text g expected)))"

type_synonym comparator = "gval \<Rightarrow> gval \<Rightarrow> go_error + bool"

text \<open>The dispatch registry with its built-in comparators, and \<open>Register\<close>.\<close>

definition builtin_comparators :: "go_text \<Rightarrow> (string \<rightharpoonup> comparator)" where
  "builtin_comparators g = map_of
     [(''equals'', \<lambda>a e. Inr (to_string g a = to_string g e)),
      (''not_equals'', \<lambda>a e. Inr (to_string g a \<noteq> to_string g e)),
      (''contains'', \<lambda>a e. Inr (contains (to_string g a) (to_string g e))),
      (''not_contains'', \<lambda>a e. Inr (\<not> contains (to_string g a) (to_string g e))),
      (''starts_with'', \<lambda>a e. Inr (has_prefix (to_string g a) (to_string g e))),
      (''ends_with'', \<lambda>a e. Inr (has_prefix (rev (to_string g a)) (rev (to_string g e)))),
      (''regex'', \<lambda>a e. match_string g (to_string g e) (to_string g a)),
      (''greater_than'', \<lambda>a e. compare_numeric g a e (\<lambda>x y. float_less y x)),
      (''less_than'', \<lambda>a e. compare_numeric g a e float_less),
      (''greater_than_or_equal'', \<lambda>a e. compare_numeric g a e (\<lambda>x y. float_le y x)),
      (''less_than_or_equal'', \<lambda>a e. compare_numeric g a e float_le),
      (''between'', between g),
      (''empty'', \<lambda>a _. Inr (is_empty g a)),
      (''not_empty'', \<lambda>a _. Inr (\<not> is_empty g a))]"

definition register_comparator ::
    "string \<Rightarrow> comparator \<Rightarrow> (string \<rightharpoonup> comparator) \<Rightarrow> (string \<rightharpoonup> comparator)" where
  "register_comparator ty cmp comparators = comparators(ty \<mapsto> cmp)"

definition compare_values :: "(string \<rightharpoonup> comparator) \<Rightarrow> string \<Rightarrow> gval \<Rightarrow> gval \<Rightarrow> go_error + bool" where
  "compare_values comparators ty actual expected =
     (case comparators ty of
        None \<Rightarrow> Inl (PlainError (''unknown assertion operator '' @ dquote ty))
      | Some cmp \<Rightarrow> cmp actual expected)"

definition is_known :: "(string \<rightharpoonup> comparator) \<Rightarrow> string \<Rightarrow> bool" where
  "is_known comparators ty = (comparators ty \<noteq> None)"

definition compares_text :: "string \<Rightarrow> bool" where
  "compares_text ty \<longleftrightarrow>
     ty \<in> {''equals'', ''not_equals'', ''contains'', ''not_contains'', ''starts_with'', ''ends_with'', ''regex''}"

section \<open>Assertions\<close>

record 'rc extractor =
  x_extract :: "'rc \<Rightarrow> go_error + gval"
  x_extract_text :: "('rc \<Rightarrow> go_error + gval) option"
  x_target :: "string option"

record 'rc assertion =
  as_extractor :: "'rc extractor option"
  as_extractor_type :: string
  as_operator :: string
  as_expected :: gval

record assertion_result =
  a_index :: nat
  a_extractor :: string
  a_operator :: string
  a_expected :: gval
  a_actual :: gval
  a_passed :: bool
  a_error :: string

definition extract_actual :: "'rc assertion \<Rightarrow> 'rc extractor \<Rightarrow> 'rc \<Rightarrow> go_error + gval" where
  "extract_actual a x rc =
     (case x_extract_text x of
        Some extract_text \<Rightarrow> if compares_text (as_operator a) then extract_text rc else x_extract x rc
      | None \<Rightarrow> x_extract x rc)"

definition evaluate :: "(string \<rightharpoonup> comparator) \<Rightarrow> 'rc assertion \<Rightarrow> 'rc \<Rightarrow> assertion_result" where
  "evaluate comparators a rc =
     (let res = \<lparr>a_index = 0, a_extractor = as_extractor_type a, a_operator = as_operator a,
                 a_expected = as_expected a, a_actual = GNil, a_passed = False, a_error = []\<rparr> in
      case as_extractor a of
        None \<Rightarrow> res\<lparr>a_error := ''assertion has no extractor (type '' @ dquote (as_extractor_type a) @ '')''\<rparr>
      | Some x \<Rightarrow>
          (case extract_actual a x rc of
             Inl e \<Rightarrow> res\<lparr>a_error := ''extractor '' @ dquote (as_extractor_type a) @ '' failed: '' @ error_text e\<rparr>
           | Inr actual \<Rightarrow>
               (case compare_values comparators (as_operator a) actual (as_expected a) of
                  Inl e \<Rightarrow> res\<lparr>a_actual := actual, a_error := error_text e\<rparr>
                | Inr passed \<Rightarrow> res\<lparr>a_actual := actual, a_passed := passed\<rparr>)))"

definition assertion_failed :: "string \<Rightarrow> go_error" where
  "assertion_failed msg = UserError ''ASSERTION_FAILED'' msg None"

definition failure_of :: "go_text \<Rightarrow> assertion_result \<Rightarrow> go_error option" where
  "failure_of g res =
     (if a_error res \<noteq> []
      then Some (assertion_failed (''assertion '' @ nat_text (a_index res) @ '' ('' @ a_extractor res @ '' ''
             @ a_operator res @ '') evaluation error: '' @ a_error res))
      else if \<not> a_passed res
      then Some (assertion_failed (''assertion '' @ nat_text (a_index res) @ '' failed: '' @ a_extractor res @ '' ''
             @ a_operator res @ '' expected='' @ value_text g (a_expected res)
             @ '' actual='' @ value_text g (a_actual res)))
      else None)"

fun evaluate_from ::
    "go_text \<Rightarrow> (string \<rightharpoonup> comparator) \<Rightarrow> nat \<Rightarrow> 'rc assertion list \<Rightarrow> 'rc \<Rightarrow>
     assertion_result list \<times> go_error option" where
  "evaluate_from g comparators i [] rc = ([], None)"
| "evaluate_from g comparators i (a # as) rc =
     (let res = (evaluate comparators a rc)\<lparr>a_index := i\<rparr> in
      case failure_of g res of
        Some e \<Rightarrow> ([res], Some e)
      | None \<Rightarrow> (case evaluate_from g comparators (Suc i) as rc of (rs, err) \<Rightarrow> (res # rs, err)))"

definition evaluate_assertions ::
    "go_text \<Rightarrow> (string \<rightharpoonup> comparator) \<Rightarrow> 'rc assertion list \<Rightarrow> 'rc \<Rightarrow>
     assertion_result list \<times> go_error option" where
  "evaluate_assertions g comparators as rc = evaluate_from g comparators 0 as rc"

section \<open>Outputs\<close>

record 'rc node_output =
  o_name :: string
  o_extractor :: "'rc extractor"

fun extract_into :: "'rc node_output list \<Rightarrow> 'rc \<Rightarrow> outputs \<Rightarrow> go_error + outputs" where
  "extract_into [] rc produced = Inr produced"
| "extract_into (out # outs) rc produced =
     (case x_extract (o_extractor out) rc of
        Inl e \<Rightarrow> Inl e
      | Inr v \<Rightarrow> extract_into outs rc (produced(o_name out \<mapsto> v)))"

definition extract_outputs :: "'rc node_output list \<Rightarrow> 'rc \<Rightarrow> go_error + outputs" where
  "extract_outputs outs rc = extract_into outs rc Map.empty"

fun validate_outputs :: "string list \<Rightarrow> outputs \<Rightarrow> go_error option" where
  "validate_outputs [] produced = None"
| "validate_outputs (key # keys) produced =
     (if produced key = None
      then Some (PlainError (''failed to extract expected output: '' @ key))
      else validate_outputs keys produced)"

fun extract_available :: "'rc node_output list \<Rightarrow> 'rc \<Rightarrow> outputs \<Rightarrow> outputs" where
  "extract_available [] rc available = available"
| "extract_available (out # outs) rc available =
     (case x_extract (o_extractor out) rc of
        Inl e \<Rightarrow> extract_available outs rc available
      | Inr v \<Rightarrow> extract_available outs rc (available(o_name out \<mapsto> v)))"

section \<open>The engine's pass over a result\<close>

record asserted_result = exec_result +
  r_assertion_results :: "assertion_result list"

record 'rc checked_node =
  cn_outputs :: "'rc node_output list"
  cn_output_schema :: "string list"

text \<open>
  \<open>resolved\<close> is what \<open>ResolveAssertions\<close> returned for the node's assertions; \<open>context\<close> is absent
  for a result that exposes no response context.
\<close>

definition apply_assertions_and_outputs ::
    "go_text \<Rightarrow> (string \<rightharpoonup> comparator) \<Rightarrow> 'rc checked_node \<Rightarrow> 'rc option \<Rightarrow>
     (go_error + 'rc assertion list) \<Rightarrow> asserted_result \<Rightarrow> asserted_result \<times> go_error option" where
  "apply_assertions_and_outputs g comparators n context resolved res =
     (case context of
        None \<Rightarrow> (res, None)
      | Some rc \<Rightarrow>
          (case resolved of
             Inl e \<Rightarrow> (fail_result (Some e) ''ASSERTION_FAILED'' res, Some e)
           | Inr as \<Rightarrow>
               (case evaluate_assertions g comparators as rc of
                  (results, Some e) \<Rightarrow>
                    (fail_result (Some e) ''ASSERTION_FAILED''
                       (merge_outputs (extract_available (cn_outputs n) rc Map.empty)
                          (res\<lparr>r_assertion_results := results\<rparr>)),
                     Some (assertion_failed (error_text e)))
                | (results, None) \<Rightarrow>
                    (let res = res\<lparr>r_assertion_results := results\<rparr> in
                     case extract_outputs (cn_outputs n) rc of
                       Inl e \<Rightarrow> (fail_result (Some e) ''OUTPUT_EXTRACTION_FAILED'' res,
                                 Some (UserError ''OUTPUT_EXTRACTION_FAILED'' (error_text e) None))
                     | Inr produced \<Rightarrow>
                         (let res = merge_outputs produced res;
                              effective = (if r_outputs res \<noteq> Map.empty then r_outputs res else produced) in
                          case validate_outputs (cn_output_schema n) effective of
                            Some e \<Rightarrow> (fail_result (Some e) ''OUTPUT_VALIDATION_FAILED'' res,
                                       Some (UserError ''OUTPUT_VALIDATION_FAILED'' (error_text e) None))
                          | None \<Rightarrow> (res, None))))))"

section \<open>Properties\<close>

lemma failure_of_None_iff: "failure_of g res = None \<longleftrightarrow> a_error res = [] \<and> a_passed res"
  by (simp add: failure_of_def)

lemma failure_of_code: "failure_of g res = Some e \<Longrightarrow> \<exists>msg. e = UserError ''ASSERTION_FAILED'' msg None"
  by (auto simp: failure_of_def assertion_failed_def split: if_splits)

lemma evaluate_passed_no_error: "a_passed (evaluate comparators a rc) \<Longrightarrow> a_error (evaluate comparators a rc) = []"
  by (auto simp: evaluate_def Let_def split: option.splits sum.splits)

lemma failure_of_evaluate:
  "failure_of g ((evaluate comparators a rc)\<lparr>a_index := i\<rparr>) = None \<longleftrightarrow> a_passed (evaluate comparators a rc)"
  using evaluate_passed_no_error [of comparators a rc] by (auto simp: failure_of_None_iff)

abbreviation passing_prefix :: "(string \<rightharpoonup> comparator) \<Rightarrow> 'rc \<Rightarrow> 'rc assertion list \<Rightarrow> nat" where
  "passing_prefix comparators rc as \<equiv> length (takeWhile (\<lambda>a. a_passed (evaluate comparators a rc)) as)"

lemma passing_prefix_le [simp]: "passing_prefix comparators rc as \<le> length as"
  by (rule length_takeWhile_le)

lemma evaluate_from_eq:
  "evaluate_from g comparators i as rc =
     (let k = passing_prefix comparators rc as;
          result = (\<lambda>j. (evaluate comparators (as ! j) rc)\<lparr>a_index := i + j\<rparr>)
      in (map result [0..<min (Suc k) (length as)], if k < length as then failure_of g (result k) else None))"
proof (induction as arbitrary: i)
  case Nil
  then show ?case by simp
next
  case (Cons a as)
  have shift: "map f [0..<Suc n] = f 0 # map (\<lambda>j. f (Suc j)) [0..<n]" for f :: "nat \<Rightarrow> assertion_result" and n
    by (simp add: upt_conv_Cons map_Suc_upt [symmetric] del: upt_Suc)
  show ?case
  proof (cases "a_passed (evaluate comparators a rc)")
    case True
    then have none: "failure_of g ((evaluate comparators a rc)\<lparr>a_index := i\<rparr>) = None"
      by (simp add: failure_of_evaluate)
    have "min (Suc (passing_prefix comparators rc (a # as))) (length (a # as)) =
        Suc (min (Suc (passing_prefix comparators rc as)) (length as))"
      using True by simp
    with none True show ?thesis by (simp only: evaluate_from.simps Cons.IH shift Let_def) simp
  next
    case False
    then obtain e where "failure_of g ((evaluate comparators a rc)\<lparr>a_index := i\<rparr>) = Some e"
      by (metis failure_of_evaluate not_None_eq)
    with False show ?thesis by (simp add: Let_def)
  qed
qed

lemma passing_prefix_all: "passing_prefix comparators rc as = length as \<longleftrightarrow> (\<forall>a\<in>set as. a_passed (evaluate comparators a rc))"
  by (induction as) auto

lemma evaluate_assertions_None_iff:
  "snd (evaluate_assertions g comparators as rc) = None \<longleftrightarrow> (\<forall>a\<in>set as. a_passed (evaluate comparators a rc))"
proof -
  have "\<not> a_passed (evaluate comparators (as ! k) rc)" if "k = passing_prefix comparators rc as" "k < length as" for k
    using that nth_length_takeWhile by fastforce
  moreover have "passing_prefix comparators rc as < length as \<or> passing_prefix comparators rc as = length as"
    using passing_prefix_le [of comparators rc as] by linarith
  ultimately show ?thesis
    unfolding passing_prefix_all [symmetric] evaluate_assertions_def evaluate_from_eq Let_def
    by (auto simp: failure_of_evaluate)
qed

lemma evaluate_assertions_results:
  "fst (evaluate_assertions g comparators as rc) =
     map (\<lambda>j. (evaluate comparators (as ! j) rc)\<lparr>a_index := j\<rparr>)
       [0..<min (Suc (passing_prefix comparators rc as)) (length as)]"
  by (simp add: evaluate_assertions_def evaluate_from_eq Let_def)

lemma extract_into_keys:
  "extract_into outs rc m = Inr produced \<Longrightarrow> dom produced = dom m \<union> o_name ` set outs"
  by (induction outs arbitrary: m) (auto split: sum.splits)

lemma extract_available_keys:
  "dom (extract_available outs rc m) =
     dom m \<union> o_name ` {out \<in> set outs. \<exists>v. x_extract (o_extractor out) rc = Inr v}"
  by (induction outs arbitrary: m) (auto split: sum.splits)

lemma validate_outputs_None_iff: "validate_outputs keys m = None \<longleftrightarrow> set keys \<subseteq> dom m"
  by (induction keys) auto

lemma fail_result_error [simp]:
  "r_error (fail_result (Some e) code r) = Some e"
  "r_outputs (fail_result (Some e) code r) = r_outputs r"
  "asserted_result.r_assertion_results (fail_result (Some e) code q) = asserted_result.r_assertion_results q"
  by (auto simp: fail_result_def split: option.splits prod.splits)

lemma merge_outputs_simps [simp]:
  "r_outputs (merge_outputs outs r) = maps_copy (r_outputs r) outs"
  "r_error (merge_outputs outs r) = r_error r"
  "asserted_result.r_assertion_results (merge_outputs outs q) = asserted_result.r_assertion_results q"
  by (simp_all add: merge_outputs_def)

lemma dom_maps_copy [simp]: "dom (maps_copy m n) = dom m \<union> dom n"
  by (auto simp: maps_copy_def)

text \<open>
  Assertions are evaluated in order and stop at the first that does not pass, which
  is recorded: the results are those of the passing prefix and of that assertion, each with its
  position; the pass reports an error, a \<open>UserError\<close> with code \<open>ASSERTION_FAILED\<close>, exactly when
  some assertion does not pass.
\<close>

theorem assertions_stop_at_first_failure:
  "fst (evaluate_assertions g comparators as rc) =
     map (\<lambda>j. (evaluate comparators (as ! j) rc)\<lparr>a_index := j\<rparr>)
       [0..<min (Suc (length (takeWhile (\<lambda>a. a_passed (evaluate comparators a rc)) as))) (length as)]
   \<and> (case snd (evaluate_assertions g comparators as rc) of
        None \<Rightarrow> list_all (\<lambda>a. a_passed (evaluate comparators a rc)) as
      | Some e \<Rightarrow> error_code e = ''ASSERTION_FAILED'' \<and> list_ex (\<lambda>a. a_passed (evaluate comparators a rc) = False) as)"
proof (cases "snd (evaluate_assertions g comparators as rc)")
  case None
  with evaluate_assertions_None_iff [of g comparators as rc] show ?thesis
    by (simp add: evaluate_assertions_results list_all_iff)
next
  case (Some e)
  then have "\<exists>a\<in>set as. \<not> a_passed (evaluate comparators a rc)"
    using evaluate_assertions_None_iff [of g comparators as rc] by auto
  moreover from Some obtain msg where "e = UserError ''ASSERTION_FAILED'' msg None"
    by (auto simp: evaluate_assertions_def evaluate_from_eq Let_def split: if_splits dest: failure_of_code)
  ultimately show ?thesis
    using Some by (auto simp: evaluate_assertions_results list_ex_iff error_code_def)
qed


definition demo_text :: go_text where
  "demo_text = \<lparr>format_float = (\<lambda>_. ''f''), float_v = (\<lambda>_. ''f''),
     parse_float = (\<lambda>s. case atoi s of Some i \<Rightarrow> Inr (Fin (of_int i)) | None \<Rightarrow> Inl (PlainError ''invalid syntax'')),
     match_string = (\<lambda>p s. Inr (p = s))\<rparr>"

definition demo_extractor :: "gval extractor" where
  "demo_extractor = \<lparr>x_extract = Inr, x_extract_text = None, x_target = None\<rparr>"

definition demo_assertion :: "gval \<Rightarrow> gval assertion" where
  "demo_assertion v = \<lparr>as_extractor = Some demo_extractor, as_extractor_type = ''body'',
     as_operator = ''equals'', as_expected = v\<rparr>"

lemma demo_equals:
  "a_passed (evaluate (builtin_comparators demo_text) (demo_assertion v) w) = (to_string demo_text w = to_string demo_text v)"
  by (simp add: evaluate_def Let_def demo_assertion_def extract_actual_def demo_extractor_def
      compare_values_def builtin_comparators_def split: sum.splits)

definition demo_node :: "gval checked_node" where
  "demo_node = \<lparr>cn_outputs = [\<lparr>o_name = ''id'', o_extractor = demo_extractor\<rparr>], cn_output_schema = [''id'']\<rparr>"

definition demo_result :: asserted_result where
  "demo_result = \<lparr>r_node_id = ''a'', r_display_name = [], r_node_type = KindRequest, r_run_when = [],
     r_inputs = Map.empty, r_outputs = Map.empty, r_error = None, r_error_code = None, r_error_msg = None,
     r_skip_reason = None, r_missing_inputs = [], r_routed = None, r_assertion_results = []\<rparr>"


text \<open>
  The built-in operators: each negated operator is the negation of its positive one,
  on every pair of values; \<open>between\<close> holds exactly when both bounds hold, and is an error exactly
  when a side is not numeric; and equality is that of the text forms, so the integer 200 equals
  the string "200".
\<close>

theorem operators_fit_together:
  assumes "c = builtin_comparators g"
  shows "compare_values c ''not_equals'' a e = map_sum id Not (compare_values c ''equals'' a e) \<and>
     compare_values c ''not_contains'' a e = map_sum id Not (compare_values c ''contains'' a e) \<and>
     compare_values c ''not_empty'' a e = map_sum id Not (compare_values c ''empty'' a e) \<and>
     (compare_values c ''between'' a (GList [l, h]) = Inr True \<longleftrightarrow>
        compare_values c ''greater_than_or_equal'' a l = Inr True \<and>
        compare_values c ''less_than_or_equal'' a h = Inr True) \<and>
     ((\<exists>x. compare_values c ''between'' a (GList [l, h]) = Inl x) \<longleftrightarrow>
        (\<exists>x. compare_values c ''greater_than_or_equal'' a l = Inl x) \<or>
        (\<exists>x. compare_values c ''less_than_or_equal'' a h = Inl x)) \<and>
     compare_values c ''equals'' (GInt i) (GStr (int_text i)) = Inr True"
  unfolding assms
  by (auto simp: compare_values_def builtin_comparators_def between_def compare_numeric_def split: sum.splits)

theorem operators_fit_together_witness:
  "compare_values (builtin_comparators demo_text) ''between'' (GStr ''5'') (GList [GInt 1, GInt 9]) = Inr True \<and>
   compare_values (builtin_comparators demo_text) ''equals'' (GInt 200) (GStr ''200'') = Inr True"
proof -
  note t = operators_fit_together [OF refl, of demo_text]
  have "compare_values (builtin_comparators demo_text) ''greater_than_or_equal'' (GStr ''5'') (GInt 1) = Inr True"
    "compare_values (builtin_comparators demo_text) ''less_than_or_equal'' (GStr ''5'') (GInt 9) = Inr True"
    by (simp_all add: compare_values_def builtin_comparators_def compare_numeric_def demo_text_def atoi_def
        digits_value_def is_digit_def float_of_int_def round_nat_def bit_count.simps float_le_def)
  with t [of "GStr ''5''" "GNil" "GInt 1" "GInt 9" 0]
  have "compare_values (builtin_comparators demo_text) ''between'' (GStr ''5'') (GList [GInt 1, GInt 9]) = Inr True"
    by blast
  moreover have "int_text 200 = ''200''" by code_simp
  with t [of GNil GNil GNil GNil 200]
  have "compare_values (builtin_comparators demo_text) ''equals'' (GInt 200) (GStr ''200'') = Inr True" by metis
  ultimately show ?thesis by blast
qed

end
