(* ===== verification/Webhooks.thy ===== *)
theory Webhooks
  imports Assertions
begin

text \<open>
  The webhook wait node (\<open>pkg/node/webhook_wait_node.go\<close>, \<open>webhook_expectations.go\<close>): giving the
  captured requests to the expected events, the verdict on every event, the settle window and
  the wait's ends. A captured request is its ID with the response context its assertions read.
  A wait polls until its context ends, so a run of it is the list of its polls, each with what it
  fetched and the clock readings of that iteration; a time is a number of nanoseconds.
\<close>

section \<open>Expected events\<close>

record 'rc webhook_expectation =
  we_name :: string
  we_min :: "int option"
  we_max :: "int option"
  we_declared :: "'rc assertion list"

record 'rc resolved_expectation = "'rc webhook_expectation" +
  re_assertions :: "'rc assertion list"
  re_unresolved :: "string list"

definition minimum :: "('rc, 'z) webhook_expectation_scheme \<Rightarrow> int" where
  "minimum e = (case we_min e of None \<Rightarrow> 1 | Some n \<Rightarrow> n)"

record 'rc captured_request =
  cr_id :: string
  cr_context :: 'rc

record expectation_check =
  ck_label :: string
  ck_passed :: bool
  ck_expected :: gval
  ck_actual :: gval

record closest_event =
  ce_request_id :: string
  ce_claimed_by :: string
  ce_checks :: "expectation_check list"

record expectation_outcome =
  eo_name :: string
  eo_received :: nat
  eo_passed :: bool
  eo_arrived_after_ms :: "int option"
  eo_request_ids :: "string list"
  eo_problem :: string
  eo_closest :: "closest_event option"

section \<open>Checking one request\<close>

text \<open>The assertion operators and the text functions every check uses.\<close>

record wait_env =
  w_text :: go_text
  w_comparators :: "string \<rightharpoonup> comparator"

fun first_failing :: "wait_env \<Rightarrow> 'rc assertion list \<Rightarrow> 'rc \<Rightarrow> 'rc assertion option" where
  "first_failing w [] rc = None"
| "first_failing w (a # as) rc =
     (if a_passed (evaluate (w_comparators w) a rc) then first_failing w as rc else Some a)"

definition all_assertions_pass :: "wait_env \<Rightarrow> 'rc assertion list \<Rightarrow> 'rc \<Rightarrow> bool" where
  "all_assertions_pass w as rc = (first_failing w as rc = None)"

definition describe_assertion :: "wait_env \<Rightarrow> 'rc assertion \<Rightarrow> string" where
  "describe_assertion w a =
     (let target = (case as_extractor a of
                      Some x \<Rightarrow> (case x_target x of Some t \<Rightarrow> t | None \<Rightarrow> as_extractor_type a)
                    | None \<Rightarrow> as_extractor_type a);
          parts = [target, as_operator a]
      in join_with '' '' (if as_expected a \<noteq> GNil then parts @ [value_text (w_text w) (as_expected a)] else parts))"

definition check_one :: "wait_env \<Rightarrow> 'rc \<Rightarrow> 'rc assertion \<Rightarrow> expectation_check" where
  "check_one w rc a =
     (let result = evaluate (w_comparators w) a rc in
      if a_passed result
      then \<lparr>ck_label = describe_assertion w a, ck_passed = True, ck_expected = GNil, ck_actual = GNil\<rparr>
      else \<lparr>ck_label = describe_assertion w a, ck_passed = False,
            ck_expected = a_expected result, ck_actual = a_actual result\<rparr>)"

definition check_each :: "wait_env \<Rightarrow> 'rc assertion list \<Rightarrow> 'rc \<Rightarrow> expectation_check list \<times> nat" where
  "check_each w as rc =
     (let checks = map (check_one w rc) as in (checks, length (filter ck_passed checks)))"

section \<open>Assigning requests to groups\<close>

definition satisfies :: "wait_env \<Rightarrow> 'rc resolved_expectation \<Rightarrow> 'rc \<Rightarrow> bool" where
  "satisfies w g rc \<longleftrightarrow> re_unresolved g = [] \<and> all_assertions_pass w (re_assertions g) rc"

text \<open>The loop over the groups, for one request: the chosen group and whether it was in need.\<close>

fun scan_groups ::
    "wait_env \<Rightarrow> nat \<Rightarrow> 'rc \<Rightarrow> nat list list \<Rightarrow> nat \<Rightarrow> 'rc resolved_expectation list \<Rightarrow>
     nat option \<Rightarrow> bool \<Rightarrow> nat list list \<Rightarrow> nat option \<times> nat list list" where
  "scan_groups w item rc claims gi [] chosen needed matches = (chosen, matches)"
| "scan_groups w item rc claims gi (g # gs) chosen needed matches =
     (if satisfies w g rc
      then (let matches = matches[gi := matches ! gi @ [item]] in
            if needed then scan_groups w item rc claims (Suc gi) gs chosen needed matches
            else if int (length (claims ! gi)) < minimum g
            then scan_groups w item rc claims (Suc gi) gs (Some gi) True matches
            else if chosen = None
            then scan_groups w item rc claims (Suc gi) gs (Some gi) needed matches
            else scan_groups w item rc claims (Suc gi) gs chosen needed matches)
      else scan_groups w item rc claims (Suc gi) gs chosen needed matches)"

type_synonym assignment = "nat list list \<times> nat list list \<times> (nat \<rightharpoonup> nat)"

fun assign_from ::
    "wait_env \<Rightarrow> 'rc resolved_expectation list \<Rightarrow> nat \<Rightarrow> 'rc list \<Rightarrow> assignment \<Rightarrow> assignment" where
  "assign_from w groups item [] st = st"
| "assign_from w groups item (rc # rcs) (claims, matches, claimed_by) =
     (case scan_groups w item rc claims 0 groups None False matches of
        (Some chosen, matches) \<Rightarrow>
          assign_from w groups (Suc item) rcs
            (claims[chosen := claims ! chosen @ [item]], matches, claimed_by(item \<mapsto> chosen))
      | (None, matches) \<Rightarrow> assign_from w groups (Suc item) rcs (claims, matches, claimed_by))"

definition assign_requests :: "wait_env \<Rightarrow> 'rc resolved_expectation list \<Rightarrow> 'rc list \<Rightarrow> assignment" where
  "assign_requests w groups contexts =
     assign_from w groups 0 contexts (map (\<lambda>_. []) groups, map (\<lambda>_. []) groups, Map.empty)"

section \<open>Judging a group\<close>

record group_events =
  ge_claimed :: "nat list"
  ge_matched :: "nat list"
  ge_foreign :: "(nat \<times> string) option"

definition over_max :: "group_events \<Rightarrow> 'rc resolved_expectation \<Rightarrow> bool" where
  "over_max ev g \<longleftrightarrow>
     re_unresolved g = [] \<and> (case we_max g of None \<Rightarrow> False | Some n \<Rightarrow> int (length (ge_matched ev)) > n)"

fun first_event_failure ::
    "wait_env \<Rightarrow> 'rc assertion list \<Rightarrow> 'rc captured_request list \<Rightarrow> nat list \<Rightarrow> ('rc assertion \<times> nat) option" where
  "first_event_failure w every items [] = None"
| "first_event_failure w every items (i # is) =
     (case first_failing w every (cr_context (items ! i)) of
        Some a \<Rightarrow> Some (a, i)
      | None \<Rightarrow> first_event_failure w every items is)"

definition arrived_after :: "'rc captured_request list \<Rightarrow> (string \<rightharpoonup> int) \<Rightarrow> nat list \<Rightarrow> int option" where
  "arrived_after items first_seen claimed =
     (case claimed of
        [] \<Rightarrow> None
      | i # _ \<Rightarrow>
          (case first_seen (cr_id (items ! i)) of
             Some arrived \<Rightarrow> if arrived > 0 then Some (arrived div 1000000) else None
           | None \<Rightarrow> None))"

definition judge_expectation ::
    "wait_env \<Rightarrow> 'rc resolved_expectation \<Rightarrow> group_events \<Rightarrow> 'rc captured_request list \<Rightarrow>
     'rc assertion list \<Rightarrow> (string \<rightharpoonup> int) \<Rightarrow> expectation_outcome \<times> bool" where
  "judge_expectation w g ev items every first_seen =
     (let claimed = ge_claimed ev; n = int (length claimed);
          outcome = \<lparr>eo_name = we_name g, eo_received = length claimed, eo_passed = False,
                     eo_arrived_after_ms = arrived_after items first_seen claimed,
                     eo_request_ids = map (\<lambda>i. cr_id (items ! i)) claimed,
                     eo_problem = [], eo_closest = None\<rparr>
      in if re_unresolved g \<noteq> []
      then (outcome\<lparr>eo_problem := ''not evaluated: no value for {{'' @ hd (re_unresolved g) @ ''}}''\<rparr>, False)
      else if over_max ev g
      then (outcome\<lparr>eo_problem := nat_text (length (ge_matched ev)) @ '' arrived'' @
              (case ge_foreign ev of
                 None \<Rightarrow> []
               | Some (i, owner) \<Rightarrow> ''; '' @ cr_id (items ! i) @ '' counts against max '' @
                   int_text (the (we_max g)) @ '' although '' @ dquote owner @ '' claimed it'')\<rparr>, True)
      else (case first_event_failure w every items claimed of
              Some (a, i) \<Rightarrow>
                (outcome\<lparr>eo_problem := describe_assertion w a @ '' failed on '' @ cr_id (items ! i)\<rparr>, True)
            | None \<Rightarrow>
                if claimed = [] \<and> minimum g > 0 then (outcome\<lparr>eo_problem := ''missing''\<rparr>, False)
                else if n < minimum g
                then (outcome\<lparr>eo_problem := nat_text (length claimed) @ '' of '' @ int_text (minimum g)\<rparr>, False)
                else (outcome\<lparr>eo_passed := True\<rparr>, False)))"

fun best_match ::
    "wait_env \<Rightarrow> 'rc assertion list \<Rightarrow> 'rc captured_request list \<Rightarrow> nat \<Rightarrow>
     nat option \<times> nat \<times> expectation_check list \<Rightarrow> nat option \<times> nat \<times> expectation_check list" where
  "best_match w as [] i best = best"
| "best_match w as (item # items) i (best, best_passed, best_checks) =
     (case check_each w as (cr_context item) of
        (checks, passed) \<Rightarrow>
          if passed > best_passed then best_match w as items (Suc i) (Some i, passed, checks)
          else best_match w as items (Suc i) (best, best_passed, best_checks))"

definition closest_event_of ::
    "wait_env \<Rightarrow> 'rc resolved_expectation \<Rightarrow> 'rc captured_request list \<Rightarrow> (nat \<rightharpoonup> nat) \<Rightarrow>
     'rc resolved_expectation list \<Rightarrow> closest_event option" where
  "closest_event_of w g items claimed_by groups =
     (case best_match w (re_assertions g) items 0 (None, 0, []) of
        (None, _, _) \<Rightarrow> None
      | (Some i, _, checks) \<Rightarrow>
          Some \<lparr>ce_request_id = cr_id (items ! i),
                ce_claimed_by = (case claimed_by i of None \<Rightarrow> [] | Some owner \<Rightarrow> we_name (groups ! owner)),
                ce_checks = checks\<rparr>)"

section \<open>The verdict\<close>

datatype verdict = VerdictPending | VerdictMet | VerdictBroken

text \<open>The first match another group claimed; a missing key of \<open>claimedBy\<close> reads as zero.\<close>

definition foreign_match ::
    "nat \<Rightarrow> nat list \<Rightarrow> (nat \<rightharpoonup> nat) \<Rightarrow> 'rc resolved_expectation list \<Rightarrow> (nat \<times> string) option" where
  "foreign_match gi matched claimed_by groups =
     (let owner = (\<lambda>i. case claimed_by i of Some o' \<Rightarrow> o' | None \<Rightarrow> 0) in
      map_option (\<lambda>i. (i, we_name (groups ! owner i))) (find (\<lambda>i. owner i \<noteq> gi) matched))"

definition events_of ::
    "nat \<Rightarrow> assignment \<Rightarrow> 'rc resolved_expectation list \<Rightarrow> group_events" where
  "events_of gi asg groups =
     (case asg of (claims, matches, claimed_by) \<Rightarrow>
        \<lparr>ge_claimed = claims ! gi, ge_matched = matches ! gi,
         ge_foreign = foreign_match gi (matches ! gi) claimed_by groups\<rparr>)"

definition judge_group ::
    "wait_env \<Rightarrow> 'rc resolved_expectation list \<Rightarrow> 'rc assertion list \<Rightarrow> 'rc captured_request list \<Rightarrow>
     (string \<rightharpoonup> int) \<Rightarrow> assignment \<Rightarrow> nat \<Rightarrow> expectation_outcome \<times> bool" where
  "judge_group w groups every items first_seen asg gi =
     (let g = groups ! gi; ev = events_of gi asg groups in
      case judge_expectation w g ev items every first_seen of
        (outcome, broken) \<Rightarrow>
          (case (over_max ev g, ge_foreign ev) of
             (True, Some (i, owner)) \<Rightarrow>
               (outcome\<lparr>eo_closest := Some \<lparr>ce_request_id = cr_id (items ! i), ce_claimed_by = owner,
                  ce_checks = fst (check_each w (re_assertions g) (cr_context (items ! i)))\<rparr>\<rparr>, broken)
           | _ \<Rightarrow>
               if re_unresolved g = [] \<and> \<not> eo_passed outcome \<and> int (eo_received outcome) < minimum g
               then (outcome\<lparr>eo_closest := closest_event_of w g items (snd (snd asg)) groups\<rparr>, broken)
               else (outcome, broken)))"

fun verdict_of :: "'rc resolved_expectation list \<Rightarrow> (expectation_outcome \<times> bool) list \<Rightarrow> verdict \<Rightarrow> verdict" where
  "verdict_of (g # gs) ((outcome, broken) # js) v =
     verdict_of gs js
       (if broken then VerdictBroken
        else if re_unresolved g = [] \<and> \<not> eo_passed outcome \<and> v = VerdictMet then VerdictPending else v)"
| "verdict_of _ _ v = v"

definition evaluate_expectations ::
    "wait_env \<Rightarrow> 'rc resolved_expectation list \<Rightarrow> 'rc assertion list \<Rightarrow> 'rc captured_request list \<Rightarrow>
     (string \<rightharpoonup> int) \<Rightarrow> expectation_outcome list \<times> verdict" where
  "evaluate_expectations w groups every items first_seen =
     (let asg = assign_requests w groups (map cr_context items);
          judged = map (judge_group w groups every items first_seen asg) [0..<length groups]
      in (map fst judged, verdict_of groups judged VerdictMet))"

definition count_received :: "expectation_outcome list \<Rightarrow> nat" where
  "count_received outcomes = sum_list (map eo_received outcomes)"

section \<open>What the assignment is\<close>

text \<open>The group a request goes to, given what was claimed before it.\<close>

definition in_need :: "'rc resolved_expectation list \<Rightarrow> nat list list \<Rightarrow> nat \<Rightarrow> bool" where
  "in_need groups claims j \<longleftrightarrow> int (length (claims ! j)) < minimum (groups ! j)"

definition choose_group ::
    "wait_env \<Rightarrow> 'rc resolved_expectation list \<Rightarrow> nat list list \<Rightarrow> 'rc \<Rightarrow> nat option" where
  "choose_group w groups claims rc =
     (let sat = (\<lambda>j. satisfies w (groups ! j) rc) in
      case find (\<lambda>j. sat j \<and> in_need groups claims j) [0..<length groups] of
        Some j \<Rightarrow> Some j
      | None \<Rightarrow> find sat [0..<length groups])"

lemma find_upt_Cons:
  "gi < n \<Longrightarrow> find P [gi..<n] = (if P gi then Some gi else find P [Suc gi..<n])"
  by (simp add: upt_conv_Cons)

lemma scan_groups_eq:
  assumes "length matches = length groups" "gi \<le> length groups"
  shows "scan_groups w item rc claims gi (drop gi groups) chosen needed matches =
     (if needed then chosen
      else (case find (\<lambda>j. satisfies w (groups ! j) rc \<and> in_need groups claims j) [gi..<length groups] of
              Some j \<Rightarrow> Some j
            | None \<Rightarrow> (case chosen of Some c \<Rightarrow> Some c
                       | None \<Rightarrow> find (\<lambda>j. satisfies w (groups ! j) rc) [gi..<length groups])),
      map (\<lambda>j. if gi \<le> j \<and> satisfies w (groups ! j) rc then matches ! j @ [item] else matches ! j)
        [0..<length groups])"
  using assms
proof (induction "length groups - gi" arbitrary: gi chosen needed matches)
  case 0
  then have "gi = length groups" by simp
  moreover have "map (\<lambda>j. if length groups \<le> j \<and> P j then f j else matches ! j) [0..<length groups] = matches" for P f
    using 0(2) by (intro nth_equalityI) auto
  ultimately show ?case by (auto split: option.splits)
next
  case (Suc k)
  then have gi: "gi < length groups" and k: "k = length groups - Suc gi" by simp_all
  note IH = Suc.hyps(1) [OF k]
  let ?ms = "matches[gi := matches ! gi @ [item]]"
  have len: "length ?ms = length groups" "Suc gi \<le> length groups" "length matches = length groups"
    using Suc.prems gi by simp_all
  have more: "map (\<lambda>j. if Suc gi \<le> j \<and> satisfies w (groups ! j) rc then ?ms ! j @ [item] else ?ms ! j) [0..<length groups] =
      map (\<lambda>j. if gi \<le> j \<and> satisfies w (groups ! j) rc then matches ! j @ [item] else matches ! j) [0..<length groups]"
    if "satisfies w (groups ! gi) rc"
    using that gi len by (intro map_cong) (auto simp: nth_list_update)
  have same: "map (\<lambda>j. if Suc gi \<le> j \<and> satisfies w (groups ! j) rc then matches ! j @ [item] else matches ! j) [0..<length groups] =
      map (\<lambda>j. if gi \<le> j \<and> satisfies w (groups ! j) rc then matches ! j @ [item] else matches ! j) [0..<length groups]"
    if "\<not> satisfies w (groups ! gi) rc"
    using that by (intro map_cong) (auto simp: not_less_eq_eq le_Suc_eq dest: le_antisym)
  have "drop gi groups = groups ! gi # drop (Suc gi) groups" using gi by (simp add: Cons_nth_drop_Suc)
  then show ?case
    using gi len(2,3)
    by (cases "satisfies w (groups ! gi) rc"; cases needed)
       (auto simp: Let_def IH [OF len(1,2)] IH [OF len(3,2)] more same find_upt_Cons in_need_def split: option.splits)
qed

lemma assign_from_append:
  "assign_from w groups item (xs @ ys) st =
     assign_from w groups (item + length xs) ys (assign_from w groups item xs st)"
  by (induction w groups item xs st rule: assign_from.induct)
    (auto split: prod.splits option.splits)

text \<open>The state of the assignment after a number of requests.\<close>

definition claimed_before :: "'rc resolved_expectation list \<Rightarrow> (nat \<rightharpoonup> nat) \<Rightarrow> nat \<Rightarrow> nat list list" where
  "claimed_before groups owner n =
     map (\<lambda>g. filter (\<lambda>i. owner i = Some g) [0..<n]) [0..<length groups]"

abbreviation matched_before :: "wait_env \<Rightarrow> 'rc resolved_expectation list \<Rightarrow> 'rc list \<Rightarrow> nat list list" where
  "matched_before w groups contexts \<equiv>
     map (\<lambda>g. filter (\<lambda>i. satisfies w (groups ! g) (contexts ! i)) [0..<length contexts]) [0..<length groups]"

definition choice_at ::
    "wait_env \<Rightarrow> 'rc resolved_expectation list \<Rightarrow> 'rc list \<Rightarrow> (nat \<rightharpoonup> nat) \<Rightarrow> nat \<Rightarrow> nat option" where
  "choice_at w groups contexts owner i =
     (if i < length contexts
      then choose_group w groups (claimed_before groups owner i) (contexts ! i) else None)"

definition assigned :: "wait_env \<Rightarrow> 'rc resolved_expectation list \<Rightarrow> 'rc list \<Rightarrow> assignment \<Rightarrow> bool" where
  "assigned w groups contexts st \<longleftrightarrow>
     (case st of (claims, matches, owner) \<Rightarrow>
        claims = claimed_before groups owner (length contexts) \<and>
        matches = matched_before w groups contexts \<and>
        (\<forall>i. owner i = choice_at w groups contexts owner i))"

lemma choose_group_sat:
  "choose_group w groups claims rc = Some g \<Longrightarrow> g < length groups \<and> satisfies w (groups ! g) rc"
  by (auto simp: choose_group_def Let_def find_Some_iff split: option.splits)

lemma choose_group_None:
  "choose_group w groups claims rc = None \<longleftrightarrow> (\<forall>g<length groups. \<not> satisfies w (groups ! g) rc)"
proof (cases "find (\<lambda>j. satisfies w (groups ! j) rc \<and> in_need groups claims j) [0..<length groups]")
  case None
  show ?thesis unfolding choose_group_def Let_def None
    using None by (auto simp: find_None_iff)
next
  case (Some j)
  then have "j < length groups" "satisfies w (groups ! j) rc" by (auto simp: find_Some_iff)
  with Some show ?thesis by (auto simp: choose_group_def Let_def)
qed

lemma claimed_before_cong:
  assumes "\<And>i. i < n \<Longrightarrow> owner i = owner' i"
  shows "claimed_before groups owner n = claimed_before groups owner' n"
proof -
  have "filter (\<lambda>i. owner i = Some g) [0..<n] = filter (\<lambda>i. owner' i = Some g) [0..<n]" for g
    by (rule filter_cong) (use assms in auto)
  then show ?thesis by (simp add: claimed_before_def)
qed

lemma claimed_before_Suc_none: "owner n = None \<Longrightarrow> claimed_before groups owner (Suc n) = claimed_before groups owner n"
  by (simp add: claimed_before_def)

lemma assigned_snoc:
  assumes "assigned w groups contexts st"
  shows "assigned w groups (contexts @ [rc]) (assign_from w groups (length contexts) [rc] st)"
proof -
  obtain claims matches owner where st: "st = (claims, matches, owner)" by (cases st)
  let ?n = "length contexts"
  from assms st have claims: "claims = claimed_before groups owner ?n"
    and matches: "matches = matched_before w groups contexts"
    and owner: "\<And>i. owner i = choice_at w groups contexts owner i"
    unfolding assigned_def by blast+
  have old: "choice_at w groups (contexts @ [rc]) o' i = owner i"
    if "i < ?n" "claimed_before groups o' i = claimed_before groups owner i" for o' i
    using that owner [of i] by (simp add: choice_at_def nth_append)
  have none: "owner i = None" if "\<not> i < ?n" for i
    using owner [of i] that by (simp add: choice_at_def)
  let ?c = "choose_group w groups claims rc"
  have scan: "scan_groups w ?n rc claims 0 groups None False matches =
      (?c, matched_before w groups (contexts @ [rc]))"
    using scan_groups_eq [of matches groups 0 w ?n rc claims None False] matches
    by (auto simp: choose_group_def Let_def nth_append cong: option.case_cong intro!: filter_cong)
  show ?thesis
  proof (cases ?c)
    case None
    with scan st have run: "assign_from w groups ?n [rc] st = (claims, matched_before w groups (contexts @ [rc]), owner)"
      by simp
    have "owner i = choice_at w groups (contexts @ [rc]) owner i" for i
      using None claims none [of i] old [of i owner]
      by (cases "i < ?n"; cases "i = ?n") (simp_all add: choice_at_def)
    moreover have "claims = claimed_before groups owner (length (contexts @ [rc]))"
      using claims none [of ?n] by (simp add: claimed_before_Suc_none)
    ultimately show ?thesis unfolding run assigned_def by blast
  next
    case (Some g)
    let ?o = "owner(?n \<mapsto> g)"
    from scan st Some have run: "assign_from w groups ?n [rc] st =
        (claims[g := claims ! g @ [?n]], matched_before w groups (contexts @ [rc]), ?o)"
      by simp
    from Some have g: "g < length groups" by (simp add: choose_group_sat)
    have before: "claimed_before groups ?o i = claimed_before groups owner i" if "i \<le> ?n" for i
      by (rule claimed_before_cong) (use that in auto)
    have "claims[g := claims ! g @ [?n]] = map (\<lambda>k. (claims ! k) @ (if k = g then [?n] else [])) [0..<length groups]"
      using g by (intro nth_equalityI) (auto simp: claims claimed_before_def nth_list_update)
    also have "\<dots> = claimed_before groups ?o (length (contexts @ [rc]))"
    proof -
      have "filter (\<lambda>i. ?o i = Some k) [0..<?n] = filter (\<lambda>i. owner i = Some k) [0..<?n]" for k
        by (rule filter_cong) auto
      then show ?thesis by (simp add: claims claimed_before_def)
    qed
    finally have cl: "claims[g := claims ! g @ [?n]] = claimed_before groups ?o (length (contexts @ [rc]))" .
    have "?o i = choice_at w groups (contexts @ [rc]) ?o i" for i
      using Some claims none [of i] old [of i ?o] before [of i]
      by (cases "i < ?n"; cases "i = ?n") (simp_all add: choice_at_def)
    with cl show ?thesis unfolding run assigned_def by blast
  qed
qed

lemma assign_requests_assigned: "assigned w groups contexts (assign_requests w groups contexts)"
proof (induction contexts rule: rev_induct)
  case Nil
  then show ?case 
    by (simp add: assigned_def assign_requests_def choice_at_def claimed_before_def map_replicate_const)
next
  case (snoc rc contexts)
  then show ?case
    using assigned_snoc by (fastforce simp: assign_requests_def assign_from_append)
qed

lemma assign_requestsD:
  assumes "assign_requests w groups contexts = (claims, matches, owner)"
  shows "claims = claimed_before groups owner (length contexts)"
    and "matches = matched_before w groups contexts"
    and "\<And>i. owner i = choice_at w groups contexts owner i"
  using assign_requests_assigned [of w groups contexts] unfolding assms assigned_def by blast+

lemma claimed_before_nth:
  "g < length groups \<Longrightarrow> claimed_before groups owner n ! g = filter (\<lambda>i. owner i = Some g) [0..<n]"
  by (simp add: claimed_before_def)

text \<open>
  Every captured request is claimed at most once: by the first group it satisfies
  that still lacks events among the requests before it, else by the first group it satisfies,
  and by none exactly when it satisfies none. A group's claims are the requests it owns and its
  matches are all the requests that satisfy it, both in the order they arrived.
\<close>

theorem requests_are_claimed_once:
  assumes run: "assign_requests w groups contexts = (claims, matches, owner)"
  shows "(\<forall>i<length contexts.
        owner i = choose_group w groups (claimed_before groups owner i) (contexts ! i) \<and>
        (owner i = None \<longleftrightarrow> (\<forall>g<length groups. \<not> satisfies w (groups ! g) (contexts ! i)))) \<and>
     (\<forall>i g. owner i = Some g \<longrightarrow>
        i < length contexts \<and> g < length groups \<and> satisfies w (groups ! g) (contexts ! i)) \<and>
     (\<forall>g<length groups.
        claims ! g = filter (\<lambda>i. owner i = Some g) [0..<length contexts] \<and>
        matches ! g = filter (\<lambda>i. satisfies w (groups ! g) (contexts ! i)) [0..<length contexts])"
proof -
  note facts = assign_requestsD [OF run]
  have at: "owner i = choose_group w groups (claimed_before groups owner i) (contexts ! i)"
    if "i < length contexts" for i
    using facts(3) [of i] that by (simp add: choice_at_def)
  have out: "i < length contexts" if "owner i = Some g" for i g
    using facts(3) [of i] that by (simp add: choice_at_def split: if_splits)
  have none: "(owner i = None) = (\<forall>g<length groups. \<not> satisfies w (groups ! g) (contexts ! i))"
    if "i < length contexts" for i
    using at [OF that] choose_group_None by metis
  have some: "g < length groups \<and> satisfies w (groups ! g) (contexts ! i)" if "owner i = Some g" for i g
    using at [OF out [OF that]] that by (metis choose_group_sat)
  show ?thesis
    using at none out some facts(1,2) by (simp add: claimed_before_nth)
qed

section \<open>What the verdict is\<close>

abbreviation group_events ::
    "wait_env \<Rightarrow> 'rc resolved_expectation list \<Rightarrow> 'rc captured_request list \<Rightarrow> nat \<Rightarrow> group_events" where
  "group_events w groups items gi \<equiv> events_of gi (assign_requests w groups (map cr_context items)) groups"

definition group_broken ::
    "wait_env \<Rightarrow> 'rc resolved_expectation list \<Rightarrow> 'rc assertion list \<Rightarrow> 'rc captured_request list \<Rightarrow> nat \<Rightarrow> bool" where
  "group_broken w groups every items gi \<longleftrightarrow>
     re_unresolved (groups ! gi) = [] \<and>
     (over_max (group_events w groups items gi) (groups ! gi) \<or>
      (\<exists>i\<in>set (ge_claimed (group_events w groups items gi)).
         \<not> all_assertions_pass w every (cr_context (items ! i))))"

definition group_passes ::
    "wait_env \<Rightarrow> 'rc resolved_expectation list \<Rightarrow> 'rc assertion list \<Rightarrow> 'rc captured_request list \<Rightarrow> nat \<Rightarrow> bool" where
  "group_passes w groups every items gi \<longleftrightarrow>
     re_unresolved (groups ! gi) = [] \<and> \<not> group_broken w groups every items gi \<and>
     minimum (groups ! gi) \<le> int (length (ge_claimed (group_events w groups items gi)))"

lemma first_event_failure_None:
  "first_event_failure w every items is = None \<longleftrightarrow>
     (\<forall>i\<in>set is. all_assertions_pass w every (cr_context (items ! i)))"
  by (induction "is") (auto simp: all_assertions_pass_def split: option.splits)

lemma judge_expectation_flags:
  assumes "judge_expectation w g ev items every first_seen = (outcome, broken)"
  shows "broken \<longleftrightarrow> re_unresolved g = [] \<and> (over_max ev g \<or> first_event_failure w every items (ge_claimed ev) \<noteq> None)"
    and "eo_passed outcome \<longleftrightarrow> re_unresolved g = [] \<and> \<not> broken \<and> minimum g \<le> int (length (ge_claimed ev))"
    and "eo_received outcome = length (ge_claimed ev)"
  using assms by (auto simp: judge_expectation_def Let_def split: if_splits option.splits)

lemma judge_group_flags:
  assumes "judge_group w groups every items first_seen (assign_requests w groups (map cr_context items)) gi =
    (outcome, broken)"
  shows "broken = group_broken w groups every items gi"
    and "eo_passed outcome = group_passes w groups every items gi"
    and "eo_received outcome = length (ge_claimed (group_events w groups items gi))"
proof -
  obtain o' b where j: "judge_expectation w (groups ! gi) (group_events w groups items gi) items every first_seen = (o', b)"
    by fastforce
  note flags = judge_expectation_flags [OF j]
  from assms j have same: "broken = b" "eo_passed outcome = eo_passed o'" "eo_received outcome = eo_received o'"
    by (auto simp: judge_group_def Let_def split: bool.splits option.splits if_splits prod.splits)
  from same(1) flags(1) show "broken = group_broken w groups every items gi"
    unfolding group_broken_def first_event_failure_None by blast
  with same flags show "eo_passed outcome = group_passes w groups every items gi"
    and "eo_received outcome = length (ge_claimed (group_events w groups items gi))"
    by (simp_all add: group_passes_def)
qed

lemma verdict_of_eq:
  "length js = length gs \<Longrightarrow>
   verdict_of gs js v =
     (if v = VerdictBroken \<or> (\<exists>i<length gs. snd (js ! i)) then VerdictBroken
      else if v = VerdictPending \<or> (\<exists>i<length gs. re_unresolved (gs ! i) = [] \<and> \<not> eo_passed (fst (js ! i)))
      then VerdictPending else VerdictMet)"
proof (induction gs js v rule: verdict_of.induct)
  case (1 g gs outcome broken js v)
  let ?v = "if broken then VerdictBroken
        else if re_unresolved g = [] \<and> \<not> eo_passed outcome \<and> v = VerdictMet then VerdictPending else v"
  from 1 have IH: "verdict_of gs js ?v =
     (if ?v = VerdictBroken \<or> (\<exists>i<length gs. snd (js ! i)) then VerdictBroken
      else if ?v = VerdictPending \<or> (\<exists>i<length gs. re_unresolved (gs ! i) = [] \<and> \<not> eo_passed (fst (js ! i)))
      then VerdictPending else VerdictMet)" by simp
  have ex: "(\<exists>i<length (g # gs). P i) \<longleftrightarrow> P 0 \<or> (\<exists>i<length gs. P (Suc i))" for P
    by (simp add: Ex_less_Suc2)
  show ?case
    unfolding verdict_of.simps IH ex
    by (cases v) auto
qed (simp_all, (metis verdict.exhaust)+)

lemma evaluate_outcome:
  assumes "evaluate_expectations w groups every items first_seen = (outcomes, v)"
  shows "length outcomes = length groups"
    and "gi < length groups \<Longrightarrow> eo_passed (outcomes ! gi) = group_passes w groups every items gi"
    and "gi < length groups \<Longrightarrow> eo_received (outcomes ! gi) = length (ge_claimed (group_events w groups items gi))"
    and "v = (if \<exists>gi<length groups. group_broken w groups every items gi then VerdictBroken
              else if \<exists>gi<length groups. re_unresolved (groups ! gi) = [] \<and> \<not> group_passes w groups every items gi
              then VerdictPending else VerdictMet)"
proof -
  let ?asg = "assign_requests w groups (map cr_context items)"
  let ?j = "judge_group w groups every items first_seen ?asg"
  have flags: "snd (?j gi) = group_broken w groups every items gi"
    "eo_passed (fst (?j gi)) = group_passes w groups every items gi"
    "eo_received (fst (?j gi)) = length (ge_claimed (group_events w groups items gi))" for gi
    using judge_group_flags [OF surjective_pairing] by blast+
  from assms have out: "outcomes = map fst (map ?j [0..<length groups])"
    and v: "v = verdict_of groups (map ?j [0..<length groups]) VerdictMet"
    by (auto simp: evaluate_expectations_def Let_def)
  show "length outcomes = length groups" by (simp add: out)
  show "eo_passed (outcomes ! gi) = group_passes w groups every items gi" if "gi < length groups"
    using that by (simp add: out flags)
  show "eo_received (outcomes ! gi) = length (ge_claimed (group_events w groups items gi))" if "gi < length groups"
    using that by (simp add: out flags)
  have "(\<exists>i<length groups. snd (map ?j [0..<length groups] ! i)) = (\<exists>i<length groups. group_broken w groups every items i)"
    by (rule ex_cong1) (auto simp: flags)
  moreover have "(\<exists>i<length groups. re_unresolved (groups ! i) = [] \<and> \<not> eo_passed (fst (map ?j [0..<length groups] ! i))) =
     (\<exists>gi<length groups. re_unresolved (groups ! gi) = [] \<and> \<not> group_passes w groups every items gi)"
    by (rule ex_cong1) (auto simp: flags)
  ultimately show "v = (if \<exists>gi<length groups. group_broken w groups every items gi then VerdictBroken
              else if \<exists>gi<length groups. re_unresolved (groups ! gi) = [] \<and> \<not> group_passes w groups every items gi
              then VerdictPending else VerdictMet)"
    unfolding v by (subst verdict_of_eq) (auto simp del: nth_map)
qed

text \<open>
  A group passes exactly when its references resolved, no more requests satisfy it
  than its maximum, every request it claimed passes the checks of every event, and it claimed
  its minimum; the wait is broken exactly when some resolved group has too many events or a
  claimed event that fails such a check, and met exactly when every resolved group passes.
\<close>

theorem verdict_is_exact:
  assumes run: "evaluate_expectations w groups every items first_seen = (outcomes, v)"
    and asg: "assign_requests w groups (map cr_context items) = (claims, matches, owner)"
  defines "bad \<equiv> \<lambda>g. re_unresolved (groups ! g) = [] \<and>
      ((\<exists>n. we_max (groups ! g) = Some n \<and> n < int (length (matches ! g))) \<or>
       (\<exists>i\<in>set (claims ! g). \<not> all_assertions_pass w every (cr_context (items ! i))))"
  shows "(\<forall>g<length groups. eo_passed (outcomes ! g) \<longleftrightarrow>
        re_unresolved (groups ! g) = [] \<and> \<not> bad g \<and> minimum (groups ! g) \<le> int (length (claims ! g))) \<and>
     (v = VerdictBroken \<longleftrightarrow> (\<exists>g<length groups. bad g)) \<and>
     (v = VerdictMet \<longleftrightarrow> (\<forall>g<length groups. re_unresolved (groups ! g) = [] \<longrightarrow> eo_passed (outcomes ! g)))"
proof -
  have bad: "group_broken w groups every items g = bad g" for g
    by (auto simp: group_broken_def bad_def over_max_def events_of_def asg split: option.splits)
  have passes: "group_passes w groups every items g \<longleftrightarrow>
      re_unresolved (groups ! g) = [] \<and> \<not> bad g \<and> minimum (groups ! g) \<le> int (length (claims ! g))" for g
    by (simp add: group_passes_def bad events_of_def asg)
  note out = evaluate_outcome [OF run]
  have "bad g \<Longrightarrow> re_unresolved (groups ! g) = []" for g by (simp add: bad_def)
  then show ?thesis
    using out(2,4) unfolding bad passes by (auto split: if_splits)
qed

section \<open>More requests\<close>

lemma owner_prefix:
  assumes "assign_requests w groups xs = (c, m, own)"
    and "assign_requests w groups (xs @ ys) = (c', m', own')"
  shows "i < length xs \<Longrightarrow> own' i = own i"
proof (induction i rule: less_induct)
  case (less i)
  then have "claimed_before groups own' i = claimed_before groups own i"
    by (intro claimed_before_cong) auto
  then show ?case
    using less.prems assign_requestsD(3) [OF assms(1), of i] assign_requestsD(3) [OF assms(2), of i]
    by (simp add: choice_at_def nth_append)
qed

lemma group_events_prefix:
  assumes "gi < length groups"
  shows "\<exists>more. ge_claimed (group_events w groups (items @ new) gi) = ge_claimed (group_events w groups items gi) @ more"
    and "\<exists>more. ge_matched (group_events w groups (items @ new) gi) = ge_matched (group_events w groups items gi) @ more"
    and "i \<in> set (ge_claimed (group_events w groups items gi)) \<Longrightarrow> i < length items"
proof -
  let ?xs = "map cr_context items" and ?ys = "map cr_context new"
  obtain c m own where a: "assign_requests w groups ?xs = (c, m, own)" by (metis prod_cases3)
  obtain c' m' own' where b: "assign_requests w groups (?xs @ ?ys) = (c', m', own')" by (metis prod_cases3)
  let ?n = "length items" and ?k = "length items + length new"
  have up: "[0..<?k] = [0..<?n] @ [?n..<?k]" by (metis le_add1 upt_add_eq_append zero_le)
  have "filter (\<lambda>i. own' i = Some gi) [0..<?n] = filter (\<lambda>i. own i = Some gi) [0..<?n]"
    by (rule filter_cong) (use owner_prefix [OF a b] in auto)
  then show "\<exists>more. ge_claimed (group_events w groups (items @ new) gi) = ge_claimed (group_events w groups items gi) @ more"
    using assms assign_requestsD(1) [OF a] assign_requestsD(1) [OF b]
    by (simp add: events_of_def a b claimed_before_nth up)
  have "filter (\<lambda>i. satisfies w (groups ! gi) ((?xs @ ?ys) ! i)) [0..<?n] =
      filter (\<lambda>i. satisfies w (groups ! gi) (?xs ! i)) [0..<?n]"
    by (rule filter_cong) (auto simp: nth_append)
  then show "\<exists>more. ge_matched (group_events w groups (items @ new) gi) = ge_matched (group_events w groups items gi) @ more"
    using assms assign_requestsD(2) [OF a] assign_requestsD(2) [OF b]
    by (simp add: events_of_def a b up)
  show "i < length items" if "i \<in> set (ge_claimed (group_events w groups items gi))"
    using that assms assign_requestsD(1) [OF a] by (auto simp: events_of_def a claimed_before_nth)
qed

lemma group_broken_stays:
  assumes "gi < length groups" "group_broken w groups every items gi"
  shows "group_broken w groups every (items @ new) gi"
proof -
  obtain cs ms where more: "ge_claimed (group_events w groups (items @ new) gi) = ge_claimed (group_events w groups items gi) @ cs"
    "ge_matched (group_events w groups (items @ new) gi) = ge_matched (group_events w groups items gi) @ ms"
    using group_events_prefix(1,2) [OF assms(1)] by metis
  have "(items @ new) ! i = items ! i" if "i \<in> set (ge_claimed (group_events w groups items gi))" for i
    using group_events_prefix(3) [OF assms(1) that] by (simp add: nth_append)
  then have fail: "\<exists>i\<in>set (ge_claimed (group_events w groups (items @ new) gi)).
      \<not> all_assertions_pass w every (cr_context ((items @ new) ! i))"
    if "\<exists>i\<in>set (ge_claimed (group_events w groups items gi)). \<not> all_assertions_pass w every (cr_context (items ! i))"
    using that unfolding more by (metis UnI1 set_append)
  have "over_max (group_events w groups (items @ new) gi) (groups ! gi)"
    if "over_max (group_events w groups items gi) (groups ! gi)"
    using that more unfolding over_max_def by (auto split: option.splits)
  with fail assms(2) show ?thesis unfolding group_broken_def by blast
qed

lemma group_passes_stays:
  assumes "gi < length groups" "group_passes w groups every items gi"
    and "\<not> group_broken w groups every (items @ new) gi"
  shows "group_passes w groups every (items @ new) gi"
  using assms group_events_prefix(1) [OF assms(1), of w items new] by (auto simp: group_passes_def)

text \<open>
  More requests never take a verdict back: a broken wait stays broken, and a wait
  that is met stays met or breaks, so the settle window that opened when it was first met never
  has to be closed again.
\<close>

theorem verdict_never_goes_back:
  assumes "evaluate_expectations w groups every items seen = (outcomes, v)"
    and "evaluate_expectations w groups every (items @ new) seen' = (outcomes', v')"
  shows "(v = VerdictBroken \<longrightarrow> v' = VerdictBroken) \<and>
     (v = VerdictMet \<longrightarrow> v' = VerdictMet \<or> v' = VerdictBroken)"
proof -
  note a = evaluate_outcome(4) [OF assms(1)] and b = evaluate_outcome(4) [OF assms(2)]
  have "v' = VerdictBroken" if "v = VerdictBroken"
  proof -
    from that a have "\<exists>gi<length groups. group_broken w groups every items gi"
      by (metis verdict.distinct(3,5))
    then have "\<exists>gi<length groups. group_broken w groups every (items @ new) gi"
      using group_broken_stays by blast
    with b show ?thesis by simp
  qed
  moreover have "v' \<noteq> VerdictPending" if "v = VerdictMet"
  proof
    assume "v' = VerdictPending"
    with b have "\<exists>gi<length groups. re_unresolved (groups ! gi) = [] \<and> \<not> group_passes w groups every (items @ new) gi"
      "\<not> (\<exists>gi<length groups. group_broken w groups every (items @ new) gi)"
      by (auto simp del: not_ex split: if_splits)
    then obtain gi where gi: "gi < length groups" "re_unresolved (groups ! gi) = []"
      "\<not> group_passes w groups every (items @ new) gi" "\<not> group_broken w groups every (items @ new) gi"
      by blast
    with group_passes_stays [OF gi(1)] have "\<not> group_passes w groups every items gi" by blast
    with gi a that show False by (auto split: if_splits)
  qed
  ultimately show ?thesis by (cases v') blast+
qed

section \<open>The listener\<close>

record 'rc listener =
  l_groups :: "'rc resolved_expectation list"
  l_every :: "'rc assertion list"
  l_settle :: int
  l_first_seen :: "string \<rightharpoonup> int"
  l_polled_once :: bool
  l_settled_at :: "int option"
  l_outcomes :: "expectation_outcome list option"

definition new_listener :: "'rc resolved_expectation list \<Rightarrow> 'rc assertion list \<Rightarrow> int \<Rightarrow> 'rc listener" where
  "new_listener groups every settle =
     \<lparr>l_groups = groups, l_every = every, l_settle = settle, l_first_seen = Map.empty,
      l_polled_once = False, l_settled_at = None, l_outcomes = None\<rparr>"

text \<open>
  One iteration of the loop: what the fetch returned, the clock of \<open>observe\<close> (the time since the
  start, the reading a settle window is set from, the one it is tested with), and whether the
  wait's context had ended when a failed fetch was looked at.
\<close>

record 'rc poll =
  p_fetched :: "go_error + 'rc captured_request list"
  p_elapsed :: int
  p_now_set :: int
  p_now :: int
  p_expired :: bool

definition requires_an_event :: "'rc resolved_expectation list \<Rightarrow> bool" where
  "requires_an_event groups = list_ex (\<lambda>g. minimum g > 0) groups"

definition note_seen :: "bool \<Rightarrow> int \<Rightarrow> 'rc captured_request list \<Rightarrow> (string \<rightharpoonup> int) \<Rightarrow> (string \<rightharpoonup> int)" where
  "note_seen polled elapsed items seen =
     fold (\<lambda>item seen. case seen (cr_id item) of Some _ \<Rightarrow> seen
                         | None \<Rightarrow> seen(cr_id item \<mapsto> (if polled then elapsed else 0))) items seen"

definition observe_poll ::
    "wait_env \<Rightarrow> 'rc listener \<Rightarrow> 'rc poll \<Rightarrow> 'rc captured_request list \<Rightarrow> 'rc listener \<times> bool" where
  "observe_poll w l p items =
     (let seen = note_seen (l_polled_once l) (p_elapsed p) items (l_first_seen l) in
      case evaluate_expectations w (l_groups l) (l_every l) items seen of
        (outcomes, v) \<Rightarrow>
          (let l = l\<lparr>l_first_seen := seen, l_polled_once := True, l_outcomes := Some outcomes\<rparr> in
           case v of
             VerdictBroken \<Rightarrow> (l, True)
           | VerdictPending \<Rightarrow> (l, False)
           | VerdictMet \<Rightarrow>
               if l_settle l = 0 \<and> \<not> requires_an_event (l_groups l) then (l, False)
               else (let due = (case l_settled_at l of Some t \<Rightarrow> t | None \<Rightarrow> p_now_set p + l_settle l) in
                     (l\<lparr>l_settled_at := Some due\<rparr>, \<not> p_now p < due))))"

definition poll_interval :: int where
  "poll_interval = 250000000"

definition next_poll_in :: "int \<Rightarrow> 'rc listener \<Rightarrow> int" where
  "next_poll_in now l =
     (case l_settled_at l of None \<Rightarrow> poll_interval | Some due \<Rightarrow> max 0 (min poll_interval (due - now)))"

definition final_outcomes :: "wait_env \<Rightarrow> 'rc listener \<Rightarrow> expectation_outcome list" where
  "final_outcomes w l =
     (case l_outcomes l of
        Some outcomes \<Rightarrow> outcomes
      | None \<Rightarrow> fst (evaluate_expectations w (l_groups l) [] [] Map.empty))"

definition timed_out_outcomes :: "wait_env \<Rightarrow> 'rc listener \<Rightarrow> expectation_outcome list" where
  "timed_out_outcomes w l =
     (if l_settled_at l = None then final_outcomes w l
      else map (\<lambda>out. if eo_passed out
                  then out\<lparr>eo_passed := False, eo_problem := ''timed out before the '' @
                         int_text (l_settle l div 1000000) @ ''ms settle window ended''\<rparr>
                  else out) (final_outcomes w l))"

definition fetch_fatal :: "go_error \<Rightarrow> bool" where
  "fetch_fatal e = (as_user_error e \<noteq> None)"

fun listen :: "wait_env \<Rightarrow> 'rc listener \<Rightarrow> 'rc poll list \<Rightarrow> expectation_outcome list \<times> go_error option" where
  "listen w l [] = (timed_out_outcomes w l, None)"
| "listen w l (p # ps) =
     (case p_fetched p of
        Inr items \<Rightarrow>
          (case observe_poll w l p items of
             (l', over) \<Rightarrow> if over then (final_outcomes w l', None) else listen w l' ps)
      | Inl e \<Rightarrow>
          if \<not> p_expired p \<and> fetch_fatal e then (final_outcomes w l, Some e) else listen w l ps)"

section \<open>The node\<close>

record 'rc webhook_wait =
  ww_timeout_ms :: int
  ww_settle_ms :: int
  ww_expect :: "'rc webhook_expectation list"
  ww_assertions :: "'rc assertion list"

definition wait_timeout_ms :: "'rc webhook_wait \<Rightarrow> int" where
  "wait_timeout_ms n = (if ww_timeout_ms n \<le> 0 then 30000 else ww_timeout_ms n)"

definition wait_failed :: "string \<Rightarrow> go_error" where
  "wait_failed msg = UserError ''WEBHOOK_WAIT_FAILED'' msg None"

definition validate_settle :: "'rc webhook_wait \<Rightarrow> go_error option" where
  "validate_settle n =
     (if ww_expect n = [] \<or> ww_settle_ms n < wait_timeout_ms n then None
      else Some (wait_failed (''webhook wait settle_ms ('' @ int_text (ww_settle_ms n) @
             '') must be shorter than timeout_ms ('' @ int_text (wait_timeout_ms n) @ '')'')))"

fun validate_expectations_from :: "nat \<Rightarrow> 'rc webhook_expectation list \<Rightarrow> go_error option" where
  "validate_expectations_from i [] = None"
| "validate_expectations_from i (e # es) =
     (if trim_space (we_name e) = []
      then Some (wait_failed (''expected event '' @ nat_text (Suc i) @ '' has no name''))
      else if we_declared e = []
      then Some (wait_failed (''expected event '' @ dquote (we_name e) @ '' has no assertion''))
      else if minimum e < 0
      then Some (wait_failed (''expected event '' @ dquote (we_name e) @ '' has a negative min''))
      else if (case we_max e of Some n \<Rightarrow> n < minimum e | None \<Rightarrow> False)
      then Some (wait_failed (''expected event '' @ dquote (we_name e) @ '' has max below min''))
      else validate_expectations_from (Suc i) es)"

definition validate_expectations :: "'rc webhook_wait \<Rightarrow> go_error option" where
  "validate_expectations n =
     (case validate_settle n of
        Some e \<Rightarrow> Some e
      | None \<Rightarrow> validate_expectations_from 0 (ww_expect n))"

definition lookup_flow_input :: "outputs \<Rightarrow> string \<Rightarrow> string" where
  "lookup_flow_input inputs key = (case inputs key of Some (GStr s) \<Rightarrow> s | _ \<Rightarrow> [])"

definition wait_inputs :: "'rc webhook_wait \<Rightarrow> outputs \<Rightarrow> string option \<Rightarrow> go_error + string \<times> string" where
  "wait_inputs n flow_inputs token =
     (if ww_assertions n = [] \<and> ww_expect n = []
      then Inl (wait_failed ''webhook wait requires at least one assertion'')
      else (case (lookup_flow_input flow_inputs ''webhook.requests_url'', token) of
              (c # cs, Some t) \<Rightarrow> Inr (c # cs, t)
            | _ \<Rightarrow> Inl (wait_failed ''a webhook wait needs webhook.requests_url and the job token of a claimed job'')))"

text \<open>
  \<open>executeExpectations\<close>, with the result of resolving each assertion list's references: the error
  and the outcomes it reports, and its \<open>received\<close> output.
\<close>

definition expectations_failed :: "expectation_outcome list \<Rightarrow> go_error" where
  "expectations_failed outcomes =
     UserError ''WEBHOOK_WAIT_EXPECTATIONS_FAILED''
       (nat_text (length (filter (\<lambda>out. \<not> eo_passed out) outcomes)) @ '' of '' @
        nat_text (length outcomes) @ '' expected events failed'') None"

definition resolve_groups ::
    "('rc assertion list \<Rightarrow> 'rc assertion list \<times> string list) \<Rightarrow> 'rc webhook_wait \<Rightarrow> 'rc resolved_expectation list" where
  "resolve_groups resolve n =
     map (\<lambda>e. case resolve (we_declared e) of
                (assertions, missing) \<Rightarrow>
                  \<lparr>we_name = we_name e, we_min = we_min e, we_max = we_max e, we_declared = we_declared e,
                   re_assertions = assertions, re_unresolved = missing @ snd (resolve (ww_assertions n))\<rparr>)
       (ww_expect n)"

definition execute_expectations ::
    "wait_env \<Rightarrow> ('rc assertion list \<Rightarrow> 'rc assertion list \<times> string list) \<Rightarrow> 'rc webhook_wait \<Rightarrow> outputs \<Rightarrow>
     string option \<Rightarrow> 'rc poll list \<Rightarrow> (go_error \<times> expectation_outcome list) + nat \<times> expectation_outcome list" where
  "execute_expectations w resolve n flow_inputs token polls =
     (case wait_inputs n flow_inputs token of
        Inl e \<Rightarrow> Inl (e, [])
      | Inr _ \<Rightarrow>
          (case validate_expectations n of
             Some e \<Rightarrow> Inl (e, [])
           | None \<Rightarrow>
               (case listen w (new_listener (resolve_groups resolve n) (fst (resolve (ww_assertions n)))
                       (ww_settle_ms n * 1000000)) polls of
                  (outcomes, Some e) \<Rightarrow> Inl (e, outcomes)
                | (outcomes, None) \<Rightarrow>
                    if filter (\<lambda>out. \<not> eo_passed out) outcomes \<noteq> []
                    then Inl (expectations_failed outcomes, outcomes)
                    else Inr (count_received outcomes, outcomes))))"

section \<open>Waiting for one request\<close>

fun first_matching ::
    "wait_env \<Rightarrow> 'rc assertion list \<Rightarrow> 'rc captured_request list \<Rightarrow> assertion_result list \<Rightarrow>
     ('rc captured_request \<times> assertion_result list) option \<times> assertion_result list" where
  "first_matching w as [] results = (None, results)"
| "first_matching w as (item # items) results =
     (case evaluate_assertions (w_text w) (w_comparators w) as (cr_context item) of
        (rs, None) \<Rightarrow> (Some (item, rs), rs)
      | (rs, Some _) \<Rightarrow> first_matching w as items rs)"

definition wait_timed_out :: "go_error \<Rightarrow> go_error" where
  "wait_timed_out e =
     UserError ''WEBHOOK_WAIT_TIMEOUT'' ''webhook wait timed out without a matching request'' (Some e)"

text \<open>
  \<open>pollWebhookRequests\<close>: the list of polls ends when the wait's context does, with the error
  given. The result has the last evaluation and the last requests seen.
\<close>

fun poll_requests ::
    "wait_env \<Rightarrow> 'rc assertion list \<Rightarrow> go_error \<Rightarrow> 'rc poll list \<Rightarrow> assertion_result list \<Rightarrow> 'rc captured_request list \<Rightarrow>
     (go_error \<times> assertion_result list \<times> 'rc captured_request list) + ('rc captured_request \<times> assertion_result list)" where
  "poll_requests w as ended [] latest seen = Inl (wait_timed_out ended, latest, seen)"
| "poll_requests w as ended (p # ps) latest seen =
     (case p_fetched p of
        Inl e \<Rightarrow>
          if p_expired p then Inl (wait_timed_out ended, latest, seen)
          else if fetch_fatal e then Inl (e, latest, seen)
          else poll_requests w as ended ps latest seen
      | Inr items \<Rightarrow>
          (case first_matching w as items [] of
             (Some found, _) \<Rightarrow> Inr found
           | (None, results) \<Rightarrow> poll_requests w as ended ps results items))"

definition recent_requests :: "'rc captured_request list \<Rightarrow> 'rc captured_request list" where
  "recent_requests seen = drop (length seen - 5) seen"

section \<open>What a passing wait has seen\<close>

text \<open>A poll whose requests met every group, and what the listener knows after some polls.\<close>

definition met_at ::
    "wait_env \<Rightarrow> 'rc resolved_expectation list \<Rightarrow> 'rc assertion list \<Rightarrow> expectation_outcome list \<Rightarrow> 'rc poll \<Rightarrow> bool" where
  "met_at w groups every outcomes p \<longleftrightarrow>
     (\<exists>items seen. p_fetched p = Inr items \<and>
        evaluate_expectations w groups every items seen = (outcomes, VerdictMet))"

definition opened_at ::
    "wait_env \<Rightarrow> 'rc resolved_expectation list \<Rightarrow> 'rc assertion list \<Rightarrow> int \<Rightarrow> 'rc poll set \<Rightarrow> int \<Rightarrow> bool" where
  "opened_at w groups every settle past t \<longleftrightarrow>
     (\<exists>p0\<in>past. (\<exists>outs. met_at w groups every outs p0) \<and> t = p_now_set p0 + settle)"

definition settled_wait ::
    "wait_env \<Rightarrow> 'rc resolved_expectation list \<Rightarrow> 'rc assertion list \<Rightarrow> int \<Rightarrow> 'rc poll set \<Rightarrow>
     expectation_outcome list \<Rightarrow> bool" where
  "settled_wait w groups every settle polls outcomes \<longleftrightarrow>
     (\<exists>p\<in>polls. met_at w groups every outcomes p \<and>
        (settle = 0 \<and> \<not> requires_an_event groups \<or>
         (\<exists>due. opened_at w groups every settle polls due \<and> due \<le> p_now p)))"

text \<open>What the recorded outcomes of a listener without an open settle window are worth.\<close>

definition outcomes_ok ::
    "wait_env \<Rightarrow> 'rc resolved_expectation list \<Rightarrow> 'rc assertion list \<Rightarrow> int \<Rightarrow> 'rc poll set \<Rightarrow>
     expectation_outcome list \<Rightarrow> bool" where
  "outcomes_ok w groups every settle past outs \<longleftrightarrow>
     (list_all eo_passed outs \<longrightarrow>
        settle = 0 \<and> \<not> requires_an_event groups \<and> settled_wait w groups every settle past outs)"

definition listener_ok ::
    "wait_env \<Rightarrow> 'rc resolved_expectation list \<Rightarrow> 'rc assertion list \<Rightarrow> int \<Rightarrow> 'rc poll set \<Rightarrow> 'rc listener \<Rightarrow> bool" where
  "listener_ok w groups every settle past l \<longleftrightarrow>
     l_groups l = groups \<and> l_every l = every \<and> l_settle l = settle \<and>
     (case l_settled_at l of Some t \<Rightarrow> opened_at w groups every settle past t | None \<Rightarrow> True) \<and>
     (case l_outcomes l of
        Some outs \<Rightarrow> length outs = length groups \<and>
          (l_settled_at l = None \<longrightarrow> outcomes_ok w groups every settle past outs)
      | None \<Rightarrow> True)"

lemma opened_at_mono: "opened_at w groups every settle ps t \<Longrightarrow> ps \<subseteq> qs \<Longrightarrow> opened_at w groups every settle qs t"
  unfolding opened_at_def by blast

lemma settled_wait_mono:
  assumes "settled_wait w groups every settle ps outs" "ps \<subseteq> qs"
  shows "settled_wait w groups every settle qs outs"
  using assms opened_at_mono [OF _ assms(2)] unfolding settled_wait_def by (metis subsetD)

lemma listener_ok_mono:
  assumes "listener_ok w groups every settle past l" "past \<subseteq> past'"
  shows "listener_ok w groups every settle past' l"
  using assms opened_at_mono [OF _ assms(2)] settled_wait_mono [OF _ assms(2)]
  by (auto simp: listener_ok_def outcomes_ok_def split: option.splits)

lemma all_passed_met:
  assumes "evaluate_expectations w groups every items seen = (outcomes, v)" "list_all eo_passed outcomes"
  shows "v = VerdictMet"
proof -
  note out = evaluate_outcome [OF assms(1)]
  have "group_passes w groups every items gi" if "gi < length groups" for gi
    using out(1) out(2) [OF that] assms(2) that by (simp add: list_all_length)
  then show ?thesis unfolding out(4) by (auto simp: group_passes_def)
qed

definition settle_due :: "'rc listener \<Rightarrow> 'rc poll \<Rightarrow> int" where
  "settle_due l p = (case l_settled_at l of Some t \<Rightarrow> t | None \<Rightarrow> p_now_set p + l_settle l)"

lemma observe_poll_fields:
  assumes obs: "observe_poll w l p items = (l', over)"
    and ev: "evaluate_expectations w (l_groups l) (l_every l) items
        (note_seen (l_polled_once l) (p_elapsed p) items (l_first_seen l)) = (outs, v)"
  defines "quiet \<equiv> l_settle l = 0 \<and> \<not> requires_an_event (l_groups l)"
  shows "l_groups l' = l_groups l" and "l_every l' = l_every l" and "l_settle l' = l_settle l"
    and "l_outcomes l' = Some outs"
    and "l_settled_at l' = (if v = VerdictMet \<and> \<not> quiet then Some (settle_due l p) else l_settled_at l)"
    and "over \<longleftrightarrow> v = VerdictBroken \<or> v = VerdictMet \<and> \<not> quiet \<and> settle_due l p \<le> p_now p"
  using assms by (auto simp: observe_poll_def Let_def settle_due_def not_less
      split: verdict.splits if_splits cong: option.case_cong)

lemma observe_poll_ok:
  assumes ok: "listener_ok w groups every settle past l"
    and fetched: "p_fetched p = Inr items"
    and obs: "observe_poll w l p items = (l', over)"
  shows "listener_ok w groups every settle (insert p past) l'"
    and "over \<Longrightarrow> list_all eo_passed (final_outcomes w l') \<Longrightarrow>
         settled_wait w groups every settle (insert p past) (final_outcomes w l')"
    and "l_outcomes l' \<noteq> None"
proof -
  let ?past = "insert p past"
  from ok have l: "l_groups l = groups" "l_every l = every" "l_settle l = settle"
    and old: "l_settled_at l = Some t \<Longrightarrow> opened_at w groups every settle past t" for t
    by (auto simp: listener_ok_def split: option.splits)
  obtain outs v where ev: "evaluate_expectations w groups every items
      (note_seen (l_polled_once l) (p_elapsed p) items (l_first_seen l)) = (outs, v)" by fastforce
  have met: "met_at w groups every outs p" if "v = VerdictMet"
    using fetched ev that unfolding met_at_def by blast
  note passed = all_passed_met [OF ev] and len = evaluate_outcome(1) [OF ev]
  note f = observe_poll_fields [OF obs, unfolded l, OF ev]
  have new: "opened_at w groups every settle ?past t" if "l_settled_at l = Some t" for t
    using old [OF that] opened_at_mono by blast
  have due: "opened_at w groups every settle ?past (settle_due l p)" if "v = VerdictMet"
  proof (cases "l_settled_at l")
    case None
    with met [OF that] l show ?thesis unfolding opened_at_def settle_due_def by auto
  next
    case (Some t)
    with new show ?thesis by (simp add: settle_due_def)
  qed
  have opened: "opened_at w groups every settle ?past t" if "l_settled_at l' = Some t" for t
    using that f(5) due new by (cases "v = VerdictMet \<and> \<not> (settle = 0 \<and> \<not> requires_an_event groups)") auto
  have quiet: "outcomes_ok w groups every settle ?past outs" if "l_settled_at l' = None"
    unfolding outcomes_ok_def
  proof
    assume "list_all eo_passed outs"
    then have v: "v = VerdictMet" by (rule passed)
    with that f(5) have "settle = 0 \<and> \<not> requires_an_event groups" by (auto split: if_splits)
    with met [OF v] show "settle = 0 \<and> \<not> requires_an_event groups \<and> settled_wait w groups every settle ?past outs"
      unfolding settled_wait_def by blast
  qed
  from f(1-4) len opened quiet show "listener_ok w groups every settle ?past l'"
    by (simp add: listener_ok_def split: option.splits)
  show "settled_wait w groups every settle ?past (final_outcomes w l')"
    if "over" "list_all eo_passed (final_outcomes w l')"
  proof -
    have same: "final_outcomes w l' = outs" using f(4) by (simp add: final_outcomes_def)
    with that passed have v: "v = VerdictMet" by simp
    with that(1) f(6) have "settle_due l p \<le> p_now p" by simp
    with met [OF v] due [OF v] show ?thesis unfolding settled_wait_def same by blast
  qed
  show "l_outcomes l' \<noteq> None" using f(4) by simp
qed

lemma timed_out_passed:
  assumes ok: "listener_ok w groups every settle past l" and groups: "groups \<noteq> []"
    and polled: "l_outcomes l = Some outs"
    and passed: "list_all eo_passed (timed_out_outcomes w l)"
  shows "settled_wait w groups every settle past (timed_out_outcomes w l)"
proof (cases "l_settled_at l")
  case None
  with polled have same: "timed_out_outcomes w l = outs"
    by (simp add: timed_out_outcomes_def final_outcomes_def)
  from ok None polled passed show ?thesis by (auto simp: same listener_ok_def outcomes_ok_def)
next
  case (Some t)
  from ok polled groups have "final_outcomes w l \<noteq> []"
    by (auto simp: listener_ok_def final_outcomes_def)
  with passed Some show ?thesis
    by (cases "final_outcomes w l") (auto simp: timed_out_outcomes_def split: if_splits)
qed

lemma listen_passes:
  assumes "listener_ok w groups every settle past l" "groups \<noteq> []"
    and "listen w l ps = (outcomes, None)" "list_all eo_passed outcomes"
    and "l_outcomes l \<noteq> None \<or> (\<exists>p\<in>set ps. \<exists>items. p_fetched p = Inr items)"
  shows "settled_wait w groups every settle (past \<union> set ps) outcomes"
  using assms
proof (induction ps arbitrary: past l)
  case Nil
  then show ?case using timed_out_passed by fastforce
next
  case (Cons p ps)
  show ?case
  proof (cases "p_fetched p")
    case (Inl e)
    with Cons.prems(3) have run: "listen w l ps = (outcomes, None)" by (simp split: if_splits)
    from Cons.prems(5) Inl have "l_outcomes l \<noteq> None \<or> (\<exists>p\<in>set ps. \<exists>items. p_fetched p = Inr items)" by auto
    with Cons.IH [OF Cons.prems(1,2) run Cons.prems(4)] show ?thesis
      using settled_wait_mono [of w groups every settle "past \<union> set ps" outcomes "past \<union> set (p # ps)"] by auto
  next
    case (Inr items)
    obtain l' over where obs: "observe_poll w l p items = (l', over)" by fastforce
    note good = observe_poll_ok [OF Cons.prems(1) Inr obs]
    show ?thesis
    proof (cases over)
      case True
      with Cons.prems(3) Inr obs have "outcomes = final_outcomes w l'" by simp
      with good(2) True Cons.prems(4) have "settled_wait w groups every settle (insert p past) outcomes" by simp
      then show ?thesis by (rule settled_wait_mono) auto
    next
      case False
      with Cons.prems(3) Inr obs have run: "listen w l' ps = (outcomes, None)" by simp
      from Cons.IH [OF good(1) Cons.prems(2) run Cons.prems(4)] good(3) show ?thesis by simp
    qed
  qed
qed


section \<open>A concrete wait\<close>

definition demo_env :: wait_env where
  "demo_env = \<lparr>w_text = demo_text, w_comparators = builtin_comparators demo_text\<rparr>"

definition demo_group :: "string \<Rightarrow> int \<Rightarrow> int option \<Rightarrow> string \<Rightarrow> gval resolved_expectation" where
  "demo_group name least most v =
     \<lparr>we_name = name, we_min = Some least, we_max = most, we_declared = [demo_assertion (GStr v)],
      re_assertions = [demo_assertion (GStr v)], re_unresolved = []\<rparr>"

definition demo_items :: "gval captured_request list" where
  "demo_items = [\<lparr>cr_id = ''r1'', cr_context = GStr ''created''\<rparr>, \<lparr>cr_id = ''r2'', cr_context = GStr ''deleted''\<rparr>]"

definition demo_groups :: "gval resolved_expectation list" where
  "demo_groups = [demo_group ''gone'' 1 (Some 1) ''deleted'', demo_group ''made'' 1 None ''created'']"

definition demo_poll :: "gval captured_request list \<Rightarrow> int \<Rightarrow> gval poll" where
  "demo_poll items t = \<lparr>p_fetched = Inr items, p_elapsed = t, p_now_set = t, p_now = t, p_expired = False\<rparr>"

lemma demo_assignment:
  "assign_requests demo_env demo_groups (map cr_context demo_items) = ([[1], [0]], [[1], [0]], [1 \<mapsto> 0, 0 \<mapsto> 1])"
  by (simp add: assign_requests_def demo_groups_def demo_items_def demo_group_def satisfies_def
      all_assertions_pass_def demo_env_def demo_equals minimum_def fun_upd_twist)

lemma demo_passes: "gi < length demo_groups \<Longrightarrow> group_passes demo_env demo_groups [] demo_items gi"
  unfolding group_passes_def group_broken_def events_of_def demo_assignment over_max_def
  by (cases "gi = 0"; cases "gi = Suc 0")
    (simp_all add: demo_groups_def demo_group_def minimum_def all_assertions_pass_def)

lemma all_groups_pass:
  assumes "evaluate_expectations w groups every items seen = (outs, v)"
    and "\<And>gi. gi < length groups \<Longrightarrow> group_passes w groups every items gi"
  shows "v = VerdictMet" and "list_all eo_passed outs"
  using evaluate_outcome [OF assms(1)] assms(2) by (auto simp: list_all_length group_passes_def)

lemma demo_verdict:
  obtains outs where "evaluate_expectations demo_env demo_groups [] demo_items seen = (outs, VerdictMet)"
    and "list_all eo_passed outs"
  using all_groups_pass [OF _ demo_passes] by (metis surj_pair)

theorem requests_are_claimed_once_witness:
  "satisfies demo_env (demo_groups ! 1) (map cr_context demo_items ! 0) \<and>
   satisfies demo_env (demo_groups ! 0) (map cr_context demo_items ! 1)"
proof -
  have owned: "\<forall>i g. [1 \<mapsto> 0, 0 \<mapsto> 1] i = Some g \<longrightarrow> i < length (map cr_context demo_items) \<and>
      g < length demo_groups \<and> satisfies demo_env (demo_groups ! g) (map cr_context demo_items ! i)"
    using requests_are_claimed_once [OF demo_assignment] by blast
  show ?thesis using owned [rule_format, of 0 1] owned [rule_format, of 1 0] by auto
qed

theorem verdict_is_exact_witness:
  "\<exists>outs v. evaluate_expectations demo_env demo_groups [] demo_items Map.empty = (outs, v) \<and>
     eo_passed (outs ! 0) \<and> v = VerdictMet"
proof -
  obtain outs v where run: "evaluate_expectations demo_env demo_groups [] demo_items Map.empty = (outs, v)" by fastforce
  note exact = verdict_is_exact [OF run demo_assignment]
  have two: "length demo_groups = 2" by (simp add: demo_groups_def)
  have fine: "eo_passed (outs ! g)" if "g < length demo_groups" for g
    using exact that
    by (cases "g = 0"; cases "g = Suc 0")
      (simp_all add: demo_groups_def demo_group_def minimum_def all_assertions_pass_def)
  with exact two run show ?thesis by (metis zero_less_numeral)
qed

theorem verdict_never_goes_back_witness:
  "snd (evaluate_expectations demo_env demo_groups [] (demo_items @ demo_items) Map.empty) \<noteq> VerdictPending"
proof -
  obtain outs where run: "evaluate_expectations demo_env demo_groups [] demo_items Map.empty = (outs, VerdictMet)"
    by (rule demo_verdict)
  obtain outs' v' where run': "evaluate_expectations demo_env demo_groups [] (demo_items @ demo_items) Map.empty = (outs', v')"
    by fastforce
  from verdict_never_goes_back [OF run run'] run' show ?thesis by auto
qed

definition demo_listener :: "gval listener" where
  "demo_listener = new_listener demo_groups [] 5"


text \<open>
  Claim C18. A wait for events that must never arrive passes although it never read the request
  history: when every fetch fails without a fatal error until the timeout and no group needs an
  event, every group is reported as passed, whatever requests the control plane recorded. The
  documentation promises that such a wait "passes only if no forbidden event arrived".
\<close>

theorem unread_history_passes:
  assumes failed: "\<forall>p\<in>set polls. \<exists>e. p_fetched p = Inl e \<and> \<not> fetch_fatal e"
    and optional: "\<forall>g\<in>set groups. minimum g \<le> 0 \<and> re_unresolved g = [] \<and> (case we_max g of None \<Rightarrow> True | Some n \<Rightarrow> 0 \<le> n)"
  shows "\<exists>outcomes. listen w (new_listener groups every settle) polls = (outcomes, None) \<and>
     length outcomes = length groups \<and> list_all eo_passed outcomes"
proof -
  let ?l = "new_listener groups every settle"
  have skip: "listen w ?l polls = listen w ?l []"
    using failed by (induction polls) auto
  obtain outs v where run: "evaluate_expectations w groups [] [] Map.empty = (outs, v)" by fastforce
  have "group_passes w groups [] [] gi" if "gi < length groups" for gi
  proof -
    from that have g: "groups ! gi \<in> set groups" by simp
    from that have "ge_claimed (group_events w groups [] gi) = []" "ge_matched (group_events w groups [] gi) = []"
      by (simp_all add: assign_requests_def events_of_def)
    with optional g show ?thesis
      by (auto simp: group_passes_def group_broken_def over_max_def split: option.splits)
  qed
  with all_groups_pass [OF run] have "list_all eo_passed outs" by blast
  moreover have "listen w ?l polls = (outs, None)"
    unfolding skip by (simp add: timed_out_outcomes_def final_outcomes_def new_listener_def run)
  ultimately show ?thesis using evaluate_outcome(1) [OF run] by blast
qed

theorem unread_history_passes_witness:
  "\<exists>outcomes. listen demo_env (new_listener [demo_group ''never'' 0 (Some 0) ''forbidden''] [] 0)
       [\<lparr>p_fetched = Inl (PlainError ''webhook requests get status 502''), p_elapsed = 1, p_now_set = 1, p_now = 1, p_expired = False\<rparr>]
     = (outcomes, None) \<and> length outcomes = 1 \<and> list_all eo_passed outcomes"
  using unread_history_passes [of "[\<lparr>p_fetched = Inl (PlainError ''webhook requests get status 502''), p_elapsed = 1,
      p_now_set = 1, p_now = 1, p_expired = False\<rparr>]" "[demo_group ''never'' 0 (Some 0) ''forbidden'']" demo_env "[]" 0]
  by (simp add: fetch_fatal_def demo_group_def minimum_def)

end
