(* ===== verification/Validation.thy ===== *)
theory Validation
  imports Graph
begin

text \<open>
  Parse-time validation of a flow (\<open>pkg/flow/validation.go\<close>): the references of every node
  against the flow inputs and the outputs of the nodes upstream of it, and the targets of branch
  nodes. A map with a set of keys is a list of keys; what a node's own type contributes (the
  references of its assertions, those it resolves itself, a branch's targets, a module's target)
  is part of its record.
\<close>

section \<open>Parsed flows\<close>

record node_def = flow_node +
  nd_assertion_refs :: "string list"
  nd_resolved_refs :: "string list"
  nd_branch :: "(string list \<times> string) option"
  nd_module :: "(string \<times> string list) option"

record parsed_flow =
  pf_nodes :: "node_def list"
  pf_edges :: "flow_edge list"
  pf_initial_inputs :: "string list"

record parse_options =
  allowed_initial_keys :: "string list"
  allow_unknown_initial :: bool

definition runs_always :: "node_def \<Rightarrow> bool" where
  "runs_always n \<longleftrightarrow> get_run_when (flow_node.truncate n) = run_when_always"

section \<open>References\<close>

text \<open>\<open>parseReference\<close>: the source node (empty for an initial input) and the key.\<close>

definition parse_reference :: "string \<Rightarrow> go_error + string \<times> string" where
  "parse_reference ref =
     (let trimmed = trim_space ref in
      if trimmed = [] then Inl (PlainError ''reference is empty'')
      else (case split_n2 trimmed of
              [a, b] \<Rightarrow>
                (let source = trim_space a; key = trim_space b in
                 if source = [] \<or> key = []
                 then Inl (PlainError ''reference must use the form nodeId.outputKey or variableName'')
                 else Inr (source, key))
            | _ \<Rightarrow> Inr ([], trimmed)))"

text \<open>\<open>hasPathRoot\<close>: the candidate loses its last dotted segment until it is a key.\<close>

function has_path_root :: "string \<Rightarrow> string list \<Rightarrow> bool" where
  "has_path_root candidate keys =
     (if candidate \<in> set keys then True
      else (case last_dot candidate of
              Some end' \<Rightarrow> if end' > 0 then has_path_root (take end' candidate) keys else False
            | None \<Rightarrow> False))"
  by pat_completeness auto
termination
  by (relation "measure (length \<circ> fst)") (auto dest: last_dot_Some(1))

declare has_path_root.simps [simp del]

text \<open>\<open>buildOutputSet\<close>, and the available initial inputs: trimmed, the empty ones left out.\<close>

definition trimmed_keys :: "string list \<Rightarrow> string list" where
  "trimmed_keys names = filter (\<lambda>k. k \<noteq> []) (map trim_space names)"

definition available_initial_inputs :: "parsed_flow \<Rightarrow> parse_options \<Rightarrow> string list" where
  "available_initial_inputs fl options =
     trimmed_keys (pf_initial_inputs fl) @ trimmed_keys (allowed_initial_keys options)"

definition outputs_by_node :: "node_def list \<Rightarrow> (string \<rightharpoonup> string list)" where
  "outputs_by_node nodes =
     fold (\<lambda>n m. let nodeID = trim_space (n_id n) in
             if nodeID \<noteq> [] then m(nodeID \<mapsto> trimmed_keys (n_output_schema n)) else m) nodes Map.empty"

definition trimmed_edges :: "flow_edge list \<Rightarrow> (string \<times> string) list" where
  "trimmed_edges edges =
     filter (\<lambda>(s, t). s \<noteq> [] \<and> t \<noteq> []) (map (\<lambda>e. (trim_space (e_source e), trim_space (e_target e))) edges)"

text \<open>\<open>buildPredecessors\<close>: the sources of a target's edges, in the order of the edges.\<close>

definition build_predecessors :: "flow_edge list \<Rightarrow> string \<Rightarrow> string list" where
  "build_predecessors edges target = map fst (filter (\<lambda>(s, t). t = target) (trimmed_edges edges))"

section \<open>Upstream outputs\<close>

text \<open>
  The search of \<open>upstreamOutputs\<close>: the last pending node is taken; one already visited is dropped.
  The result lists the visited ancestors, the newest first; the outputs it selects are looked up
  afterwards.
\<close>

function upstream_search :: "flow_edge list \<Rightarrow> string list \<Rightarrow> string list \<Rightarrow> string list \<Rightarrow> string list" where
  "upstream_search edges visited found pending =
     (if pending = [] then found
      else (let ancestor = last pending; rest = butlast pending in
            if ancestor \<in> set visited then upstream_search edges visited found rest
            else upstream_search edges (ancestor # visited) (ancestor # found)
                   (rest @ build_predecessors edges ancestor)))"
  by pat_completeness auto

lemma build_predecessors_sources:
  "set (build_predecessors edges t) \<subseteq> fst ` set (trimmed_edges edges)"
  by (auto simp: build_predecessors_def)

lemma set_split_last: "xs \<noteq> [] \<Longrightarrow> set xs = insert (last xs) (set (butlast xs))"
  by (metis append_butlast_last_id list.set(1,2) set_append Un_insert_right Un_empty_right)

termination upstream_search
proof (relation "(\<lambda>(edges, visited, found, pending).
    card ((set pending \<union> fst ` set (trimmed_edges edges)) - set visited)) <*mlex*> measure (\<lambda>(_, _, _, p). length p)",
    goal_cases)
  case 1
  then show ?case by (simp add: wf_mlex)
next
  case (2 edges visited found pending ancestor rest)
  then have "set pending = insert ancestor (set rest)" by (simp add: set_split_last)
  then have "(set rest \<union> fst ` set (trimmed_edges edges)) - set visited \<subseteq>
      (set pending \<union> fst ` set (trimmed_edges edges)) - set visited" by auto
  then have "card ((set rest \<union> fst ` set (trimmed_edges edges)) - set visited) \<le>
      card ((set pending \<union> fst ` set (trimmed_edges edges)) - set visited)"
    by (intro card_mono) auto
  with 2 show ?case by (simp add: mlex_leq)
next
  case (3 edges visited found pending ancestor rest)
  let ?U = "fst ` set (trimmed_edges edges)"
  from 3 have p: "set pending = insert ancestor (set rest)" by (simp add: set_split_last)
  let ?new = "(set (rest @ build_predecessors edges ancestor) \<union> ?U) - set (ancestor # visited)"
  have "?new \<subseteq> (set pending \<union> ?U) - set visited"
    using p build_predecessors_sources [of edges ancestor] by auto
  moreover have "ancestor \<in> (set pending \<union> ?U) - set visited" "ancestor \<notin> ?new"
    using p 3(4) by auto
  ultimately have "?new \<subset> (set pending \<union> ?U) - set visited" by blast
  then have "card ?new < card ((set pending \<union> ?U) - set visited)" by (intro psubset_card_mono) auto
  with 3 show ?case by (simp add: mlex_less)
qed

declare upstream_search.simps [simp del]

definition upstream_nodes :: "string \<Rightarrow> flow_edge list \<Rightarrow> string list" where
  "upstream_nodes nodeID edges = upstream_search edges [nodeID] [] (build_predecessors edges nodeID)"

definition upstream_outputs :: "string \<Rightarrow> flow_edge list \<Rightarrow> (string \<rightharpoonup> string list) \<Rightarrow> (string \<rightharpoonup> string list)" where
  "upstream_outputs nodeID edges outputs =
     (\<lambda>a. if a \<in> set (upstream_nodes nodeID edges) then outputs a else None)"

section \<open>Validating a node's references\<close>

definition validate_initial_input_reference ::
    "string \<Rightarrow> string \<Rightarrow> string \<Rightarrow> string list \<Rightarrow> parse_options \<Rightarrow> go_error option" where
  "validate_initial_input_reference nodeID ref key inputs options =
     (if key \<in> set inputs \<or> allow_unknown_initial options then None
      else Some (PlainError (''node '' @ nodeID @ '': input '' @ squote ref @
             '' references unknown initial variable '' @ squote key)))"

definition validate_node_output_reference ::
    "node_def \<Rightarrow> string \<Rightarrow> string \<Rightarrow> string \<Rightarrow> (string \<rightharpoonup> string list) \<Rightarrow> go_error option" where
  "validate_node_output_reference n ref source key available =
     (case available source of
        None \<Rightarrow>
          if runs_always n then None
          else Some (PlainError (''node '' @ n_id n @ '': source node '' @ squote source @
                 '' not available for input '' @ squote ref))
      | Some outputs \<Rightarrow>
          if has_path_root key outputs \<or> runs_always n then None
          else Some (PlainError (''node '' @ n_id n @ '': output '' @ squote key @
                 '' not declared by source node '' @ squote source)))"

definition validate_reference ::
    "node_def \<Rightarrow> string list \<Rightarrow> (string \<rightharpoonup> string list) \<Rightarrow> parse_options \<Rightarrow> string \<Rightarrow> go_error option" where
  "validate_reference n inputs available options ref =
     (if trim_space ref \<in> set inputs then None
      else (case parse_reference ref of
              Inl e \<Rightarrow> Some (WrapError (''node '' @ n_id n @ '': invalid input reference '' @ squote ref @
                         '': '' @ error_text e) e)
            | Inr (source, key) \<Rightarrow>
                (let input_rooted = has_path_root (trim_space ref) inputs in
                 if available source = None \<and> input_rooted then None
                 else if source = [] then validate_initial_input_reference (n_id n) ref key inputs options
                 else (case validate_node_output_reference n ref source key available of
                         None \<Rightarrow> None
                       | Some e \<Rightarrow> if input_rooted then None else Some e))))"

fun first_error :: "('a \<Rightarrow> go_error option) \<Rightarrow> 'a list \<Rightarrow> go_error option" where
  "first_error check [] = None"
| "first_error check (x # xs) = (case check x of Some e \<Rightarrow> Some e | None \<Rightarrow> first_error check xs)"

definition node_references :: "node_def \<Rightarrow> string list" where
  "node_references n = n_input_schema n @ nd_assertion_refs n @ nd_resolved_refs n"

definition validate_node_references ::
    "node_def \<Rightarrow> string list \<Rightarrow> (string \<rightharpoonup> string list) \<Rightarrow> parse_options \<Rightarrow> go_error option" where
  "validate_node_references n inputs available options =
     first_error (validate_reference n inputs available options) (node_references n)"

section \<open>Branch targets\<close>

definition validate_branch_target :: "string \<Rightarrow> string list \<Rightarrow> string \<Rightarrow> go_error option" where
  "validate_branch_target branchID successors target =
     (let t = trim_space target in
      if t = [] \<or> t \<in> set successors then None
      else Some (PlainError (''branch node '' @ branchID @ '': routing target '' @ squote t @
             '' is not a successor node (no edge '' @ branchID @ ''->'' @ t @ '' exists)'')))"

definition successors_of :: "flow_edge list \<Rightarrow> string \<Rightarrow> string list" where
  "successors_of edges source = map snd (filter (\<lambda>(s, t). s = source) (trimmed_edges edges))"

definition validate_branch :: "flow_edge list \<Rightarrow> node_def \<Rightarrow> go_error option" where
  "validate_branch edges n =
     (case nd_branch n of
        None \<Rightarrow> None
      | Some (targets, fallback) \<Rightarrow>
          first_error (validate_branch_target (n_id n) (successors_of edges (n_id n))) (targets @ [fallback]))"

definition validate_branch_targets :: "parsed_flow \<Rightarrow> go_error option" where
  "validate_branch_targets fl = first_error (validate_branch (pf_edges fl)) (pf_nodes fl)"

section \<open>Validating a flow\<close>

definition validate_flow_references :: "parsed_flow \<Rightarrow> parse_options \<Rightarrow> go_error option" where
  "validate_flow_references fl options =
     (let inputs = available_initial_inputs fl options;
          outputs = outputs_by_node (pf_nodes fl);
          check = (\<lambda>n. validate_node_references n inputs
                     (upstream_outputs (trim_space (n_id n)) (pf_edges fl) outputs) options)
      in case first_error check (pf_nodes fl) of
           Some e \<Rightarrow> Some e
         | None \<Rightarrow> validate_branch_targets fl)"

text \<open>
  \<open>ParseFromJSONWithOptions\<close>: JSON decoding (\<open>encoding/json\<close> and the node types' own decoders) is
  the argument \<open>decode\<close>.
\<close>

definition parse_flow :: "('d \<Rightarrow> go_error + parsed_flow) \<Rightarrow> parse_options \<Rightarrow> 'd \<Rightarrow> go_error + parsed_flow" where
  "parse_flow decode options data =
     (case decode data of
        Inl e \<Rightarrow> Inl e
      | Inr fl \<Rightarrow> (case validate_flow_references fl options of Some e \<Rightarrow> Inl e | None \<Rightarrow> Inr fl))"

section \<open>What upstream means\<close>

definition leads_to :: "flow_edge list \<Rightarrow> (string \<times> string) set" where
  "leads_to edges = {(t, s). (s, t) \<in> set (trimmed_edges edges)}"

lemma build_predecessors_iff: "s \<in> set (build_predecessors edges t) \<longleftrightarrow> (t, s) \<in> leads_to edges"
  by (force simp: build_predecessors_def leads_to_def)

lemma upstream_search_spec:
  assumes "set visited = insert node (set found)" "node \<notin> set found"
    and "\<And>a. a \<in> set found \<union> set pending \<Longrightarrow> (node, a) \<in> (leads_to edges)\<^sup>+"
    and "\<And>v a. v \<in> set visited \<Longrightarrow> (v, a) \<in> leads_to edges \<Longrightarrow> a \<in> set visited \<union> set pending"
  shows "set (upstream_search edges visited found pending) = {a. (node, a) \<in> (leads_to edges)\<^sup>+ \<and> a \<noteq> node}"
  using assms
proof (induction edges visited found pending rule: upstream_search.induct)
  case (1 edges visited found pending)
  show ?case
  proof (cases "pending = []")
    case True
    have closed: "a \<in> set visited" if "(node, a) \<in> (leads_to edges)\<^sup>+" for a
      using that by (induction rule: trancl_induct) (use 1(3,6) True in auto)
    have "upstream_search edges visited found pending = found"
      using True by (simp add: upstream_search.simps)
    then show ?thesis using closed 1(3-5) True by auto
  next
    case False
    let ?a = "last pending" and ?rest = "butlast pending"
    have p: "set pending = insert ?a (set ?rest)" by (rule set_split_last [OF False])
    show ?thesis
    proof (cases "?a \<in> set visited")
      case True
      have "set (upstream_search edges visited found ?rest) = {a. (node, a) \<in> (leads_to edges)\<^sup>+ \<and> a \<noteq> node}"
        by (rule 1(1) [OF False refl refl True]) (use 1(3-6) p True in auto)
      with True False show ?thesis by (simp add: upstream_search.simps [of _ _ _ pending])
    next
      case new: False
      have up: "(node, ?a) \<in> (leads_to edges)\<^sup>+" using 1(5) p by blast
      have preds: "(node, b) \<in> (leads_to edges)\<^sup>+" if "b \<in> set (build_predecessors edges ?a)" for b
        using up that build_predecessors_iff trancl_into_trancl by metis
      have "set (upstream_search edges (?a # visited) (?a # found) (?rest @ build_predecessors edges ?a)) =
          {a. (node, a) \<in> (leads_to edges)\<^sup>+ \<and> a \<noteq> node}"
      proof (rule 1(2) [OF False refl refl new])
        show "a \<in> set (?a # visited) \<union> set (?rest @ build_predecessors edges ?a)"
          if "v \<in> set (?a # visited)" "(v, a) \<in> leads_to edges" for v a
          using that 1(6) [of v a] p by (cases "v = ?a") (auto simp: build_predecessors_iff)
      qed (use 1(3-5) p new up preds in auto)
      with new False show ?thesis by (simp add: upstream_search.simps [of _ _ _ pending] Let_def)
    qed
  qed
qed

text \<open>
  The nodes whose outputs a node may reference are exactly the other nodes an edge path
  leads from to it, wherever the definition lists them; the search for them always ends, cycles
  and unknown nodes included.
\<close>

theorem upstream_is_ancestors:
  "dom (upstream_outputs nodeID edges outputs) =
     {a. (a, nodeID) \<in> (set (trimmed_edges edges))\<^sup>+ \<and> a \<noteq> nodeID} \<inter> dom outputs"
proof -
  have conv: "leads_to edges = (set (trimmed_edges edges))\<inverse>" by (auto simp: leads_to_def)
  have "set (upstream_nodes nodeID edges) = {a. (nodeID, a) \<in> (leads_to edges)\<^sup>+ \<and> a \<noteq> nodeID}"
    unfolding upstream_nodes_def
    by (rule upstream_search_spec) (auto simp: build_predecessors_iff)
  moreover have "dom (upstream_outputs nodeID edges outputs) = set (upstream_nodes nodeID edges) \<inter> dom outputs"
    by (auto simp: upstream_outputs_def split: if_splits)
  ultimately show ?thesis unfolding conv trancl_converse by simp
qed

section \<open>What an accepted flow guarantees\<close>

lemma has_path_root_iff:
  "has_path_root c keys \<longleftrightarrow> c \<in> set keys \<or> (\<exists>p. dotted_prefix p c \<and> p \<in> set keys)"
proof (induction c keys rule: has_path_root.induct)
  case (1 c keys)
  then show ?case
    by (subst has_path_root.simps) (auto simp: dotted_prefix_cases [of _ c] split: option.splits)
qed

lemma first_error_None_iff: "first_error check xs = None \<longleftrightarrow> (\<forall>x\<in>set xs. check x = None)"
  by (induction xs) (auto split: option.splits)

lemma parse_reference_initial: "parse_reference ref = Inr ([], key) \<Longrightarrow> key = trim_space ref"
  by (auto simp: parse_reference_def Let_def split_n2_def split: if_splits)

lemma validate_reference_None:
  assumes "validate_reference n inputs available options ref = None"
    and "\<not> runs_always n" "\<not> allow_unknown_initial options"
  shows "has_path_root (trim_space ref) inputs \<or>
     (\<exists>source key outs. parse_reference ref = Inr (source, key) \<and> available source = Some outs \<and> has_path_root key outs)"
proof (cases "has_path_root (trim_space ref) inputs")
  case False
  then have notin: "trim_space ref \<notin> set inputs" by (simp add: has_path_root_iff)
  with assms False obtain source key where parsed: "parse_reference ref = Inr (source, key)"
    by (auto simp: validate_reference_def split: sum.splits)
  with assms False notin show ?thesis
    using parse_reference_initial [of ref key]
    by (auto simp: validate_reference_def Let_def validate_node_output_reference_def
        validate_initial_input_reference_def split: option.splits if_splits)
qed simp


section \<open>A concrete flow\<close>

definition demo_node_def :: "string \<Rightarrow> string list \<Rightarrow> string list \<Rightarrow> node_def" where
  "demo_node_def nodeID ins outs =
     \<lparr>n_id = nodeID, n_display_name = [], n_type = KindRequest, n_run_when = [], n_input_schema = ins,
      n_output_schema = outs, nd_assertion_refs = [], nd_resolved_refs = [], nd_branch = None, nd_module = None\<rparr>"

definition demo_flow :: "string list \<Rightarrow> string list \<Rightarrow> string list \<Rightarrow> parsed_flow" where
  "demo_flow initial outs ins =
     \<lparr>pf_nodes = [demo_node_def ''acct'' [] outs, demo_node_def ''use'' ins []],
      pf_edges = [\<lparr>e_id = ''e'', e_source = ''acct'', e_target = ''use'', e_type = TypeSuccess\<rparr>],
      pf_initial_inputs = initial\<rparr>"

definition strict_options :: parse_options where
  "strict_options = \<lparr>allowed_initial_keys = [], allow_unknown_initial = False\<rparr>"

lemma demo_flow_valid: "validate_flow_references (demo_flow [] [''id''] [''acct.id'']) strict_options = None"
  by code_simp


end
