(* ===== verification/Module_Graph.thy ===== *)
theory Module_Graph
  imports Validation Skips
begin

text \<open>
  Module flows: the walk over the module graph before an execution
  (\<open>pkg/engine/module_cycle_validation.go\<close>), \<open>ExecuteModule\<close>'s own checks (\<open>pkg/engine/engine.go\<close>),
  the module resolver of a run (\<open>pkg/runner/runner.go\<close>) and the data a module node passes in and
  out (\<open>pkg/node/module_node.go\<close>). The referenced flows are an association list with the resolver's
  lookup; decoding a definition is a parameter. The cache key, a flow ID with a JSON encoding of
  the input keys, is the pair of both.
\<close>

section \<open>Referenced flows\<close>

record 'd referenced_flow =
  rf_definition :: 'd
  rf_overrides :: "(string \<times> gval) list"

type_synonym 'd registry = "(string \<times> 'd referenced_flow) list"

definition resolve_flow :: "'d registry \<Rightarrow> string \<Rightarrow> 'd referenced_flow option" where
  "resolve_flow reg flowID = map_of reg flowID"

text \<open>\<open>ModuleResolver\<close>: nil when there are no referenced flows.\<close>

definition module_resolver :: "'d registry \<Rightarrow> 'd registry option" where
  "module_resolver reg = (if reg = [] then None else Some reg)"

definition merge_inputs :: "outputs \<Rightarrow> outputs \<Rightarrow> outputs" where
  "merge_inputs base override = maps_copy (maps_copy Map.empty base) override"

section \<open>The walk\<close>

type_synonym module_cache = "(string \<times> string list) \<rightharpoonup> parsed_flow"

definition cycle_error :: "string list \<Rightarrow> string \<Rightarrow> go_error" where
  "cycle_error stack target =
     UserError ''MODULE_CYCLE_DETECTED''
       (''module cycle detected: '' @ join_with '' -> '' (stack @ [target])) None"

definition detect_module_cycle :: "string list \<Rightarrow> string \<Rightarrow> go_error option" where
  "detect_module_cycle stack target =
     (if target \<in> set stack then Some (cycle_error stack target) else None)"

text \<open>\<open>slices.Sort\<close> then \<open>slices.Compact\<close>.\<close>

definition compact_keys :: "string list \<Rightarrow> string list" where
  "compact_keys keys = remdups_adj (sort keys)"

definition module_input_keys :: "'d referenced_flow \<Rightarrow> string list \<Rightarrow> string list" where
  "module_input_keys rf received = compact_keys (received @ map fst (rf_overrides rf))"

definition module_options :: "string list \<Rightarrow> parse_options" where
  "module_options keys = \<lparr>allowed_initial_keys = keys, allow_unknown_initial = True\<rparr>"

definition flow_not_found :: "string \<Rightarrow> go_error" where
  "flow_not_found flowID =
     UserError ''MODULE_FLOW_NOT_FOUND'' (''referenced flow '' @ dquote flowID @ '' not found'') None"

definition resolve_module_flow ::
    "('d \<Rightarrow> go_error + parsed_flow) \<Rightarrow> 'd registry \<Rightarrow> string \<Rightarrow> string list \<Rightarrow> module_cache \<Rightarrow>
     (go_error + parsed_flow \<times> string list) \<times> module_cache" where
  "resolve_module_flow decode reg flowID received cache =
     (case resolve_flow reg flowID of
        None \<Rightarrow> (Inl (flow_not_found flowID), cache)
      | Some rf \<Rightarrow>
          (let keys = module_input_keys rf received in
           case cache (flowID, keys) of
             Some fl \<Rightarrow> (Inr (fl, keys), cache)
           | None \<Rightarrow>
               (case parse_flow decode (module_options keys) (rf_definition rf) of
                  Inl e \<Rightarrow> (Inl (UserError ''MODULE_FLOW_PARSE_FAILED'' ''parse module flow'' (Some e)), cache)
                | Inr fl \<Rightarrow> (Inr (fl, keys), cache((flowID, keys) \<mapsto> fl)))))"

lemma resolve_module_flow_known:
  "resolve_module_flow decode reg flowID received cache = (Inr (fl, keys), cache') \<Longrightarrow> flowID \<in> fst ` set reg"
  by (auto simp: resolve_module_flow_def resolve_flow_def split: option.splits dest!: map_of_SomeD) force+

lemma detect_module_cycle_None: "detect_module_cycle stack target = None \<longleftrightarrow> target \<notin> set stack"
  by (simp add: detect_module_cycle_def)

lemma resolve_module_flow_measure:
  assumes "target \<notin> set stack" and "resolve_module_flow decode reg target received cache = (Inr (fl, keys), cache')"
  shows "card (fst ` set reg - set (stack @ [target])) < card (fst ` set reg - set stack)"
proof (rule psubset_card_mono)
  show "fst ` set reg - set (stack @ [target]) \<subset> fst ` set reg - set stack"
    using assms(1) resolve_module_flow_known [OF assms(2)] by auto
qed simp

text \<open>
  \<open>validateModuleReferences\<close>: every module node's target that is not on the call stack is resolved
  and its own modules are walked with it on the stack. The walk ends because a resolved target is
  one of the finitely many referenced flows and the stack never holds a flow twice.
\<close>

function validate_modules ::
    "('d \<Rightarrow> go_error + parsed_flow) \<Rightarrow> 'd registry \<Rightarrow> node_def list \<Rightarrow> module_cache \<Rightarrow> string list \<Rightarrow> string list \<Rightarrow>
     go_error option \<times> module_cache" where
  "validate_modules decode reg [] cache stack inherited = (None, cache)"
| "validate_modules decode reg (n # ns) cache stack inherited =
     (case nd_module n of
        None \<Rightarrow> validate_modules decode reg ns cache stack inherited
      | Some (flowID, bindings) \<Rightarrow>
          (let target = trim_space flowID in
           if target = [] then validate_modules decode reg ns cache stack inherited
           else (case detect_module_cycle stack target of
                   Some e \<Rightarrow> (Some e, cache)
                 | None \<Rightarrow>
                     (case resolve_module_flow decode reg target (inherited @ bindings) cache of
                        (Inl e, cache') \<Rightarrow> (Some e, cache')
                      | (Inr (fl, keys), cache') \<Rightarrow>
                          (case validate_modules decode reg (pf_nodes fl) cache' (stack @ [target]) keys of
                             (Some e, cache'') \<Rightarrow> (Some e, cache'')
                           | (None, cache'') \<Rightarrow> validate_modules decode reg ns cache'' stack inherited)))))"
  by pat_completeness auto
termination
  by (relation "measures [\<lambda>(decode, reg, ns, cache, stack, inh). card (fst ` set reg - set stack),
      \<lambda>(decode, reg, ns, cache, stack, inh). length ns]")
    (auto simp: detect_module_cycle_None simp del: set_append dest!: resolve_module_flow_measure [OF _ sym])

definition validate_module_graph ::
    "('d \<Rightarrow> go_error + parsed_flow) \<Rightarrow> 'd registry option \<Rightarrow> parsed_flow \<Rightarrow> string list \<Rightarrow> string list \<Rightarrow> go_error option" where
  "validate_module_graph decode resolver main stack inputs =
     (case resolver of
        None \<Rightarrow> None
      | Some reg \<Rightarrow> fst (validate_modules decode reg (pf_nodes main) Map.empty stack inputs))"

section \<open>Running a module\<close>

text \<open>\<open>sortedInputKeys\<close>, then what \<open>ExecuteModule\<close> checks before the nested execution starts.\<close>

definition sorted_input_keys :: "string list \<Rightarrow> string list" where
  "sorted_input_keys keys = sort (trimmed_keys keys)"

definition execute_module ::
    "('d \<Rightarrow> go_error + parsed_flow) \<Rightarrow> string list \<Rightarrow> string \<Rightarrow> 'd \<Rightarrow> string list \<Rightarrow> go_error + parsed_flow \<times> string list" where
  "execute_module decode stack flowID definition inputs =
     (let target = trim_space flowID in
      if target = [] then Inl (UserError ''MODULE_FLOW_ID_REQUIRED'' ''module flow_id is required'' None)
      else if target \<in> set stack then Inl (cycle_error stack target)
      else (case parse_flow decode \<lparr>allowed_initial_keys = sorted_input_keys inputs, allow_unknown_initial = False\<rparr> definition of
              Inl e \<Rightarrow> Inl (UserError ''MODULE_FLOW_PARSE_FAILED'' ''parse module flow'' (Some e))
            | Inr fl \<Rightarrow> Inr (fl, stack @ [target])))"

text \<open>The child's inputs: the parent's, the flow's overrides, the module's bindings, the last winning.\<close>

definition module_inputs :: "outputs \<Rightarrow> outputs \<Rightarrow> outputs \<Rightarrow> outputs" where
  "module_inputs flow_inputs overrides bound =
     maps_copy (maps_copy (maps_copy Map.empty flow_inputs) overrides) bound"

fun export_from :: "outputs \<Rightarrow> (string \<times> string) list \<Rightarrow> outputs \<Rightarrow> go_error + outputs" where
  "export_from child_outputs [] exported = Inr exported"
| "export_from child_outputs ((name, ref) # bindings) exported =
     (if trim_space name = [] \<or> trim_space ref = []
      then Inl (PlainError ''module output bindings require non-empty names and references'')
      else (case child_outputs (trim_space ref) of
              None \<Rightarrow> Inl (PlainError (''module output '' @ dquote (trim_space name) @
                        '' references unavailable child output '' @ dquote (trim_space ref)))
            | Some v \<Rightarrow> export_from child_outputs bindings (exported(trim_space name \<mapsto> v))))"

definition export_outputs :: "outputs \<Rightarrow> (string \<times> string) list \<Rightarrow> go_error + outputs" where
  "export_outputs child_outputs bindings = export_from child_outputs bindings Map.empty"

section \<open>The walk without a cache\<close>

text \<open>The reference definition: every module is parsed where it is met.\<close>

definition resolve_plain ::
    "('d \<Rightarrow> go_error + parsed_flow) \<Rightarrow> 'd registry \<Rightarrow> string \<Rightarrow> string list \<Rightarrow> go_error + parsed_flow \<times> string list" where
  "resolve_plain decode reg flowID received = fst (resolve_module_flow decode reg flowID received Map.empty)"

lemma resolve_plain_known: "resolve_plain decode reg flowID received = Inr (fl, keys) \<Longrightarrow> flowID \<in> fst ` set reg"
  using resolve_module_flow_known [of decode reg flowID received Map.empty fl keys]
  by (metis resolve_plain_def prod.collapse)

lemma resolve_plain_measure:
  assumes "target \<notin> set stack" and "resolve_plain decode reg target received = Inr (fl, keys)"
  shows "card (fst ` set reg - set (stack @ [target])) < card (fst ` set reg - set stack)"
  using assms resolve_module_flow_measure [of target stack decode reg received Map.empty fl keys]
  by (metis resolve_plain_def prod.collapse)

function validate_plain ::
    "('d \<Rightarrow> go_error + parsed_flow) \<Rightarrow> 'd registry \<Rightarrow> node_def list \<Rightarrow> string list \<Rightarrow> string list \<Rightarrow> go_error option" where
  "validate_plain decode reg [] stack inherited = None"
| "validate_plain decode reg (n # ns) stack inherited =
     (case nd_module n of
        None \<Rightarrow> validate_plain decode reg ns stack inherited
      | Some (flowID, bindings) \<Rightarrow>
          (let target = trim_space flowID in
           if target = [] then validate_plain decode reg ns stack inherited
           else (case detect_module_cycle stack target of
                   Some e \<Rightarrow> Some e
                 | None \<Rightarrow>
                     (case resolve_plain decode reg target (inherited @ bindings) of
                        Inl e \<Rightarrow> Some e
                      | Inr (fl, keys) \<Rightarrow>
                          (case validate_plain decode reg (pf_nodes fl) (stack @ [target]) keys of
                             Some e \<Rightarrow> Some e
                           | None \<Rightarrow> validate_plain decode reg ns stack inherited)))))"
  by pat_completeness auto
termination
  by (relation "measures [\<lambda>(decode, reg, ns, stack, inh). card (fst ` set reg - set stack),
      \<lambda>(decode, reg, ns, stack, inh). length ns]")
    (auto simp: detect_module_cycle_None simp del: set_append dest!: resolve_plain_measure)

text \<open>A cache that holds only what parsing gives.\<close>

definition coherent :: "('d \<Rightarrow> go_error + parsed_flow) \<Rightarrow> 'd registry \<Rightarrow> module_cache \<Rightarrow> bool" where
  "coherent decode reg cache \<longleftrightarrow>
     (\<forall>flowID keys fl. cache (flowID, keys) = Some fl \<longrightarrow>
        (\<exists>rf. resolve_flow reg flowID = Some rf \<and> parse_flow decode (module_options keys) (rf_definition rf) = Inr fl))"

lemma resolve_coherent:
  assumes "coherent decode reg cache" "resolve_module_flow decode reg flowID received cache = (res, cache')"
  shows "res = resolve_plain decode reg flowID received" and "coherent decode reg cache'"
proof -
  have "res = resolve_plain decode reg flowID received \<and> coherent decode reg cache'"
  proof (cases "resolve_flow reg flowID")
    case None
    with assms show ?thesis by (simp add: resolve_module_flow_def resolve_plain_def)
  next
    case (Some rf)
    let ?keys = "module_input_keys rf received"
    show ?thesis
    proof (cases "cache (flowID, ?keys)")
      case None
      with assms Some show ?thesis
        by (auto simp: resolve_module_flow_def resolve_plain_def Let_def coherent_def split: sum.splits if_splits)
    next
      case (Some fl)
      with assms(1) \<open>resolve_flow reg flowID = Some rf\<close>
      have "parse_flow decode (module_options ?keys) (rf_definition rf) = Inr fl"
        unfolding coherent_def by (metis option.inject)
      with assms Some \<open>resolve_flow reg flowID = Some rf\<close> show ?thesis
        by (simp add: resolve_module_flow_def resolve_plain_def Let_def)
    qed
  qed
  then show "res = resolve_plain decode reg flowID received" "coherent decode reg cache'" by blast+
qed

lemma validate_modules_plain:
  "coherent decode reg cache \<Longrightarrow>
   fst (validate_modules decode reg ns cache stack inherited) = validate_plain decode reg ns stack inherited \<and>
   coherent decode reg (snd (validate_modules decode reg ns cache stack inherited))"
proof (induction decode reg ns cache stack inherited rule: validate_modules.induct)
  case (1 decode reg cache stack inherited)
  then show ?case by simp
next
  case (2 decode reg n ns cache stack inherited)
  show ?case
  proof (cases "nd_module n")
    case None
    with 2 show ?thesis by simp
  next
    case (Some fb)
    obtain flowID bindings where fb: "fb = (flowID, bindings)" by (cases fb)
    let ?t = "trim_space flowID"
    note mod = Some [unfolded fb]
    show ?thesis
    proof (cases "?t = [] \<or> ?t \<in> set stack")
      case True
      with 2(2) [OF mod refl refl] 2(5) mod show ?thesis
        by (cases "?t = []") (simp_all add: Let_def detect_module_cycle_def)
    next
      case False
      then have t: "?t \<noteq> []" "detect_module_cycle stack ?t = None" by (simp_all add: detect_module_cycle_None)
      obtain res cache' where res: "resolve_module_flow decode reg ?t (inherited @ bindings) cache = (res, cache')" by fastforce
      note coh = resolve_coherent [OF 2(5) res]
      show ?thesis
      proof (cases res)
        case (Inl e)
        with res coh(1) have "resolve_module_flow decode reg ?t (inherited @ bindings) cache = (Inl e, cache')"
          "resolve_plain decode reg ?t (inherited @ bindings) = Inl e" by simp_all
        with coh(2) mod t show ?thesis by (simp add: Let_def)
      next
        case (Inr r)
        obtain fl keys where r: "r = (fl, keys)" by (cases r)
        note step = res [unfolded Inr r] coh(1) [symmetric, unfolded Inr r]
        obtain err cache'' where sub: "validate_modules decode reg (pf_nodes fl) cache' (stack @ [?t]) keys = (err, cache'')"
          by fastforce
        have IH: "err = validate_plain decode reg (pf_nodes fl) (stack @ [?t]) keys" "coherent decode reg cache''"
          using 2(3) [OF mod refl refl t(1,2) res [symmetric, unfolded Inr r] refl refl coh(2)] sub by simp_all
        show ?thesis
        proof (cases err)
          case (Some e)
          note subs = sub [unfolded Some] IH(1) [symmetric, unfolded Some]
          show ?thesis using subs IH(2) step mod t by (simp add: Let_def)
        next
          case None
          have "fst (validate_modules decode reg ns cache'' stack inherited) = validate_plain decode reg ns stack inherited \<and>
              coherent decode reg (snd (validate_modules decode reg ns cache'' stack inherited))"
            using 2(4) [OF mod refl refl t(1,2) res [symmetric, unfolded Inr r] refl refl sub [symmetric, unfolded None] refl IH(2)]
            by simp
          moreover note subs = sub [unfolded None] IH(1) [symmetric, unfolded None]
          ultimately show ?thesis using step mod t by (simp add: Let_def)
        qed
      qed
    qed
  qed
qed

text \<open>
  Claim C9. Keeping the parsed module flows by flow ID and input keys changes nothing: the walk
  with the cache accepts and rejects exactly as a walk that parses every module where it is met,
  with the same error, and it always ends, cyclic module graphs included.
\<close>

theorem module_cache_is_transparent:
  "validate_module_graph decode (Some reg) main stack inputs =
     validate_plain decode reg (pf_nodes main) stack inputs"
  using validate_modules_plain [of decode reg Map.empty "pf_nodes main" stack inputs]
  by (simp add: validate_module_graph_def coherent_def)

section \<open>Accepted module graphs\<close>

text \<open>
  A place in the module graph: the nodes of a flow, the flows being called, the input keys; and
  the step into one of its modules.
\<close>

type_synonym module_place = "node_def list \<times> string list \<times> string list"

inductive enters_module ::
    "('d \<Rightarrow> go_error + parsed_flow) \<Rightarrow> 'd registry \<Rightarrow> module_place \<Rightarrow> module_place \<Rightarrow> bool" for decode reg where
  enter: "n \<in> set ns \<Longrightarrow> nd_module n = Some (flowID, bindings) \<Longrightarrow> trim_space flowID \<noteq> [] \<Longrightarrow>
    resolve_plain decode reg (trim_space flowID) (inherited @ bindings) = Inr (fl, keys) \<Longrightarrow>
    enters_module decode reg (ns, stack, inherited) (pf_nodes fl, stack @ [trim_space flowID], keys)"

inductive_simps enters_module_simps: "enters_module decode reg (ns, stack, inherited) place"

lemma validate_plain_each:
  assumes "validate_plain decode reg ns stack inherited = None"
    and "n \<in> set ns" "nd_module n = Some (flowID, bindings)" "trim_space flowID \<noteq> []"
  shows "trim_space flowID \<notin> set stack \<and>
     (\<exists>fl keys. resolve_plain decode reg (trim_space flowID) (inherited @ bindings) = Inr (fl, keys) \<and>
        validate_plain decode reg (pf_nodes fl) (stack @ [trim_space flowID]) keys = None)"
  using assms
proof (induction ns)
  case Nil
  then show ?case by simp
next
  case (Cons m ns)
  have rest: "validate_plain decode reg ns stack inherited = None"
    using Cons.prems(1) by (auto simp: Let_def split: option.splits sum.splits if_splits)
  show ?case
  proof (cases "n = m")
    case True
    with Cons.prems show ?thesis
      by (auto simp: Let_def detect_module_cycle_None split: option.splits sum.splits)
  next
    case False
    with Cons.prems rest Cons.IH show ?thesis by simp
  qed
qed

definition accepted_place :: "('d \<Rightarrow> go_error + parsed_flow) \<Rightarrow> 'd registry \<Rightarrow> module_place \<Rightarrow> bool" where
  "accepted_place decode reg place \<longleftrightarrow>
     (case place of (ns, stack, inherited) \<Rightarrow>
        validate_plain decode reg ns stack inherited = None \<and> distinct stack)"

lemma enters_module_accepted:
  assumes "enters_module decode reg s t" "accepted_place decode reg s"
  shows "accepted_place decode reg t"
  using assms(1)
proof cases
  case (enter n ns flowID bindings inherited fl keys stack)
  with assms(2) validate_plain_each [of decode reg ns stack inherited n flowID bindings]
  show ?thesis by (simp add: accepted_place_def)
qed

interpretation module_walk: invariant_system
  "accepted_place decode reg" "enters_module decode reg" "accepted_place decode reg"
  for decode :: "'d \<Rightarrow> go_error + parsed_flow" and reg :: "'d registry"
  by unfold_locales (auto intro: enters_module_accepted)

lemma reach_weaken:
  assumes "reach P step s" and "\<And>x. P x \<Longrightarrow> Q x"
  shows "reach Q step s"
  using assms(1) by (induction rule: reach.induct) (use assms(2) in \<open>blast intro: reach.intros\<close>)+


definition demo_module :: "string \<Rightarrow> string \<Rightarrow> node_def" where
  "demo_module nodeID flowID = (demo_node_def nodeID [] [])\<lparr>n_type := KindModule, nd_module := Some (flowID, [])\<rparr>"

definition flow_of :: "node_def list \<Rightarrow> parsed_flow" where
  "flow_of ns = \<lparr>pf_nodes = ns, pf_edges = [], pf_initial_inputs = []\<rparr>"

definition demo_registry :: "parsed_flow registry" where
  "demo_registry =
     [(''a'', \<lparr>rf_definition = flow_of [demo_module ''m'' ''b''], rf_overrides = []\<rparr>),
      (''b'', \<lparr>rf_definition = flow_of [demo_node_def ''leaf'' [] []], rf_overrides = []\<rparr>)]"

definition demo_main :: parsed_flow where
  "demo_main = flow_of [demo_module ''top'' ''a'']"

lemma demo_modules_ok: "validate_module_graph Inr (Some demo_registry) demo_main [] [] = None"
  by code_simp


section \<open>Validation and execution disagree\<close>

text \<open>
  A flow input hidden by a step of the same name: validation accepts a reference whose
  first segment is an upstream step that never publishes the path, because a flow input has that
  name too, relying on the execution to read the flow input; but once the step has run the
  execution reads only its outputs, and the node fails its input validation. Without the step's
  outputs the same reference does resolve.
\<close>

theorem hidden_input_is_accepted_but_fails:
  "validate_flow_references (demo_flow [''acct''] [''token''] [''acct.id'']) strict_options = None \<and>
   (let inputs = [''acct'' \<mapsto> GMap [(''id'', GInt 7)]] in
    first_input_error ''use'' [[] \<mapsto> inputs, ''acct'' \<mapsto> [''token'' \<mapsto> GStr ''t'']] [''acct.id''] \<noteq> None \<and>
    first_input_error ''use'' [[] \<mapsto> inputs] [''acct.id''] = None)"
  by code_simp

end
