(* ===== verification/Templates.thy ===== *)
theory Templates
  imports Assertions Demo
begin

text \<open>
  Template resolution (\<open>pkg/node/template_resolver.go\<close>), the references a node's data declares
  (\<open>pkg/node/schema_inference.go\<close>) and the references of assertion values
  (\<open>resolveAssertionTemplates\<close> and \<open>lookupReference\<close> of \<open>pkg/node/webhook_expectations.go\<close>). The
  resolver of dynamic \<open>{{$name}}\<close> variables draws from a stream of generated values, so it is a
  function on a state that is threaded through the resolution; the entries of a Go map are met in
  the order of its association list. Go's regular expressions are read as what they match: the
  patterns use braces, negated classes and white space only. A value holds no \<open>json.RawMessage\<close>,
  the one case in which \<open>Resolve\<close> can fail, so the resolution is total here.
\<close>

section \<open>Values as text\<close>

text \<open>
  \<open>encode_json\<close> is \<open>json.Encoder\<close> without HTML escaping and without the final newline,
  \<open>marshal_json\<close> is \<open>json.Marshal\<close>.
\<close>

record json_text = go_text +
  encode_json :: "gval \<Rightarrow> go_error + string"
  marshal_json :: "gval \<Rightarrow> go_error + string"

text \<open>
  The containers of Go callers that count as \<open>[]string\<close> or \<open>map[string]string\<close>: typed ones that
  hold strings only.
\<close>

definition is_text :: "gval \<Rightarrow> bool" where
  "is_text v \<longleftrightarrow> (case v of GStr s \<Rightarrow> True | _ \<Rightarrow> False)"

fun string_container :: "gval \<Rightarrow> bool" where
  "string_container (GTSlice vs) = list_all is_text vs"
| "string_container (GTMap kvs) = list_all (\<lambda>kv. is_text (snd kv)) kvs"
| "string_container _ = False"

definition encoded_text :: "'a json_text_scheme \<Rightarrow> gval \<Rightarrow> string" where
  "encoded_text g v = (case encode_json g v of Inl e \<Rightarrow> value_text (go_text.truncate g) v | Inr t \<Rightarrow> t)"

fun format_template_value :: "'a json_text_scheme \<Rightarrow> gval \<Rightarrow> string" where
  "format_template_value g (GStr s) = s"
| "format_template_value g (GFloat x) = format_float g x"
| "format_template_value g (GMap kvs) = encoded_text g (GMap kvs)"
| "format_template_value g (GList vs) = encoded_text g (GList vs)"
| "format_template_value g v =
     (if string_container v then encoded_text g v else value_text (go_text.truncate g) v)"

section \<open>The templates of a text\<close>

abbreviation open_brace :: char where "open_brace \<equiv> CHR 0x7B"
abbreviation close_brace :: char where "close_brace \<equiv> CHR 0x7D"

text \<open>
  \<open>{{([^}]+)}}\<close> at the front of a text: what is between the braces, and the rest of the text.
\<close>

definition match_template :: "string \<Rightarrow> (string \<times> string) option" where
  "match_template s =
     (case strip_prefix [open_brace, open_brace] s of
        None \<Rightarrow> None
      | Some t \<Rightarrow>
          (let body = takeWhile (\<lambda>c. c \<noteq> close_brace) t in
           if body = [] then None
           else (case strip_prefix [close_brace, close_brace] (drop (length body) t) of
                   None \<Rightarrow> None
                 | Some rest \<Rightarrow> Some (body, rest))))"

text \<open>What \<open>\s*([^}]+?)\s*\<close> captures: the text without the white space around it, one
  character at least.\<close>

definition pattern_space :: "char \<Rightarrow> bool" where
  "pattern_space c \<longleftrightarrow> of_char c \<in> {9, 10, 12, 13, 32 :: nat}"

definition captured :: "string \<Rightarrow> string" where
  "captured body =
     (if list_all pattern_space body then drop (length body - 1) body
      else rev (dropWhile pattern_space (rev (dropWhile pattern_space body))))"

text \<open>\<open>rawVariablePattern\<close> and \<open>singleVariablePattern\<close>: the trimmed text is one template as a whole.\<close>

definition enclosed :: "string \<Rightarrow> string \<Rightarrow> string \<Rightarrow> string option" where
  "enclosed opening closing s =
     (case strip_prefix opening (trim_space s) of
        None \<Rightarrow> None
      | Some t \<Rightarrow>
          (case strip_prefix (rev closing) (rev t) of
             None \<Rightarrow> None
           | Some b \<Rightarrow>
               if b \<noteq> [] \<and> open_brace \<notin> set b \<and> close_brace \<notin> set b then Some (captured (rev b)) else None))"

definition raw_variable :: "string \<Rightarrow> string option" where
  "raw_variable s = enclosed (replicate 3 open_brace) (replicate 3 close_brace) s"

definition single_variable :: "string \<Rightarrow> string option" where
  "single_variable s = enclosed (replicate 2 open_brace) (replicate 2 close_brace) s"

lemma match_template_shape:
  "match_template s = Some (body, rest) \<longleftrightarrow>
     s = open_brace # open_brace # body @ close_brace # close_brace # rest \<and> body \<noteq> [] \<and> close_brace \<notin> set body"
proof
  assume "match_template s = Some (body, rest)"
  then obtain t where t: "s = [open_brace, open_brace] @ t" and b: "body = takeWhile (\<lambda>c. c \<noteq> close_brace) t"
    "body \<noteq> []" and r: "drop (length body) t = [close_brace, close_brace] @ rest"
    by (auto simp: match_template_def Let_def strip_prefix_iff split: option.splits if_splits)
  have "t = body @ drop (length body) t"
    by (metis b(1) takeWhile_eq_take append_take_drop_id)
  moreover have "close_brace \<notin> set body" using b(1) by (auto dest: set_takeWhileD)
  ultimately show "s = open_brace # open_brace # body @ close_brace # close_brace # rest \<and> body \<noteq> [] \<and> close_brace \<notin> set body"
    using t b(2) r by simp
next
  assume s: "s = open_brace # open_brace # body @ close_brace # close_brace # rest \<and> body \<noteq> [] \<and> close_brace \<notin> set body"
  then have "takeWhile (\<lambda>c. c \<noteq> close_brace) (body @ close_brace # close_brace # rest) = body"
    by (subst takeWhile_append2) auto
  with s show "match_template s = Some (body, rest)"
    by (simp add: match_template_def strip_prefix_iff)
qed

lemma match_template_shorter: "match_template s = Some (body, rest) \<Longrightarrow> length rest < length s"
  by (auto simp: match_template_shape)

section \<open>The resolver\<close>

text \<open>\<open>spi.DynamicResolver\<close>.\<close>

type_synonym 'w dynamic_resolver = "string \<Rightarrow> string list \<Rightarrow> 'w \<Rightarrow> (go_error + string) \<times> 'w"

record 'w resolver =
  variables :: outputs
  dynamic :: "'w dynamic_resolver option"

definition resolve_dynamic :: "'w resolver \<Rightarrow> string \<Rightarrow> 'w \<Rightarrow> string option \<times> 'w" where
  "resolve_dynamic r varName w =
     (case dynamic r of
        None \<Rightarrow> (None, w)
      | Some d \<Rightarrow>
          (if \<not> has_prefix varName ''$'' then (None, w)
           else (case d (hd (split_at CHR '':'' (tl varName))) (tl (split_at CHR '':'' (tl varName))) w of
                   (Inl err, w') \<Rightarrow> (None, w')
                 | (Inr value, w') \<Rightarrow> (Some value, w'))))"

definition lookup :: "'w resolver \<Rightarrow> string \<Rightarrow> gval option" where
  "lookup r varName = lookup_path varName (variables r)"

text \<open>The text a match is replaced with.\<close>

definition replace_match :: "'a json_text_scheme \<Rightarrow> 'w resolver \<Rightarrow> string \<Rightarrow> 'w \<Rightarrow> string \<times> 'w" where
  "replace_match g r body w =
     (case resolve_dynamic r (trim_space body) w of
        (Some value, w') \<Rightarrow> (value, w')
      | (None, w') \<Rightarrow>
          (case lookup r (trim_space body) of
             Some value \<Rightarrow> (format_template_value g value, w')
           | None \<Rightarrow> ([open_brace, open_brace] @ body @ [close_brace, close_brace], w')))"

function resolve_string :: "'a json_text_scheme \<Rightarrow> 'w resolver \<Rightarrow> string \<Rightarrow> 'w \<Rightarrow> string \<times> 'w" where
  "resolve_string g r [] w = ([], w)"
| "resolve_string g r (c # s) w =
     (case match_template (c # s) of
        Some (body, rest) \<Rightarrow>
          (let (text, w1) = replace_match g r body w; (more, w2) = resolve_string g r rest w1 in (text @ more, w2))
      | None \<Rightarrow> (let (more, w1) = resolve_string g r s w in (c # more, w1)))"
  by pat_completeness auto
termination
  by (relation "measure (\<lambda>(g, r, s, w). length s)") (auto dest: match_template_shorter)

declare resolve_string.simps(2) [simp del]

definition resolve_raw_variable :: "'w resolver \<Rightarrow> string \<Rightarrow> 'w \<Rightarrow> gval option \<times> 'w" where
  "resolve_raw_variable r value w =
     (case raw_variable value of
        None \<Rightarrow> (None, w)
      | Some match \<Rightarrow>
          (case resolve_dynamic r (trim_space match) w of
             (Some generated, w') \<Rightarrow> (Some (GStr generated), w')
           | (None, w') \<Rightarrow>
               (case lookup r (trim_space match) of
                  None \<Rightarrow> (Some (GStr value), w')
                | Some resolved \<Rightarrow> (Some resolved, w'))))"

fun resolve :: "'a json_text_scheme \<Rightarrow> 'w resolver \<Rightarrow> gval \<Rightarrow> 'w \<Rightarrow> gval \<times> 'w"
  and resolve_map :: "'a json_text_scheme \<Rightarrow> 'w resolver \<Rightarrow> (string \<times> gval) list \<Rightarrow> 'w \<Rightarrow> (string \<times> gval) list \<times> 'w"
  and resolve_slice :: "'a json_text_scheme \<Rightarrow> 'w resolver \<Rightarrow> gval list \<Rightarrow> 'w \<Rightarrow> gval list \<times> 'w" where
  "resolve g r (GStr s) w =
     (case resolve_raw_variable r s w of
        (Some resolved, w') \<Rightarrow> (resolved, w')
      | (None, w') \<Rightarrow> (let (text, w2) = resolve_string g r s w' in (GStr text, w2)))"
| "resolve g r (GMap kvs) w = (let (kvs', w') = resolve_map g r kvs w in (GMap kvs', w'))"
| "resolve g r (GList vs) w = (let (vs', w') = resolve_slice g r vs w in (GList vs', w'))"
| "resolve g r v w = (v, w)"
| "resolve_map g r [] w = ([], w)"
| "resolve_map g r ((key, val) # kvs) w =
     (let (v', w1) = resolve g r val w; (kvs', w2) = resolve_map g r kvs w1 in ((key, v') # kvs', w2))"
| "resolve_slice g r [] w = ([], w)"
| "resolve_slice g r (val # vs) w =
     (let (v', w1) = resolve g r val w; (vs', w2) = resolve_slice g r vs w1 in (v' # vs', w2))"

section \<open>The references a value declares\<close>

text \<open>
  \<open>templateVariablePattern\<close>: where a template is found the reference leaves out a third opening
  brace, and a third closing one is consumed. Dynamic variables are not declared.
\<close>

definition declared_name :: "string \<Rightarrow> string" where
  "declared_name body =
     (case body of
        c # t \<Rightarrow> if c = open_brace \<and> t \<noteq> [] then trim_space (captured t) else trim_space (captured body)
      | [] \<Rightarrow> [])"

definition skip_close :: "string \<Rightarrow> string" where
  "skip_close rest = (case rest of c # t \<Rightarrow> if c = close_brace then t else rest | [] \<Rightarrow> [])"

function text_references :: "string \<Rightarrow> string list" where
  "text_references [] = []"
| "text_references (c # s) =
     (case match_template (c # s) of
        Some (body, rest) \<Rightarrow>
          (if has_prefix (declared_name body) ''$'' then [] else [declared_name body])
            @ text_references (skip_close rest)
      | None \<Rightarrow> text_references s)"
  by pat_completeness auto
termination
  by (relation "measure length") (auto dest!: match_template_shorter simp: skip_close_def split: list.splits)

declare text_references.simps(2) [simp del]

fun value_references :: "gval \<Rightarrow> string list"
  and field_references :: "(string \<times> gval) list \<Rightarrow> string list"
  and element_references :: "gval list \<Rightarrow> string list" where
  "value_references (GStr s) = text_references s"
| "value_references (GMap kvs) = field_references kvs"
| "value_references (GTMap kvs) = (if string_container (GTMap kvs) then field_references kvs else [])"
| "value_references (GList vs) = element_references vs"
| "value_references v = []"
| "field_references [] = []"
| "field_references ((k, v) # kvs) = value_references v @ field_references kvs"
| "element_references [] = []"
| "element_references (v # vs) = value_references v @ element_references vs"

text \<open>\<open>ExtractTemplateVariables\<close> collects them in a map, so each is listed once; Go's order is arbitrary.\<close>

definition extract_template_variables :: "gval \<Rightarrow> string list" where
  "extract_template_variables data = remdups (value_references data)"

section \<open>References in assertion values\<close>

text \<open>
  \<open>spi.ExecutionContext\<close>: the inputs and flow inputs, the snapshot of the other nodes' outputs,
  the resolver of dynamic variables (the last two may be nil). \<open>'w\<close> is the world the calls of one
  execution read and change: the clock, the context's state, what nested flows do.
\<close>

record 'w execution_context =
  cx_inputs :: "(string \<times> gval) list"
  cx_flow_inputs :: "(string \<times> gval) list"
  cx_all_outputs :: "output_store option"
  cx_dynamic :: "'w dynamic_resolver option"

definition lookup_reference :: "('w, 'x) execution_context_scheme \<Rightarrow> string \<Rightarrow> gval option" where
  "lookup_reference cx ref =
     (case (split_n2 ref, cx_all_outputs cx) of
        ([nodeID, _], Some view) \<Rightarrow>
          if has_node view nodeID
          then lookup_path ref (\<lambda>key.
                 case split_n2 key of
                   [keyNode, outputKey] \<Rightarrow> if keyNode \<noteq> nodeID then None else view_get view nodeID outputKey
                 | _ \<Rightarrow> None)
          else lookup_path ref (map_of (cx_flow_inputs cx))
      | _ \<Rightarrow> lookup_path ref (map_of (cx_flow_inputs cx)))"

definition contains_dynamic_template :: "gval \<Rightarrow> bool" where
  "contains_dynamic_template v = (case v of GStr text \<Rightarrow> contains text ([open_brace, open_brace] @ ''$'') | _ \<Rightarrow> False)"

definition reference_values :: "('w, 'x) execution_context_scheme \<Rightarrow> string list \<Rightarrow> outputs" where
  "reference_values cx refs = (\<lambda>ref. if ref \<in> set refs then lookup_reference cx ref else None)"

fun resolve_assertion_templates ::
    "'a json_text_scheme \<Rightarrow> ('w, 'x) execution_context_scheme \<Rightarrow> 'rc assertion list \<Rightarrow> 'w \<Rightarrow> ('rc assertion list \<times> string list) \<times> 'w" where
  "resolve_assertion_templates g cx [] w = (([], []), w)"
| "resolve_assertion_templates g cx (a # as) w =
     (let refs = extract_template_variables (as_expected a);
          (a', missing, w1) =
            (if refs = [] \<and> \<not> contains_dynamic_template (as_expected a) then (a, [], w)
             else (let (expected, w1) =
                     resolve g \<lparr>variables = reference_values cx refs, dynamic = cx_dynamic cx\<rparr> (as_expected a) w
                   in (a\<lparr>as_expected := expected\<rparr>, filter (\<lambda>ref. lookup_reference cx ref = None) refs, w1)));
          ((as', unresolved), w2) = resolve_assertion_templates g cx as w1
      in ((a' # as', missing @ unresolved), w2))"

definition unresolved_references_error :: "string list \<Rightarrow> go_error" where
  "unresolved_references_error refs =
     assertion_failed (''assertion references '' @ [open_brace, open_brace] @ hd refs
       @ [close_brace, close_brace] @ '', which has no value'')"

definition resolve_assertions ::
    "'a json_text_scheme \<Rightarrow> ('w, 'x) execution_context_scheme \<Rightarrow> 'rc assertion list \<Rightarrow> 'w \<Rightarrow> ('rc assertion list \<times> go_error option) \<times> 'w" where
  "resolve_assertions g cx as w =
     (case resolve_assertion_templates g cx as w of
        ((resolved, unresolved), w') \<Rightarrow>
          ((resolved, if unresolved \<noteq> [] then Some (unresolved_references_error unresolved) else None), w'))"

definition assertion_references :: "'rc assertion list \<Rightarrow> string list" where
  "assertion_references as = extract_template_variables (GList (map as_expected as))"

section \<open>White space around a name\<close>

lemma pattern_space_ascii: "pattern_space c \<Longrightarrow> ascii_space c"
  by (auto simp: pattern_space_def ascii_space_def)

lemma trim_left_dropWhile: "trim_left (dropWhile pattern_space s) = trim_left s"
  by (induction s) (auto simp: pattern_space_ascii)

lemma ascii_not_multibyte: "ascii_space b \<Longrightarrow> \<not> space2 a b \<and> \<not> space3 a b c \<and> \<not> space3 a d b"
  by (auto simp: ascii_space_def space2_def space3_def Let_def)

lemma trim_left_all: "list_all ascii_space sp \<Longrightarrow> trim_left sp = []"
  by (induction sp) auto

lemma trim_left_append_space:
  "list_all ascii_space sp \<Longrightarrow>
   trim_left (s @ sp) = (if trim_left s = [] then [] else trim_left s @ sp)"
proof (induction s rule: trim_left.induct)
  case 1
  then show ?case by (induction sp) auto
next
  case (2 a s)
  show ?case
  proof (cases "ascii_space a")
    case True
    with 2 show ?thesis by simp
  next
    case False
    show ?thesis
    proof (cases s)
      case Nil
      show ?thesis
      proof (cases sp)
        case Nil
        then show ?thesis by simp
      next
        case (Cons x sp')
        then have "\<not> space2 a x" "\<not> space3 a x y" for y using "2.prems" ascii_not_multibyte [of x] by auto
        then show ?thesis using False \<open>s = []\<close> Cons by (cases sp') simp_all
      qed
    next
      case (Cons b s2)
      show ?thesis
      proof (cases s2)
        case Nil
        show ?thesis
        proof (cases sp)
          case Nil
          then show ?thesis by simp
        next
          case (Cons x sp')
          have "\<not> space3 a b x" using "2.prems" Cons ascii_not_multibyte [of x] by auto
          moreover have "trim_left (x # sp') = []" using "2.prems" Cons trim_left_all [of sp] by simp
          ultimately show ?thesis using False \<open>s = b # s2\<close> \<open>s2 = []\<close> Cons by simp
        qed
      next
        case (Cons c s3)
        note s2 = this
        show ?thesis
          using False \<open>s = b # s2\<close> s2 "2.IH"(2) [OF False \<open>s = b # s2\<close>]
            "2.IH"(3) [OF False \<open>s = b # s2\<close> _ s2] "2.prems"
          by simp
      qed
    qed
  qed
qed

lemma trim_left_rev_spaces: "list_all ascii_space sp \<Longrightarrow> trim_left_rev (sp @ s) = trim_left_rev s"
  by (induction sp) auto

lemma trim_space_append_space: "list_all ascii_space sp \<Longrightarrow> trim_space (s @ sp) = trim_space s"
  by (simp add: trim_space_def trim_left_append_space trim_left_rev_spaces)

lemma trim_space_spaces: "list_all ascii_space s \<Longrightarrow> trim_space s = []"
  using trim_space_append_space [of s "[]"] by (simp add: trim_space_def)

lemma trim_captured [simp]: "trim_space (captured body) = trim_space body"
proof (cases "list_all pattern_space body")
  case True
  then have "list_all ascii_space body" by (auto simp: list_all_iff pattern_space_ascii)
  moreover from this have "list_all ascii_space (drop (length body - 1) body)"
    by (auto simp: list_all_iff dest: in_set_dropD)
  ultimately show ?thesis using True by (simp add: captured_def trim_space_spaces)
next
  case False
  define t where "t = dropWhile pattern_space body"
  have split: "t = rev (dropWhile pattern_space (rev t)) @ rev (takeWhile pattern_space (rev t))"
    by (metis rev_append rev_rev_ident takeWhile_dropWhile_id)
  have "list_all ascii_space (rev (takeWhile pattern_space (rev t)))"
    by (auto simp: list_all_iff pattern_space_ascii dest: set_takeWhileD)
  then have "trim_space (rev (dropWhile pattern_space (rev t))) = trim_space t"
    by (metis split trim_space_append_space)
  moreover have "trim_space t = trim_space body" by (simp add: t_def trim_space_def trim_left_dropWhile)
  ultimately show ?thesis using False by (simp add: captured_def t_def)
qed

lemma declared_name_eq:
  "body \<noteq> [] \<Longrightarrow> declared_name body = (if hd body = open_brace \<and> tl body \<noteq> [] then trim_space (tl body) else trim_space body)"
  by (cases body) (auto simp: declared_name_def)

lemma trim_left_rev_keeps:
  "of_char c < (128 :: nat) \<Longrightarrow> \<not> ascii_space c \<Longrightarrow> \<exists>ys. trim_left_rev (s @ [c]) = ys @ [c]"
proof (induction s rule: trim_left_rev.induct)
  case 1
  then show ?case by simp
next
  case (2 a s)
  have none: "\<not> space2 c a" "\<not> space2 x c" "\<not> space3 c x a" "\<not> space3 x y c" for x y
    using "2.prems"(1) by (auto simp: space2_def space3_def Let_def)
  show ?case
  proof (cases "ascii_space a")
    case True
    with "2.IH"(1) "2.prems" show ?thesis by simp
  next
    case False
    show ?thesis
    proof (cases s)
      case Nil
      with False none show ?thesis by (auto intro: exI [of _ "[a]"])
    next
      case (Cons b s2)
      show ?thesis
      proof (cases s2)
        case Nil
        then show ?thesis using False Cons none "2.IH"(2) [OF False Cons] "2.prems" by auto
      next
        case (Cons d s3)
        then show ?thesis
          using False \<open>s = b # s2\<close> "2.IH"(2) [OF False \<open>s = b # s2\<close>]
            "2.IH"(3) [OF False \<open>s = b # s2\<close> _ Cons] "2.prems"
          by auto
      qed
    qed
  qed
qed

lemma trim_space_brace: "\<exists>ys. trim_space (open_brace # t) = open_brace # ys"
proof -
  have "trim_left (open_brace # t) = open_brace # t"
    by (cases t; cases "tl t") (auto simp: ascii_space_def space2_def space3_def Let_def)
  moreover obtain ys where "trim_left_rev (rev t @ [open_brace]) = ys @ [open_brace]"
    using trim_left_rev_keeps [of open_brace "rev t"] by (auto simp: ascii_space_def)
  ultimately have "trim_space (open_brace # t) = open_brace # rev ys"
    by (simp add: trim_space_def del: trim_left.simps)
  then show ?thesis ..
qed

section \<open>What a resolution reads\<close>

text \<open>
  Variable names that no template can be mistaken for: none starts with an opening brace or a
  dollar sign.
\<close>

definition plain_names :: "outputs \<Rightarrow> bool" where
  "plain_names vars \<longleftrightarrow> (\<forall>k. vars (open_brace # k) = None \<and> vars (CHR ''$'' # k) = None)"

lemma lookup_marked:
  assumes "plain_names vars" and "c = open_brace \<or> c = CHR ''$''"
  shows "lookup_path (c # ref) vars = None"
proof (rule refs.unknown)
  show "vars (c # ref) = None" using assms by (auto simp: plain_names_def)
  fix q assume "dotted_prefix q (c # ref)"
  then obtain q' where "q = c # q'" by (auto simp: dotted_prefix_def Cons_eq_append_conv)
  then show "vars q = None" using assms by (auto simp: plain_names_def)
qed

definition agree_on :: "string list \<Rightarrow> outputs \<Rightarrow> outputs \<Rightarrow> bool" where
  "agree_on refs v1 v2 \<longleftrightarrow> (\<forall>ref\<in>set refs. lookup_path ref v1 = lookup_path ref v2)"

lemma agree_on_append [simp]: "agree_on (xs @ ys) v1 v2 \<longleftrightarrow> agree_on xs v1 v2 \<and> agree_on ys v1 v2"
  by (auto simp: agree_on_def)

lemma agree_on_Nil [simp]: "agree_on [] v1 v2" by (simp add: agree_on_def)

lemma name_agrees:
  assumes plain: "plain_names v1" "plain_names v2" and body: "body \<noteq> []"
    and agree: "\<not> has_prefix (declared_name body) ''$'' \<Longrightarrow> lookup_path (declared_name body) v1 = lookup_path (declared_name body) v2"
  shows "lookup_path (trim_space body) v1 = lookup_path (trim_space body) v2"
proof (cases "hd body = open_brace")
  case True
  with body have "body = open_brace # tl body" by (cases body) auto
  then obtain ys where "trim_space body = open_brace # ys" using trim_space_brace by metis
  then show ?thesis using lookup_marked plain by simp
next
  case False
  with body have name: "declared_name body = trim_space body" by (simp add: declared_name_eq)
  show ?thesis
  proof (cases "has_prefix (trim_space body) ''$''")
    case True
    then obtain ys where "trim_space body = CHR ''$'' # ys" by (auto simp: has_prefix_iff)
    then show ?thesis using lookup_marked plain by simp
  next
    case False
    with agree name show ?thesis by simp
  qed
qed

lemma resolve_dynamic_variables [simp]: "resolve_dynamic (r\<lparr>variables := v\<rparr>) = resolve_dynamic r"
  by (simp add: resolve_dynamic_def fun_eq_iff)

lemma lookup_variables [simp]: "lookup (r\<lparr>variables := v\<rparr>) name = lookup_path name v"
  by (simp add: lookup_def)

lemma replace_match_cong:
  assumes "plain_names (variables r)" "plain_names v" "body \<noteq> []"
    and "\<not> has_prefix (declared_name body) ''$'' \<Longrightarrow>
      lookup_path (declared_name body) (variables r) = lookup_path (declared_name body) v"
  shows "replace_match g (r\<lparr>variables := v\<rparr>) body w = replace_match g r body w"
  using name_agrees [OF assms] by (simp add: replace_match_def lookup_def split: prod.split option.split)

lemma no_template_at_close [simp]: "match_template (close_brace # s) = None"
  by (simp add: match_template_def)

lemma references_skip_close [simp]: "text_references (skip_close rest) = text_references rest"
  by (cases rest) (simp_all add: skip_close_def text_references.simps(2))

lemma resolve_string_cong:
  assumes plain: "plain_names (variables r)" "plain_names v"
  shows "agree_on (text_references s) (variables r) v \<Longrightarrow> resolve_string g (r\<lparr>variables := v\<rparr>) s w = resolve_string g r s w"
proof (induction s arbitrary: w rule: length_induct)
  case (1 s)
  show ?case
  proof (cases s)
    case Nil
    then show ?thesis by simp
  next
    case (Cons c t)
    show ?thesis
    proof (cases "match_template s")
      case None
      then show ?thesis
        using 1 Cons by (simp add: resolve_string.simps(2) text_references.simps(2))
    next
      case (Some m)
      obtain body rest where m: "m = (body, rest)" by (cases m)
      with Some have shape: "body \<noteq> []" "length rest < length s"
        by (auto simp: match_template_shape dest: match_template_shorter)
      from "1.prems" Some m Cons have agree: "agree_on (text_references rest) (variables r) v"
        "\<not> has_prefix (declared_name body) ''$'' \<Longrightarrow>
          lookup_path (declared_name body) (variables r) = lookup_path (declared_name body) v"
        by (simp_all add: text_references.simps(2)) (simp add: agree_on_def)
      have "resolve_string g (r\<lparr>variables := v\<rparr>) rest w' = resolve_string g r rest w'" for w'
        using "1.IH" shape(2) agree(1) by blast
      moreover have "replace_match g (r\<lparr>variables := v\<rparr>) body w = replace_match g r body w"
        using replace_match_cong [OF plain shape(1) agree(2)] by blast
      ultimately show ?thesis
        using Some m Cons by (simp add: resolve_string.simps(2))
    qed
  qed
qed

lemma trim_left_split: "\<exists>pre. s = pre @ trim_left s \<and> open_brace \<notin> set pre"
proof (induction s rule: trim_left.induct)
  case 1
  then show ?case by simp
next
  case (2 a s)
  show ?case
  proof (cases "ascii_space a")
    case True
    with "2.IH"(1) obtain pre where "s = pre @ trim_left s" "open_brace \<notin> set pre" by blast
    with True show ?thesis by (intro exI [of _ "a # pre"]) (auto simp: ascii_space_def)
  next
    case False
    consider (two) b s2 where "s = b # s2" "space2 a b"
      | (three) b c s3 where "s = b # c # s3" "\<not> space2 a b" "space3 a b c"
      | (none) "trim_left (a # s) = a # s"
      using False
      by (cases s; cases "tl s"; cases "space2 a (hd s)"; cases "space3 a (hd s) (hd (tl s))") auto
    then show ?thesis
    proof cases
      case two
      then obtain pre where "s2 = pre @ trim_left s2" "open_brace \<notin> set pre" using "2.IH"(2) False by blast
      with two False show ?thesis by (intro exI [of _ "a # b # pre"]) (auto simp: space2_def)
    next
      case three
      then obtain pre where "s3 = pre @ trim_left s3" "open_brace \<notin> set pre" using "2.IH"(3) False by blast
      with three False show ?thesis
        by (intro exI [of _ "a # b # c # pre"]) (auto simp: space3_def Let_def)
    next
      case none
      then show ?thesis by (intro exI [of _ "[]"]) simp
    qed
  qed
qed

lemma trim_left_rev_split: "\<exists>pre. s = pre @ trim_left_rev s"
proof (induction s rule: trim_left_rev.induct)
  case 1
  then show ?case by simp
next
  case (2 a s)
  show ?case
  proof (cases "ascii_space a")
    case True
    with "2.IH"(1) show ?thesis by (metis append_Cons trim_left_rev.simps(2))
  next
    case False
    consider (two) b s2 where "s = b # s2" "space2 b a"
      | (three) b c s3 where "s = b # c # s3" "\<not> space2 b a" "space3 c b a"
      | (none) "trim_left_rev (a # s) = a # s"
      using False
      by (cases s; cases "tl s"; cases "space2 (hd s) a"; cases "space3 (hd (tl s)) (hd s) a") auto
    then show ?thesis
    proof cases
      case two
      then obtain pre where "s2 = pre @ trim_left_rev s2" using "2.IH"(2) False by blast
      with two False show ?thesis by (intro exI [of _ "a # b # pre"]) auto
    next
      case three
      then obtain pre where "s3 = pre @ trim_left_rev s3" using "2.IH"(3) False by blast
      with three False show ?thesis by (intro exI [of _ "a # b # c # pre"]) auto
    next
      case none
      then show ?thesis by (intro exI [of _ "[]"]) simp
    qed
  qed
qed

lemma trim_space_split: "\<exists>pre post. s = pre @ trim_space s @ post \<and> open_brace \<notin> set pre"
proof -
  obtain pre where pre: "s = pre @ trim_left s" "open_brace \<notin> set pre" using trim_left_split by blast
  obtain post where "rev (trim_left s) = post @ trim_left_rev (rev (trim_left s))" using trim_left_rev_split by blast
  then have "trim_left s = trim_space s @ rev post"
    unfolding trim_space_def by (metis rev_append rev_rev_ident)
  with pre show ?thesis by metis
qed

lemma references_plain_prefix:
  "open_brace \<notin> set pre \<Longrightarrow> text_references (pre @ s) = text_references s"
  by (induction pre) (auto simp: text_references.simps(2) match_template_def)

lemma raw_variable_shape:
  assumes "raw_variable s = Some m"
  obtains b where "trim_space s = replicate 3 open_brace @ b @ replicate 3 close_brace" "b \<noteq> []"
    "open_brace \<notin> set b" "close_brace \<notin> set b" "m = captured b"
proof -
  obtain t b where t: "strip_prefix (replicate 3 open_brace) (trim_space s) = Some t"
    and b: "strip_prefix (rev (replicate 3 close_brace)) (rev t) = Some b"
    and ok: "b \<noteq> []" "open_brace \<notin> set b" "close_brace \<notin> set b" "m = captured (rev b)"
    using assms by (auto simp: raw_variable_def enclosed_def split: option.splits if_splits)
  have "rev t = rev (replicate 3 close_brace) @ b" using b by (simp only: strip_prefix_iff)
  then have "t = rev b @ replicate 3 close_brace" by (metis rev_append rev_rev_ident)
  with t have "trim_space s = replicate 3 open_brace @ rev b @ replicate 3 close_brace"
    by (simp only: strip_prefix_iff)
  with ok that [of "rev b"] show thesis by simp
qed

lemma raw_variable_declared:
  assumes "raw_variable s = Some m" and "\<not> has_prefix (trim_space m) ''$''"
  shows "trim_space m \<in> set (text_references s)"
proof -
  obtain b where b: "trim_space s = replicate 3 open_brace @ b @ replicate 3 close_brace" "b \<noteq> []"
    "open_brace \<notin> set b" "close_brace \<notin> set b" "m = captured b"
    by (rule raw_variable_shape [OF assms(1)])
  obtain pre post where s: "s = pre @ trim_space s @ post" "open_brace \<notin> set pre" using trim_space_split by blast
  have whole: "trim_space s @ post =
      open_brace # open_brace # (open_brace # b) @ close_brace # close_brace # close_brace # post"
    using b by (simp add: numeral_3_eq_3)
  then have "match_template (trim_space s @ post) = Some (open_brace # b, close_brace # post)"
    unfolding match_template_shape using b(4) by simp
  moreover have "declared_name (open_brace # b) = trim_space m" using b(2,5) by (simp add: declared_name_eq)
  ultimately have "trim_space m \<in> set (text_references (trim_space s @ post))"
    unfolding whole using assms(2) by (simp add: text_references.simps(2))
  then show ?thesis using s references_plain_prefix by metis
qed

lemma resolve_raw_cong:
  assumes plain: "plain_names (variables r)" "plain_names v"
    and agree: "agree_on (text_references s) (variables r) v"
  shows "resolve_raw_variable (r\<lparr>variables := v\<rparr>) s w = resolve_raw_variable r s w"
proof (cases "raw_variable s")
  case None
  then show ?thesis by (simp add: resolve_raw_variable_def)
next
  case (Some m)
  have "lookup_path (trim_space m) (variables r) = lookup_path (trim_space m) v"
  proof (cases "has_prefix (trim_space m) ''$''")
    case True
    then obtain ys where "trim_space m = CHR ''$'' # ys" by (auto simp: has_prefix_iff)
    then show ?thesis using lookup_marked plain by simp
  next
    case False
    with raw_variable_declared [OF Some] agree show ?thesis by (simp add: agree_on_def)
  qed
  with Some show ?thesis by (simp add: resolve_raw_variable_def lookup_def split: prod.split option.split)
qed

lemma resolve_cong:
  "plain_names (variables r) \<Longrightarrow> plain_names v \<Longrightarrow> agree_on (value_references val) (variables r) v \<Longrightarrow>
   resolve g (r\<lparr>variables := v\<rparr>) val w = resolve g r val w"
  "plain_names (variables r) \<Longrightarrow> plain_names v \<Longrightarrow> agree_on (field_references kvs) (variables r) v \<Longrightarrow>
   resolve_map g (r\<lparr>variables := v\<rparr>) kvs w = resolve_map g r kvs w"
  "plain_names (variables r) \<Longrightarrow> plain_names v \<Longrightarrow> agree_on (element_references vals) (variables r) v \<Longrightarrow>
   resolve_slice g (r\<lparr>variables := v\<rparr>) vals w = resolve_slice g r vals w"
  by (induction g r val w and g r kvs w and g r vals w rule: resolve_resolve_map_resolve_slice.induct)
    (simp_all add: resolve_raw_cong resolve_string_cong Let_def cong: prod.case_cong option.case_cong split: prod.split)

section \<open>Laws of the resolution\<close>

lemma templates_in_text:
  assumes "body \<noteq> []" and "close_brace \<notin> set body" and "open_brace \<notin> set pre"
  shows "resolve_string g r (pre @ open_brace # open_brace # body @ close_brace # close_brace # rest) w =
    (let (text, w1) = replace_match g r body w; (more, w2) = resolve_string g r rest w1 in (pre @ text @ more, w2))"
  using assms(3)
proof (induction pre)
  case Nil
  have "match_template (open_brace # open_brace # body @ close_brace # close_brace # rest) = Some (body, rest)"
    using assms(1,2) by (simp add: match_template_shape)
  then show ?case by (simp add: resolve_string.simps(2))
next
  case (Cons c pre)
  then have "match_template (c # pre @ open_brace # open_brace # body @ close_brace # close_brace # rest) = None"
    by (auto simp: match_template_def)
  with Cons show ?case by (simp add: resolve_string.simps(2) split: prod.split)
qed

lemma text_without_templates: "open_brace \<notin> set s \<Longrightarrow> resolve_string g r s w = (s, w)"
  by (induction s) (auto simp: resolve_string.simps(2) match_template_def)

lemma assembled_input:
  "ref \<in> set (n_input_schema (node_at e i)) \<Longrightarrow> assemble_inputs e i view ref = Some (assembled_value view ref)"
proof -
  have "fold (\<lambda>k m. m(k \<mapsto> assembled_value view k)) keys m ref =
      (if ref \<in> set keys then Some (assembled_value view ref) else m ref)" for keys m
    by (induction keys arbitrary: m) auto
  then show "ref \<in> set (n_input_schema (node_at e i)) \<Longrightarrow> ?thesis" by (simp add: assemble_inputs_def)
qed

lemma validated_input:
  "first_input_error nodeID view keys = None \<Longrightarrow> ref \<in> set keys \<Longrightarrow>
   \<exists>n k v. resolve_data_ref ref view = Inr (n, k) \<and> lookup_output view n k = Some v \<and> assembled_value view ref = v"
  by (induction keys) (auto simp: assembled_value_def split: sum.splits prod.splits if_splits option.splits)

lemma resolve_dynamic_plain: "\<not> has_prefix name ''$'' \<Longrightarrow> resolve_dynamic r name w = (None, w)"
  by (simp add: resolve_dynamic_def split: option.split)

lemma lookup_under_node:
  assumes n: "dot \<notin> set n" and empty: "get [] = None"
    and G: "\<And>k. G (n @ dot # k) = get k" "\<And>p. dot \<notin> set p \<Longrightarrow> G p = None"
  shows "lookup_path (n @ dot # key) G = lookup_path key get"
proof -
  have pre: "G q = None \<or> (\<exists>q'. q = n @ dot # q' \<and> dotted_prefix q' key)" if dp: "dotted_prefix q (n @ dot # key)" for q
  proof (cases "dot \<in> set q")
    case True
    from dp obtain r where r: "n @ dot # key = q @ dot # r" by (auto simp: dotted_prefix_def)
    then obtain q' where q: "q = n @ dot # q'" "key = q' @ dot # r"
      using True n by (auto simp: append_eq_append_conv2 Cons_eq_append_conv append_eq_Cons_conv)
    show ?thesis
    proof (cases "q' = []")
      case True
      with q G(1) [of "[]"] empty show ?thesis by simp
    next
      case False
      with q show ?thesis by (auto simp: dotted_prefix_def)
    qed
  qed (simp add: G(2))
  have up: "dotted_prefix (n @ dot # q) (n @ dot # key)" if "dotted_prefix q key" for q
    using that by (auto simp: dotted_prefix_def)
  show ?thesis
  proof (cases "get key")
    case (Some v)
    then show ?thesis using refs.exact [of G "n @ dot # key" v] refs.exact [of get key v] G(1) by simp
  next
    case None
    show ?thesis
    proof (cases "\<exists>q. dotted_prefix q key \<and> get q \<noteq> None")
      case True
      then obtain m v where m: "dotted_prefix m key" "get m = Some v"
        and max: "\<And>q. dotted_prefix q key \<Longrightarrow> length m < length q \<Longrightarrow> get q = None"
        using refs.longest_known_prefix [of _ key get] by metis
      have "lookup_path (n @ dot # key) G = walk_path v (split_at dot (drop (Suc (length (n @ dot # m))) (n @ dot # key)))"
        using None m up pre max G(1) by (intro refs.longest) fastforce+
      moreover have "lookup_path key get = walk_path v (split_at dot (drop (Suc (length m)) key))"
        using None m max by (rule refs.longest)
      ultimately show ?thesis by simp
    next
      case False
      then have "lookup_path key get = None" using None by (intro refs.unknown) auto
      moreover have "lookup_path (n @ dot # key) G = None"
        using None False pre G(1) by (intro refs.unknown) fastforce+
      ultimately show ?thesis by simp
    qed
  qed
qed

section \<open>Properties\<close>

text \<open>
  What a resolution reads: the value resolved for any piece of node data depends only on the
  references the data declares, which are the inputs the engine assembles for it; two sets of
  variables that agree on those give the same result, whatever else they hold, provided no
  variable name starts with a brace or a dollar sign.
\<close>

theorem resolution_reads_declared_references:
  assumes plain: "plain_names (variables r)" "plain_names vars"
    and agree: "\<forall>ref\<in>set (extract_template_variables data). lookup r ref = lookup_path ref vars"
  shows "resolve g (r\<lparr>variables := vars\<rparr>) data w = resolve g r data w"
  using resolve_cong(1) [OF plain] agree by (simp add: agree_on_def extract_template_variables_def lookup_def)

definition demo_json :: json_text where
  "demo_json = \<lparr>format_float = (\<lambda>x. ''1.5''), float_v = (\<lambda>x. ''1.5''), parse_float = (\<lambda>s. Inl (PlainError s)),
     match_string = (\<lambda>p s. Inr False), encode_json = (\<lambda>v. Inr ''{}''), marshal_json = (\<lambda>v. Inr ''{}'')\<rparr>"

definition demo_resolver :: "(string \<times> gval) list \<Rightarrow> nat resolver" where
  "demo_resolver vars = \<lparr>variables = map_of vars, dynamic = Some (\<lambda>name args n. (Inr (nat_text n), Suc n))\<rparr>"

abbreviation braced :: "string \<Rightarrow> string" where
  "braced s \<equiv> [open_brace, open_brace] @ s @ [close_brace, close_brace]"

definition demo_data :: gval where
  "demo_data = GMap [(''url'', GStr (''/u/'' @ braced ''user.id'' @ ''?n='' @ braced ''$int'')),
     (''tags'', GList [GStr ([open_brace] @ braced '' user.tags '' @ [close_brace]), GStr (braced ''missing'')])]"

definition demo_variables :: "(string \<times> gval) list" where
  "demo_variables = [(''user.id'', GInt 7), (''user.tags'', GList [GBool True])]"

lemma plain_map_of:
  "list_all (\<lambda>kv. fst kv = [] \<or> hd (fst kv) \<noteq> open_brace \<and> hd (fst kv) \<noteq> CHR ''$'') kvs \<Longrightarrow> plain_names (map_of kvs)"
  by (induction kvs) (auto simp: plain_names_def split: list.splits)

lemma demo_data_resolved:
  "resolve demo_json (demo_resolver demo_variables) demo_data 3 =
    (GMap [(''url'', GStr ''/u/7?n=3''), (''tags'', GList [GList [GBool True], GStr (braced ''missing'')])], 4)"
  by code_simp

theorem resolution_reads_declared_references_witness:
  "resolve demo_json (demo_resolver ((''other'', GNil) # demo_variables)) demo_data 3 =
    (GMap [(''url'', GStr ''/u/7?n=3''), (''tags'', GList [GList [GBool True], GStr (braced ''missing'')])], 4)"
proof -
  have "plain_names (variables (demo_resolver demo_variables))"
    unfolding demo_resolver_def demo_variables_def resolver.simps by (rule plain_map_of) simp
  moreover have "plain_names (map_of ((''other'', GNil) # demo_variables))"
    unfolding demo_variables_def by (rule plain_map_of) simp
  moreover have "\<forall>ref\<in>set (extract_template_variables demo_data).
      lookup (demo_resolver demo_variables) ref = lookup_path ref (map_of ((''other'', GNil) # demo_variables))"
    by code_simp
  ultimately have "resolve demo_json ((demo_resolver demo_variables)
      \<lparr>variables := map_of ((''other'', GNil) # demo_variables)\<rparr>) demo_data 3 =
      resolve demo_json (demo_resolver demo_variables) demo_data 3"
    by (rule resolution_reads_declared_references)
  then show ?thesis by (simp add: demo_data_resolved) (simp add: demo_resolver_def)
qed

text \<open>
  Claim C22. Inputs that validated resolve: when the engine has validated a node's inputs against a
  snapshot, every reference the node declares resolves, from the inputs assembled for it, to the
  very value the snapshot holds: as a whole value with its type kept, and inside a text formatted.
\<close>

theorem validated_references_resolve:
  assumes ok: "validate_inputs e i view = None" and ref: "ref \<in> set (n_input_schema (node_at e i))"
    and vars: "variables r = assemble_inputs e i view" and static: "\<not> has_prefix ref ''$''"
  shows "\<exists>n k v. resolve_data_ref ref view = Inr (n, k) \<and> lookup_output view n k = Some v \<and>
     (\<forall>s m. raw_variable s = Some m \<and> trim_space m = ref \<longrightarrow> resolve g r (GStr s) w = (v, w)) \<and>
     (\<forall>body. trim_space body = ref \<longrightarrow> replace_match g r body w = (format_template_value g v, w))"
proof -
  from ok have "first_input_error (node_id e i) view (n_input_schema (node_at e i)) = None"
    by (simp add: validate_inputs_def)
  from validated_input [OF this ref] obtain n k v where v: "resolve_data_ref ref view = Inr (n, k)"
    "lookup_output view n k = Some v" "assembled_value view ref = v" by blast
  then have found: "lookup r ref = Some v"
    by (simp add: lookup_def refs.exact vars assembled_input [OF ref])
  show ?thesis
    using v(1,2) found static
    by (intro exI [of _ n] exI [of _ k] exI [of _ v])
      (auto simp: resolve_raw_variable_def replace_match_def resolve_dynamic_plain)
qed

theorem validated_references_resolve_witness:
  "\<exists>n k v. resolve_data_ref ''a.id'' [''a'' \<mapsto> [''id'' \<mapsto> GInt 7]] = Inr (n, k) \<and>
     lookup_output [''a'' \<mapsto> [''id'' \<mapsto> GInt 7]] n k = Some v \<and>
     (\<forall>s m. raw_variable s = Some m \<and> trim_space m = ''a.id'' \<longrightarrow>
        resolve demo_json \<lparr>variables = [''a.id'' \<mapsto> GInt 7], dynamic = None\<rparr> (GStr s) (0::nat) = (v, 0)) \<and>
     (\<forall>body. trim_space body = ''a.id'' \<longrightarrow>
        replace_match demo_json \<lparr>variables = [''a.id'' \<mapsto> GInt 7], dynamic = None\<rparr> body (0::nat) = (format_template_value demo_json v, 0))"
proof (rule validated_references_resolve [where e = "built cleanup_flow" and i = 1])
  show "validate_inputs (built cleanup_flow) 1 [''a'' \<mapsto> [''id'' \<mapsto> GInt 7]] = None" by code_simp
  show "''a.id'' \<in> set (n_input_schema (node_at (built cleanup_flow) 1))" by code_simp
  have schema: "n_input_schema (node_at (built cleanup_flow) 1) = [''a.id'']" by code_simp
  moreover have "assembled_value [''a'' \<mapsto> [''id'' \<mapsto> GInt 7]] ''a.id'' = GInt 7" by code_simp
  ultimately show "variables \<lparr>variables = [''a.id'' \<mapsto> GInt 7], dynamic = None\<rparr> =
      assemble_inputs (built cleanup_flow) 1 [''a'' \<mapsto> [''id'' \<mapsto> GInt 7]]"
    by (simp add: assemble_inputs_def)
qed simp

text \<open>
  References in assertion values are read by the rules of node inputs: for a snapshot that holds
  the flow inputs, as the engine's does, and in which no output has an empty name, the lookup
  that assertion and webhook values use finds what the engine's input assembly finds.
\<close>

theorem assertion_references_read_like_inputs:
  assumes view: "cx_all_outputs cx = Some view" and inputs: "view [] = Some (map_of (cx_flow_inputs cx))"
    and named: "\<And>n outs. view n = Some outs \<Longrightarrow> outs [] = None"
  shows "lookup_reference cx ref =
     (case resolve_data_ref ref view of
        Inl err \<Rightarrow> None
      | Inr (n, k) \<Rightarrow> if has_node view n then lookup_output view n k else None)"
proof -
  have flow: "view_get view [] = map_of (cx_flow_inputs cx)" "has_node view []"
    by (auto simp: view_get_def has_node_def inputs)
  show ?thesis
  proof (cases "dot \<in> set ref")
    case False
    then have "split_n2 ref = [ref]" by (simp add: split_n2_def)
    with flow show ?thesis
      by (simp add: lookup_reference_def view resolve_data_ref_def parse_data_ref_def lookup_output_def)
  next
    case True
    define n where "n = takeWhile (\<lambda>c. c \<noteq> dot) ref"
    define k where "k = drop (Suc (length n)) ref"
    have split: "split_n2 ref = [n, k]" using True by (simp add: split_n2_def n_def k_def)
    have nodot: "dot \<notin> set n" by (auto simp: n_def dest: set_takeWhileD)
    have ref: "ref = n @ dot # k"
    proof -
      from True obtain p r where pr: "ref = p @ dot # r" "dot \<notin> set p" by (blast dest: split_list_first)
      then have "n = p" unfolding n_def by (subst pr(1), subst takeWhile_append2) auto
      with pr(1) show ?thesis by (simp add: k_def)
    qed
    let ?G = "\<lambda>key. case split_n2 key of
        [keyNode, outputKey] \<Rightarrow> if keyNode \<noteq> n then None else view_get view n outputKey | _ \<Rightarrow> None"
    have parse: "parse_data_ref ref = Inr (n, k)" by (simp add: parse_data_ref_def split)
    show ?thesis
    proof (cases "has_node view n")
      case has: True
      have first: "takeWhile (\<lambda>c. c \<noteq> dot) (n @ dot # key) = n" for key
        using nodot by (subst takeWhile_append2) auto
      have "lookup_path (n @ dot # k) ?G = lookup_path k (view_get view n)"
      proof (rule lookup_under_node [OF nodot])
        show "view_get view n [] = None" using named [of n] by (simp add: view_get_def split: option.split)
        show "?G (n @ dot # key) = view_get view n key" for key by (simp add: split_n2_def first)
        show "?G p = None" if "dot \<notin> set p" for p using that by (simp add: split_n2_def)
      qed
      then show ?thesis
        using has split parse ref by (simp add: lookup_reference_def view resolve_data_ref_def lookup_output_def)
    next
      case absent: False
      with flow(2) have "n \<noteq> []" by auto
      have found: "has_flow_input_root ref (\<lambda>key. view_get view [] key \<noteq> None) \<longleftrightarrow>
          map_of (cx_flow_inputs cx) ref \<noteq> None \<or> (\<exists>p. dotted_prefix p ref \<and> map_of (cx_flow_inputs cx) p \<noteq> None)"
        by (simp add: has_flow_input_root_iff flow)
      show ?thesis
      proof (cases "has_flow_input_root ref (\<lambda>key. view_get view [] key \<noteq> None)")
        case True
        then show ?thesis
          using absent split parse \<open>n \<noteq> []\<close> flow
          by (simp add: lookup_reference_def view resolve_data_ref_def lookup_output_def)
      next
        case False
        then have "lookup_path ref (map_of (cx_flow_inputs cx)) = None"
          using refs.look_found [of ref "map_of (cx_flow_inputs cx)"] unfolding found by (metis option.exhaust)
        with False show ?thesis
          using absent split parse \<open>n \<noteq> []\<close>
          by (simp add: lookup_reference_def view resolve_data_ref_def)
      qed
    qed
  qed
qed

definition demo_context :: "unit execution_context" where
  "demo_context = \<lparr>cx_inputs = [], cx_flow_inputs = [(''acct.x'', GInt 1)],
     cx_all_outputs = Some [[] \<mapsto> [''acct.x'' \<mapsto> GInt 1], ''a'' \<mapsto> [''id'' \<mapsto> GInt 7]], cx_dynamic = None\<rparr>"

theorem assertion_references_read_like_inputs_witness:
  "map (lookup_reference demo_context) [''a.id'', ''acct.x'', ''a.x''] = [Some (GInt 7), Some (GInt 1), None]"
proof -
  let ?view = "[[] \<mapsto> [''acct.x'' \<mapsto> GInt 1], ''a'' \<mapsto> [''id'' \<mapsto> GInt 7]]"
  have "lookup_reference demo_context ref =
     (case resolve_data_ref ref ?view of
        Inl err \<Rightarrow> None
      | Inr (n, k) \<Rightarrow> if has_node ?view n then lookup_output ?view n k else None)" for ref
    by (rule assertion_references_read_like_inputs) (auto simp: demo_context_def split: if_splits)
  then show ?thesis by (simp only: list.map) code_simp
qed

end
