(* ===== verification/Nodes.thy ===== *)
theory Nodes
  imports Templates "HOL-Library.AList"
begin

text \<open>
  What the node kinds that make no HTTP call do (\<open>pkg/node/branch_node.go\<close>, \<open>loop_node.go\<close>,
  \<open>poll_node.go\<close>, \<open>set_variable_node.go\<close>, \<open>assert_node.go\<close>, \<open>delay_node.go\<close>), with the context their
  assertions are evaluated against (\<open>pkg/extractors/value_context.go\<close>) and the result of a failed
  node (\<open>failure_result.go\<close>). The execution context carries, beside what templates read, what a
  node asks the world: the state of Go's \<open>context.Context\<close>, deadlines, waiting, and the execution
  of a nested flow; the world is threaded through a node's \<open>Execute\<close>. A Go map that is only built
  and read is an association list. Durations, timestamps and logging are left out.
\<close>

section \<open>Contexts and results\<close>

text \<open>\<open>valueResponseContext\<close>: a value with its JSON text, absent when it cannot be marshalled.\<close>

record value_context =
  vc_value :: gval
  vc_raw_body :: "string option"

definition new_value_response_context :: "'a json_text_scheme \<Rightarrow> gval \<Rightarrow> value_context" where
  "new_value_response_context g v =
     \<lparr>vc_value = v, vc_raw_body = (case marshal_json g v of Inl e \<Rightarrow> None | Inr raw \<Rightarrow> Some raw)\<rparr>"

definition has_capability :: "value_context \<Rightarrow> string \<Rightarrow> bool" where
  "has_capability rc capability =
     (if capability = ''body'' then vc_raw_body rc \<noteq> None else capability = ''parsed_body'')"

text \<open>
  \<open>ModuleExecutionRequest\<close>; \<open>mr_ctx\<close> is the error state of its context, when it has one. The
  executor returns an error, with the child's final outputs when there is a result, or a result,
  which may be nil.
\<close>

record 'w module_request =
  mr_flow_id :: string
  mr_definition :: string
  mr_inputs :: "(string \<times> gval) list"
  mr_ctx :: "('w \<Rightarrow> go_error option) option"

type_synonym child_outputs = "(string \<times> gval) list option"

record 'w node_context = "'w execution_context" +
  cx_err :: "'w \<Rightarrow> go_error option"
  cx_with_timeout :: "int \<Rightarrow> 'w \<Rightarrow> 'w \<Rightarrow> go_error option"
  cx_sleep :: "('w \<Rightarrow> go_error option) \<Rightarrow> int \<Rightarrow> 'w \<Rightarrow> bool \<times> 'w"
  cx_module_executor :: "('w module_request \<Rightarrow> 'w \<Rightarrow> (go_error \<times> child_outputs + child_outputs) \<times> 'w) option"

text \<open>The fields of \<open>BaseNode\<close> a node's \<open>Execute\<close> reads.\<close>

record base_node =
  bn_id :: string
  bn_display_name :: string
  bn_assertions :: "value_context assertion list"
  bn_outputs :: "value_context node_output list"

definition base_result :: "base_node \<Rightarrow> kind \<Rightarrow> outputs \<Rightarrow> outputs \<Rightarrow> asserted_result" where
  "base_result n k inputs outs =
     \<lparr>r_node_id = bn_id n, r_display_name = bn_display_name n, r_node_type = k, r_run_when = [],
      r_inputs = inputs, r_outputs = outs, r_error = None, r_error_code = None, r_error_msg = None,
      r_skip_reason = None, r_missing_inputs = [], r_routed = None, r_assertion_results = []\<rparr>"

text \<open>\<open>failedNodeBase\<close>: the call limit's own code and message replace the node kind's.\<close>

definition failed_node_base :: "base_node \<Rightarrow> outputs \<Rightarrow> go_error \<Rightarrow> kind \<Rightarrow> string \<Rightarrow> string \<Rightarrow> asserted_result" where
  "failed_node_base n inputs err k code msg =
     (let (code, msg) =
            (case as_user_error err of
               Some (ucode, umsg) \<Rightarrow> if ucode = ''HTTP_CALL_LIMIT_EXCEEDED'' then (ucode, umsg) else (code, msg)
             | None \<Rightarrow> (code, msg))
      in (base_result n k inputs Map.empty)\<lparr>r_error := Some err, r_error_msg := Some msg, r_error_code := Some code\<rparr>)"

definition node_resolver :: "('w, 'x) execution_context_scheme \<Rightarrow> 'w resolver" where
  "node_resolver cx = \<lparr>variables = map_of (cx_inputs cx), dynamic = cx_dynamic cx\<rparr>"

section \<open>Branch\<close>

record branch_case =
  bc_when :: "value_context assertion"
  bc_target :: string

record branch_data =
  bd_target :: gval
  bd_cases :: "branch_case list"
  bd_default :: string

definition branch_target ::
    "'a json_text_scheme \<Rightarrow> branch_data \<Rightarrow> ('w, 'x) execution_context_scheme \<Rightarrow> 'w \<Rightarrow> gval \<times> 'w" where
  "branch_target g d cx w =
     (if bd_target d = GNil then (GMap (cx_inputs cx), w) else resolve g (node_resolver cx) (bd_target d) w)"

fun choose_case ::
    "(string \<rightharpoonup> comparator) \<Rightarrow> value_context \<Rightarrow> nat \<Rightarrow> branch_case list \<Rightarrow> string \<times> int" where
  "choose_case comparators vc i [] = ([], - 1)"
| "choose_case comparators vc i (c # cs) =
     (let res = evaluate comparators (bc_when c) vc in
      if a_error res \<noteq> [] then choose_case comparators vc (Suc i) cs
      else if a_passed res then (bc_target c, int i)
      else choose_case comparators vc (Suc i) cs)"

text \<open>The result and its \<open>MatchedTarget\<close>; the routed targets are \<open>r_routed\<close>. It never fails.\<close>

definition branch_execute ::
    "'a json_text_scheme \<Rightarrow> (string \<rightharpoonup> comparator) \<Rightarrow> base_node \<Rightarrow> branch_data \<Rightarrow>
     ('w, 'x) execution_context_scheme \<Rightarrow> 'w \<Rightarrow> (asserted_result \<times> string) \<times> 'w" where
  "branch_execute g comparators n d cx w =
     (let (target, w') = branch_target g d cx w;
          (matched, matchedIndex) = choose_case comparators (new_value_response_context g target) 0 (bd_cases d);
          chosen = (if matched = [] \<and> bd_default d \<noteq> [] then bd_default d else matched);
          routed = (if chosen \<noteq> [] then [chosen] else [])
      in (((base_result n KindBranch (map_of (cx_inputs cx))
              [''matched'' \<mapsto> GStr chosen, ''matchedIndex'' \<mapsto> GInt matchedIndex])\<lparr>r_routed := Some routed\<rparr>,
           chosen), w'))"

section \<open>Set variable, assert, delay\<close>

record context_result = asserted_result +
  r_assertion_context :: "value_context option"

definition with_context :: "value_context option \<Rightarrow> asserted_result \<Rightarrow> context_result" where
  "with_context c r = asserted_result.extend r \<lparr>r_assertion_context = c\<rparr>"

definition set_variable_input_schema :: "(string \<times> gval) list \<Rightarrow> string list" where
  "set_variable_input_schema vars = sort (extract_template_variables (GMap vars))"

definition set_variable_output_schema :: "(string \<times> gval) list \<Rightarrow> string list" where
  "set_variable_output_schema vars = sort (map fst vars)"

definition set_variable_execute ::
    "'a json_text_scheme \<Rightarrow> base_node \<Rightarrow> (string \<times> gval) list \<Rightarrow> ('w, 'x) execution_context_scheme \<Rightarrow> 'w \<Rightarrow>
     context_result \<times> 'w" where
  "set_variable_execute g n vars cx w =
     (let (outs, w') = resolve_map g (node_resolver cx) vars w in
      (with_context (Some (new_value_response_context g (GMap outs)))
         (base_result n KindSetVariable (map_of (cx_inputs cx)) (map_of outs)), w'))"

definition assert_target ::
    "'a json_text_scheme \<Rightarrow> gval \<Rightarrow> ('w, 'x) execution_context_scheme \<Rightarrow> 'w \<Rightarrow> gval \<times> 'w" where
  "assert_target g target cx w =
     (if target = GNil \<or> target = GStr [] then (GMap (cx_flow_inputs cx), w)
      else resolve g (node_resolver cx) target w)"

definition assert_execute ::
    "'a json_text_scheme \<Rightarrow> base_node \<Rightarrow> gval \<Rightarrow> ('w, 'x) execution_context_scheme \<Rightarrow> 'w \<Rightarrow> context_result \<times> 'w" where
  "assert_execute g n target cx w =
     (let (v, w') = assert_target g target cx w in
      (with_context (Some (new_value_response_context g v))
         (base_result n KindAssert (map_of (cx_inputs cx)) Map.empty), w'))"

text \<open>A cancelled delay returns no result; the schemas of a delay node are empty.\<close>

definition delay_execute ::
    "base_node \<Rightarrow> int \<Rightarrow> ('w, 'x) node_context_scheme \<Rightarrow> 'w \<Rightarrow> (go_error option + asserted_result) \<times> 'w" where
  "delay_execute n delayMs cx w =
     (case cx_sleep cx (cx_err cx) delayMs w of
        (True, w') \<Rightarrow> (Inl (cx_err cx w'), w')
      | (False, w') \<Rightarrow> (Inr (base_result n KindDelay (map_of (cx_inputs cx)) Map.empty), w'))"

section \<open>Loop\<close>

record loop_data =
  ld_items :: gval
  ld_body :: string
  ld_item_var :: string
  ld_index_var :: string
  ld_max_iterations :: int
  ld_continue_on_error :: bool

definition item_var :: "loop_data \<Rightarrow> string" where
  "item_var d = (if ld_item_var d = [] then ''item'' else ld_item_var d)"

definition index_var :: "loop_data \<Rightarrow> string" where
  "index_var d = (if ld_index_var d = [] then ''index'' else ld_index_var d)"

definition loop_input_schema :: "loop_data \<Rightarrow> string list" where
  "loop_input_schema d = sort (extract_template_variables (ld_items d))"

text \<open>\<open>GetOutputs\<close>: the aggregates, read by the given extractors, then the declared outputs.\<close>

definition loop_outputs :: "value_context node_output list \<Rightarrow> value_context node_output list \<Rightarrow> value_context node_output list" where
  "loop_outputs aggregates user = filter (\<lambda>out. o_name out \<notin> set (map o_name user)) aggregates @ user"

fun has_template :: "string \<Rightarrow> bool" where
  "has_template [] = False"
| "has_template (c # s) = (match_template (c # s) \<noteq> None \<or> has_template s)"

definition loop_template :: "gval \<Rightarrow> gval" where
  "loop_template items =
     (case items of
        GStr template \<Rightarrow>
          (case single_variable template of
             Some match \<Rightarrow> GStr (replicate 3 open_brace @ match @ replicate 3 close_brace)
           | None \<Rightarrow> items)
      | _ \<Rightarrow> items)"

definition resolve_items ::
    "'a json_text_scheme \<Rightarrow> (string \<times> gval) list \<Rightarrow> loop_data \<Rightarrow> go_error + gval list" where
  "resolve_items g inputs d =
     (let resolved = fst (resolve g \<lparr>variables = map_of inputs, dynamic = None\<rparr> (loop_template (ld_items d)) ()) in
      case resolved of
        GNil \<Rightarrow> Inl (PlainError (''loop items resolved to null: '' @ value_text (go_text.truncate g) (ld_items d)))
      | GList vs \<Rightarrow> Inr vs
      | GStr s \<Rightarrow>
          (if has_template s
           then Inl (PlainError (''loop items did not resolve: '' @ value_text (go_text.truncate g) (ld_items d)))
           else Inr [resolved])
      | _ \<Rightarrow> Inr [resolved])"

definition loop_request ::
    "base_node \<Rightarrow> loop_data \<Rightarrow> (string \<times> gval) list \<Rightarrow> nat \<Rightarrow> gval \<Rightarrow> 'w module_request" where
  "loop_request n d flow_inputs i item =
     \<lparr>mr_flow_id = bn_id n @ ''#iter'', mr_definition = ld_body d,
      mr_inputs = AList.update (index_var d) (GInt (int i)) (AList.update (item_var d) item flow_inputs),
      mr_ctx = None\<rparr>"

text \<open>The iterations from index \<open>i\<close> on: the results, or the error that ends the loop.\<close>

type_synonym 'w executor = "'w module_request \<Rightarrow> 'w \<Rightarrow> (go_error \<times> child_outputs + child_outputs) \<times> 'w"

fun loop_iterations ::
    "base_node \<Rightarrow> loop_data \<Rightarrow> ('w, 'x) node_context_scheme \<Rightarrow> 'w executor \<Rightarrow> nat \<Rightarrow> gval list \<Rightarrow> 'w \<Rightarrow>
     (go_error + (string \<times> gval) list list) \<times> 'w" where
  "loop_iterations n d cx ex i [] w = (Inr [], w)"
| "loop_iterations n d cx ex i (item # items) w =
     (case cx_err cx w of
        Some cancelled \<Rightarrow> (Inl cancelled, w)
      | None \<Rightarrow>
          (case ex (loop_request n d (cx_flow_inputs cx) i item) w of
             (Inl (err, _), w1) \<Rightarrow>
               (if ld_continue_on_error d
                then (case loop_iterations n d cx ex (Suc i) items w1 of
                        (rest, w2) \<Rightarrow>
                          (map_sum id (\<lambda>rs. [(''index'', GInt (int i)), (''error'', GStr (error_text err))] # rs) rest, w2))
                else (Inl (WrapError (''loop iteration '' @ nat_text i @ '' failed: '' @ error_text err) err), w1))
           | (Inr res, w1) \<Rightarrow>
               (case loop_iterations n d cx ex (Suc i) items w1 of
                  (rest, w2) \<Rightarrow> (map_sum id (\<lambda>rs. (case res of Some outs \<Rightarrow> outs | None \<Rightarrow> []) # rs) rest, w2))))"

record loop_result = context_result +
  lr_iterations :: nat

definition loop_failed :: "base_node \<Rightarrow> outputs \<Rightarrow> go_error \<Rightarrow> nat \<Rightarrow> loop_result" where
  "loop_failed n inputs err iterations =
     context_result.extend (with_context None (failed_node_base n inputs err KindLoop ''LOOP_FAILED'' (error_text err)))
       \<lparr>lr_iterations = iterations\<rparr>"

definition loop_aggregate :: "(string \<times> gval) list list \<Rightarrow> (string \<times> gval) list" where
  "loop_aggregate results =
     [(''results'', GTSlice (map GMap results)), (''count'', GInt (int (length results)))]"

definition loop_capped :: "loop_data \<Rightarrow> gval list \<Rightarrow> gval list" where
  "loop_capped d items =
     (if 0 < ld_max_iterations d \<and> ld_max_iterations d < int (length items)
      then take (nat (ld_max_iterations d)) items else items)"

definition loop_execute ::
    "'a json_text_scheme \<Rightarrow> base_node \<Rightarrow> loop_data \<Rightarrow> ('w, 'x) node_context_scheme \<Rightarrow> 'w \<Rightarrow>
     (loop_result \<times> go_error option) \<times> 'w" where
  "loop_execute g n d cx w =
     (let inputs = map_of (cx_inputs cx) in
      case cx_module_executor cx of
        None \<Rightarrow> (let err = PlainError ''module executor unavailable'' in ((loop_failed n inputs err 0, Some err), w))
      | Some ex \<Rightarrow>
          if ld_body d = []
          then (let err = PlainError ''loop body is required'' in ((loop_failed n inputs err 0, Some err), w))
          else
            (case resolve_items g (cx_inputs cx) d of
               Inl e \<Rightarrow> ((loop_failed n inputs e 0, Some e), w)
             | Inr items \<Rightarrow>
                 (let items = loop_capped d items in
                  case loop_iterations n d cx ex 0 items w of
                    (Inl err, w') \<Rightarrow> ((loop_failed n inputs err (length items), Some err), w')
                  | (Inr results, w') \<Rightarrow>
                      (let outs = loop_aggregate results in
                       ((context_result.extend
                           (with_context (Some (new_value_response_context g (GMap outs)))
                              (base_result n KindLoop inputs (map_of outs)))
                           \<lparr>lr_iterations = length items\<rparr>, None), w')))))"

section \<open>Poll\<close>

record poll_data =
  pd_body :: string
  pd_max_attempts :: int
  pd_interval_ms :: int
  pd_timeout_ms :: int

definition max_attempts :: "poll_data \<Rightarrow> nat" where
  "max_attempts d = (if pd_max_attempts d \<le> 0 then 10 else nat (pd_max_attempts d))"

definition interval_ms :: "poll_data \<Rightarrow> int" where
  "interval_ms d = (if pd_interval_ms d \<le> 0 then 1000 else pd_interval_ms d)"

text \<open>\<open>poll_err\<close> is the error state of the poll's own context, the execution's without a timeout.\<close>

definition cancellation ::
    "poll_data \<Rightarrow> ('w, 'x) node_context_scheme \<Rightarrow> ('w \<Rightarrow> go_error option) \<Rightarrow> 'w \<Rightarrow> go_error option" where
  "cancellation d cx poll_err w =
     (case poll_err w of
        None \<Rightarrow> None
      | Some err \<Rightarrow>
          if cx_err cx w \<noteq> None \<or> pd_timeout_ms d \<le> 0 then Some err
          else Some (UserError ''POLL_CANCELLED''
                 (''poll timed out after '' @ int_text (pd_timeout_ms d) @ '' ms'') (Some err)))"

definition poll_child_inputs :: "(string \<times> gval) list \<Rightarrow> nat \<Rightarrow> (string \<times> gval) list" where
  "poll_child_inputs flow_inputs attempt = AList.update ''attempt'' (GInt (int attempt)) flow_inputs"

definition poll_request ::
    "base_node \<Rightarrow> poll_data \<Rightarrow> (string \<times> gval) list \<Rightarrow> ('w \<Rightarrow> go_error option) \<Rightarrow> nat \<Rightarrow> 'w module_request" where
  "poll_request n d flow_inputs poll_err attempt =
     \<lparr>mr_flow_id = bn_id n @ ''#poll'', mr_definition = pd_body d,
      mr_inputs = poll_child_inputs flow_inputs attempt, mr_ctx = Some poll_err\<rparr>"

record poll_result = asserted_result +
  pr_attempts :: nat

definition poll_failed ::
    "base_node \<Rightarrow> outputs \<Rightarrow> go_error \<Rightarrow> string \<Rightarrow> nat \<Rightarrow> assertion_result list \<Rightarrow> poll_result \<times> go_error option" where
  "poll_failed n inputs err code attempts results =
     (asserted_result.extend
        ((failed_node_base n inputs err KindPoll code (error_text err))\<lparr>r_assertion_results := results\<rparr>)
        \<lparr>pr_attempts = attempts\<rparr>, Some err)"

definition condition_not_met :: "nat \<Rightarrow> go_error" where
  "condition_not_met attempts =
     UserError ''POLL_CONDITION_NOT_MET''
       (''poll condition not met after '' @ nat_text attempts @ '' attempts'') None"

definition poll_succeeded ::
    "base_node \<Rightarrow> outputs \<Rightarrow> (string \<times> gval) list \<Rightarrow> nat \<Rightarrow> assertion_result list \<Rightarrow> poll_result \<times> go_error option" where
  "poll_succeeded n inputs finals attempt results =
     (asserted_result.extend
        ((base_result n KindPoll inputs [''attempts'' \<mapsto> GInt (int attempt), ''result'' \<mapsto> GMap finals])
           \<lparr>r_assertion_results := results\<rparr>)
        \<lparr>pr_attempts = attempt\<rparr>, None)"

text \<open>
  The attempts from \<open>attempt\<close> on, of which \<open>left\<close> are left; \<open>last_results\<close> are the assertion results of
  the attempt before. A nil result without an error is a nil dereference: the outcome is absent.
\<close>

fun poll_attempts ::
    "'a json_text_scheme \<Rightarrow> (string \<rightharpoonup> comparator) \<Rightarrow> base_node \<Rightarrow> poll_data \<Rightarrow> ('w, 'x) node_context_scheme \<Rightarrow>
     'w executor \<Rightarrow> ('w \<Rightarrow> go_error option) \<Rightarrow> value_context assertion list \<Rightarrow> nat \<Rightarrow> nat \<Rightarrow>
     assertion_result list \<Rightarrow> 'w \<Rightarrow> (poll_result \<times> go_error option) option \<times> 'w" where
  "poll_attempts g comparators n d cx ex poll_err as attempt 0 last_results w =
     (Some (poll_failed n (map_of (cx_inputs cx)) (condition_not_met (max_attempts d)) ''POLL_CONDITION_NOT_MET''
        (max_attempts d) last_results), w)"
| "poll_attempts g comparators n d cx ex poll_err as attempt (Suc left) last_results w =
     (let inputs = map_of (cx_inputs cx) in
      case cancellation d cx poll_err w of
        Some err \<Rightarrow> (Some (poll_failed n inputs err ''POLL_CANCELLED'' (attempt - 1) last_results), w)
      | None \<Rightarrow>
          (case ex (poll_request n d (cx_flow_inputs cx) poll_err attempt) w of
             (res, w1) \<Rightarrow>
               (case cancellation d cx poll_err w1 of
                  Some err \<Rightarrow> (Some (poll_failed n inputs err ''POLL_CANCELLED'' attempt last_results), w1)
                | None \<Rightarrow>
                    (case res of
                       Inl (err, _) \<Rightarrow>
                         (Some (poll_failed n inputs
                            (WrapError (''poll body failed on attempt '' @ nat_text attempt @ '': '' @ error_text err) err)
                            ''POLL_BODY_FAILED'' attempt last_results), w1)
                     | Inr None \<Rightarrow> (None, w1)
                     | Inr (Some finals) \<Rightarrow>
                         (case evaluate_assertions (go_text.truncate g) comparators as
                                 (new_value_response_context g (GMap finals)) of
                            (results, None) \<Rightarrow> (Some (poll_succeeded n inputs finals attempt results), w1)
                          | (results, Some _) \<Rightarrow>
                              (if left = 0
                               then poll_attempts g comparators n d cx ex poll_err as (Suc attempt) left results w1
                               else (case cx_sleep cx poll_err (interval_ms d) w1 of
                                       (False, w2) \<Rightarrow>
                                         poll_attempts g comparators n d cx ex poll_err as (Suc attempt) left results w2
                                     | (True, w2) \<Rightarrow>
                                         (case cancellation d cx poll_err w2 of
                                            Some err \<Rightarrow>
                                              (Some (poll_failed n inputs err ''POLL_CANCELLED'' attempt results), w2)
                                          | None \<Rightarrow> (None, w2)))))))))"

definition poll_execute ::
    "'a json_text_scheme \<Rightarrow> (string \<rightharpoonup> comparator) \<Rightarrow> base_node \<Rightarrow> poll_data \<Rightarrow> ('w, 'x) node_context_scheme \<Rightarrow> 'w \<Rightarrow>
     (poll_result \<times> go_error option) option \<times> 'w" where
  "poll_execute g comparators n d cx w =
     (let inputs = map_of (cx_inputs cx);
          fails = (\<lambda>msg. (Some (poll_failed n inputs (PlainError msg) ''POLL_FAILED'' 0 []), w)) in
      case cx_module_executor cx of
        None \<Rightarrow> fails ''module executor unavailable''
      | Some ex \<Rightarrow>
          if pd_body d = [] then fails ''poll body is required''
          else if bn_assertions n = [] then fails ''poll requires at least one exit-condition assertion''
          else
            (case resolve_assertions g cx (bn_assertions n) w of
               ((_, Some e), w') \<Rightarrow> (Some (poll_failed n inputs e ''ASSERTION_FAILED'' 0 []), w')
             | ((as, None), w') \<Rightarrow>
                 (let poll_err = (if 0 < pd_timeout_ms d then cx_with_timeout cx (pd_timeout_ms d) w' else cx_err cx)
                  in poll_attempts g comparators n d cx ex poll_err as 1 (max_attempts d) [] w')))"

section \<open>What a loop runs\<close>

lemma loop_iterations_success:
  fixes ex :: "'w executor"
  assumes rec: "\<And>req w. calls (snd (ex req w)) = calls w @ [mr_inputs req]"
  shows "loop_iterations n d cx ex i items w = (Inr results, w') \<Longrightarrow>
     length results = length items \<and>
     calls w' = calls w @ map (\<lambda>j. mr_inputs (loop_request n d (cx_flow_inputs cx) (i + j) (items ! j) :: 'w module_request)) [0..<length items]"
proof (induction items arbitrary: i w results)
  case Nil
  then show ?case by simp
next
  case (Cons item items)
  let ?req = "loop_request n d (cx_flow_inputs cx) i item :: 'w module_request"
  obtain res w1 where ex: "ex ?req w = (res, w1)" by (cases "ex ?req w")
  obtain rest w2 where rest: "loop_iterations n d cx ex (Suc i) items w1 = (rest, w2)"
    by (cases "loop_iterations n d cx ex (Suc i) items w1")
  have "cx_err cx w = None" using Cons.prems by (auto split: option.splits)
  with Cons.prems ex rest obtain rs where rs: "rest = Inr rs" "length results = Suc (length rs)" "w' = w2"
    by (cases rest) (auto split: sum.splits prod.splits option.splits if_splits)
  have "calls w1 = calls w @ [mr_inputs ?req]" using rec [of ?req w] ex by simp
  moreover have "[0..<length (item # items)] = 0 # map Suc [0..<length items]" by (simp add: map_Suc_upt upt_conv_Cons del: upt_Suc)
  ultimately show ?case using Cons.IH [of "Suc i" w1 rs] rest rs by (simp add: comp_def)
qed

text \<open>The inputs of the body of iteration \<open>i\<close>: the flow's own, with the item and the index.\<close>

lemma loop_request_inputs:
  "map_of (mr_inputs (loop_request n d flow_inputs i item)) =
     (map_of flow_inputs)(item_var d \<mapsto> item, index_var d \<mapsto> GInt (int i))"
  by (simp add: loop_request_def update_conv')

lemma loop_capped_length:
  "0 < ld_max_iterations d \<Longrightarrow> int (length (loop_capped d items)) \<le> ld_max_iterations d"
  by (auto simp: loop_capped_def)

lemma loop_execute_success:
  assumes "loop_execute g n d cx w = ((res, None), w')" and "cx_module_executor cx = Some ex"
  shows "\<exists>items results. resolve_items g (cx_inputs cx) d = Inr items \<and>
    loop_iterations n d cx ex 0 (loop_capped d items) w = (Inr results, w') \<and>
    r_error res = None \<and> lr_iterations res = length (loop_capped d items) \<and>
    r_outputs res = map_of (loop_aggregate results) \<and>
    r_assertion_context res = Some (new_value_response_context g (GMap (loop_aggregate results)))"
  using assms
  by (auto simp: loop_execute_def Let_def with_context_def base_result_def context_result.defs asserted_result.defs
      split: sum.splits prod.splits if_splits)

section \<open>Properties\<close>

text \<open>
  Claim C23. A loop runs its body once per item. When it ends without an error, the nested flow was executed
  exactly once for every item up to the cap, in the order of the items, each time with the flow
  inputs and the item and its index under the configured names; the results are as many.
\<close>

theorem loop_runs_body_per_item:
  fixes ex :: "'w executor"
  assumes rec: "\<And>req w. calls (snd (ex req w)) = calls w @ [mr_inputs req]"
    and ex: "cx_module_executor cx = Some ex" and run: "loop_execute g n d cx w = ((res, None), w')"
  shows "\<exists>all items. resolve_items g (cx_inputs cx) d = Inr all \<and> items = loop_capped d all \<and>
     (0 < ld_max_iterations d \<longrightarrow> int (length items) \<le> ld_max_iterations d) \<and>
     map map_of (calls w') = map map_of (calls w) @ map (\<lambda>i. (map_of (cx_flow_inputs cx))
       (item_var d \<mapsto> items ! i, index_var d \<mapsto> GInt (int i))) [0..<length items] \<and>
     lr_iterations res = length items \<and>
     (\<exists>results. length results = length items \<and> r_outputs res =
        [''results'' \<mapsto> GTSlice (map GMap results), ''count'' \<mapsto> GInt (int (length items))])"
proof -
  obtain all results where all: "resolve_items g (cx_inputs cx) d = Inr all"
    and it: "loop_iterations n d cx ex 0 (loop_capped d all) w = (Inr results, w')"
    and res: "lr_iterations res = length (loop_capped d all)" "r_outputs res = map_of (loop_aggregate results)"
    using loop_execute_success [OF run ex] by blast
  have len: "length results = length (loop_capped d all)"
    and calls: "calls w' = calls w @ map (\<lambda>j. mr_inputs (loop_request n d (cx_flow_inputs cx) j
        (loop_capped d all ! j) :: 'w module_request)) [0..<length (loop_capped d all)]"
    using loop_iterations_success [OF rec it] by auto
  have "r_outputs res = [''results'' \<mapsto> GTSlice (map GMap results), ''count'' \<mapsto> GInt (int (length results))]"
    unfolding res(2) loop_aggregate_def by (rule ext) simp
  with all res(1) len calls show ?thesis
    by (intro exI [of _ all] exI [of _ "loop_capped d all"])
      (auto simp: loop_request_inputs loop_capped_length)
qed

definition demo_executor :: "(string \<times> gval) list list executor" where
  "demo_executor req w = (Inr (Some [(''ok'', GBool True)]), w @ [mr_inputs req])"

definition demo_node_context :: "(string \<times> gval) list list node_context" where
  "demo_node_context =
     \<lparr>cx_inputs = [(''list.ids'', GList [GStr ''a'', GStr ''b'', GStr ''c''])], cx_flow_inputs = [(''env'', GStr ''x'')],
      cx_all_outputs = None, cx_dynamic = None, cx_err = (\<lambda>w. None), cx_with_timeout = (\<lambda>ms w w'. None),
      cx_sleep = (\<lambda>err ms w. (False, w)), cx_module_executor = Some demo_executor\<rparr>"

definition demo_base_node :: base_node where
  "demo_base_node = \<lparr>bn_id = ''each'', bn_display_name = [],
     bn_assertions = [\<lparr>as_extractor = Some \<lparr>x_extract = (\<lambda>rc. Inr (GStr ''done'')), x_extract_text = None, x_target = None\<rparr>,
       as_extractor_type = ''jsonPath'', as_operator = ''not_empty'', as_expected = GNil\<rparr>],
     bn_outputs = []\<rparr>"

definition demo_loop :: loop_data where
  "demo_loop = \<lparr>ld_items = GStr (braced ''list.ids''), ld_body = ''{}'', ld_item_var = [], ld_index_var = [],
     ld_max_iterations = 2, ld_continue_on_error = False\<rparr>"

theorem loop_runs_body_per_item_witness:
  "length (snd (loop_execute demo_json demo_base_node demo_loop demo_node_context [])) = 2 \<and>
   map_of (snd (loop_execute demo_json demo_base_node demo_loop demo_node_context []) ! 1) ''item'' = Some (GStr ''b'')"
proof -
  let ?run = "loop_execute demo_json demo_base_node demo_loop demo_node_context []"
  have none: "snd (fst ?run) = None" by code_simp
  have items: "resolve_items demo_json (cx_inputs demo_node_context) demo_loop = Inr [GStr ''a'', GStr ''b'', GStr ''c'']"
    by code_simp
  have cap: "loop_capped demo_loop [GStr ''a'', GStr ''b'', GStr ''c''] = [GStr ''a'', GStr ''b'']"
    by (simp add: loop_capped_def demo_loop_def)
  obtain all its where *: "resolve_items demo_json (cx_inputs demo_node_context) demo_loop = Inr all"
    "its = loop_capped demo_loop all"
    "map map_of (snd ?run) = map map_of [] @ map (\<lambda>i. (map_of (cx_flow_inputs demo_node_context))
       (item_var demo_loop \<mapsto> its ! i, index_var demo_loop \<mapsto> GInt (int i))) [0..<length its]"
    using loop_runs_body_per_item [of "\<lambda>w. w" demo_executor demo_node_context demo_json demo_base_node demo_loop
        "[]" "fst (fst ?run)" "snd ?run"] none
    by (auto simp: demo_executor_def demo_node_context_def prod_eq_iff)
  with items cap have its: "its = [GStr ''a'', GStr ''b'']" by simp
  with *(3) have eq: "map map_of (snd ?run) = [[''env'' \<mapsto> GStr ''x'', ''item'' \<mapsto> GStr ''a'', ''index'' \<mapsto> GInt 0],
      [''env'' \<mapsto> GStr ''x'', ''item'' \<mapsto> GStr ''b'', ''index'' \<mapsto> GInt 1]]"
    by (simp add: demo_node_context_def item_var_def index_var_def demo_loop_def)
  then have len: "length (snd ?run) = 2" by (metis length_map list.size(3,4) One_nat_def Suc_1 add.commute plus_1_eq_Suc)
  then have "map_of (snd ?run ! 1) = map map_of (snd ?run) ! 1" by simp
  with eq len show ?thesis by simp
qed

section \<open>What a poll does\<close>

text \<open>A function of the world that resolving templates cannot change.\<close>

definition kept_by :: "'w dynamic_resolver option \<Rightarrow> ('w \<Rightarrow> 'v) \<Rightarrow> bool" where
  "kept_by dyn f \<longleftrightarrow> (case dyn of None \<Rightarrow> True | Some d \<Rightarrow> \<forall>name args w. f (snd (d name args w)) = f w)"

lemma resolve_dynamic_keeps: "kept_by (dynamic r) f \<Longrightarrow> f (snd (resolve_dynamic r name w)) = f w"
  by (auto simp: kept_by_def resolve_dynamic_def split: option.splits prod.splits sum.splits) (metis snd_conv)+

lemma replace_match_keeps: "kept_by (dynamic r) f \<Longrightarrow> f (snd (replace_match g r body w)) = f w"
  using resolve_dynamic_keeps [of r f "trim_space body" w]
  by (auto simp: replace_match_def split: prod.splits option.splits)

lemma resolve_string_keeps: "kept_by (dynamic r) f \<Longrightarrow> f (snd (resolve_string g r s w)) = f w"
proof (induction g r s w rule: resolve_string.induct)
  case (2 g r c s w)
  show ?case
  proof (cases "match_template (c # s)")
    case None
    with 2 show ?thesis by (simp add: resolve_string.simps(2) case_prod_beta)
  next
    case (Some m)
    obtain body rest where m: "m = (body, rest)" by (cases m)
    obtain new w1 where r: "replace_match g r body w = (new, w1)" by (cases "replace_match g r body w")
    then have "f w1 = f w" using replace_match_keeps [OF "2.prems", of g body w] by simp
    moreover have "f (snd (resolve_string g r rest w1)) = f w1"
      using "2.IH"(2) [OF Some m [symmetric]] r "2.prems" m Some by (simp add: prod_eq_iff)
    ultimately show ?thesis using Some m r by (simp add: resolve_string.simps(2) case_prod_beta)
  qed
qed simp

lemma resolve_raw_keeps: "kept_by (dynamic r) f \<Longrightarrow> f (snd (resolve_raw_variable r s w)) = f w"
  using resolve_dynamic_keeps [of r f]
  by (auto simp: resolve_raw_variable_def split: prod.splits option.splits) (metis snd_conv)+

lemma resolve_keeps:
  "kept_by (dynamic r) f \<Longrightarrow> f (snd (resolve g r val w)) = f w"
  "kept_by (dynamic r) f \<Longrightarrow> f (snd (resolve_map g r kvs w)) = f w"
  "kept_by (dynamic r) f \<Longrightarrow> f (snd (resolve_slice g r vals w)) = f w"
proof (induction g r val w and g r kvs w and g r vals w rule: resolve_resolve_map_resolve_slice.induct)
  case (1 g r s w)
  then show ?case
    using resolve_raw_keeps [of r f s w] resolve_string_keeps [of r f g s]
    by (auto split: prod.splits option.splits) (metis snd_conv)
qed (auto split: prod.splits)

lemma resolve_assertions_keeps:
  "kept_by (cx_dynamic cx) f \<Longrightarrow> f (snd (resolve_assertions g cx as w)) = f w"
proof -
  have "kept_by (cx_dynamic cx) f \<Longrightarrow> f (snd (resolve_assertion_templates g cx as w)) = f w"
  proof (induction g cx as w rule: resolve_assertion_templates.induct)
    case (2 g cx a as w)
    then show ?case
      using resolve_keeps(1) [of "\<lparr>variables = reference_values cx (extract_template_variables (as_expected a)),
          dynamic = cx_dynamic cx\<rparr>" f g "as_expected a" w]
      by (auto simp: Let_def split: prod.splits if_splits)
  qed simp
  then show "kept_by (cx_dynamic cx) f \<Longrightarrow> f (snd (resolve_assertions g cx as w)) = f w"
    by (auto simp: resolve_assertions_def split: prod.splits)
qed

definition poll_outcome ::
    "'a json_text_scheme \<Rightarrow> (string \<rightharpoonup> comparator) \<Rightarrow> value_context assertion list \<Rightarrow> nat \<Rightarrow> nat \<Rightarrow>
     poll_result \<Rightarrow> go_error option \<Rightarrow> bool" where
  "poll_outcome g comparators as limit k res err \<longleftrightarrow>
     pr_attempts res = k \<and> k \<le> limit \<and> r_error res = err \<and>
     (case err of
        None \<Rightarrow> 1 \<le> k \<and> (\<exists>finals. r_outputs res = [''attempts'' \<mapsto> GInt (int k), ''result'' \<mapsto> GMap finals] \<and>
          (\<forall>a\<in>set as. a_passed (evaluate comparators a (new_value_response_context g (GMap finals)))))
      | Some e \<Rightarrow> r_outputs res = Map.empty \<and> (e = condition_not_met limit \<longrightarrow> k = limit))"

lemma poll_failed_fields:
  "poll_failed n inputs e code k results = (res, err) \<Longrightarrow>
   err = Some e \<and> r_error res = Some e \<and> pr_attempts res = k \<and> r_outputs res = Map.empty"
  by (auto simp: poll_failed_def failed_node_base_def base_result_def asserted_result.defs Let_def split: option.splits prod.splits)

lemma poll_succeeded_fields:
  "poll_succeeded n inputs finals k results = (res, err) \<Longrightarrow>
   err = None \<and> r_error res = None \<and> pr_attempts res = k \<and>
   r_outputs res = [''attempts'' \<mapsto> GInt (int k), ''result'' \<mapsto> GMap finals]"
  by (auto simp: poll_succeeded_def base_result_def asserted_result.defs)

text \<open>A run of the attempts: how many there were, what they were given and what came out.\<close>

definition poll_run ::
    "'a json_text_scheme \<Rightarrow> (string \<rightharpoonup> comparator) \<Rightarrow> value_context assertion list \<Rightarrow> nat \<Rightarrow>
     (string \<times> gval) list \<Rightarrow> ('w \<Rightarrow> (string \<times> gval) list list) \<Rightarrow> nat \<Rightarrow> 'w \<Rightarrow>
     (poll_result \<times> go_error option) option \<times> 'w \<Rightarrow> bool" where
  "poll_run g comparators as limit flow_inputs calls attempt w out \<longleftrightarrow>
     (\<exists>res err w' k. out = (Some (res, err), w') \<and> attempt \<le> Suc k \<and>
        calls w' = calls w @ map (poll_child_inputs flow_inputs) [attempt..<Suc k] \<and>
        poll_outcome g comparators as limit k res err)"

lemma poll_run_failed:
  assumes "attempt \<le> Suc k" "k \<le> limit" "calls w' = calls w @ map (poll_child_inputs flow_inputs) [attempt..<Suc k]"
    and "k = limit \<or> e \<noteq> condition_not_met limit"
  shows "poll_run g comparators as limit flow_inputs calls attempt w (Some (poll_failed n inputs e code k results), w')"
proof -
  obtain res err where "poll_failed n inputs e code k results = (res, err)" by fastforce
  with poll_failed_fields [OF this] assms show ?thesis by (auto simp: poll_run_def poll_outcome_def)
qed

lemma poll_run_later:
  assumes "poll_run g comparators as limit flow_inputs calls (Suc attempt) w1 out"
    and "calls w1 = calls w @ [poll_child_inputs flow_inputs attempt]"
  shows "poll_run g comparators as limit flow_inputs calls attempt w out"
proof -
  obtain res err w' k where out: "out = (Some (res, err), w')" "Suc attempt \<le> Suc k"
    "calls w' = calls w1 @ map (poll_child_inputs flow_inputs) [Suc attempt..<Suc k]"
    "poll_outcome g comparators as limit k res err"
    using assms(1) by (auto simp: poll_run_def)
  moreover have "[attempt..<Suc k] = attempt # [Suc attempt..<Suc k]" using out(2) by (simp add: upt_conv_Cons del: upt_Suc)
  ultimately show ?thesis
    using assms(2) unfolding poll_run_def
    by (intro exI [of _ res] exI [of _ err] exI [of _ w'] exI [of _ k]) (simp del: upt_Suc)
qed

lemma cancellation_not_unmet: "cancellation d cx poll_err w = Some e \<Longrightarrow> (\<And>w. poll_err w \<noteq> Some (condition_not_met l)) \<Longrightarrow> e \<noteq> condition_not_met l"
  by (auto simp: cancellation_def condition_not_met_def split: option.splits if_splits)

lemma poll_attempts_run:
  fixes ex :: "'w executor"
  assumes rec: "\<And>req w. calls (snd (ex req w)) = calls w @ [mr_inputs req]"
    and sleeps: "\<And>err ms w. calls (snd (cx_sleep cx err ms w)) = calls w"
    and woken: "\<And>ms w w'. cx_sleep cx poll_err ms w = (True, w') \<Longrightarrow> poll_err w' \<noteq> None"
    and result: "\<And>req w. fst (ex req w) \<noteq> Inr None"
    and ctx: "\<And>w. poll_err w \<noteq> Some (condition_not_met (max_attempts d))"
  shows "attempt + left = Suc (max_attempts d) \<Longrightarrow> 1 \<le> attempt \<Longrightarrow>
    poll_run g comparators as (max_attempts d) (cx_flow_inputs cx) calls attempt w
      (poll_attempts g comparators n d cx ex poll_err as attempt left last_results w)"
proof (induction left arbitrary: attempt last_results w)
  case 0
  then show ?case by (auto intro!: poll_run_failed)
next
  case (Suc left)
  let ?run = "poll_run g comparators as (max_attempts d) (cx_flow_inputs cx) calls"
  let ?req = "poll_request n d (cx_flow_inputs cx) poll_err attempt"
  obtain res w1 where e: "ex ?req w = (res, w1)" by (cases "ex ?req w")
  have c1: "calls w1 = calls w @ [poll_child_inputs (cx_flow_inputs cx) attempt]"
    using rec [of ?req w] e by (simp add: poll_request_def)
  have le: "attempt \<le> max_attempts d" and one: "[attempt..<Suc attempt] = [attempt]" using Suc.prems by auto
  have fail: "?run attempt w (Some (poll_failed n inputs err code attempt results), w')"
    if "err \<noteq> condition_not_met (max_attempts d)" "calls w' = calls w1" for inputs err code results w'
    using that le c1 by (intro poll_run_failed) (simp_all add: one)
  show ?case
  proof (cases "cancellation d cx poll_err w")
    case (Some err)
    with cancellation_not_unmet [OF Some ctx] Suc.prems le show ?thesis
      by (auto intro!: poll_run_failed)
  next
    case None
    show ?thesis
    proof (cases "cancellation d cx poll_err w1")
      case c: (Some err)
      with fail [OF cancellation_not_unmet [OF c ctx]] None e show ?thesis by simp
    next
      case live: None
      show ?thesis
      proof (cases res)
        case (Inl err)
        obtain cause child where err: "err = (cause, child)" by fastforce
        have "WrapError m cause \<noteq> condition_not_met (max_attempts d)" for m by (simp add: condition_not_met_def)
        with Inl err fail None live e show ?thesis by simp
      next
        case (Inr r)
        with result [of ?req w] e obtain finals where r: "r = Some finals" by (cases r) auto
        obtain results verdict where ev: "evaluate_assertions (go_text.truncate g) comparators as
            (new_value_response_context g (GMap finals)) = (results, verdict)" by fastforce
        show ?thesis
        proof (cases verdict)
          case done': None
          obtain pr perr where pr: "poll_succeeded n (map_of (cx_inputs cx)) finals attempt results = (pr, perr)" by fastforce
          have "\<forall>a\<in>set as. a_passed (evaluate comparators a (new_value_response_context g (GMap finals)))"
            using evaluate_assertions_None_iff [of "go_text.truncate g" comparators as] ev done' by (metis snd_conv)
          with poll_succeeded_fields [OF pr] le Suc.prems(2) have "poll_outcome g comparators as (max_attempts d) attempt pr perr"
            by (auto simp: poll_outcome_def)
          then have "?run attempt w (Some (pr, perr), w1)"
            unfolding poll_run_def using c1
            by (intro exI [of _ pr] exI [of _ perr] exI [of _ w1] exI [of _ attempt]) (simp add: one del: upt_Suc)
          then show ?thesis using None live e Inr r ev done' pr by simp
        next
          case again: (Some verr)
          have IH: "?run (Suc attempt) w2 (poll_attempts g comparators n d cx ex poll_err as (Suc attempt) left results w2)" for w2
            using Suc.IH [of "Suc attempt" w2 results] Suc.prems by simp
          show ?thesis
          proof (cases "left = 0")
            case True
            with poll_run_later [OF IH c1] None live e Inr r ev again show ?thesis by simp
          next
            case False
            obtain woke w2 where s: "cx_sleep cx poll_err (interval_ms d) w1 = (woke, w2)" by fastforce
            then have c2: "calls w2 = calls w1" using sleeps [of poll_err "interval_ms d" w1] by simp
            show ?thesis
            proof (cases woke)
              case w: True
              with woken [of "interval_ms d" w1 w2] s obtain pe where "poll_err w2 = Some pe" by auto
              then obtain err where c: "cancellation d cx poll_err w2 = Some err"
                by (cases "cancellation d cx poll_err w2") (auto simp: cancellation_def split: if_splits)
              with fail [OF cancellation_not_unmet [OF c ctx] c2] w s False None live e Inr r ev again show ?thesis by simp
            next
              case w: False
              with poll_run_later [OF IH, of w2 w] c1 c2 s False None live e Inr r ev again show ?thesis by simp
            qed
          qed
        qed
      qed
    qed
  qed
qed

text \<open>
  Claim C24. A poll always ends, and within its attempts. With a nested flow that returns a result or an error,
  it runs its body \<open>k\<close> times, at most the configured number, each time with the flow inputs and the
  attempt's number, and reports \<open>k\<close>; it succeeds only when every exit condition passes on the last
  attempt's outputs, which it then publishes, and reports its condition as not met only after the
  last attempt.
\<close>

theorem poll_ends_within_attempts:
  fixes ex :: "'w executor"
  assumes executor: "cx_module_executor cx = Some ex" "\<And>req w. fst (ex req w) \<noteq> Inr None"
    and rec: "\<And>req w. calls (snd (ex req w)) = calls w @ [mr_inputs req]"
    and sleep: "\<And>err ms w. calls (snd (cx_sleep cx err ms w)) = calls w"
      "\<And>err ms w w'. cx_sleep cx err ms w = (True, w') \<Longrightarrow> err w' \<noteq> None"
    and dynamics: "kept_by (cx_dynamic cx) calls"
    and ctx: "\<And>w e. cx_err cx w = Some e \<Longrightarrow> e \<in> {ContextCanceled, ContextDeadlineExceeded}"
      "\<And>ms w w' e. cx_with_timeout cx ms w w' = Some e \<Longrightarrow> e \<in> {ContextCanceled, ContextDeadlineExceeded}"
  shows "\<exists>res err w' k. poll_execute g comparators n d cx w = (Some (res, err), w') \<and>
     k \<le> max_attempts d \<and> pr_attempts res = k \<and> r_error res = err \<and>
     calls w' = calls w @ map (poll_child_inputs (cx_flow_inputs cx)) [1..<Suc k] \<and>
     (err = Some (condition_not_met (max_attempts d)) \<longrightarrow> k = max_attempts d) \<and>
     (err = None \<longrightarrow> 1 \<le> k \<and> (\<exists>finals. r_outputs res = [''attempts'' \<mapsto> GInt (int k), ''result'' \<mapsto> GMap finals] \<and>
        (\<forall>a\<in>set (fst (fst (resolve_assertions g cx (bn_assertions n) w))).
           a_passed (evaluate comparators a (new_value_response_context g (GMap finals))))))"
proof -
  have fails: ?thesis if p: "poll_execute g comparators n d cx w = (Some (poll_failed n inputs e code 0 []), w')"
    "calls w' = calls w" and e: "e \<noteq> condition_not_met (max_attempts d)" for inputs e code w'
  proof -
    obtain res err where f: "poll_failed n inputs e code 0 [] = (res, err)" by fastforce
    from poll_failed_fields [OF f] p f e show ?thesis
      by (intro exI [of _ res] exI [of _ err] exI [of _ w'] exI [of _ 0]) auto
  qed
  show ?thesis
  proof (cases "pd_body d = [] \<or> bn_assertions n = []")
    case True
    then obtain msg where "poll_execute g comparators n d cx w =
        (Some (poll_failed n (map_of (cx_inputs cx)) (PlainError msg) ''POLL_FAILED'' 0 []), w)"
      using executor(1) by (cases "pd_body d = []") (auto simp: poll_execute_def Let_def)
    then show ?thesis by (rule fails) (simp_all add: condition_not_met_def)
  next
    case False
    obtain as unresolved w1 where as: "resolve_assertions g cx (bn_assertions n) w = ((as, unresolved), w1)"
      by (metis prod.exhaust)
    then have c1: "calls w1 = calls w" using resolve_assertions_keeps [OF dynamics, of g "bn_assertions n" w] by simp
    show ?thesis
    proof (cases unresolved)
      case (Some e)
      then have "e \<noteq> condition_not_met (max_attempts d)"
        using as by (auto simp: resolve_assertions_def unresolved_references_error_def assertion_failed_def
            condition_not_met_def split: prod.splits if_splits)
      with Some show ?thesis
        using executor(1) False as c1 by (intro fails [of _ e "''ASSERTION_FAILED''" w1]) (auto simp: poll_execute_def Let_def)
    next
      case None
      define poll_err where
        "poll_err = (if 0 < pd_timeout_ms d then cx_with_timeout cx (pd_timeout_ms d) w1 else cx_err cx)"
      have "poll_err v \<noteq> Some (condition_not_met (max_attempts d))" for v
        using ctx(1) [of v] ctx(2) [of "pd_timeout_ms d" w1 v] by (auto simp: poll_err_def condition_not_met_def)
      then have "poll_run g comparators as (max_attempts d) (cx_flow_inputs cx) calls 1 w1
          (poll_attempts g comparators n d cx ex poll_err as 1 (max_attempts d) [] w1)"
        by (intro poll_attempts_run rec sleep executor(2)) simp_all
      moreover have "poll_execute g comparators n d cx w =
          poll_attempts g comparators n d cx ex poll_err as 1 (max_attempts d) [] w1"
        using executor(1) False as None by (simp add: poll_execute_def Let_def poll_err_def)
      ultimately obtain res err w' k where run: "poll_execute g comparators n d cx w = (Some (res, err), w')"
        "calls w' = calls w @ map (poll_child_inputs (cx_flow_inputs cx)) [1..<Suc k]"
        "poll_outcome g comparators as (max_attempts d) k res err"
        unfolding poll_run_def using c1 by auto
      then show ?thesis
        using as None
        by (intro exI [of _ res] exI [of _ err] exI [of _ w'] exI [of _ k])
          (auto simp: poll_outcome_def split: option.splits)
    qed
  qed
qed

definition demo_poll :: poll_data where
  "demo_poll = \<lparr>pd_body = ''{}'', pd_max_attempts = 5, pd_interval_ms = 0, pd_timeout_ms = 0\<rparr>"

definition demo_status_executor :: "(string \<times> gval) list list executor" where
  "demo_status_executor req w =
     (Inr (Some [(''status'', GStr (if length w < 2 then [] else ''done''))]), w @ [mr_inputs req])"

definition demo_status_node :: base_node where
  "demo_status_node = demo_base_node
     \<lparr>bn_assertions := [\<lparr>as_extractor = Some \<lparr>x_extract = (\<lambda>rc. case vc_value rc of GMap [(k, v)] \<Rightarrow> Inr v | v \<Rightarrow> Inr v),
         x_extract_text = None, x_target = None\<rparr>, as_extractor_type = ''jsonPath'', as_operator = ''not_empty'', as_expected = GNil\<rparr>]\<rparr>"

definition demo_poll_context :: "(string \<times> gval) list list node_context" where
  "demo_poll_context = demo_node_context\<lparr>cx_module_executor := Some demo_status_executor\<rparr>"

theorem poll_ends_within_attempts_witness:
  "length (snd (poll_execute demo_json (builtin_comparators (go_text.truncate demo_json)) demo_status_node demo_poll
      demo_poll_context [])) = 3"
proof -
  let ?run = "poll_execute demo_json (builtin_comparators (go_text.truncate demo_json)) demo_status_node demo_poll
      demo_poll_context []"
  have ctx: "cx_module_executor demo_poll_context = Some demo_status_executor" "cx_dynamic demo_poll_context = None"
    "cx_err demo_poll_context w = None" "cx_with_timeout demo_poll_context ms w w' = None"
    "cx_sleep demo_poll_context err ms w = (False, w)" for w ms w' err
    by (simp_all add: demo_poll_context_def demo_node_context_def)
  obtain res err w' k where run: "?run = (Some (res, err), w')" "pr_attempts res = k"
    "w' = [] @ map (poll_child_inputs (cx_flow_inputs demo_poll_context)) [1..<Suc k]"
    using poll_ends_within_attempts [of demo_poll_context demo_status_executor "\<lambda>w. w" demo_json
        "builtin_comparators (go_text.truncate demo_json)" demo_status_node demo_poll "[]"]
    by (auto simp: demo_status_executor_def ctx kept_by_def)
  have "map_option (pr_attempts \<circ> fst) (fst ?run) = Some 3" by code_simp
  with run show ?thesis by simp
qed

section \<open>What a branch decides\<close>

lemma choose_case_first:
  "choose_case comparators vc i cs = (matched, idx) \<Longrightarrow>
   (\<exists>k<length cs. a_passed (evaluate comparators (bc_when (cs ! k)) vc) \<and>
      (\<forall>j<k. \<not> a_passed (evaluate comparators (bc_when (cs ! j)) vc)) \<and>
      matched = bc_target (cs ! k) \<and> idx = int (i + k)) \<or>
   (\<forall>k<length cs. \<not> a_passed (evaluate comparators (bc_when (cs ! k)) vc)) \<and> matched = [] \<and> idx = - 1"
proof (induction cs arbitrary: i)
  case Nil
  then show ?case by simp
next
  case (Cons c cs)
  let ?p = "\<lambda>k. a_passed (evaluate comparators (bc_when ((c # cs) ! k)) vc)"
  show ?case
  proof (cases "?p 0")
    case True
    then have "a_error (evaluate comparators (bc_when c) vc) = []" by (simp add: evaluate_passed_no_error)
    with True Cons.prems show ?thesis by (intro disjI1 exI [of _ 0]) (simp add: Let_def)
  next
    case False
    then have "choose_case comparators vc (Suc i) cs = (matched, idx)"
      using Cons.prems by (auto simp: Let_def split: if_splits)
    from Cons.IH [OF this] show ?thesis
    proof
      assume "\<exists>k<length cs. a_passed (evaluate comparators (bc_when (cs ! k)) vc) \<and>
          (\<forall>j<k. \<not> a_passed (evaluate comparators (bc_when (cs ! j)) vc)) \<and>
          matched = bc_target (cs ! k) \<and> idx = int (Suc i + k)"
      then obtain k where k: "k < length cs" "?p (Suc k)" "\<forall>j<k. \<not> ?p (Suc j)" "matched = bc_target (cs ! k)" "idx = int (Suc i + k)"
        by auto
      with False have "\<forall>j<Suc k. \<not> ?p j" by (simp add: All_less_Suc2)
      with k show ?thesis by (intro disjI1 exI [of _ "Suc k"]) simp
    next
      assume "(\<forall>k<length cs. \<not> a_passed (evaluate comparators (bc_when (cs ! k)) vc)) \<and> matched = [] \<and> idx = - 1"
      with False show ?thesis by (intro disjI2) (simp add: All_less_Suc2)
    qed
  qed
qed

text \<open>
  A branch routes to the first case that passes, an erring condition counting as one that does
  not, and to the default when none passes or the case names no target; it never fails. When the
  engine records the decision, exactly the edges to the other successors become dead.
\<close>

theorem branch_routes_first_match:
  assumes run: "branch_execute g comparators n d cx w = ((res, chosen), w')"
  defines "passes \<equiv> \<lambda>k. a_passed (evaluate comparators (bc_when (bd_cases d ! k))
      (new_value_response_context g (fst (branch_target g d cx w))))"
  shows "r_error res = None \<and>
     ((\<exists>k<length (bd_cases d). passes k \<and> (\<forall>j<k. \<not> passes j) \<and>
         r_outputs res ''matchedIndex'' = Some (GInt (int k)) \<and>
         chosen = (if bc_target (bd_cases d ! k) = [] then bd_default d else bc_target (bd_cases d ! k))) \<or>
      (\<forall>k<length (bd_cases d). \<not> passes k) \<and> r_outputs res ''matchedIndex'' = Some (GInt (- 1)) \<and> chosen = bd_default d) \<and>
     (\<forall>s\<in>set (edge_output e i).
        (node_id e i, node_id e s) \<in> dead_edges (record_routing_decision e i (Some (exec_result.truncate res)) st) \<longleftrightarrow>
        (node_id e i, node_id e s) \<in> dead_edges st \<or> chosen = [] \<or> node_id e s \<noteq> chosen)"
proof -
  obtain target w1 where t: "branch_target g d cx w = (target, w1)" by fastforce
  obtain matched idx where m: "choose_case comparators (new_value_response_context g target) 0 (bd_cases d) = (matched, idx)"
    by fastforce
  have passes: "passes k = a_passed (evaluate comparators (bc_when (bd_cases d ! k)) (new_value_response_context g target))" for k
    by (simp add: passes_def t)
  have chosen: "chosen = (if matched = [] then bd_default d else matched)"
    and idx: "r_outputs res ''matchedIndex'' = Some (GInt idx)" and err: "r_error res = None"
    and routed: "r_routed res = Some (if chosen = [] then [] else [chosen])"
    using run t m by (auto simp: branch_execute_def base_result_def Let_def split: if_splits)
  have "(node_id e i, node_id e s) \<in> dead_edges (record_routing_decision e i (Some (exec_result.truncate res)) st) \<longleftrightarrow>
      (node_id e i, node_id e s) \<in> dead_edges st \<or> chosen = [] \<or> node_id e s \<noteq> chosen"
    if "s \<in> set (edge_output e i)" for s
    using that routed by (auto simp: record_routing_decision_def exec_result.defs)
  moreover from choose_case_first [OF m] have "(\<exists>k<length (bd_cases d). passes k \<and> (\<forall>j<k. \<not> passes j) \<and>
        idx = int k \<and> matched = bc_target (bd_cases d ! k)) \<or>
      (\<forall>k<length (bd_cases d). \<not> passes k) \<and> idx = - 1 \<and> matched = []"
    unfolding passes by auto
  ultimately show ?thesis using chosen idx err by auto
qed

definition demo_branch :: branch_data where
  "demo_branch = \<lparr>bd_target = GNil, bd_cases =
     [\<lparr>bc_when = \<lparr>as_extractor = None, as_extractor_type = ''x'', as_operator = ''equals'', as_expected = GNil\<rparr>, bc_target = ''a''\<rparr>,
      \<lparr>bc_when = hd (bn_assertions demo_base_node), bc_target = ''b''\<rparr>], bd_default = ''c''\<rparr>"

theorem branch_routes_first_match_witness:
  "snd (fst (branch_execute demo_json (builtin_comparators (go_text.truncate demo_json)) demo_base_node demo_branch
      demo_node_context [])) = ''b''"
proof -
  let ?c = "builtin_comparators (go_text.truncate demo_json)"
  let ?run = "branch_execute demo_json ?c demo_base_node demo_branch demo_node_context []"
  let ?p = "\<lambda>k. a_passed (evaluate ?c (bc_when (bd_cases demo_branch ! k))
      (new_value_response_context demo_json (fst (branch_target demo_json demo_branch demo_node_context []))))"
  have len: "length (bd_cases demo_branch) = 2" by (simp add: demo_branch_def)
  have "?p 1" "\<not> ?p 0" by code_simp+
  moreover obtain res chosen w' where run: "?run = ((res, chosen), w')" by (metis prod.exhaust)
  moreover have "(\<exists>k<2. ?p k \<and> (\<forall>j<k. \<not> ?p j) \<and>
         chosen = (if bc_target (bd_cases demo_branch ! k) = [] then bd_default demo_branch else bc_target (bd_cases demo_branch ! k))) \<or>
      (\<forall>k<2. \<not> ?p k)"
    using branch_routes_first_match [OF run] unfolding len by blast
  ultimately have "chosen = bc_target (bd_cases demo_branch ! 1)"
    by (auto simp: less_2_cases_iff demo_branch_def)
  with run show ?thesis by (simp add: demo_branch_def)
qed

section \<open>What a set-variable node publishes\<close>

lemma resolve_map_keys [simp]: "map fst (fst (resolve_map g r kvs w)) = map fst kvs"
proof (induction kvs arbitrary: w)
  case (Cons kv kvs)
  then show ?case by (cases kv) (simp add: case_prod_beta)
qed simp

text \<open>
  A set-variable node keeps its output schema: its result holds exactly the variables its schema
  names, so that with no assertions and no declared outputs the engine's pass over the result
  finds no fault and changes nothing.
\<close>

theorem set_variable_keeps_schema:
  assumes run: "set_variable_execute g n vars cx w = (res, w')"
  shows "dom (r_outputs res) = set (set_variable_output_schema vars) \<and>
     apply_assertions_and_outputs h comparators
       \<lparr>cn_outputs = [], cn_output_schema = set_variable_output_schema vars\<rparr>
       (r_assertion_context res) (Inr []) (asserted_result.truncate res) = (asserted_result.truncate res, None)"
proof -
  obtain outs w1 where outs: "resolve_map g (node_resolver cx) vars w = (outs, w1)" by fastforce
  have keys: "map fst outs = map fst vars" using resolve_map_keys [of g "node_resolver cx" vars w] outs by simp
  have res: "res = with_context (Some (new_value_response_context g (GMap outs)))
      (base_result n KindSetVariable (map_of (cx_inputs cx)) (map_of outs))"
    using run outs by (simp add: set_variable_execute_def)
  have dom: "dom (map_of outs) = set (map fst vars)" by (simp add: dom_map_of_conv_image_fst flip: keys)
  have "validate_outputs (set_variable_output_schema vars) (map_of outs) = None"
    unfolding validate_outputs_None_iff dom by (simp add: set_variable_output_schema_def)
  moreover have "validate_outputs (set_variable_output_schema vars) Map.empty = None" if "map_of outs = Map.empty"
    using calculation that by simp
  ultimately show ?thesis
    using dom
    by (auto simp: res with_context_def asserted_result.defs base_result_def set_variable_output_schema_def
        apply_assertions_and_outputs_def evaluate_assertions_def extract_outputs_def merge_outputs_def maps_copy_def Let_def)
qed

theorem set_variable_keeps_schema_witness:
  "dom (r_outputs (fst (set_variable_execute demo_json demo_base_node [(''x'', GStr (braced ''list.ids''))]
      demo_node_context []))) = {''x''}"
  using set_variable_keeps_schema [OF surjective_pairing, of demo_json demo_base_node
      "[(''x'', GStr (braced ''list.ids''))]" demo_node_context "[]"]
  by (simp add: set_variable_output_schema_def)

text \<open>
  A loop's results inside a text come out in Go's syntax: the results are a slice of maps the text
  formatter does not count among the containers it renders as JSON, whereas the same value decoded
  from JSON is rendered as JSON.
\<close>

theorem loop_results_render_as_go_text:
  "let v = the (r_outputs (fst (fst (loop_execute demo_json demo_base_node demo_loop demo_node_context []))) ''results'') in
     v = GTSlice [GMap [(''ok'', GBool True)], GMap [(''ok'', GBool True)]] \<and>
     format_template_value demo_json v = ''[map[ok:true] map[ok:true]]'' \<and>
     format_template_value demo_json (GList [GMap [(''ok'', GBool True)], GMap [(''ok'', GBool True)]]) =
       encoded_text demo_json (GList [GMap [(''ok'', GBool True)], GMap [(''ok'', GBool True)]])"
  by code_simp

end
