(* ===== verification/Budget.thy ===== *)
theory Budget
  imports Spi
begin

text \<open>
  The memory budget of response bodies (\<open>pkg/node/response_budget.go\<close>) and the reading of a body
  under it (\<open>response_body.go\<close>, the limits of \<open>response_size.go\<close>). Requests that share a budget are
  readers whose steps interleave freely; the weighted semaphore grants a request only within its
  capacity, and when it grants one is left open, so every order of service it may choose is a run
  here. What the network delivers, and how far \<open>slices.Grow\<close> grows a buffer, is chosen by the step.
  Without a budget (a size of zero or less) reservations are no-ops and nothing waits.
\<close>

section \<open>Sizes\<close>

definition max_response_bytes :: "int option \<Rightarrow> int" where
  "max_response_bytes limit =
     (case limit of Some n \<Rightarrow> if 0 < n then n else 10 * 2 ^ 20 | None \<Rightarrow> 10 * 2 ^ 20)"

definition format_bytes :: "int \<Rightarrow> string" where
  "format_bytes n =
     (if n mod 2 ^ 20 = 0 then int_text (n div 2 ^ 20) @ '' MiB'' else int_text n @ '' bytes'')"

definition reported_response_body_bytes :: nat where
  "reported_response_body_bytes = 2 ^ 20"

text \<open>The body a result reports, its parsed form, and whether it was cut.\<close>

definition reported_body :: "string \<Rightarrow> nat \<Rightarrow> gval \<Rightarrow> string \<times> gval \<times> bool" where
  "reported_body body bodySize parsed =
     (if bodySize \<le> reported_response_body_bytes then (body, parsed, False)
      else if reported_response_body_bytes < length body
      then (take reported_response_body_bytes body, GNil, True)
      else (body, GNil, True))"

section \<open>State\<close>

text \<open>
  A reader is one call of \<open>readResponseBody\<close> with its reservation: the limit and the kept bytes it
  was called with, the response's \<open>Content-Length\<close>, what the reservation holds, and the length and
  capacity of the buffer.
\<close>

datatype read_pc =
    Unread | WaitingFirst | Reading | WaitingMore | Counting | ReadDone | ReadFailed | Returned

record reader =
  rd_limit :: nat
  rd_keep :: nat
  rd_content_length :: "nat option"
  rd_pc :: read_pc
  rd_held :: nat
  rd_len :: nat
  rd_cap :: nat

record budget =
  b_size :: nat
  b_in_use :: nat
  b_readers :: "reader list"

definition new_response_budget :: "int \<Rightarrow> budget option" where
  "new_response_budget n = (if n \<le> 0 then None else Some \<lparr>b_size = nat n, b_in_use = 0, b_readers = []\<rparr>)"

definition unknown_length_first_read :: nat where
  "unknown_length_first_read = 65536"

definition min_body_growth :: nat where
  "min_body_growth = 512"

definition body_weight :: nat where
  "body_weight = 2"

definition kept_bytes :: "reader \<Rightarrow> nat" where
  "kept_bytes r = min (rd_keep r) (rd_limit r)"

definition first_reserve :: "reader \<Rightarrow> nat" where
  "first_reserve r =
     min (kept_bytes r) (case rd_content_length r of Some n \<Rightarrow> n | None \<Rightarrow> unknown_length_first_read)"

section \<open>Reservations\<close>

abbreviation reader_at :: "budget \<Rightarrow> nat \<Rightarrow> reader" where
  "reader_at b k \<equiv> b_readers b ! k"

definition set_reader :: "nat \<Rightarrow> reader \<Rightarrow> budget \<Rightarrow> budget" where
  "set_reader k r b = b\<lparr>b_readers := (b_readers b)[k := r]\<rparr>"

definition acquire :: "nat \<Rightarrow> budget \<Rightarrow> budget option" where
  "acquire n b = (if b_in_use b + n \<le> b_size b then Some (b\<lparr>b_in_use := b_in_use b + n\<rparr>) else None)"

definition release :: "nat \<Rightarrow> budget \<Rightarrow> budget" where
  "release n b = b\<lparr>b_in_use := b_in_use b - n\<rparr>"

definition grow_to :: "nat \<Rightarrow> nat \<Rightarrow> budget \<Rightarrow> budget option" where
  "grow_to k n b =
     (let r = reader_at b k; goal = min (n * body_weight) (b_size b) in
      if goal \<le> rd_held r then Some b
      else map_option (set_reader k (r\<lparr>rd_held := goal\<rparr>)) (acquire (goal - rd_held r) b))"

definition shrink_to :: "nat \<Rightarrow> nat \<Rightarrow> budget \<Rightarrow> budget" where
  "shrink_to k n b =
     (let r = reader_at b k; rest = n * body_weight in
      if rd_held r \<le> rest then b
      else set_reader k (r\<lparr>rd_held := rest\<rparr>) (release (rd_held r - rest) b))"

section \<open>Reading\<close>

definition put_pc :: "nat \<Rightarrow> read_pc \<Rightarrow> budget \<Rightarrow> budget" where
  "put_pc k pc b = set_reader k ((reader_at b k)\<lparr>rd_pc := pc\<rparr>) b"

definition fail_read :: "nat \<Rightarrow> budget \<Rightarrow> budget" where
  "fail_read k b = put_pc k ReadFailed (shrink_to k 0 b)"

definition at_read :: "nat \<Rightarrow> read_pc \<Rightarrow> budget \<Rightarrow> bool" where
  "at_read k pc b \<longleftrightarrow> k < length (b_readers b) \<and> rd_pc (reader_at b k) = pc"

text \<open>\<open>readKept\<close> stops when it has the bytes it may keep or the whole declared body.\<close>

definition read_stops :: "reader \<Rightarrow> bool" where
  "read_stops r \<longleftrightarrow> rd_len r = kept_bytes r \<or> rd_content_length r = Some (rd_len r)"

text \<open>What one \<open>Read\<close> call can return, into the free part of the buffer and within the kept bytes.\<close>

definition read_room :: "reader \<Rightarrow> nat" where
  "read_room r = min (rd_cap r) (kept_bytes r) - rd_len r"

datatype read_action =
    BeginRead nat
  | FirstGrant nat
  | WaitTimesOut nat
  | StopRead nat
  | ReadSome nat nat
  | ReadToEOF nat nat
  | ReadErrs nat nat
  | NeedMore nat
  | MoreGrant nat nat
  | CountedRest nat nat
  | CountErrs nat
  | ReleaseResponse nat

definition add_read :: "nat \<Rightarrow> nat \<Rightarrow> budget \<Rightarrow> budget" where
  "add_read k n b = set_reader k ((reader_at b k)\<lparr>rd_len := rd_len (reader_at b k) + n\<rparr>) b"

definition reads :: "nat \<Rightarrow> nat \<Rightarrow> budget \<Rightarrow> bool" where
  "reads k n b \<longleftrightarrow> at_read k Reading b \<and> \<not> read_stops (reader_at b k) \<and>
     rd_len (reader_at b k) < rd_cap (reader_at b k) \<and> n \<le> read_room (reader_at b k)"

text \<open>
  The steps of \<open>readResponseBody\<close>, \<open>readKept\<close> and \<open>countRest\<close>, and of \<open>ReleaseResponse\<close>. A rest of
  \<open>n\<close> bytes was counted past the kept ones, one past the limit at most.
\<close>

fun read_perform :: "read_action \<Rightarrow> budget \<Rightarrow> budget option" where
  "read_perform (BeginRead k) b =
     (if at_read k Unread b
      then Some (put_pc k (case rd_content_length (reader_at b k) of
                             Some n \<Rightarrow> if rd_limit (reader_at b k) < n then ReadFailed else WaitingFirst
                           | None \<Rightarrow> WaitingFirst) b)
      else None)"
| "read_perform (FirstGrant k) b =
     (if at_read k WaitingFirst b
      then map_option (\<lambda>b'. set_reader k ((reader_at b' k)
             \<lparr>rd_pc := Reading, rd_len := 0, rd_cap := first_reserve (reader_at b k)\<rparr>) b')
             (grow_to k (first_reserve (reader_at b k)) b)
      else None)"
| "read_perform (WaitTimesOut k) b =
     (if at_read k WaitingFirst b then Some (put_pc k ReadFailed b)
      else if at_read k WaitingMore b then Some (fail_read k b) else None)"
| "read_perform (StopRead k) b =
     (if at_read k Reading b \<and> read_stops (reader_at b k) then Some (put_pc k Counting b) else None)"
| "read_perform (ReadSome k n) b = (if reads k n b then Some (add_read k n b) else None)"
| "read_perform (ReadToEOF k n) b = (if reads k n b then Some (put_pc k Counting (add_read k n b)) else None)"
| "read_perform (ReadErrs k n) b = (if reads k n b then Some (fail_read k (add_read k n b)) else None)"
| "read_perform (NeedMore k) b =
     (if at_read k Reading b \<and> \<not> read_stops (reader_at b k) \<and> rd_len (reader_at b k) = rd_cap (reader_at b k)
      then Some (put_pc k WaitingMore b) else None)"
| "read_perform (MoreGrant k newcap) b =
     (if at_read k WaitingMore b \<and>
         rd_len (reader_at b k) + min (max (rd_len (reader_at b k)) min_body_growth)
           (kept_bytes (reader_at b k) - rd_len (reader_at b k)) \<le> newcap
      then map_option (\<lambda>b'. set_reader k ((reader_at b' k)\<lparr>rd_pc := Reading, rd_cap := newcap\<rparr>) b')
             (grow_to k (kept_bytes (reader_at b k)) b)
      else None)"
| "read_perform (CountedRest k n) b =
     (if at_read k Counting b \<and> n \<le> rd_limit (reader_at b k) + 1 - rd_len (reader_at b k)
      then Some (if rd_limit (reader_at b k) < rd_len (reader_at b k) + n then fail_read k b
                 else put_pc k ReadDone (shrink_to k (rd_cap (reader_at b k)) b))
      else None)"
| "read_perform (CountErrs k) b = (if at_read k Counting b then Some (fail_read k b) else None)"
| "read_perform (ReleaseResponse k) b =
     (if at_read k ReadDone b then Some (put_pc k Returned (shrink_to k 0 b)) else None)"

inductive read_step :: "budget \<Rightarrow> budget \<Rightarrow> bool" where
  read_stepI: "read_perform a b = Some b' \<Longrightarrow> read_step b b'"

inductive_cases read_stepE: "read_step b b'"

definition read_start :: "budget \<Rightarrow> bool" where
  "read_start b \<longleftrightarrow> 0 < b_size b \<and> b_in_use b = 0 \<and>
     (\<forall>r\<in>set (b_readers b). rd_pc r = Unread \<and> rd_held r = 0)"

section \<open>The invariant\<close>

definition reader_ok :: "nat \<Rightarrow> reader \<Rightarrow> bool" where
  "reader_ok whole r \<longleftrightarrow>
     (rd_pc r \<in> {Unread, WaitingFirst, ReadFailed, Returned} \<longrightarrow> rd_held r = 0) \<and>
     (rd_pc r \<in> {Reading, WaitingMore, Counting, ReadDone} \<longrightarrow>
        rd_len r \<le> kept_bytes r \<and> rd_len r \<le> rd_cap r \<and>
        (2 * min (rd_cap r) (kept_bytes r) \<le> rd_held r \<or> rd_held r = whole)) \<and>
     (rd_pc r \<in> {Reading, WaitingMore} \<longrightarrow> rd_content_length r \<noteq> None \<longrightarrow> rd_cap r = first_reserve r) \<and>
     (rd_pc r = WaitingMore \<longrightarrow> rd_content_length r = None)"

definition total_held :: "reader list \<Rightarrow> nat" where
  "total_held rs = sum_list (map rd_held rs)"

definition budget_inv :: "budget \<Rightarrow> bool" where
  "budget_inv b \<longleftrightarrow> b_in_use b = total_held (b_readers b) \<and> b_in_use b \<le> b_size b \<and>
     (\<forall>r\<in>set (b_readers b). reader_ok (b_size b) r)"

lemma total_held_update:
  "k < length rs \<Longrightarrow> total_held (rs[k := r]) + rd_held (rs ! k) = total_held rs + rd_held r"
  by (induction rs arbitrary: k) (auto simp: total_held_def split: nat.splits)

lemma held_le_total: "k < length rs \<Longrightarrow> rd_held (rs ! k) \<le> total_held rs"
  by (simp add: total_held_def member_le_sum_list)

lemma total_held_pair:
  "k < length rs \<Longrightarrow> j < length rs \<Longrightarrow> j \<noteq> k \<Longrightarrow> rd_held (rs ! k) + rd_held (rs ! j) \<le> total_held rs"
  using total_held_update [of k rs "(rs ! k)\<lparr>rd_held := 0\<rparr>"] held_le_total [of j "rs[k := (rs ! k)\<lparr>rd_held := 0\<rparr>]"] by simp

text \<open>
  The three ways a step changes the budget: one reader is rewritten with its reservation, which
  the count follows.
\<close>

definition settles_to :: "budget \<Rightarrow> nat \<Rightarrow> reader \<Rightarrow> budget \<Rightarrow> bool" where
  "settles_to b k r b' \<longleftrightarrow> k < length (b_readers b) \<and> b_size b' = b_size b \<and>
     b_readers b' = (b_readers b)[k := r] \<and> b_in_use b' + rd_held (reader_at b k) = b_in_use b + rd_held r \<and>
     b_in_use b' \<le> b_size b"

lemma settles_inv:
  assumes "budget_inv b" and "settles_to b k r b'" and "reader_ok (b_size b) r"
  shows "budget_inv b'"
  using assms total_held_update [of k "b_readers b" r] set_update_subset_insert [of "b_readers b" k r]
  by (auto simp: budget_inv_def settles_to_def)

lemma settles_put:
  "budget_inv b \<Longrightarrow> k < length (b_readers b) \<Longrightarrow> rd_held r = rd_held (reader_at b k) \<Longrightarrow> settles_to b k r (set_reader k r b)"
  by (auto simp: settles_to_def set_reader_def budget_inv_def)

lemma settles_shrink:
  assumes "budget_inv b" "k < length (b_readers b)"
  shows "settles_to b k ((reader_at b k)\<lparr>rd_held := min (rd_held (reader_at b k)) (2 * n)\<rparr>) (shrink_to k n b)"
  using assms held_le_total [of k "b_readers b"]
  by (auto simp: settles_to_def shrink_to_def set_reader_def release_def budget_inv_def body_weight_def Let_def min_def mult.commute)

lemma settles_grow:
  assumes "budget_inv b" "k < length (b_readers b)" "grow_to k n b = Some b'"
  shows "settles_to b k ((reader_at b k)\<lparr>rd_held := max (rd_held (reader_at b k)) (min (2 * n) (b_size b))\<rparr>) b'"
proof (cases "min (2 * n) (b_size b) \<le> rd_held (reader_at b k)")
  case True
  then have "b' = b" "max (rd_held (reader_at b k)) (min (2 * n) (b_size b)) = rd_held (reader_at b k)"
    using assms(3) by (simp_all add: grow_to_def body_weight_def Let_def mult.commute)
  then show ?thesis using assms(1,2) by (simp add: settles_to_def budget_inv_def)
next
  case False
  then show ?thesis
    using assms by (auto simp: settles_to_def grow_to_def set_reader_def acquire_def body_weight_def Let_def max_def
        mult.commute split: if_splits)
qed

lemma settles_trans:
  "settles_to b k r b' \<Longrightarrow> settles_to b' k r' b'' \<Longrightarrow> settles_to b k r' b''"
  by (auto simp: settles_to_def)

lemma settles_reader: "settles_to b k r b' \<Longrightarrow> reader_at b' k = r \<and> k < length (b_readers b')"
  by (auto simp: settles_to_def)

lemma settles_set: "settles_to b k r b' \<Longrightarrow> rd_held r' = rd_held r \<Longrightarrow> settles_to b k r' (set_reader k r' b')"
  by (auto simp: settles_to_def set_reader_def)

lemma settles_fail:
  assumes "budget_inv b" "k < length (b_readers b)"
  shows "settles_to b k ((reader_at b k)\<lparr>rd_held := 0, rd_pc := ReadFailed\<rparr>) (fail_read k b)"
proof -
  have s: "settles_to b k ((reader_at b k)\<lparr>rd_held := 0\<rparr>) (shrink_to k 0 b)"
    using settles_shrink [OF assms, of 0] by simp
  show ?thesis
    using settles_set [OF s, of "(reader_at b k)\<lparr>rd_held := 0, rd_pc := ReadFailed\<rparr>"] settles_reader [OF s]
    by (simp add: fail_read_def put_pc_def)
qed

lemma reader_ok_failed [simp]: "reader_ok n (r\<lparr>rd_held := 0, rd_pc := ReadFailed\<rparr>)"
  by (simp add: reader_ok_def)

lemma reader_ok_at: "budget_inv b \<Longrightarrow> at_read k pc b \<Longrightarrow> reader_ok (b_size b) (reader_at b k)"
  by (auto simp: budget_inv_def at_read_def)

lemma held_at_most: "budget_inv b \<Longrightarrow> k < length (b_readers b) \<Longrightarrow> rd_held (reader_at b k) \<le> b_size b"
  using held_le_total [of k "b_readers b"] by (auto simp: budget_inv_def)

lemma first_grant_settles:
  assumes inv: "budget_inv b" and p: "read_perform (FirstGrant k) b = Some b'"
  shows "\<exists>r. settles_to b k r b' \<and> reader_ok (b_size b) r"
proof -
  let ?r = "reader_at b k"
  from p obtain b1 where pc: "at_read k WaitingFirst b" and g: "grow_to k (first_reserve ?r) b = Some b1"
    and b': "b' = set_reader k ((reader_at b1 k)\<lparr>rd_pc := Reading, rd_len := 0, rd_cap := first_reserve ?r\<rparr>) b1"
    by (auto split: if_splits)
  have k: "k < length (b_readers b)" and zero: "rd_held ?r = 0"
    using pc reader_ok_at [OF inv pc] by (auto simp: at_read_def reader_ok_def)
  note s = settles_grow [OF inv k g]
  let ?r' = "(reader_at b1 k)\<lparr>rd_pc := Reading, rd_len := 0, rd_cap := first_reserve ?r\<rparr>"
  have at1: "reader_at b1 k = ?r\<lparr>rd_held := max (rd_held ?r) (min (2 * first_reserve ?r) (b_size b))\<rparr>"
    using settles_reader [OF s] by simp
  have same: "kept_bytes ?r' = kept_bytes ?r" "first_reserve ?r' = first_reserve ?r"
    by (simp_all add: at1 kept_bytes_def first_reserve_def)
  have "settles_to b k ?r' b'" using settles_set [OF s, of ?r'] by (simp add: b' at1)
  moreover have "reader_ok (b_size b) ?r'"
    unfolding reader_ok_def same by (auto simp: at1 zero first_reserve_def)
  ultimately show ?thesis by blast
qed

lemma more_grant_settles:
  assumes inv: "budget_inv b" and p: "read_perform (MoreGrant k newcap) b = Some b'"
  shows "\<exists>r. settles_to b k r b' \<and> reader_ok (b_size b) r"
proof -
  let ?r = "reader_at b k"
  from p obtain b1 where pc: "at_read k WaitingMore b" and g: "grow_to k (kept_bytes ?r) b = Some b1"
    and cap: "rd_len ?r + min (max (rd_len ?r) min_body_growth) (kept_bytes ?r - rd_len ?r) \<le> newcap"
    and b': "b' = set_reader k ((reader_at b1 k)\<lparr>rd_pc := Reading, rd_cap := newcap\<rparr>) b1"
    by (auto split: if_splits)
  have k: "k < length (b_readers b)" and pc': "rd_pc ?r = WaitingMore" using pc by (auto simp: at_read_def)
  note ok = reader_ok_at [OF inv pc]
  note s = settles_grow [OF inv k g]
  let ?r' = "(reader_at b1 k)\<lparr>rd_pc := Reading, rd_cap := newcap\<rparr>"
  have at1: "reader_at b1 k = ?r\<lparr>rd_held := max (rd_held ?r) (min (2 * kept_bytes ?r) (b_size b))\<rparr>"
    using settles_reader [OF s] by simp
  have same: "kept_bytes ?r' = kept_bytes ?r" by (simp add: at1 kept_bytes_def)
  have "settles_to b k ?r' b'" using settles_set [OF s, of ?r'] by (simp add: b' at1)
  moreover have "reader_ok (b_size b) ?r'"
  proof -
    have "rd_len ?r \<le> kept_bytes ?r" "rd_content_length ?r = None" using ok pc' by (auto simp: reader_ok_def)
    moreover have "2 * min newcap (kept_bytes ?r) \<le> max (rd_held ?r) (min (2 * kept_bytes ?r) (b_size b)) \<or>
        max (rd_held ?r) (min (2 * kept_bytes ?r) (b_size b)) = b_size b"
      using held_at_most [OF inv k] by linarith
    moreover have "rd_len ?r \<le> newcap" using cap by linarith
    ultimately show ?thesis unfolding reader_ok_def same by (simp add: at1)
  qed
  ultimately show ?thesis by blast
qed

lemma settles_pc:
  assumes "budget_inv b" "k < length (b_readers b)"
  shows "settles_to b k ((reader_at b k)\<lparr>rd_pc := pc\<rparr>) (put_pc k pc b)"
  using settles_put [OF assms, of "(reader_at b k)\<lparr>rd_pc := pc\<rparr>"] by (simp add: put_pc_def)

lemma settles_read:
  assumes "budget_inv b" "k < length (b_readers b)"
  shows "settles_to b k ((reader_at b k)\<lparr>rd_len := rd_len (reader_at b k) + n\<rparr>) (add_read k n b)"
  using settles_put [OF assms, of "(reader_at b k)\<lparr>rd_len := rd_len (reader_at b k) + n\<rparr>"] by (simp add: add_read_def)

lemma reads_ok:
  assumes inv: "budget_inv b" and r: "reads k n b"
  shows "k < length (b_readers b)" and "budget_inv (add_read k n b)"
    and "reader_ok (b_size b) ((reader_at b k)\<lparr>rd_len := rd_len (reader_at b k) + n\<rparr>)"
proof -
  show k: "k < length (b_readers b)" using r by (simp add: reads_def at_read_def)
  have "reader_ok (b_size b) (reader_at b k)" using reader_ok_at [OF inv] r by (auto simp: reads_def)
  moreover have r': "rd_pc (reader_at b k) = Reading" "rd_len (reader_at b k) < rd_cap (reader_at b k)"
    "n \<le> min (rd_cap (reader_at b k)) (kept_bytes (reader_at b k)) - rd_len (reader_at b k)"
    using r by (simp_all add: reads_def at_read_def read_room_def)
  moreover have "kept_bytes ((reader_at b k)\<lparr>rd_len := l\<rparr>) = kept_bytes (reader_at b k)"
    "first_reserve ((reader_at b k)\<lparr>rd_len := l\<rparr>) = first_reserve (reader_at b k)" for l
    by (simp_all add: kept_bytes_def first_reserve_def)
  moreover have "rd_len (reader_at b k) + n \<le> kept_bytes (reader_at b k)" "rd_len (reader_at b k) + n \<le> rd_cap (reader_at b k)"
    if "rd_len (reader_at b k) \<le> kept_bytes (reader_at b k)"
    using r'(2,3) that by linarith+
  ultimately show ok: "reader_ok (b_size b) ((reader_at b k)\<lparr>rd_len := rd_len (reader_at b k) + n\<rparr>)"
    by (simp add: reader_ok_def)
  show "budget_inv (add_read k n b)" by (rule settles_inv [OF inv settles_read [OF inv k] ok])
qed

text \<open>Every step rewrites one reader, and keeps it in order.\<close>

lemma read_perform_settles:
  assumes inv: "budget_inv b" and p: "read_perform a b = Some b'"
  shows "\<exists>k r. settles_to b k r b' \<and> reader_ok (b_size b) r"
proof (cases a)
  case (BeginRead k)
  with p have "at_read k Unread b" by (simp split: if_splits)
  then have k: "k < length (b_readers b)" and "rd_held (reader_at b k) = 0"
    using reader_ok_at [OF inv, of k Unread] by (auto simp: at_read_def reader_ok_def)
  then have "reader_ok (b_size b) ((reader_at b k)\<lparr>rd_pc := pc\<rparr>)" if "pc \<in> {ReadFailed, WaitingFirst}" for pc
    using that by (auto simp: reader_ok_def)
  moreover obtain pc where "pc \<in> {ReadFailed, WaitingFirst}" "b' = put_pc k pc b"
    using p BeginRead by (auto split: if_splits option.splits)
  ultimately show ?thesis using settles_pc [OF inv k] by blast
next
  case (FirstGrant k)
  with first_grant_settles [OF inv] p show ?thesis by blast
next
  case (WaitTimesOut k)
  with p consider "at_read k WaitingFirst b" "b' = put_pc k ReadFailed b" | "at_read k WaitingMore b" "b' = fail_read k b"
    by (auto split: if_splits)
  then show ?thesis
  proof cases
    case 1
    with reader_ok_at [OF inv 1(1)] settles_pc [OF inv, of k ReadFailed] show ?thesis
      by (auto simp: at_read_def reader_ok_def intro!: exI)
  next
    case 2
    then have "k < length (b_readers b)" by (simp add: at_read_def)
    from settles_fail [OF inv this] 2(2) reader_ok_failed show ?thesis by blast
  qed
next
  case (StopRead k)
  with p have pc: "at_read k Reading b" and b': "b' = put_pc k Counting b" by (auto split: if_splits)
  then have "reader_ok (b_size b) ((reader_at b k)\<lparr>rd_pc := Counting\<rparr>)"
    using reader_ok_at [OF inv pc] by (auto simp: reader_ok_def at_read_def kept_bytes_def)
  with settles_pc [OF inv] pc b' show ?thesis by (auto simp: at_read_def)
next
  case (ReadSome k n)
  with p have r: "reads k n b" "b' = add_read k n b" by (auto split: if_splits)
  with settles_read [OF inv] reads_ok [OF inv] show ?thesis by blast
next
  case (ReadToEOF k n)
  with p have r: "reads k n b" "b' = put_pc k Counting (add_read k n b)" by (auto split: if_splits)
  note ok = reads_ok [OF inv r(1)]
  note s = settles_read [OF inv ok(1), of n]
  have "rd_pc (reader_at b k) = Reading" using r(1) by (simp add: reads_def at_read_def)
  then have "reader_ok (b_size b) ((reader_at b k)\<lparr>rd_len := rd_len (reader_at b k) + n, rd_pc := Counting\<rparr>)"
    using ok(3) by (simp add: reader_ok_def kept_bytes_def)
  moreover have "settles_to b k ((reader_at b k)\<lparr>rd_len := rd_len (reader_at b k) + n, rd_pc := Counting\<rparr>) b'"
    using settles_trans [OF s settles_pc [OF ok(2), of k Counting]] settles_reader [OF s] r(2) by simp
  ultimately show ?thesis by blast
next
  case (ReadErrs k n)
  with p have r: "reads k n b" "b' = fail_read k (add_read k n b)" by (auto split: if_splits)
  note ok = reads_ok [OF inv r(1)]
  note s = settles_read [OF inv ok(1), of n]
  show ?thesis
    using settles_trans [OF s settles_fail [OF ok(2), of k]] settles_reader [OF s] r(2) reader_ok_failed by metis
next
  case (NeedMore k)
  with p have pc: "at_read k Reading b" and stop: "\<not> read_stops (reader_at b k)"
    "rd_len (reader_at b k) = rd_cap (reader_at b k)" and b': "b' = put_pc k WaitingMore b" by (auto split: if_splits)
  note ok = reader_ok_at [OF inv pc]
  have "rd_content_length (reader_at b k) = None"
    using ok stop pc
    by (cases "rd_content_length (reader_at b k)")
      (auto simp: reader_ok_def read_stops_def first_reserve_def at_read_def min_def split: if_splits)
  with ok pc have "reader_ok (b_size b) ((reader_at b k)\<lparr>rd_pc := WaitingMore\<rparr>)"
    by (auto simp: reader_ok_def at_read_def kept_bytes_def)
  with settles_pc [OF inv] pc b' show ?thesis by (auto simp: at_read_def)
next
  case (MoreGrant k newcap)
  with more_grant_settles [OF inv] p show ?thesis by blast
next
  case (CountedRest k n)
  with p have pc: "at_read k Counting b" by (auto split: if_splits)
  then have k: "k < length (b_readers b)" by (simp add: at_read_def)
  show ?thesis
  proof (cases "rd_limit (reader_at b k) < rd_len (reader_at b k) + n")
    case True
    with CountedRest p have "b' = fail_read k b" by (auto split: if_splits)
    with settles_fail [OF inv k] reader_ok_failed show ?thesis by blast
  next
    case False
    note s = settles_shrink [OF inv k, of "rd_cap (reader_at b k)"]
    let ?r = "(reader_at b k)\<lparr>rd_held := min (rd_held (reader_at b k)) (2 * rd_cap (reader_at b k))\<rparr>"
    have "settles_to b k (?r\<lparr>rd_pc := ReadDone\<rparr>) b'"
      using settles_set [OF s, of "?r\<lparr>rd_pc := ReadDone\<rparr>"] settles_reader [OF s] CountedRest p False
      by (auto simp: put_pc_def split: if_splits)
    moreover have "reader_ok (b_size b) (?r\<lparr>rd_pc := ReadDone\<rparr>)"
      using reader_ok_at [OF inv pc] pc by (auto simp: reader_ok_def at_read_def kept_bytes_def)
    ultimately show ?thesis by blast
  qed
next
  case (CountErrs k)
  with p have "k < length (b_readers b)" "b' = fail_read k b" by (auto simp: at_read_def split: if_splits)
  with settles_fail [OF inv] reader_ok_failed show ?thesis by blast
next
  case (ReleaseResponse k)
  with p have k: "k < length (b_readers b)" and b': "b' = put_pc k Returned (shrink_to k 0 b)"
    by (auto simp: at_read_def split: if_splits)
  note s = settles_shrink [OF inv k, of 0]
  have "settles_to b k ((reader_at b k)\<lparr>rd_held := 0, rd_pc := Returned\<rparr>) b'"
    using settles_set [OF s, of "(reader_at b k)\<lparr>rd_held := 0, rd_pc := Returned\<rparr>"] settles_reader [OF s]
    by (simp add: b' put_pc_def)
  moreover have "reader_ok (b_size b) ((reader_at b k)\<lparr>rd_held := 0, rd_pc := Returned\<rparr>)" by (simp add: reader_ok_def)
  ultimately show ?thesis by blast
qed

interpretation bodies: invariant_system read_start read_step budget_inv
proof
  fix b assume "read_start b"
  then show "budget_inv b"
    by (auto simp: read_start_def budget_inv_def total_held_def reader_ok_def sum_list_eq_0_iff)
next
  fix b b' assume "budget_inv b" "read_step b b'"
  then show "budget_inv b'" using read_perform_settles settles_inv by (blast elim: read_stepE)
qed

section \<open>Properties\<close>

fun read_perform_all :: "read_action list \<Rightarrow> budget \<Rightarrow> budget option" where
  "read_perform_all [] b = Some b"
| "read_perform_all (a # as) b = (case read_perform a b of None \<Rightarrow> None | Some b' \<Rightarrow> read_perform_all as b')"

lemma read_perform_all_reach:
  "read_perform_all as b = Some b' \<Longrightarrow> reach read_start read_step b \<Longrightarrow> reach read_start read_step b'"
  by (induction as b rule: read_perform_all.induct) (auto split: option.splits intro: reach_step read_stepI)

definition demo_reader :: "nat option \<Rightarrow> reader" where
  "demo_reader len = \<lparr>rd_limit = 1048576, rd_keep = 1048576, rd_content_length = len, rd_pc = Unread,
     rd_held = 0, rd_len = 0, rd_cap = 0\<rparr>"

definition demo_budget :: "reader list \<Rightarrow> budget" where
  "demo_budget rs = \<lparr>b_size = 262144, b_in_use = 0, b_readers = rs\<rparr>"

lemmas run_defs = demo_budget_def demo_reader_def at_read_def put_pc_def set_reader_def grow_to_def acquire_def
  reads_def read_stops_def read_room_def kept_bytes_def first_reserve_def unknown_length_first_read_def
  body_weight_def min_body_growth_def add_read_def Let_def

lemma demo_budget_reach: "reach read_start read_step (demo_budget (map demo_reader lens))"
  by (rule reach_start) (auto simp: read_start_def demo_budget_def demo_reader_def)


definition read_alone_run :: "read_action list" where
  "read_alone_run = [BeginRead 0, FirstGrant 0, BeginRead 1, ReadSome 0 65536, NeedMore 0, MoreGrant 0 131072, ReadSome 0 65536]"


text \<open>
  A request that waits for its first bytes holds none, so it waits only for others: when no other
  request holds anything it can be granted at once, and only a body without a declared length ever
  waits while it holds a part of the budget.
\<close>

theorem first_wait_is_for_others:
  assumes "reach read_start read_step b" and k: "k < length (b_readers b)"
  shows "(rd_pc (reader_at b k) = WaitingFirst \<longrightarrow> rd_held (reader_at b k) = 0 \<and>
        ((\<forall>j<length (b_readers b). j \<noteq> k \<longrightarrow> rd_held (reader_at b j) = 0) \<longrightarrow>
          read_perform (FirstGrant k) b \<noteq> None)) \<and>
     (rd_pc (reader_at b k) = WaitingMore \<longrightarrow> rd_content_length (reader_at b k) = None)"
proof -
  note inv = bodies.reach_inv [OF assms(1)]
  have ok: "reader_ok (b_size b) (reader_at b k)" using inv k by (simp add: budget_inv_def)
  have "read_perform (FirstGrant k) b \<noteq> None"
    if pc: "rd_pc (reader_at b k) = WaitingFirst" and none: "\<forall>j<length (b_readers b). j \<noteq> k \<longrightarrow> rd_held (reader_at b j) = 0"
  proof -
    have "rd_held (reader_at b k) = 0" using ok pc by (simp add: reader_ok_def)
    with none have "\<forall>r\<in>set (b_readers b). rd_held r = 0" by (metis in_set_conv_nth)
    then have "b_in_use b = 0" using inv by (auto simp: budget_inv_def total_held_def)
    then have "acquire (min (n * body_weight) (b_size b) - rd_held (reader_at b k)) b \<noteq> None" for n
      by (simp add: acquire_def)
    then show ?thesis using pc k by (simp add: at_read_def grow_to_def Let_def)
  qed
  with ok show ?thesis by (auto simp: reader_ok_def)
qed

theorem first_wait_is_for_others_witness:
  "\<exists>b. read_perform (BeginRead 0) (demo_budget (map demo_reader [Some 1000])) = Some b \<and>
     read_perform (FirstGrant 0) b \<noteq> None"
proof -
  obtain b where run: "read_perform (BeginRead 0) (demo_budget (map demo_reader [Some 1000])) = Some b"
    and b: "0 < length (b_readers b)" "length (b_readers b) = 1" "rd_pc (reader_at b 0) = WaitingFirst"
    by (simp add: run_defs)
  have "reach read_start read_step b" by (rule reach_step [OF demo_budget_reach read_stepI [OF run]])
  from first_wait_is_for_others [OF this b(1)] b run show ?thesis by auto
qed

text \<open>
  Two bodies without a declared length can wait for each other: with a budget of 256 KiB each holds
  the 128 KiB of its first read and waits for the whole budget, which each would get alone; from
  then on no step is possible but that one of them times out.
\<close>

theorem growing_bodies_wait_for_each_other:
  "\<exists>b. reach read_start read_step b \<and> b_size b = 262144 \<and>
     map rd_pc (b_readers b) = [WaitingMore, WaitingMore] \<and>
     {a. read_perform a b \<noteq> None} \<subseteq> range WaitTimesOut \<and>
     read_perform_all read_alone_run (demo_budget (map demo_reader [None, None])) \<noteq> None"
proof -
  let ?start = "demo_budget (map demo_reader [None, None])"
  let ?run = "[BeginRead 0, BeginRead 1, FirstGrant 0, FirstGrant 1, ReadSome 0 65536, ReadSome 1 65536, NeedMore 0, NeedMore 1]"
  define r where "r = (demo_reader None)\<lparr>rd_pc := WaitingMore, rd_held := 131072, rd_len := 65536, rd_cap := 65536\<rparr>"
  define b where "b = \<lparr>b_size = 262144, b_in_use = 262144, b_readers = [r, r]\<rparr>"
  have "read_perform_all ?run ?start = Some b" by (simp add: b_def r_def run_defs)
  then have "reach read_start read_step b" by (rule read_perform_all_reach [OF _ demo_budget_reach])
  moreover have pcs: "rd_pc (reader_at b k) = WaitingMore" if "k < length (b_readers b)" for k
    using that by (auto simp: b_def r_def less_Suc_eq)
  have "a \<in> range WaitTimesOut" if "read_perform a b \<noteq> None" for a
  proof (cases a)
    case (MoreGrant k newcap)
    with that have k: "k < length (b_readers b)" "grow_to k (kept_bytes (reader_at b k)) b \<noteq> None"
      by (auto simp: at_read_def split: if_splits)
    then have "reader_at b k = r" by (auto simp: b_def less_Suc_eq)
    with k(2) have False
      by (simp add: grow_to_def Let_def acquire_def b_def r_def demo_reader_def kept_bytes_def body_weight_def)
    then show ?thesis ..
  qed (use that pcs in \<open>auto simp: at_read_def reads_def split: if_splits\<close>)
  then have "{a. read_perform a b \<noteq> None} \<subseteq> range WaitTimesOut" by blast
  moreover have "read_perform_all read_alone_run ?start \<noteq> None" by (simp add: read_alone_run_def run_defs)
  ultimately show ?thesis by (intro exI [of _ b]) (simp add: b_def r_def)
qed

end
