(* ===== verification/Requests.thy ===== *)
theory Requests
  imports Nodes Budget
begin

text \<open>
  The request node (\<open>pkg/node/request_node.go\<close>, \<open>request_execution.go\<close>): the inputs it declares, the
  request it prepares from its templates, form bodies (\<open>form_body.go\<close>), the classification of a
  transport failure (\<open>request_error.go\<close>), and its \<open>Execute\<close>. What \<open>net/http\<close> does with a request is
  the argument \<open>send\<close>; \<open>json.Unmarshal\<close>, \<open>json.Valid\<close>, \<open>url.Parse\<close>'s host and \<open>%T\<close> are fields of
  \<open>request_text\<close>. The order in which Go meets a map's entries is that of the association list.
\<close>

record request_text = json_text +
  unmarshal_json :: "string \<Rightarrow> go_error + gval"
  valid_json :: "string \<Rightarrow> bool"
  url_host :: "string \<Rightarrow> string option"
  type_name :: "gval \<Rightarrow> string"

section \<open>Form bodies\<close>

definition unreserved :: "char \<Rightarrow> bool" where
  "unreserved c \<longleftrightarrow>
     (let n = of_char c :: nat in
      48 \<le> n \<and> n \<le> 57 \<or> 65 \<le> n \<and> n \<le> 90 \<or> 97 \<le> n \<and> n \<le> 122 \<or> n \<in> {45, 46, 95, 126})"

definition upper_hex :: "nat \<Rightarrow> char" where
  "upper_hex d = (if d < 10 then char_of (48 + d) else char_of (55 + d))"

text \<open>\<open>url.QueryEscape\<close>.\<close>

definition escape_char :: "char \<Rightarrow> string" where
  "escape_char c =
     (if unreserved c then [c]
      else if c = CHR '' '' then ''+''
      else [CHR 0x25, upper_hex (of_char c div 16), upper_hex (of_char c mod 16)])"

definition query_escape :: "string \<Rightarrow> string" where
  "query_escape s = concat (map escape_char s)"

text \<open>The calls of \<open>values.Add\<close> for a field, in order, or the field that cannot be encoded.\<close>

fun add_form_value :: "'a go_text_scheme \<Rightarrow> string \<Rightarrow> gval \<Rightarrow> string \<times> gval + (string \<times> string) list"
  and add_form_fields :: "'a go_text_scheme \<Rightarrow> string \<Rightarrow> (string \<times> gval) list \<Rightarrow> string \<times> gval + (string \<times> string) list"
  and add_form_items :: "'a go_text_scheme \<Rightarrow> string \<Rightarrow> nat \<Rightarrow> gval list \<Rightarrow> string \<times> gval + (string \<times> string) list" where
  "add_form_value g key GNil = Inr [(key, [])]"
| "add_form_value g key (GMap kvs) = add_form_fields g key kvs"
| "add_form_value g key (GList vs) = add_form_items g key 0 vs"
| "add_form_value g key (GStr s) = Inr [(key, s)]"
| "add_form_value g key (GBool b) = Inr [(key, bool_text b)]"
| "add_form_value g key (GFloat x) = Inr [(key, format_float g x)]"
| "add_form_value g key (GInt i) = Inr [(key, int_text i)]"
| "add_form_value g key v = Inl (key, v)"
| "add_form_fields g key [] = Inr []"
| "add_form_fields g key ((child, v) # kvs) =
     (case add_form_value g (key @ ''['' @ child @ '']'') v of
        Inl e \<Rightarrow> Inl e
      | Inr xs \<Rightarrow> map_sum id (\<lambda>ys. xs @ ys) (add_form_fields g key kvs))"
| "add_form_items g key i [] = Inr []"
| "add_form_items g key i (v # vs) =
     (case add_form_value g (key @ ''['' @ nat_text i @ '']'') v of
        Inl e \<Rightarrow> Inl e
      | Inr xs \<Rightarrow> map_sum id (\<lambda>ys. xs @ ys) (add_form_items g key (Suc i) vs))"

text \<open>\<open>url.Values.Encode\<close>: the keys in order, the values of a key as they were added.\<close>

definition encode_values :: "(string \<times> string) list \<Rightarrow> string" where
  "encode_values adds =
     join_with ''&'' (map (\<lambda>kv. query_escape (fst kv) @ ''='' @ query_escape (snd kv)) (sort_key fst adds))"

fun top_fields :: "'a go_text_scheme \<Rightarrow> (string \<times> gval) list \<Rightarrow> string \<times> gval + (string \<times> string) list" where
  "top_fields g [] = Inr []"
| "top_fields g ((key, v) # kvs) =
     (case add_form_value g key v of
        Inl e \<Rightarrow> Inl e
      | Inr xs \<Rightarrow> map_sum id (\<lambda>ys. xs @ ys) (top_fields g kvs))"

definition encode_form_body :: "'a request_text_scheme \<Rightarrow> gval \<Rightarrow> go_error + string" where
  "encode_form_body g body =
     (case body of
        GStr encoded \<Rightarrow> Inr encoded
      | GMap kvs \<Rightarrow>
          (case top_fields g kvs of
             Inl (key, v) \<Rightarrow> Inl (PlainError (''form field '' @ key @ '': cannot encode '' @ type_name g v))
           | Inr adds \<Rightarrow> Inr (encode_values adds))
      | _ \<Rightarrow> Inl (PlainError (''a form body must be an object or a string, got '' @ type_name g body)))"

section \<open>Preparing a request\<close>

record request_data =
  rq_method :: string
  rq_url :: string
  rq_headers :: "(string \<times> string) list"
  rq_query_params :: "(string \<times> gval) list"
  rq_body :: gval
  rq_body_encoding :: string
  rq_timeout :: int

definition request_references :: "request_data \<Rightarrow> string list" where
  "request_references d =
     remdups (text_references (rq_url d) @ concat (map (text_references \<circ> snd) (rq_headers d)) @
       field_references (rq_query_params d) @ concat (map (text_references \<circ> fst) (rq_query_params d)) @
       value_references (rq_body d))"

fun validate_inputs_present :: "string list \<Rightarrow> outputs \<Rightarrow> go_error option" where
  "validate_inputs_present [] inputs = None"
| "validate_inputs_present (dep # deps) inputs =
     (if inputs dep = None then Some (PlainError (''missing required input: '' @ dep))
      else validate_inputs_present deps inputs)"

record exchange =
  ex_url :: string
  ex_headers :: "(string \<times> string) list"
  ex_body :: gval

fun resolve_headers ::
    "'a json_text_scheme \<Rightarrow> 'w resolver \<Rightarrow> (string \<times> string) list \<Rightarrow> 'w \<Rightarrow> (string \<times> string) list \<times> 'w" where
  "resolve_headers g r [] w = ([], w)"
| "resolve_headers g r ((k, v) # hs) w =
     (let (v', w1) = resolve g r (GStr v) w; (hs', w2) = resolve_headers g r hs w1 in
      ((k, format_template_value g v') # hs', w2))"

fun resolve_query ::
    "'a json_text_scheme \<Rightarrow> 'w resolver \<Rightarrow> (string \<times> gval) list \<Rightarrow> 'w \<Rightarrow> string list \<times> 'w" where
  "resolve_query g r [] w = ([], w)"
| "resolve_query g r ((k, v) # qs) w =
     (let (k', w1) = resolve g r (GStr k) w; (v', w2) = resolve g r v w1; (rest, w3) = resolve_query g r qs w2 in
      ((format_template_value g k' @ ''='' @ format_template_value g v') # rest, w3))"

definition prepare_request ::
    "'a request_text_scheme \<Rightarrow> 'w resolver \<Rightarrow> request_data \<Rightarrow> 'w \<Rightarrow> (go_error + exchange) \<times> 'w" where
  "prepare_request g r d w =
     (case resolve g r (GStr (rq_url d)) w of
        (GStr url, w1) \<Rightarrow>
          (let (headers, w2) = resolve_headers g r (rq_headers d) w1;
               (body, w3) = resolve g r (rq_body d) w2;
               (query, w4) = resolve_query g r (rq_query_params d) w3;
               url' = (if query = [] then url
                       else url @ (if CHR ''?'' \<in> set url then ''&'' else ''?'') @ join_with ''&'' query)
           in (Inr \<lparr>ex_url = url', ex_headers = headers, ex_body = body\<rparr>, w4))
      | (v, w1) \<Rightarrow>
          (Inl (PlainError (''failed to resolve URL templates: expected string, got '' @ type_name g v)), w1))"

definition serialize_request_body ::
    "'a request_text_scheme \<Rightarrow> string \<Rightarrow> gval \<Rightarrow> go_error + string \<times> string" where
  "serialize_request_body g encoding body =
     (if encoding = ''form''
      then map_sum id (\<lambda>payload. (payload, ''application/x-www-form-urlencoded'')) (encode_form_body g body)
      else
        (case (case body of GStr s \<Rightarrow> Inr s | _ \<Rightarrow> marshal_json g body) of
           Inl e \<Rightarrow> Inl e
         | Inr encoded \<Rightarrow> Inr (encoded, if valid_json g encoded then ''application/json'' else [])))"

definition is_content_type :: "string \<Rightarrow> bool" where
  "is_content_type key \<longleftrightarrow> map ascii_lower key = ''content-type''"

text \<open>The headers that are set, in order, and the payload; a nil body sends none.\<close>

record sent_request =
  sr_method :: string
  sr_url :: string
  sr_headers :: "(string \<times> string) list"
  sr_payload :: "string option"
  sr_timeout_ms :: int

definition build_request ::
    "'a request_text_scheme \<Rightarrow> request_data \<Rightarrow> exchange \<Rightarrow> go_error + sent_request" where
  "build_request g d x =
     (let timeout = (if rq_timeout d \<le> 0 then 30000 else rq_timeout d);
          own = filter (\<lambda>kv. \<not> (is_content_type (fst kv) \<and> snd kv = [])) (ex_headers x);
          contentTypeSet = list_ex (\<lambda>kv. is_content_type (fst kv)) (ex_headers x);
          request = \<lparr>sr_method = rq_method d, sr_url = ex_url x, sr_headers = own, sr_payload = None, sr_timeout_ms = timeout\<rparr>
      in if ex_body x = GNil then Inr request
         else
           (case serialize_request_body g (rq_body_encoding d) (ex_body x) of
              Inl e \<Rightarrow> Inl e
            | Inr (payload, contentType) \<Rightarrow>
                Inr (request\<lparr>sr_payload := Some payload,
                       sr_headers := own @ (if \<not> contentTypeSet \<and> contentType \<noteq> [] then [(''Content-Type'', contentType)] else [])\<rparr>)))"

section \<open>Responses and failures\<close>

text \<open>
  A transport failure, as far as \<open>classifyRequestError\<close> looks at it: the name of a DNS error, and
  whether it is a timeout, a refused connection, a TLS error or another \<open>net.Error\<close>.
\<close>

record transport_failure =
  tf_error :: go_error
  tf_dns :: "string option"
  tf_timeout :: bool
  tf_refused :: bool
  tf_tls :: bool
  tf_net :: bool

definition request_host :: "'a request_text_scheme \<Rightarrow> string \<Rightarrow> string" where
  "request_host g rawURL =
     (case url_host g rawURL of
        Some host \<Rightarrow> if host \<noteq> [] then host else takeWhile (\<lambda>c. c \<noteq> CHR ''?'') rawURL
      | None \<Rightarrow> takeWhile (\<lambda>c. c \<noteq> CHR ''?'') rawURL)"

definition classify_request_error :: "'a request_text_scheme \<Rightarrow> string \<Rightarrow> transport_failure \<Rightarrow> go_error" where
  "classify_request_error g rawURL f =
     (let host = request_host g rawURL; user = (\<lambda>code msg. UserError code msg (Some (tf_error f))) in
      case tf_dns f of
        Some name \<Rightarrow> user ''DNS_RESOLUTION_FAILED'' (''Could not resolve host '' @ dquote name)
      | None \<Rightarrow>
          if tf_timeout f then user ''REQUEST_TIMEOUT'' (''Request to '' @ host @ '' timed out'')
          else if tf_refused f then user ''CONNECTION_REFUSED'' (''Connection refused by '' @ host)
          else if tf_tls f then user ''TLS_ERROR'' (''TLS handshake with '' @ host @ '' failed'')
          else if tf_net f then user ''CONNECTION_FAILED'' (''Could not connect to '' @ host)
          else user ''REQUEST_FAILED'' (''Request to '' @ host @ '' failed''))"

definition response_too_large :: "'a request_text_scheme \<Rightarrow> string \<Rightarrow> int \<Rightarrow> go_error" where
  "response_too_large g rawURL limit =
     UserError ''RESPONSE_TOO_LARGE''
       (''Response from '' @ request_host g rawURL @ '' is larger than the '' @ format_bytes limit @ '' limit'') None"

text \<open>\<open>errors.Is(err, context.DeadlineExceeded)\<close>.\<close>

fun is_deadline :: "go_error \<Rightarrow> bool" where
  "is_deadline ContextDeadlineExceeded = True"
| "is_deadline (WrapError msg cause) = is_deadline cause"
| "is_deadline (UserError code msg (Some cause)) = is_deadline cause"
| "is_deadline (MissingInputsError e) = is_deadline e"
| "is_deadline _ = False"

definition budget_wait_error :: "'a request_text_scheme \<Rightarrow> string \<Rightarrow> go_error \<Rightarrow> go_error" where
  "budget_wait_error g rawURL err =
     (if is_deadline err
      then UserError ''REQUEST_TIMEOUT''
             (''Request to '' @ request_host g rawURL @ '' timed out waiting for runner memory to read its response'') (Some err)
      else err)"

definition trim_bom :: "string \<Rightarrow> string" where
  "trim_bom body = (case strip_prefix [CHR 0xEF, CHR 0xBB, CHR 0xBF] body of Some rest \<Rightarrow> rest | None \<Rightarrow> body)"

definition parse_response_body :: "'a request_text_scheme \<Rightarrow> string \<Rightarrow> string \<Rightarrow> gval" where
  "parse_response_body g contentType body =
     (if contains contentType ''application/json''
      then (case unmarshal_json g (trim_bom body) of Inl e \<Rightarrow> GStr body | Inr v \<Rightarrow> v)
      else GStr body)"

text \<open>\<open>readsBody\<close> by extractor type, absent for a nil extractor; \<open>keptResponseBytes\<close>.\<close>

definition reads_body :: "string option \<Rightarrow> bool" where
  "reads_body t \<longleftrightarrow> t \<noteq> Some ''status_code'' \<and> t \<noteq> Some ''header''"

definition kept_response_bytes :: "string option list \<Rightarrow> nat \<Rightarrow> nat" where
  "kept_response_bytes extractors limit =
     (if list_ex reads_body extractors then limit else reported_response_body_bytes)"

section \<open>Execute\<close>

text \<open>
  What \<open>http.NewRequest\<close>, sending the request and reading its body came to: an error that is a \<open>UserError\<close> already, a
  transport failure, or the response with the kept body and the whole size.
\<close>

record http_response =
  hr_status :: int
  hr_content_type :: string
  hr_body :: string
  hr_size :: nat

datatype exchange_outcome =
    Refused go_error
  | TransportFailed transport_failure
  | Responded http_response

record request_result = asserted_result +
  q_method :: string
  q_url :: string
  q_request_headers :: "(string \<times> string) list"
  q_request_body :: gval
  q_status :: int
  q_body :: string
  q_parsed :: gval
  q_truncated :: bool
  q_context :: "(http_response \<times> gval) option"

definition request_failed :: "base_node \<Rightarrow> outputs \<Rightarrow> go_error \<Rightarrow> request_result \<times> go_error option" where
  "request_failed n inputs err =
     (let (code, msg) = (case as_user_error err of Some p \<Rightarrow> p | None \<Rightarrow> (''REQUEST_FAILED'', error_text err)) in
      (asserted_result.extend (failed_node_base n inputs err KindRequest code msg)
         \<lparr>q_method = [], q_url = [], q_request_headers = [], q_request_body = GNil, q_status = 0, q_body = [], q_parsed = GNil, q_truncated = False, q_context = None\<rparr>, Some err))"

text \<open>
  The response context holds the parsed body; for a body over the reported size it is parsed only
  when it is asked for, which gives the same value.
\<close>

definition request_responded ::
    "'a request_text_scheme \<Rightarrow> base_node \<Rightarrow> request_data \<Rightarrow> outputs \<Rightarrow> exchange \<Rightarrow> http_response \<Rightarrow> request_result \<times> go_error option" where
  "request_responded g n d inputs x resp =
     (let parsed = parse_response_body g (hr_content_type resp) (hr_body resp);
          whole = max (hr_size resp) (length (hr_body resp));
          (body, reported, truncated) =
            reported_body (hr_body resp) whole (if reported_response_body_bytes < whole then GNil else parsed)
      in (asserted_result.extend (base_result n KindRequest inputs Map.empty)
            \<lparr>q_method = rq_method d, q_url = ex_url x, q_request_headers = ex_headers x, q_request_body = ex_body x,
             q_status = hr_status resp, q_body = body, q_parsed = reported, q_truncated = truncated,
             q_context = Some (resp, parsed)\<rparr>, None))"

definition request_execute ::
    "'a request_text_scheme \<Rightarrow> base_node \<Rightarrow> request_data \<Rightarrow> ('w, 'x) execution_context_scheme \<Rightarrow>
     (sent_request \<Rightarrow> 'w \<Rightarrow> exchange_outcome \<times> 'w) \<Rightarrow> 'w \<Rightarrow> (request_result \<times> go_error option) \<times> 'w" where
  "request_execute g n d cx transport w =
     (let inputs = map_of (cx_inputs cx) in
      case validate_inputs_present (request_references d) inputs of
        Some err \<Rightarrow> (request_failed n inputs err, w)
      | None \<Rightarrow>
          (case prepare_request g (node_resolver cx) d w of
             (Inl err, w1) \<Rightarrow> (request_failed n inputs err, w1)
           | (Inr x, w1) \<Rightarrow>
               (case build_request g d x of
                  Inl err \<Rightarrow>
                    (request_failed n inputs
                       (if as_user_error err \<noteq> None then err
                        else classify_request_error g (ex_url x)
                          \<lparr>tf_error = err, tf_dns = None, tf_timeout = False, tf_refused = False, tf_tls = False, tf_net = False\<rparr>), w1)
                | Inr req \<Rightarrow>
                    (case transport req w1 of
                       (Refused err, w2) \<Rightarrow> (request_failed n inputs err, w2)
                     | (TransportFailed f, w2) \<Rightarrow>
                         (request_failed n inputs (classify_request_error g (ex_url x) f), w2)
                     | (Responded resp, w2) \<Rightarrow> (request_responded g n d inputs x resp, w2)))))"

section \<open>Properties\<close>

lemma resolve_headers_cong:
  "plain_names (variables r) \<Longrightarrow> plain_names v \<Longrightarrow>
   agree_on (concat (map (text_references \<circ> snd) hs)) (variables r) v \<Longrightarrow>
   resolve_headers g (r\<lparr>variables := v\<rparr>) hs w = resolve_headers g r hs w"
proof (induction hs arbitrary: w)
  case (Cons h hs)
  then show ?case by (cases h) (simp add: resolve_cong(1) del: resolve.simps(1))
qed simp

lemma resolve_query_cong:
  "plain_names (variables r) \<Longrightarrow> plain_names v \<Longrightarrow>
   agree_on (field_references qs @ concat (map (text_references \<circ> fst) qs)) (variables r) v \<Longrightarrow>
   resolve_query g (r\<lparr>variables := v\<rparr>) qs w = resolve_query g r qs w"
proof (induction qs arbitrary: w)
  case (Cons q qs)
  then show ?case by (cases q) (simp add: resolve_cong(1) del: resolve.simps(1))
qed simp

text \<open>
  The request a node sends depends only on the references the node declares: the URL, the header
  values, the names and values of the query parameters and the body are the same for any two sets
  of inputs that agree on them.
\<close>

theorem request_reads_declared_references:
  assumes plain: "plain_names (variables r)" "plain_names vars"
    and agree: "\<forall>ref\<in>set (request_references d). lookup r ref = lookup_path ref vars"
  shows "prepare_request g (r\<lparr>variables := vars\<rparr>) d w = prepare_request g r d w"
proof -
  have "agree_on (text_references (rq_url d)) (variables r) vars"
    "agree_on (concat (map (text_references \<circ> snd) (rq_headers d))) (variables r) vars"
    "agree_on (field_references (rq_query_params d) @ concat (map (text_references \<circ> fst) (rq_query_params d))) (variables r) vars"
    "agree_on (value_references (rq_body d)) (variables r) vars"
    using agree by (auto simp: request_references_def agree_on_def lookup_def)
  then have "resolve g (r\<lparr>variables := vars\<rparr>) (GStr (rq_url d)) w' = resolve g r (GStr (rq_url d)) w'"
    "resolve_headers g (r\<lparr>variables := vars\<rparr>) (rq_headers d) w' = resolve_headers g r (rq_headers d) w'"
    "resolve g (r\<lparr>variables := vars\<rparr>) (rq_body d) w' = resolve g r (rq_body d) w'"
    "resolve_query g (r\<lparr>variables := vars\<rparr>) (rq_query_params d) w' = resolve_query g r (rq_query_params d) w'" for w'
    using plain by (simp_all add: resolve_headers_cong resolve_query_cong resolve_cong(1) del: resolve.simps(1))
  then show ?thesis unfolding prepare_request_def by presburger
qed

definition demo_request :: request_data where
  "demo_request = \<lparr>rq_method = ''GET'', rq_url = ''http://h/'' @ braced ''user.id'', rq_headers = [],
     rq_query_params = [(''tag'', GStr (braced ''user.tag''))], rq_body = GNil, rq_body_encoding = [], rq_timeout = 0\<rparr>"

definition demo_request_text :: request_text where
  "demo_request_text = json_text.extend demo_json
     \<lparr>unmarshal_json = (\<lambda>s. Inl (PlainError s)), valid_json = (\<lambda>s. False), url_host = (\<lambda>s. None), type_name = (\<lambda>v. ''any'')\<rparr>"

definition demo_request_resolver :: "(string \<times> gval) list \<Rightarrow> unit resolver" where
  "demo_request_resolver vars = \<lparr>variables = map_of vars, dynamic = None\<rparr>"

definition demo_request_inputs :: "(string \<times> gval) list" where
  "demo_request_inputs = [(''user.id'', GInt 7), (''user.tag'', GStr ''x&y'')]"

theorem request_reads_declared_references_witness:
  "fst (prepare_request demo_request_text (demo_request_resolver ((''other'', GInt 1) # demo_request_inputs)) demo_request ()) =
    Inr \<lparr>ex_url = ''http://h/7?tag=x&y'', ex_headers = [], ex_body = GNil\<rparr>"
proof -
  let ?r = "demo_request_resolver demo_request_inputs"
  let ?vars = "map_of ((''other'', GInt 1) # demo_request_inputs)"
  have "plain_names (variables ?r)" "plain_names ?vars"
    unfolding demo_request_resolver_def demo_request_inputs_def resolver.simps by (rule plain_map_of; simp)+
  moreover have "\<forall>ref\<in>set (request_references demo_request). lookup ?r ref = lookup_path ref ?vars" by code_simp
  ultimately have "prepare_request demo_request_text (?r\<lparr>variables := ?vars\<rparr>) demo_request () =
      prepare_request demo_request_text ?r demo_request ()"
    by (rule request_reads_declared_references)
  moreover have "fst (prepare_request demo_request_text ?r demo_request ()) =
      Inr \<lparr>ex_url = ''http://h/7?tag=x&y'', ex_headers = [], ex_body = GNil\<rparr>" by code_simp
  moreover have "?r\<lparr>variables := ?vars\<rparr> = demo_request_resolver ((''other'', GInt 1) # demo_request_inputs)"
    by (simp add: demo_request_resolver_def)
  ultimately show ?thesis by simp
qed

lemma request_inputs_present:
  assumes "\<forall>ref\<in>set refs. inputs ref \<noteq> None"
  shows "validate_inputs_present refs inputs = None"
  using assms by (induction refs) auto

section \<open>Form bodies round-trip\<close>

text \<open>How a server reads a form body.\<close>

definition hex_value :: "char \<Rightarrow> nat" where
  "hex_value c = (let n = of_char c :: nat in if n < 65 then n - 48 else n - 55)"

fun query_unescape :: "string \<Rightarrow> string" where
  "query_unescape [] = []"
| "query_unescape (c # s) =
     (if c = CHR ''+'' then CHR '' '' # query_unescape s
      else if c = CHR 0x25
      then (case s of a # b # rest \<Rightarrow> char_of (16 * hex_value a + hex_value b) # query_unescape rest | _ \<Rightarrow> [])
      else c # query_unescape s)"

definition parse_pair :: "string \<Rightarrow> string \<times> string" where
  "parse_pair s =
     (query_unescape (takeWhile (\<lambda>c. c \<noteq> CHR ''='') s), query_unescape (drop 1 (dropWhile (\<lambda>c. c \<noteq> CHR ''='') s)))"

definition parse_form :: "string \<Rightarrow> (string \<times> string) list" where
  "parse_form s = (if s = [] then [] else map parse_pair (split_at CHR ''&'' s))"

lemma hex_value_upper: "d < 16 \<Longrightarrow> hex_value (upper_hex d) = d"
  by (auto simp: hex_value_def upper_hex_def Let_def)

lemma upper_hex_plain: "d < 16 \<Longrightarrow> upper_hex d \<noteq> CHR ''='' \<and> upper_hex d \<noteq> CHR ''&''"
proof -
  have "\<forall>d\<in>set [0..<16]. upper_hex d \<noteq> CHR ''='' \<and> upper_hex d \<noteq> CHR ''&''" by code_simp
  then show "d < 16 \<Longrightarrow> ?thesis" by simp
qed

lemma char_div_16: "of_char c div 16 < (16 :: nat)"
  using nat_of_char_less_256 [of c] by (simp add: less_mult_imp_div_less)

lemma escape_char_plain: "x \<in> set (escape_char c) \<Longrightarrow> x \<noteq> CHR ''='' \<and> x \<noteq> CHR ''&''"
  using upper_hex_plain [OF char_div_16, of c] upper_hex_plain [of "of_char c mod 16"]
  by (auto simp: escape_char_def unreserved_def split: if_splits)

lemma unescape_escape_char: "query_unescape (escape_char c @ s) = c # query_unescape s"
proof (cases "unreserved c")
  case True
  then have "c \<noteq> CHR ''+''" "c \<noteq> CHR 0x25" by (auto simp: unreserved_def)
  with True show ?thesis by (simp add: escape_char_def)
next
  case False
  show ?thesis
  proof (cases "c = CHR '' ''")
    case True
    with False show ?thesis by (simp add: escape_char_def)
  next
    case blank: False
    have "16 * hex_value (upper_hex (of_char c div 16)) + hex_value (upper_hex (of_char c mod 16)) = of_char c"
      using char_div_16 [of c] by (simp add: hex_value_upper)
    with False blank show ?thesis by (simp add: escape_char_def)
  qed
qed

lemma unescape_escape: "query_unescape (query_escape s) = s"
  by (induction s) (simp_all add: query_escape_def unescape_escape_char)

lemma query_escape_plain: "CHR ''='' \<notin> set (query_escape s) \<and> CHR ''&'' \<notin> set (query_escape s)"
  by (auto simp: query_escape_def dest: escape_char_plain)

lemma parse_escaped_pair: "parse_pair (query_escape k @ ''='' @ query_escape v) = (k, v)"
proof -
  have "takeWhile (\<lambda>c. c \<noteq> CHR ''='') (query_escape k @ CHR ''='' # query_escape v) = query_escape k"
    "dropWhile (\<lambda>c. c \<noteq> CHR ''='') (query_escape k @ CHR ''='' # query_escape v) = CHR ''='' # query_escape v"
    using query_escape_plain [of k] by (subst takeWhile_append2 dropWhile_append2; auto)+
  then show ?thesis by (simp add: parse_pair_def unescape_escape)
qed

lemma split_at_append: "sep \<notin> set w \<Longrightarrow> split_at sep (w @ sep # s) = w # split_at sep s"
  by (induction w) auto

lemma split_at_plain: "sep \<notin> set w \<Longrightarrow> split_at sep w = [w]"
  by (induction w) auto

lemma split_join: "ws \<noteq> [] \<Longrightarrow> (\<And>w. w \<in> set ws \<Longrightarrow> sep \<notin> set w) \<Longrightarrow> split_at sep (join_with [sep] ws) = ws"
proof (induction ws)
  case (Cons w ws)
  then show ?case by (cases ws) (simp_all add: split_at_plain split_at_append)
qed simp

text \<open>
  A form body round-trips: reading the encoded body back as a server does gives exactly the fields
  the node's body flattens to, names and values byte for byte, sorted by name.
\<close>

theorem form_body_round_trips:
  assumes "encode_form_body g (GMap kvs) = Inr text"
  shows "\<exists>adds. top_fields g kvs = Inr adds \<and> parse_form text = sort_key fst adds"
proof -
  from assms obtain adds where adds: "top_fields g kvs = Inr adds" and enc: "text = encode_values adds"
    by (auto simp: encode_form_body_def split: sum.splits)
  let ?ws = "map (\<lambda>kv. query_escape (fst kv) @ ''='' @ query_escape (snd kv)) (sort_key fst adds)"
  show ?thesis
  proof (cases "adds = []")
    case True
    with adds enc show ?thesis by (simp add: encode_values_def parse_form_def)
  next
    case False
    then have "set (sort_key fst adds) \<noteq> {}" by simp
    then have ne: "?ws \<noteq> []" by (simp del: set_sort)
    have "split_at CHR ''&'' (join_with ''&'' ?ws) = ?ws"
      using query_escape_plain by (intro split_join [OF ne]) auto
    moreover have "join_with ''&'' ?ws \<noteq> []"
    proof
      assume "join_with ''&'' ?ws = []"
      with \<open>split_at CHR ''&'' (join_with ''&'' ?ws) = ?ws\<close> have "?ws = [[]]" by simp
      then have "[] \<in> set ?ws" by simp
      then show False by auto
    qed
    ultimately have "parse_form text = map parse_pair ?ws"
      by (simp add: enc encode_values_def parse_form_def)
    also have "\<dots> = sort_key fst adds"
      using parse_escaped_pair by (simp add: comp_def)
    finally show ?thesis using adds by blast
  qed
qed

definition demo_form :: "(string \<times> gval) list" where
  "demo_form = [(''tag'', GStr ''a+b&c''), (''items'', GList [GMap [(''price'', GInt 3)]]), (''meta'', GMap [(''plan'', GBool True)])]"

theorem form_body_round_trips_witness:
  "encode_form_body demo_request_text (GMap demo_form) = Inr ''items%5B0%5D%5Bprice%5D=3&meta%5Bplan%5D=true&tag=a%2Bb%26c'' \<and>
   parse_form ''items%5B0%5D%5Bprice%5D=3&meta%5Bplan%5D=true&tag=a%2Bb%26c'' =
     [(''items[0][price]'', ''3''), (''meta[plan]'', ''true''), (''tag'', ''a+b&c'')]"
proof -
  have enc: "encode_form_body demo_request_text (GMap demo_form) =
      Inr ''items%5B0%5D%5Bprice%5D=3&meta%5Bplan%5D=true&tag=a%2Bb%26c''" by code_simp
  moreover have "top_fields demo_request_text demo_form =
      Inr [(''tag'', ''a+b&c''), (''items[0][price]'', ''3''), (''meta[plan]'', ''true'')]" by code_simp
  moreover have "sort_key fst [(''tag'', ''a+b&c''), (''items[0][price]'', ''3''), (''meta[plan]'', ''true'')] =
      [(''items[0][price]'', ''3''), (''meta[plan]'', ''true''), (''tag'', ''a+b&c'')]" by code_simp
  ultimately show ?thesis using form_body_round_trips [OF enc] by auto
qed

section \<open>What a failure names\<close>

lemma query_cut: "CHR ''?'' \<notin> set (takeWhile (\<lambda>c. c \<noteq> CHR ''?'') s)"
  by (auto dest: set_takeWhileD)

lemma hex_digit_mark: "d < 16 \<Longrightarrow> hex_digit d \<noteq> CHR ''?''"
proof -
  have "\<forall>d\<in>set [0..<16]. hex_digit d \<noteq> CHR ''?''" by code_simp
  then show "d < 16 \<Longrightarrow> ?thesis" by simp
qed

lemma quote_char_mark: "CHR ''?'' \<in> set (quote_char c) \<Longrightarrow> c = CHR ''?''"
  using hex_digit_mark [OF char_div_16, of c] hex_digit_mark [of "of_char c mod 16"]
  by (auto simp: quote_char_def Let_def split: if_splits)

text \<open>
  The message of a transport failure never carries the query string: it names the host, or the part
  of an unparseable URL before its question mark, so with host names that hold no question mark it
  holds none, and it is a \<open>UserError\<close> with the raw error as its cause.
\<close>

theorem failure_message_leaves_out_query:
  assumes "\<And>host. url_host g rawURL = Some host \<Longrightarrow> CHR ''?'' \<notin> set host"
    and "\<And>name. tf_dns f = Some name \<Longrightarrow> CHR ''?'' \<notin> set name"
  shows "\<exists>code msg. classify_request_error g rawURL f = UserError code msg (Some (tf_error f)) \<and> CHR ''?'' \<notin> set msg"
proof -
  have "CHR ''?'' \<notin> set (request_host g rawURL)"
    using assms(1) query_cut by (auto simp: request_host_def split: option.split)
  moreover have "CHR ''?'' \<notin> set (dquote name)" if "tf_dns f = Some name" for name
    using assms(2) [OF that] by (auto simp: dquote_def dest: quote_char_mark)
  ultimately show ?thesis
    by (auto simp: classify_request_error_def Let_def split: option.split)
qed

definition demo_failure :: transport_failure where
  "demo_failure = \<lparr>tf_error = PlainError ''Get h?token=1: refused'', tf_dns = None, tf_timeout = False, tf_refused = True,
     tf_tls = False, tf_net = True\<rparr>"

theorem failure_message_leaves_out_query_witness:
  "\<exists>code msg. classify_request_error demo_request_text ''h?token=1'' demo_failure =
       UserError code msg (Some (PlainError ''Get h?token=1: refused'')) \<and> CHR ''?'' \<notin> set msg"
proof -
  have "\<exists>code msg. classify_request_error demo_request_text ''h?token=1'' demo_failure =
      UserError code msg (Some (tf_error demo_failure)) \<and> CHR ''?'' \<notin> set msg"
    by (rule failure_message_leaves_out_query) (simp_all add: demo_request_text_def demo_failure_def json_text.defs)
  then show ?thesis by (simp add: demo_failure_def)
qed

end
