(* ===== verification/Redact_Text.thy ===== *)
theory Redact_Text
  imports Templates "HOL-Library.Sublist"
begin

text \<open>
  The texts of redaction (\<open>pkg/redact/redact.go\<close>): Go's \<open>strings.ReplaceAll\<close>, \<open>utf8\<close> rune counting and
  \<open>encoding/base64\<close>, the set of secrets a run masks, and what masking a text leaves in it.
\<close>

section \<open>Runes\<close>

text \<open>The width of the first rune: an invalid sequence is one byte wide.\<close>

definition byte_in :: "nat \<Rightarrow> nat \<Rightarrow> char \<Rightarrow> bool" where
  "byte_in lo hi c \<longleftrightarrow> lo \<le> of_char c \<and> of_char c \<le> hi"

definition second_byte :: "nat \<Rightarrow> char \<Rightarrow> bool" where
  "second_byte lead c =
     (if lead = 224 then byte_in 160 191 c else if lead = 237 then byte_in 128 159 c
      else if lead = 240 then byte_in 144 191 c else if lead = 244 then byte_in 128 143 c
      else byte_in 128 191 c)"

definition rune_width :: "string \<Rightarrow> nat" where
  "rune_width s =
     (case s of
        [] \<Rightarrow> 0
      | a # rest \<Rightarrow>
          (let n = of_char a; need = (if n < 194 \<or> 244 < n then 0 else if n < 224 then 1 else if n < 240 then 2 else 3);
               more = take need rest in
           if length more = need \<and> (case more of [] \<Rightarrow> True | b # bs \<Rightarrow> second_byte n b \<and> list_all (byte_in 128 191) bs)
           then Suc need else 1))"

lemma rune_width_pos: "s \<noteq> [] \<Longrightarrow> 0 < rune_width s"
  by (cases s) (simp_all add: rune_width_def Let_def)

function rune_count :: "string \<Rightarrow> nat" where
  "rune_count s = (if s = [] then 0 else Suc (rune_count (drop (rune_width s) s)))"
  by pat_completeness auto
termination by (relation "measure length") (auto simp: rune_width_pos)

declare rune_count.simps [simp del]

section \<open>Replacing\<close>

text \<open>\<open>strings.ReplaceAll\<close>; an empty \<open>old\<close> matches before every rune and at the end.\<close>

function put_between :: "string \<Rightarrow> string \<Rightarrow> string" where
  "put_between new s =
     (if s = [] then new else new @ take (rune_width s) s @ put_between new (drop (rune_width s) s))"
  by pat_completeness auto
termination by (relation "measure (\<lambda>(new, s). length s)") (auto simp: rune_width_pos)

declare put_between.simps [simp del]

function replace_from :: "string \<Rightarrow> string \<Rightarrow> string \<Rightarrow> string" where
  "replace_from old new [] = []"
| "replace_from old new (c # s) =
     (case strip_prefix old (c # s) of
        Some rest \<Rightarrow> if length rest \<le> length s then new @ replace_from old new rest else c # s
      | None \<Rightarrow> c # replace_from old new s)"
  by pat_completeness auto
termination by (relation "measure (\<lambda>(old, new, s). length s)") auto

definition replace_all :: "string \<Rightarrow> string \<Rightarrow> string \<Rightarrow> string" where
  "replace_all s old new = (if old = [] then put_between new s else replace_from old new s)"

abbreviation star :: char where "star \<equiv> CHR ''*''"

definition mask_word :: string where
  "mask_word = ''***''"

lemma mask_word_set: "set mask_word = {star}"
  by (simp add: mask_word_def)

lemma strip_rest_shorter: "old \<noteq> [] \<Longrightarrow> strip_prefix old (c # s) = Some rest \<Longrightarrow> length rest \<le> length s"
  by (drule strip_prefix_iff [THEN iffD1]) (cases old; auto)

lemma replace_from_Cons:
  "old \<noteq> [] \<Longrightarrow> replace_from old new (c # s) =
     (case strip_prefix old (c # s) of Some rest \<Rightarrow> new @ replace_from old new rest | None \<Rightarrow> c # replace_from old new s)"
  by (auto split: option.splits dest: strip_rest_shorter)

lemma prefix_of_masked:
  assumes "star \<notin> set p" and "old \<noteq> []"
  shows "prefix p (replace_from old mask_word s) \<Longrightarrow> prefix p s"
  using assms(1)
proof (induction s arbitrary: p)
  case (Cons c s)
  show ?case
  proof (cases "strip_prefix old (c # s)")
    case None
    with Cons assms(2) show ?thesis
      by (cases p) (auto simp: replace_from_Cons simp del: replace_from.simps)
  next
    case (Some rest)
    with Cons.prems assms(2) show ?thesis
      by (cases p) (auto simp: replace_from_Cons mask_word_def simp del: replace_from.simps)
  qed
qed simp

lemma sublist_of_masked:
  assumes "star \<notin> set p" and "old \<noteq> []"
  shows "sublist p (replace_from old mask_word s) \<Longrightarrow> sublist p s"
proof (induction s rule: length_induct)
  case (1 s)
  show ?case
  proof (cases s)
    case (Cons c t)
    note r = replace_from_Cons [OF assms(2), of mask_word c t]
    show ?thesis
    proof (cases "strip_prefix old s")
      case None
      then have "sublist p (c # replace_from old mask_word t)" using 1(2) r Cons by simp
      then show ?thesis
        using prefix_of_masked [OF assms, of s] 1(1) r None Cons by (auto simp: sublist_Cons_right)
    next
      case (Some rest)
      then have s: "s = old @ rest" by (simp add: strip_prefix_iff)
      have "sublist p (mask_word @ replace_from old mask_word rest)" using 1(2) r Some Cons by simp
      then have "sublist p (replace_from old mask_word rest)"
        using assms(1) by (cases p) (auto simp: mask_word_def sublist_Cons_right)
      then have "sublist p rest" using 1(1) s assms(2) by simp
      then show ?thesis by (simp add: s sublist_append)
    qed
  qed (use 1 in simp)
qed

lemma masked_word_gone:
  assumes "star \<notin> set old" and "old \<noteq> []"
  shows "\<not> sublist old (replace_from old mask_word s)"
proof (induction s rule: length_induct)
  case (1 s)
  show ?case
  proof (cases s)
    case (Cons c t)
    note r = replace_from_Cons [OF assms(2), of mask_word c t]
    show ?thesis
    proof (cases "strip_prefix old s")
      case None
      then have "\<not> prefix old s" by (metis not_Some_eq prefixE strip_prefix_iff)
      then show ?thesis
        using prefix_of_masked [OF assms, of s] 1 r None Cons by (auto simp: sublist_Cons_right)
    next
      case (Some rest)
      then have "length rest < length s" using assms(2) by (simp add: strip_prefix_iff)
      then show ?thesis using 1 r Some Cons assms by (cases old) (auto simp: mask_word_def sublist_Cons_right)
    qed
  qed (use assms in simp)
qed

lemma replace_absent: "old \<noteq> [] \<Longrightarrow> \<not> sublist old s \<Longrightarrow> replace_from old new s = s"
proof (induction s)
  case (Cons c s)
  then have "strip_prefix old (c # s) = None"
    by (metis not_Some_eq strip_prefix_iff sublist_append_rightI)
  with Cons show ?case by (auto simp: sublist_Cons_right)
qed simp

section \<open>Base64\<close>

definition b64_char :: "nat \<Rightarrow> char" where
  "b64_char n =
     (if n < 26 then char_of (65 + n) else if n < 52 then char_of (71 + n) else if n < 62 then char_of (n - 4)
      else if n = 62 then CHR ''+'' else CHR ''/'')"

definition b64_value :: "char \<Rightarrow> nat option" where
  "b64_value c =
     (let n = of_char c :: nat in
      if 65 \<le> n \<and> n \<le> 90 then Some (n - 65) else if 97 \<le> n \<and> n \<le> 122 then Some (n - 71)
      else if 48 \<le> n \<and> n \<le> 57 then Some (n + 4) else if n = 43 then Some 62 else if n = 47 then Some 63
      else None)"

abbreviation pad :: char where "pad \<equiv> CHR ''=''"

text \<open>\<open>base64.StdEncoding.EncodeToString\<close>.\<close>

fun base64_encode :: "string \<Rightarrow> string" where
  "base64_encode [] = []"
| "base64_encode [a] = [b64_char (of_char a div 4), b64_char (of_char a mod 4 * 16), pad, pad]"
| "base64_encode [a, b] =
     [b64_char (of_char a div 4), b64_char (of_char a mod 4 * 16 + of_char b div 16),
      b64_char (of_char b mod 16 * 4), pad]"
| "base64_encode (a # b # c # s) =
     [b64_char (of_char a div 4), b64_char (of_char a mod 4 * 16 + of_char b div 16),
      b64_char (of_char b mod 16 * 4 + of_char c div 64), b64_char (of_char c mod 64)] @ base64_encode s"

text \<open>\<open>DecodeString\<close>: line breaks are skipped, and the unused bits of the last group are not looked at.\<close>

fun decode_groups :: "string \<Rightarrow> string option" where
  "decode_groups [] = Some []"
| "decode_groups (a # b # c # d # s) =
     (case (b64_value a, b64_value b) of
        (Some x, Some y) \<Rightarrow>
          (if c = pad then (if d = pad \<and> s = [] then Some [char_of (x * 4 + y div 16)] else None)
           else (case b64_value c of
                   None \<Rightarrow> None
                 | Some z \<Rightarrow>
                     (if d = pad
                      then (if s = [] then Some [char_of (x * 4 + y div 16), char_of (y mod 16 * 16 + z div 4)] else None)
                      else (case b64_value d of
                              None \<Rightarrow> None
                            | Some w \<Rightarrow>
                                map_option (\<lambda>rest. [char_of (x * 4 + y div 16), char_of (y mod 16 * 16 + z div 4),
                                    char_of (z mod 4 * 64 + w)] @ rest) (decode_groups s)))))
      | _ \<Rightarrow> None)"
| "decode_groups _ = None"

definition line_break :: "char \<Rightarrow> bool" where
  "line_break c \<longleftrightarrow> c = CHR 0x0A \<or> c = CHR 0x0D"

definition base64_decode :: "string \<Rightarrow> string option" where
  "base64_decode s = decode_groups (filter (\<lambda>c. \<not> line_break c) s)"

lemma b64_value_char: "n < 64 \<Longrightarrow> b64_value (b64_char n) = Some n"
  by (auto simp: b64_char_def b64_value_def Let_def)

lemma b64_char_plain: "n < 64 \<Longrightarrow> b64_char n \<noteq> pad \<and> \<not> line_break (b64_char n)"
  using b64_value_char [of n] by (auto simp: b64_value_def line_break_def)

lemma byte_less [simp]: "of_char c < (256 :: nat)"
  by (metis nat_of_char_less_256 of_char_def)

lemma div_bound: "y < n * k \<Longrightarrow> y div k < (n :: nat)"
  by (rule less_mult_imp_div_less)

lemma b64_small:
  fixes y :: nat
  assumes "y < 256"
  shows "y div 4 < 64" "y div 16 < 16" "y div 64 < 4"
  using assms by (auto intro: div_bound)

lemma b64_parts [simp]:
  fixes x y z :: nat
  shows "x < 256 \<Longrightarrow> x div 4 < 64" "y < 256 \<Longrightarrow> x mod 4 * 16 + y div 16 < 64" "x mod 4 * 16 < 64" "y mod 16 * 4 < 64"
    "z < 256 \<Longrightarrow> y mod 16 * 4 + z div 64 < 64" "z mod 64 < 64"
  using mod_less_divisor [of 4 x] mod_less_divisor [of 16 y] mod_less_divisor [of 64 z] b64_small [of x] b64_small [of y]
    b64_small [of z]
  by linarith+

lemma b64_back:
  fixes y :: nat
  assumes "y < 256"
  shows "y div 16 div 16 = 0" "y div 16 mod 16 = y div 16" "y div 64 div 4 = 0" "y div 64 mod 4 = y div 64"
  using b64_small [OF assms] by simp_all

lemma decode_encode_groups: "decode_groups (base64_encode s) = Some s"
  by (induction s rule: base64_encode.induct) (simp_all add: b64_value_char b64_char_plain b64_back)

lemma encode_no_breaks: "c \<in> set (base64_encode s) \<Longrightarrow> \<not> line_break c"
  by (induction s rule: base64_encode.induct) (auto simp: b64_char_plain line_break_def [of pad])

lemma base64_round_trip: "base64_decode (base64_encode s) = Some s"
proof -
  have "filter (\<lambda>c. \<not> line_break c) (base64_encode s) = base64_encode s"
    by (rule filter_True) (use encode_no_breaks in blast)
  then show ?thesis by (simp add: base64_decode_def decode_encode_groups)
qed

text \<open>What a decoder can find in a text: the characters of the alphabet.\<close>

definition b64_weight :: "string \<Rightarrow> nat" where
  "b64_weight s = length (filter (\<lambda>c. b64_value c \<noteq> None \<or> c = pad) s)"

lemma decode_groups_length: "decode_groups s = Some d \<Longrightarrow> length d \<le> b64_weight s"
  by (induction s arbitrary: d rule: decode_groups.induct)
    (fastforce simp: b64_weight_def split: option.splits if_splits)+

lemma decoded_length: "base64_decode s = Some d \<Longrightarrow> length d \<le> b64_weight s"
proof -
  have "b64_weight (filter (\<lambda>c. \<not> line_break c) s) \<le> b64_weight s"
    by (induction s) (auto simp: b64_weight_def)
  then show "base64_decode s = Some d \<Longrightarrow> length d \<le> b64_weight s"
    using decode_groups_length by (fastforce simp: base64_decode_def)
qed

lemma decode_groups_alphabet: "decode_groups s = Some d \<Longrightarrow> c \<in> set s \<Longrightarrow> b64_value c \<noteq> None \<or> c = pad"
  by (induction s arbitrary: d rule: decode_groups.induct) (auto split: option.splits if_splits)

lemma star_not_base64: "star \<in> set s \<Longrightarrow> base64_decode s = None"
proof (rule ccontr)
  assume "star \<in> set s" "base64_decode s \<noteq> None"
  then have "b64_value star \<noteq> None \<or> star = pad"
    by (auto simp: base64_decode_def line_break_def dest: decode_groups_alphabet [of _ _ star])
  moreover have "b64_value star = None" by code_simp
  ultimately show False by simp
qed

lemma mask_word_not_base64 [simp]: "b64_weight mask_word = 0"
  by code_simp

section \<open>Sets of secrets\<close>

text \<open>
  A set of secrets with its forms in body text, the secret outputs masked by value, and what is
  masked by name. \<open>newSecretSet\<close> orders the secrets longest first; Go's sort leaves the order of
  equally long ones open, and what follows on masking holds for every order.
\<close>

record secret_set =
  ss_secrets :: "string list"
  ss_body_forms :: "string list"
  ss_learned :: "string set"
  ss_withheld :: "string set"
  ss_sealed :: "string set"

text \<open>How a JSON encoder writes a text between its quotes, with and without escaping for HTML.\<close>

record json_codec = json_text +
  escape_json :: "bool \<Rightarrow> string \<Rightarrow> string"

definition longest_first :: "string list \<Rightarrow> string list" where
  "longest_first ss = sort_key (\<lambda>s. - int (length s)) ss"

definition body_forms :: "'a json_codec_scheme \<Rightarrow> string list \<Rightarrow> string list" where
  "body_forms g secrets =
     longest_first (rev (remdups (rev (concat (map (\<lambda>s. [s, escape_json g True s, escape_json g False s]) secrets)))))"

definition new_secret_set ::
    "'a json_codec_scheme \<Rightarrow> string list \<Rightarrow> string set \<Rightarrow> string set \<Rightarrow> string set \<Rightarrow> secret_set" where
  "new_secret_set g secrets learned withheld sealed =
     (let sorted = longest_first secrets in
      \<lparr>ss_secrets = sorted, ss_body_forms = body_forms g sorted, ss_learned = learned, ss_withheld = withheld,
       ss_sealed = sealed\<rparr>)"

fun mask_all :: "string list \<Rightarrow> string \<Rightarrow> string" where
  "mask_all [] s = s"
| "mask_all (p # ps) s = mask_all ps (replace_all s p mask_word)"

definition set_text :: "secret_set \<Rightarrow> string \<Rightarrow> string" where
  "set_text S s = mask_all (ss_secrets S) s"

definition mask_text :: "secret_set \<Rightarrow> string \<Rightarrow> string" where
  "mask_text S s = mask_all (ss_body_forms S) s"

text \<open>Words masking can be exact about: not empty, and without the mask's own character.\<close>

definition plain_words :: "string list \<Rightarrow> bool" where
  "plain_words ps \<longleftrightarrow> (\<forall>p\<in>set ps. p \<noteq> [] \<and> star \<notin> set p)"

definition holds_word :: "string list \<Rightarrow> string \<Rightarrow> bool" where
  "holds_word ps s \<longleftrightarrow> (\<exists>p\<in>set ps. sublist p s)"

lemma mask_all_sublist:
  "[] \<notin> set ps \<Longrightarrow> star \<notin> set p \<Longrightarrow> sublist p (mask_all ps s) \<Longrightarrow> sublist p s"
proof (induction ps arbitrary: s)
  case (Cons q ps)
  then have "sublist p (replace_from q mask_word s)" and "q \<noteq> []" by (auto simp: replace_all_def)
  with Cons.prems(2) show ?case by (blast dest: sublist_of_masked)
qed simp

lemma mask_all_clean: "plain_words ps \<Longrightarrow> \<not> holds_word ps (mask_all ps s)"
proof (induction ps arbitrary: s)
  case (Cons p ps)
  have "\<not> sublist p (mask_all ps (replace_from p mask_word s))"
    using Cons.prems masked_word_gone [of p s] mask_all_sublist [of ps p "replace_from p mask_word s"]
    by (auto simp: plain_words_def)
  with Cons show ?case by (auto simp: plain_words_def holds_word_def replace_all_def)
qed (simp add: holds_word_def)

lemma replace_leaves_star: "old \<noteq> [] \<Longrightarrow> replace_from old mask_word s = s \<or> star \<in> set (replace_from old mask_word s)"
  by (induction s) (auto simp: mask_word_def split: option.splits)

lemma replace_keeps_star:
  "old \<noteq> [] \<Longrightarrow> star \<notin> set old \<Longrightarrow> star \<in> set s \<Longrightarrow> star \<in> set (replace_from old mask_word s)"
  using replace_leaves_star [of old s] by metis

lemma mask_all_keeps_star: "plain_words ps \<Longrightarrow> star \<in> set s \<Longrightarrow> star \<in> set (mask_all ps s)"
  by (induction ps arbitrary: s) (auto simp: plain_words_def replace_all_def replace_keeps_star)

lemma mask_all_same: "plain_words ps \<Longrightarrow> mask_all ps s = s \<or> star \<in> set (mask_all ps s)"
proof (induction ps arbitrary: s)
  case (Cons p ps)
  then have "plain_words ps" "p \<noteq> []" by (auto simp: plain_words_def)
  then show ?case
    using Cons.IH [of s] replace_leaves_star [of p s] mask_all_keeps_star [of ps "replace_from p mask_word s"]
    by (auto simp: replace_all_def)
qed simp

lemma mask_all_absent: "[] \<notin> set ps \<Longrightarrow> \<not> holds_word ps s \<Longrightarrow> mask_all ps s = s"
  by (induction ps) (auto simp: holds_word_def replace_all_def replace_absent)

lemma mask_word_clean: "plain_words ps \<Longrightarrow> \<not> holds_word ps mask_word"
  unfolding plain_words_def holds_word_def
  by (metis mask_word_set set_mono_sublist singletonD subset_eq last_in_set)

lemma mask_all_mask: "plain_words ps \<Longrightarrow> mask_all ps mask_word = mask_word"
  by (rule mask_all_absent) (auto simp: plain_words_def mask_word_clean)

lemma longest_first_set [simp]: "set (longest_first ss) = set ss"
  by (simp add: longest_first_def)

lemma longest_first_distinct [simp]: "distinct (longest_first ss) = distinct ss"
  by (simp add: longest_first_def)

lemma body_forms_set:
  "set (body_forms g ss) = (\<Union>s\<in>set ss. {s, escape_json g True s, escape_json g False s})"
  by (auto simp: body_forms_def)

end
