(* ===== verification/Redact.thy ===== *)
theory Redact
  imports Redact_Text
begin

text \<open>
  Masking of reports (\<open>pkg/redact/redact.go\<close>, \<open>result.go\<close>): the JSON tree a value is reported as, the
  masking of trees, of base64 response bodies, of errors and of node and flow results, and the
  learning of secret outputs while a run goes on.
\<close>

section \<open>Trees\<close>

text \<open>What \<open>jsonTree\<close> decodes to: numbers keep their text, objects have distinct keys.\<close>

datatype jtree =
    JNull
  | JBool bool
  | JNum string
  | JStr string
  | JArr "jtree list"
  | JObj "(string \<times> jtree) list"

text \<open>
  \<open>encoding/json\<close>: decoding a body, which fails for bytes that are not valid JSON, and encoding a
  tree. A decoded tree holds less text than the bytes it was read from; a decoder that broke this
  bound would count as failing.
\<close>

record tree_codec = json_codec +
  decode_tree :: "string \<Rightarrow> jtree option"
  encode_tree :: "jtree \<Rightarrow> string option"

fun tree_weight :: "jtree \<Rightarrow> nat" where
  "tree_weight (JStr s) = b64_weight s"
| "tree_weight (JArr ts) = sum_list (map tree_weight ts)"
| "tree_weight (JObj kvs) = sum_list (map (\<lambda>kv. tree_weight (snd kv)) kvs)"
| "tree_weight _ = 0"

fun tree_nodes :: "jtree \<Rightarrow> nat" where
  "tree_nodes (JArr ts) = Suc (sum_list (map tree_nodes ts))"
| "tree_nodes (JObj kvs) = Suc (sum_list (map (\<lambda>kv. tree_nodes (snd kv)) kvs))"
| "tree_nodes _ = 1"

definition decode_body :: "'a tree_codec_scheme \<Rightarrow> string \<Rightarrow> jtree option" where
  "decode_body g s =
     (case decode_tree g s of
        Some t \<Rightarrow> if tree_weight t < length s then Some t else None
      | None \<Rightarrow> None)"

section \<open>What is masked by name\<close>

definition output_ref :: "string \<Rightarrow> string \<Rightarrow> string" where
  "output_ref nodeID name = nodeID @ [dot] @ name"

definition refers_to_withheld :: "secret_set \<Rightarrow> string \<Rightarrow> bool" where
  "refers_to_withheld S key \<longleftrightarrow>
     list_ex (\<lambda>i. key ! i = dot \<and> take i key \<in> ss_withheld S) [0..<length key] \<or> key \<in> ss_withheld S"

definition kept_when_sealed :: "string \<Rightarrow> bool" where
  "kept_when_sealed field \<longleftrightarrow>
     field \<in> {''node_id'', ''display_name'', ''node_type'', ''run_when'', ''inputs'', ''outputs'',
       ''error_code'', ''error_message'', ''skip_reason'', ''missing_inputs'', ''executed_at'',
       ''duration_ms'', ''response_status_code'', ''http_calls'', ''assertion_results''}"

definition mask_by_name :: "secret_set \<Rightarrow> string \<Rightarrow> (string \<times> jtree) list \<Rightarrow> (string \<times> jtree) list" where
  "mask_by_name S nodeID kvs =
     map (\<lambda>(name, v). (name, if output_ref nodeID name \<in> ss_withheld S then JStr mask_word else v)) kvs"

fun mask_outputs_by_name :: "secret_set \<Rightarrow> string \<Rightarrow> jtree \<Rightarrow> jtree" where
  "mask_outputs_by_name S nodeID (JObj kvs) = JObj (mask_by_name S nodeID kvs)"
| "mask_outputs_by_name S nodeID v = v"

fun mask_compared :: "jtree \<Rightarrow> jtree" where
  "mask_compared (JObj kvs) =
     JObj (map (\<lambda>(k, v). (k, if k \<in> {''actual'', ''expected''} then JStr mask_word else v)) kvs)"
| "mask_compared v = v"

fun mask_compared_values :: "jtree \<Rightarrow> jtree" where
  "mask_compared_values (JArr ts) = JArr (map mask_compared ts)"
| "mask_compared_values v = v"

definition at_field :: "string \<Rightarrow> (jtree \<Rightarrow> jtree) \<Rightarrow> (string \<times> jtree) list \<Rightarrow> (string \<times> jtree) list" where
  "at_field name f kvs = map (\<lambda>(k, v). (k, if k = name then f v else v)) kvs"

definition seal :: "secret_set \<Rightarrow> (string \<times> jtree) list \<Rightarrow> (string \<times> jtree) list" where
  "seal S kvs =
     (case (map_of kvs ''node_id'', map_of kvs ''node_type'') of
        (Some (JStr nodeID), Some _) \<Rightarrow>
          (if nodeID \<notin> ss_sealed S then at_field ''outputs'' (mask_outputs_by_name S nodeID) kvs
           else at_field ''assertion_results'' mask_compared_values
                  (at_field ''outputs'' (mask_outputs_by_name S nodeID)
                    (filter (\<lambda>kv. kept_when_sealed (fst kv)) kvs)))
      | _ \<Rightarrow> kvs)"

text \<open>None of these makes a tree larger, counting nodes and counting what base64 could hold.\<close>

definition no_larger :: "(jtree \<Rightarrow> jtree) \<Rightarrow> bool" where
  "no_larger f \<longleftrightarrow> (\<forall>t. tree_weight (f t) \<le> tree_weight t \<and> tree_nodes (f t) \<le> tree_nodes t)"

lemma tree_nodes_pos [simp]: "Suc 0 \<le> tree_nodes t"
  by (cases t) auto

lemma sum_list_map_le: "(\<And>x. x \<in> set xs \<Longrightarrow> f x \<le> (g x :: nat)) \<Longrightarrow> sum_list (map f xs) \<le> sum_list (map g xs)"
  by (rule sum_list_mono)

lemma fields_no_larger:
  assumes "\<And>k v. tree_weight (f k v) \<le> tree_weight v \<and> tree_nodes (f k v) \<le> tree_nodes v"
  shows "tree_weight (JObj (map (\<lambda>(k, v). (k, f k v)) kvs)) \<le> tree_weight (JObj kvs)"
    and "tree_nodes (JObj (map (\<lambda>(k, v). (k, f k v)) kvs)) \<le> tree_nodes (JObj kvs)"
  using assms by (induction kvs) (auto intro: add_mono)

lemma mask_outputs_no_larger: "no_larger (mask_outputs_by_name S nodeID)"
  unfolding no_larger_def
proof
  fix t
  show "tree_weight (mask_outputs_by_name S nodeID t) \<le> tree_weight t \<and>
      tree_nodes (mask_outputs_by_name S nodeID t) \<le> tree_nodes t"
  proof (cases t)
    case (JObj kvs)
    show ?thesis
      unfolding JObj mask_outputs_by_name.simps mask_by_name_def
      by (intro conjI fields_no_larger [where f = "\<lambda>name v. if output_ref nodeID name \<in> ss_withheld S then JStr mask_word else v"])
        auto
  qed auto
qed

lemma mask_compared_no_larger: "no_larger mask_compared"
  unfolding no_larger_def
proof
  fix t
  show "tree_weight (mask_compared t) \<le> tree_weight t \<and> tree_nodes (mask_compared t) \<le> tree_nodes t"
  proof (cases t)
    case (JObj kvs)
    show ?thesis
      unfolding JObj mask_compared.simps
      by (intro conjI fields_no_larger [where f = "\<lambda>k v. if k \<in> {''actual'', ''expected''} then JStr mask_word else v"]) auto
  qed auto
qed

lemma compared_values_no_larger: "no_larger mask_compared_values"
  unfolding no_larger_def
proof
  fix t
  show "tree_weight (mask_compared_values t) \<le> tree_weight t \<and> tree_nodes (mask_compared_values t) \<le> tree_nodes t"
  proof (cases t)
    case (JArr ts)
    then show ?thesis
      using mask_compared_no_larger by (auto simp: no_larger_def comp_def intro!: sum_list_map_le)
  qed auto
qed

lemma at_field_no_larger:
  assumes "no_larger f"
  shows "tree_weight (JObj (at_field name f kvs)) \<le> tree_weight (JObj kvs)"
    and "tree_nodes (JObj (at_field name f kvs)) \<le> tree_nodes (JObj kvs)"
  unfolding at_field_def using assms
  by (auto simp: no_larger_def simp del: tree_weight.simps tree_nodes.simps
      intro!: fields_no_larger [where f = "\<lambda>k v. if k = name then f v else v"])

lemma filter_no_larger:
  "tree_weight (JObj (filter P kvs)) \<le> tree_weight (JObj kvs)" "tree_nodes (JObj (filter P kvs)) \<le> tree_nodes (JObj kvs)"
  by (induction kvs) (auto simp: trans_le_add2)

lemma seal_no_larger:
  "tree_weight (JObj (seal S kvs)) \<le> tree_weight (JObj kvs)" "tree_nodes (JObj (seal S kvs)) \<le> tree_nodes (JObj kvs)"
  using at_field_no_larger [OF mask_outputs_no_larger, of "''outputs''" S _ kvs]
    order_trans [OF at_field_no_larger(1) [OF compared_values_no_larger]
      order_trans [OF at_field_no_larger(1) [OF mask_outputs_no_larger] filter_no_larger(1)]]
    order_trans [OF at_field_no_larger(2) [OF compared_values_no_larger]
      order_trans [OF at_field_no_larger(2) [OF mask_outputs_no_larger] filter_no_larger(2)]]
  by (auto simp: seal_def simp del: tree_weight.simps tree_nodes.simps split: option.splits jtree.splits)

section \<open>Masking a tree\<close>

text \<open>
  \<open>maskBody\<close> and \<open>maskBase64\<close>; the masking of the decoded tree is an argument. A body in which
  nothing was masked keeps its bytes.
\<close>

definition mask_body :: "'a tree_codec_scheme \<Rightarrow> secret_set \<Rightarrow> (jtree \<Rightarrow> jtree) \<Rightarrow> string \<Rightarrow> string" where
  "mask_body g S mask_rec decoded =
     (case decode_body g decoded of
        None \<Rightarrow> mask_text S decoded
      | Some tree \<Rightarrow>
          (case encode_tree g tree of
             None \<Rightarrow> mask_text S decoded
           | Some before \<Rightarrow>
               (case encode_tree g (mask_rec tree) of
                  None \<Rightarrow> mask_word
                | Some after \<Rightarrow> if before = after then decoded else after)))"

definition mask_base64 :: "'a tree_codec_scheme \<Rightarrow> secret_set \<Rightarrow> (jtree \<Rightarrow> jtree) \<Rightarrow> string \<Rightarrow> string" where
  "mask_base64 g S mask_rec encoded =
     (case base64_decode encoded of
        None \<Rightarrow> mask_text S encoded
      | Some decoded \<Rightarrow>
          (let masked = mask_body g S mask_rec decoded in
           if masked \<noteq> decoded then base64_encode masked
           else if mask_text S encoded = encoded then encoded
           else base64_encode mask_word))"

lemma mask_base64_cong [fundef_cong]:
  "g = g' \<Longrightarrow> S = S' \<Longrightarrow> encoded = encoded' \<Longrightarrow>
   (\<And>d t. base64_decode encoded' = Some d \<Longrightarrow> decode_body g' d = Some t \<Longrightarrow> f t = f' t) \<Longrightarrow>
   mask_base64 g S f encoded = mask_base64 g' S' f' encoded'"
  by (auto simp: mask_base64_def mask_body_def Let_def split: option.splits)

text \<open>One field of an object: masked by name, as a response body, or as a tree.\<close>

definition mask_field :: "'a tree_codec_scheme \<Rightarrow> secret_set \<Rightarrow> (jtree \<Rightarrow> jtree) \<Rightarrow> string \<Rightarrow> jtree \<Rightarrow> jtree" where
  "mask_field g S mask_rec key item =
     (if refers_to_withheld S key then JStr mask_word
      else (case item of
              JStr encoded \<Rightarrow>
                if key = ''response_body'' then JStr (mask_base64 g S mask_rec encoded) else mask_rec item
            | _ \<Rightarrow> mask_rec item))"

lemma mask_field_cong [fundef_cong]:
  "g = g' \<Longrightarrow> S = S' \<Longrightarrow> key = key' \<Longrightarrow> item = item' \<Longrightarrow> (\<And>t. t = item' \<Longrightarrow> f t = f' t) \<Longrightarrow>
   (\<And>encoded d t. item' = JStr encoded \<Longrightarrow> base64_decode encoded = Some d \<Longrightarrow> decode_body g' d = Some t \<Longrightarrow> f t = f' t) \<Longrightarrow>
   mask_field g S f key item = mask_field g' S' f' key' item'"
  unfolding mask_field_def by (auto split: jtree.splits intro: mask_base64_cong)

function mask_tree :: "'a tree_codec_scheme \<Rightarrow> secret_set \<Rightarrow> jtree \<Rightarrow> jtree" where
  "mask_tree g S (JStr s) = JStr (set_text S s)"
| "mask_tree g S (JNum n) = (if n \<in> ss_learned S then JStr mask_word else JNum n)"
| "mask_tree g S (JArr ts) = JArr (map (\<lambda>t. mask_tree g S t) ts)"
| "mask_tree g S (JObj kvs) = JObj (map (\<lambda>kv. (fst kv, mask_field g S (\<lambda>t. mask_tree g S t) (fst kv) (snd kv))) (seal S kvs))"
| "mask_tree g S JNull = JNull"
| "mask_tree g S (JBool b) = JBool b"
  by pat_completeness auto

lemma element_smaller:
  "t \<in> set ts \<Longrightarrow> tree_weight t \<le> tree_weight (JArr ts) \<and> tree_nodes t < tree_nodes (JArr ts)"
  using member_le_sum_list [of "tree_weight t" "map tree_weight ts"] member_le_sum_list [of "tree_nodes t" "map tree_nodes ts"]
  by auto

lemma field_smaller:
  assumes "(k, v) \<in> set (seal S kvs)"
  shows "tree_weight v \<le> tree_weight (JObj kvs) \<and> tree_nodes v < tree_nodes (JObj kvs)"
proof -
  have "tree_weight v \<le> tree_weight (JObj (seal S kvs))" "tree_nodes v < tree_nodes (JObj (seal S kvs))"
    using assms member_le_sum_list [of "tree_weight v" "map (\<lambda>kv. tree_weight (snd kv)) (seal S kvs)"]
      member_le_sum_list [of "tree_nodes v" "map (\<lambda>kv. tree_nodes (snd kv)) (seal S kvs)"]
    by (force simp: less_Suc_eq_le)+
  then show ?thesis using seal_no_larger [of S kvs] by (meson le_trans less_le_trans)
qed

lemma body_lighter:
  assumes "base64_decode encoded = Some d" and "decode_body g d = Some t"
  shows "tree_weight t < b64_weight encoded"
  using decoded_length [OF assms(1)] assms(2) by (auto simp: decode_body_def split: option.splits if_splits)

termination mask_tree
proof (relation "measures [\<lambda>(g, S, t). tree_weight t, \<lambda>(g, S, t). tree_nodes t]", goal_cases)
  case (2 g S ts t)
  then show ?case using element_smaller [of t ts] by auto
next
  case (3 g S kvs kv t)
  then show ?case using field_smaller [of "fst kv" "snd kv" S kvs] by auto
next
  case (4 g S kvs kv encoded d t)
  then have "tree_weight (snd kv) \<le> tree_weight (JObj kvs)" using field_smaller by (metis prod.collapse)
  then show ?case using body_lighter [OF 4(3,4)] 4 by auto
qed simp

section \<open>What is left in a masked tree\<close>

text \<open>
  A clean tree: no text holds a secret, no number is a learned one, and a response body, decoded,
  holds no secret in any of its forms or is JSON whose tree is clean.
\<close>

abbreviation body_field :: string where "body_field \<equiv> ''response_body''"

inductive clean :: "'a tree_codec_scheme \<Rightarrow> secret_set \<Rightarrow> jtree \<Rightarrow> bool"
  and clean_field :: "'a tree_codec_scheme \<Rightarrow> secret_set \<Rightarrow> string \<Rightarrow> jtree \<Rightarrow> bool"
  for g :: "'a tree_codec_scheme" and S :: secret_set where
  clean_null: "clean g S JNull"
| clean_bool: "clean g S (JBool b)"
| clean_num: "n \<notin> ss_learned S \<Longrightarrow> clean g S (JNum n)"
| clean_str: "\<not> holds_word (ss_secrets S) s \<Longrightarrow> clean g S (JStr s)"
| clean_arr: "(\<And>t. t \<in> set ts \<Longrightarrow> clean g S t) \<Longrightarrow> clean g S (JArr ts)"
| clean_obj: "(\<And>k v. (k, v) \<in> set kvs \<Longrightarrow> clean_field g S k v) \<Longrightarrow> clean g S (JObj kvs)"
| field_tree: "clean g S v \<Longrightarrow> k \<noteq> body_field \<or> (\<forall>s. v \<noteq> JStr s) \<Longrightarrow> clean_field g S k v"
| field_text: "base64_decode e = None \<Longrightarrow> \<not> holds_word (ss_body_forms S) e \<Longrightarrow> clean_field g S body_field (JStr e)"
| field_bytes: "base64_decode e = Some d \<Longrightarrow> \<not> holds_word (ss_body_forms S) d \<Longrightarrow> clean_field g S body_field (JStr e)"
| field_json: "base64_decode e = Some d \<Longrightarrow> decode_body g d = Some t \<Longrightarrow> clean g S t \<Longrightarrow> clean_field g S body_field (JStr e)"

inductive_simps clean_simps:
  "clean g S JNull" "clean g S (JBool b)" "clean g S (JNum n)" "clean g S (JStr s)" "clean g S (JArr ts)" "clean g S (JObj kvs)"

inductive_simps clean_field_iff: "clean_field g S k v"

lemma mask_word_no_base64: "base64_decode mask_word = None"
  by code_simp

lemma mask_word_field: "plain_words (ss_secrets S) \<Longrightarrow> plain_words (ss_body_forms S) \<Longrightarrow> clean_field g S k (JStr mask_word)"
  by (cases "k = body_field") (auto simp: clean_field_iff clean_simps mask_word_clean mask_word_no_base64)

lemma body_clean:
  assumes words: "plain_words (ss_body_forms S)"
    and rec: "\<And>t. decode_body g d = Some t \<Longrightarrow> clean g S (f t)"
    and codec: "\<And>t u x. decode_body g d = Some t \<Longrightarrow> u = t \<or> u = f t \<Longrightarrow> encode_tree g u = Some x \<Longrightarrow> decode_body g x = Some u"
  shows "\<not> holds_word (ss_body_forms S) (mask_body g S f d) \<or>
     (\<exists>t. decode_body g (mask_body g S f d) = Some t \<and> clean g S t)"
proof (cases "decode_body g d")
  case (Some t)
  then show ?thesis
    using rec [OF Some] codec [OF Some, of t] codec [OF Some, of "f t"] mask_all_clean [OF words] mask_word_clean [OF words]
    by (auto simp: mask_body_def mask_text_def split: option.splits)
qed (simp add: mask_body_def mask_text_def mask_all_clean [OF words])

lemma base64_clean:
  assumes words: "plain_words (ss_body_forms S)"
    and rec: "\<And>d t. base64_decode e = Some d \<Longrightarrow> decode_body g d = Some t \<Longrightarrow> clean g S (f t)"
    and codec: "\<And>d t u x. decode_body g d = Some t \<Longrightarrow> u = t \<or> u = f t \<Longrightarrow> encode_tree g u = Some x \<Longrightarrow>
      decode_body g x = Some u"
  shows "clean_field g S body_field (JStr (mask_base64 g S f e))"
proof (cases "base64_decode e")
  case None
  then have m: "mask_base64 g S f e = mask_text S e" by (simp add: mask_base64_def)
  have n: "\<not> holds_word (ss_body_forms S) (mask_text S e)" by (simp add: mask_text_def mask_all_clean [OF words])
  have "base64_decode (mask_text S e) = None"
    using None mask_all_same [OF words, of e] star_not_base64 by (auto simp: mask_text_def)
  with n show ?thesis unfolding m by (rule field_text [rotated])
next
  case (Some d)
  have "\<not> holds_word (ss_body_forms S) (mask_body g S f d) \<or>
     (\<exists>t. decode_body g (mask_body g S f d) = Some t \<and> clean g S t)"
    by (rule body_clean [OF words rec [OF Some] codec])
  then show ?thesis
    using Some mask_word_clean [OF words]
    by (auto simp: mask_base64_def Let_def base64_round_trip clean_field_iff)
qed

text \<open>
  Encoding a tree that was decoded, or the masked form of one, and decoding it again gives the tree.
\<close>

definition faithful_codec :: "'a tree_codec_scheme \<Rightarrow> secret_set \<Rightarrow> bool" where
  "faithful_codec g S \<longleftrightarrow>
     (\<forall>d t u x. decode_body g d = Some t \<and> (u = t \<or> u = mask_tree g S t) \<and> encode_tree g u = Some x \<longrightarrow>
        decode_body g x = Some u)"

lemma mask_tree_clean:
  fixes g :: "'a tree_codec_scheme"
  assumes words: "plain_words (ss_secrets S)" "plain_words (ss_body_forms S)" and codec: "faithful_codec g S"
  shows "clean g S (mask_tree g S t)"
  using words codec
proof (induction g S t rule: mask_tree.induct)
  case (4 g S kvs)
  note ok = 4(3-5)
  have "clean_field g S k (mask_field g S (mask_tree g S) k v)" if kv: "(k, v) \<in> set (seal S kvs)" for k v
  proof (cases "k = body_field \<and> (\<exists>e. v = JStr e) \<and> \<not> refers_to_withheld S k")
    case True
    then obtain e where e: "v = JStr e" by blast
    have "clean_field g S body_field (JStr (mask_base64 g S (mask_tree g S) e))"
    proof (rule base64_clean [OF ok(2)])
      fix d t assume "base64_decode e = Some d" "decode_body g d = Some t"
      then show "clean g S (mask_tree g S t)" using 4(2) [OF kv, of e d t] ok e by simp
    next
      fix d t u x assume "decode_body g d = Some t" "u = t \<or> u = mask_tree g S t" "encode_tree g u = Some x"
      then show "decode_body g x = Some u" using ok(3) unfolding faithful_codec_def by blast
    qed
    with e conjunct1 [OF True] conjunct2 [OF conjunct2 [OF True]] show ?thesis by (auto simp: mask_field_def)
  next
    case False
    have rest: "mask_field g S (mask_tree g S) k v = (if refers_to_withheld S k then JStr mask_word else mask_tree g S v)"
      using False by (auto simp: mask_field_def split: jtree.splits)
    have "clean_field g S k (mask_tree g S v)" if named: "\<not> refers_to_withheld S k"
    proof (cases "mask_tree g S v = JStr mask_word")
      case masked: False
      then have "k \<noteq> body_field \<or> (\<forall>s. mask_tree g S v \<noteq> JStr s)" using named False by (cases v) auto
      moreover have "clean g S (mask_tree g S v)" using 4(1) [OF kv, of v] ok by simp
      ultimately show ?thesis by (rule field_tree [rotated])
    qed (simp add: mask_word_field [OF ok(1,2)])
    with rest show ?thesis by (simp add: mask_word_field [OF ok(1,2)])
  qed
  then show ?case by (auto simp: clean_simps)
qed (auto simp: clean_simps set_text_def mask_all_clean mask_word_clean)

section \<open>Values, errors and results\<close>

text \<open>
  \<open>value\<close> and \<open>mapValues\<close> of what \<open>jsonTree\<close> made of a value: \<open>None\<close> is a value it cannot normalise,
  null a nil map.
\<close>

definition mask_value :: "'a tree_codec_scheme \<Rightarrow> secret_set \<Rightarrow> jtree option \<Rightarrow> jtree" where
  "mask_value g S v = (case v of None \<Rightarrow> JStr mask_word | Some JNull \<Rightarrow> JNull | Some t \<Rightarrow> mask_tree g S t)"

definition mask_values :: "'a tree_codec_scheme \<Rightarrow> secret_set \<Rightarrow> jtree option \<Rightarrow> jtree" where
  "mask_values g S v =
     (if v = Some JNull then JNull
      else (case mask_value g S v of JObj kvs \<Rightarrow> JObj kvs | _ \<Rightarrow> JObj []))"

definition mask_error :: "secret_set \<Rightarrow> go_error \<Rightarrow> go_error" where
  "mask_error S err =
     (let masked = set_text S (error_text err) in
      if masked = error_text err then err
      else (case as_user_error err of
              Some (code, msg) \<Rightarrow> UserError code (set_text S msg) None
            | None \<Rightarrow> PlainError masked))"

text \<open>A node result as reports see it: the common fields, and the tree of the whole result.\<close>

record node_report =
  np_node_id :: string
  np_display_name :: string
  np_node_type :: string
  np_inputs :: "jtree option"
  np_outputs :: "jtree option"
  np_error :: "go_error option"
  np_executed_at :: string
  np_tree :: "jtree option"

record masked_report =
  mp_node_id :: string
  mp_display_name :: string
  mp_node_type :: string
  mp_inputs :: jtree
  mp_outputs :: jtree
  mp_error :: "go_error option"
  mp_executed_at :: string
  mp_encoded :: string

definition own_fields :: "string list" where
  "own_fields =
     [''node_id'', ''node_type'', ''run_when'', ''error_code'', ''executed_at'', ''duration_ms'',
      ''response_status_code'', ''attempts'', ''iterations'', ''event_count'', ''delay_ms'']"

definition identity_fields :: "(string \<times> jtree) list \<Rightarrow> (string \<rightharpoonup> jtree)" where
  "identity_fields kvs = map_of (filter (\<lambda>kv. fst kv \<in> set own_fields) kvs)"

definition restore_fields :: "(string \<rightharpoonup> jtree) \<Rightarrow> (string \<times> jtree) list \<Rightarrow> (string \<times> jtree) list" where
  "restore_fields identity kvs =
     map (\<lambda>(k, v). (k, case identity k of Some own \<Rightarrow> own | None \<Rightarrow> v)) kvs"

definition strings_only :: "secret_set \<Rightarrow> secret_set" where
  "strings_only S = S\<lparr>ss_learned := {}\<rparr>"

text \<open>\<open>maskResultTree\<close>: the result without its call counters, then the fields the runner writes itself.\<close>

fun mask_result_tree :: "'a tree_codec_scheme \<Rightarrow> secret_set \<Rightarrow> jtree \<Rightarrow> jtree" where
  "mask_result_tree g S (JObj kvs) =
     (case mask_tree g S (JObj (filter (\<lambda>kv. fst kv \<noteq> ''http_calls'') kvs)) of
        JObj masked \<Rightarrow>
          (let own = restore_fields (identity_fields kvs) masked in
           JObj (case map_of kvs ''http_calls'' of
                   None \<Rightarrow> own
                 | Some JNull \<Rightarrow> own
                 | Some calls \<Rightarrow> own @ [(''http_calls'', mask_tree g (strings_only S) calls)]))
      | t \<Rightarrow> t)"
| "mask_result_tree g S t = mask_tree g S t"

definition mask_outputs :: "'a tree_codec_scheme \<Rightarrow> secret_set \<Rightarrow> string \<Rightarrow> jtree option \<Rightarrow> jtree" where
  "mask_outputs g S nodeID v = mask_outputs_by_name S nodeID (mask_values g S v)"

definition base_tree :: "masked_report \<Rightarrow> jtree" where
  "base_tree m =
     JObj [(''node_id'', JStr (mp_node_id m)), (''display_name'', JStr (mp_display_name m)),
       (''node_type'', JStr (mp_node_type m)), (''inputs'', mp_inputs m), (''outputs'', mp_outputs m),
       (''executed_at'', JStr (mp_executed_at m))]"

definition encode_masked :: "'a tree_codec_scheme \<Rightarrow> secret_set \<Rightarrow> node_report \<Rightarrow> masked_report \<Rightarrow> string" where
  "encode_masked g S r base =
     (let fallback = (case encode_tree g (base_tree base) of Some s \<Rightarrow> s | None \<Rightarrow> [CHR 0x7B, CHR 0x7D]) in
      case np_tree r of
        None \<Rightarrow> fallback
      | Some t \<Rightarrow> (case encode_tree g (mask_result_tree g S t) of Some s \<Rightarrow> s | None \<Rightarrow> fallback))"

definition set_result :: "'a tree_codec_scheme \<Rightarrow> secret_set \<Rightarrow> node_report \<Rightarrow> masked_report" where
  "set_result g S r =
     (let base = \<lparr>mp_node_id = np_node_id r, mp_display_name = np_display_name r, mp_node_type = np_node_type r,
                  mp_inputs = mask_values g S (np_inputs r), mp_outputs = mask_outputs g S (np_node_id r) (np_outputs r),
                  mp_error = map_option (mask_error S) (np_error r), mp_executed_at = np_executed_at r,
                  mp_encoded = []\<rparr>
      in base\<lparr>mp_encoded := encode_masked g S r base\<rparr>)"

section \<open>Masking by name\<close>

lemma masked_fields:
  "mask_tree g S (JObj kvs) = JObj flds \<Longrightarrow> (k, v) \<in> set flds \<Longrightarrow>
   \<exists>u. (k, u) \<in> set (seal S kvs) \<and> v = mask_field g S (mask_tree g S) k u"
  by force

lemma mask_tree_mask: "plain_words (ss_secrets S) \<Longrightarrow> mask_tree g S (JStr mask_word) = JStr mask_word"
  by (simp add: set_text_def mask_all_mask)

lemma seal_keeps_mask:
  assumes "(name, u) \<in> set (seal S (mask_by_name S nodeID kvs))" and "output_ref nodeID name \<in> ss_withheld S"
  shows "u = JStr mask_word"
proof -
  have masked: "v = JStr mask_word" if "(name, v) \<in> set (mask_by_name S nodeID kvs)" for v
    using that assms(2) by (auto simp: mask_by_name_def)
  show ?thesis using assms(1)
    by (auto simp: seal_def at_field_def split: option.splits jtree.splits if_splits dest: masked)
qed

lemma withheld_stays_masked:
  assumes words: "plain_words (ss_secrets S)" "plain_words (ss_body_forms S)"
    and masked: "mask_tree g S (JObj (mask_by_name S nodeID kvs)) = JObj flds"
    and field: "(name, v) \<in> set flds" and ref: "output_ref nodeID name \<in> ss_withheld S"
  shows "v = JStr mask_word"
proof -
  obtain u where u: "(name, u) \<in> set (seal S (mask_by_name S nodeID kvs))" and v: "v = mask_field g S (mask_tree g S) name u"
    using masked_fields [OF masked field] by blast
  have "u = JStr mask_word" by (rule seal_keeps_mask [OF u ref])
  moreover have "mask_base64 g S (mask_tree g S) mask_word = mask_word"
    by (simp add: mask_base64_def mask_word_no_base64 mask_text_def mask_all_mask [OF words(2)])
  ultimately show ?thesis using v mask_tree_mask [OF words(1)] by (simp add: mask_field_def)
qed

text \<open>The fields of a node result after sealing: its outputs are masked by name, and a sealed node keeps few.\<close>

lemma sealed_field:
  assumes "map_of kvs ''node_id'' = Some (JStr nodeID)" "map_of kvs ''node_type'' = Some t" "(k, u) \<in> set (seal S kvs)"
  shows "(nodeID \<in> ss_sealed S \<longrightarrow> kept_when_sealed k) \<and>
     (k = ''outputs'' \<longrightarrow> (\<exists>v. u = mask_outputs_by_name S nodeID v)) \<and>
     (nodeID \<in> ss_sealed S \<and> k = ''assertion_results'' \<longrightarrow> (\<exists>v. u = mask_compared_values v))"
  using assms by (auto simp: seal_def at_field_def split: if_splits)

lemma map_of_filter_key: "P k \<Longrightarrow> map_of (filter (\<lambda>kv. P (fst kv)) kvs) k = map_of kvs k"
  by (induction kvs) auto

lemma identity_fields_at: "identity_fields kvs k = (if k \<in> set own_fields then map_of kvs k else None)"
  using map_of_filter_key [of "\<lambda>k. k \<in> set own_fields" k kvs]
  by (auto simp: identity_fields_def map_of_eq_None_iff)

lemma seal_keys: "(k, u) \<in> set (seal S kvs) \<Longrightarrow> k \<in> fst ` set kvs"
  by (force simp: seal_def at_field_def split: option.splits jtree.splits if_splits)

section \<open>The redactor of a run\<close>

text \<open>
  The state of a \<open>Redactor\<close>. Its lock makes every operation atomic; a snapshot is known by the number
  of changes before it, and the cache holds masked results by the address of the original.
\<close>

record redactor =
  rd_current :: "secret_set option"
  rd_known :: "string set"
  rd_learned :: nat
  rd_version :: nat
  rd_cache :: "nat \<rightharpoonup> nat \<times> masked_report"

definition min_learned_length :: nat where
  "min_learned_length = 6"

definition max_learned_values :: nat where
  "max_learned_values = 500"

definition empty_redactor :: redactor where
  "empty_redactor = \<lparr>rd_current = None, rd_known = {}, rd_learned = 0, rd_version = 0, rd_cache = Map.empty\<rparr>"

text \<open>\<open>NewFromSources\<close>: the text of every secret input, each once.\<close>

fun source_secrets :: "go_text \<Rightarrow> (string \<Rightarrow> gval option) \<Rightarrow> string list \<Rightarrow> string list \<Rightarrow> string list" where
  "source_secrets g inputs [] secrets = secrets"
| "source_secrets g inputs (key # keys) secrets =
     (case inputs key of
        None \<Rightarrow> source_secrets g inputs keys secrets
      | Some v \<Rightarrow>
          (let t = value_text g v in
           if v = GNil \<or> t = [] \<or> t \<in> set secrets then source_secrets g inputs keys secrets
           else source_secrets g inputs keys (secrets @ [t])))"

definition new_from_sources ::
    "'a json_codec_scheme \<Rightarrow> ((string \<Rightarrow> gval option) \<times> string list) list \<Rightarrow> redactor option" where
  "new_from_sources g sources =
     (let secrets = fold (\<lambda>(inputs, keys). source_secrets (go_text.truncate g) inputs keys) sources [] in
      if secrets = [] then None
      else Some (empty_redactor\<lparr>rd_current := Some (new_secret_set g secrets {} {} {}), rd_known := set secrets\<rparr>))"

definition leaf_text :: "'a json_text_scheme \<Rightarrow> gval \<Rightarrow> string" where
  "leaf_text g v =
     (let plain = value_text (go_text.truncate g) v;
          encoded = (case marshal_json g v of Inr s \<Rightarrow> s | Inl e \<Rightarrow> plain) in
      case v of GBool b \<Rightarrow> encoded | GInt i \<Rightarrow> encoded | GFloat x \<Rightarrow> encoded | _ \<Rightarrow> plain)"

fun leaf_texts :: "'a json_text_scheme \<Rightarrow> gval \<Rightarrow> string list" where
  "leaf_texts g GNil = []"
| "leaf_texts g (GMap kvs) = concat (map (\<lambda>kv. leaf_texts g (snd kv)) kvs)"
| "leaf_texts g (GList vs) = concat (map (\<lambda>v. leaf_texts g v) vs)"
| "leaf_texts g v = (if leaf_text g v = [] then [] else [leaf_text g v])"

text \<open>The loop of \<open>LearnOutput\<close>: what becomes known and fresh, and whether the output is withheld.\<close>

fun learn_leaves ::
    "nat \<Rightarrow> string list \<Rightarrow> string set \<Rightarrow> string list \<Rightarrow> bool \<Rightarrow> string set \<times> string list \<times> bool" where
  "learn_leaves learned [] known fresh withheld = (known, fresh, withheld)"
| "learn_leaves learned (t # ts) known fresh withheld =
     (if t \<in> known then learn_leaves learned ts known fresh withheld
      else if rune_count t < min_learned_length \<or> max_learned_values \<le> learned + length fresh
      then learn_leaves learned ts known fresh True
      else learn_leaves learned ts (insert t known) (fresh @ [t]) withheld)"

definition secrets_of :: "secret_set option \<Rightarrow> string list" where
  "secrets_of so = (case so of Some S \<Rightarrow> ss_secrets S | None \<Rightarrow> [])"

definition names_of :: "(secret_set \<Rightarrow> string set) \<Rightarrow> secret_set option \<Rightarrow> string set" where
  "names_of f so = (case so of Some S \<Rightarrow> f S | None \<Rightarrow> {})"

definition set_with ::
    "'a json_codec_scheme \<Rightarrow> secret_set option \<Rightarrow> string list \<Rightarrow> bool \<Rightarrow> string \<Rightarrow> string \<Rightarrow> secret_set" where
  "set_with g so fresh withheld nodeID name =
     new_secret_set g (secrets_of so @ fresh) (names_of ss_learned so \<union> set fresh)
       (if withheld then insert (output_ref nodeID name) (names_of ss_withheld so) else names_of ss_withheld so)
       (if withheld then insert nodeID (names_of ss_sealed so) else names_of ss_sealed so)"

definition learn_output :: "'a json_codec_scheme \<Rightarrow> string \<Rightarrow> string \<Rightarrow> gval \<Rightarrow> redactor \<Rightarrow> redactor" where
  "learn_output g nodeID name v r =
     (case learn_leaves (rd_learned r) (leaf_texts g v) (rd_known r) [] False of
        (known, fresh, withheld) \<Rightarrow>
          if fresh = [] \<and> \<not> withheld then r
          else r\<lparr>rd_known := known, rd_learned := rd_learned r + length fresh,
                 rd_current := Some (set_with g (rd_current r) fresh withheld nodeID name),
                 rd_version := Suc (rd_version r)\<rparr>)"

definition with_withheld :: "'a json_codec_scheme \<Rightarrow> secret_set option \<Rightarrow> string \<Rightarrow> secret_set" where
  "with_withheld g so ref =
     (case so of
        None \<Rightarrow> new_secret_set g [] {} {ref} {}
      | Some S \<Rightarrow> S\<lparr>ss_withheld := insert ref (ss_withheld S)\<rparr>)"

definition withhold :: "'a json_codec_scheme \<Rightarrow> string \<Rightarrow> string \<Rightarrow> redactor \<Rightarrow> redactor" where
  "withhold g nodeID name r =
     r\<lparr>rd_current := Some (with_withheld g (rd_current r) (output_ref nodeID name)), rd_version := Suc (rd_version r)\<rparr>"

definition is_withheld :: "redactor \<Rightarrow> string \<Rightarrow> bool" where
  "is_withheld r ref \<longleftrightarrow> ref \<in> names_of ss_withheld (rd_current r)"

text \<open>
  \<open>maskResult\<close> of the result at an address: \<open>None\<close> is the original, reported as it is by a run that
  masks nothing.
\<close>

definition mask_result ::
    "'a tree_codec_scheme \<Rightarrow> nat \<Rightarrow> node_report \<Rightarrow> redactor \<Rightarrow> masked_report option \<times> redactor" where
  "mask_result g addr result r =
     (case rd_current r of
        None \<Rightarrow> (None, r)
      | Some S \<Rightarrow>
          (case rd_cache r addr of
             Some (version, masked) \<Rightarrow>
               (if version = rd_version r then (Some masked, r)
                else (Some (set_result g S result),
                      r\<lparr>rd_cache := (rd_cache r)(addr \<mapsto> (rd_version r, set_result g S result))\<rparr>))
           | None \<Rightarrow> (Some (set_result g S result),
                      r\<lparr>rd_cache := (rd_cache r)(addr \<mapsto> (rd_version r, set_result g S result))\<rparr>)))"

section \<open>What a redactor keeps\<close>

definition learned_ok :: "'a json_codec_scheme \<Rightarrow> redactor \<Rightarrow> bool" where
  "learned_ok g r \<longleftrightarrow>
     [] \<notin> rd_known r \<and> set (secrets_of (rd_current r)) = rd_known r \<and> distinct (secrets_of (rd_current r)) \<and>
     names_of ss_learned (rd_current r) \<subseteq> rd_known r \<and>
     card (names_of ss_learned (rd_current r)) = rd_learned r \<and> rd_learned r \<le> max_learned_values \<and>
     (\<forall>t\<in>names_of ss_learned (rd_current r). min_learned_length \<le> rune_count t) \<and>
     (\<forall>S. rd_current r = Some S \<longrightarrow> ss_body_forms S = body_forms g (ss_secrets S))"

definition cache_ok :: "'a tree_codec_scheme \<Rightarrow> (nat \<Rightarrow> node_report) \<Rightarrow> redactor \<Rightarrow> bool" where
  "cache_ok g heap r \<longleftrightarrow>
     (\<forall>addr version masked. rd_cache r addr = Some (version, masked) \<longrightarrow>
        version \<le> rd_version r \<and>
        (version = rd_version r \<longrightarrow> (\<exists>S. rd_current r = Some S \<and> masked = set_result g S (heap addr))))"

definition redactor_ok :: "'a tree_codec_scheme \<Rightarrow> (nat \<Rightarrow> node_report) \<Rightarrow> redactor \<Rightarrow> bool" where
  "redactor_ok g heap r \<longleftrightarrow> learned_ok g r \<and> cache_ok g heap r"

datatype redact_action = Learn string string gval | Withhold string string | Report nat

fun redact_perform :: "'a tree_codec_scheme \<Rightarrow> (nat \<Rightarrow> node_report) \<Rightarrow> redact_action \<Rightarrow> redactor \<Rightarrow> redactor" where
  "redact_perform g heap (Learn nodeID name v) r = learn_output g nodeID name v r"
| "redact_perform g heap (Withhold nodeID name) r = withhold g nodeID name r"
| "redact_perform g heap (Report addr) r = snd (mask_result g addr (heap addr) r)"

inductive redact_step :: "'a tree_codec_scheme \<Rightarrow> (nat \<Rightarrow> node_report) \<Rightarrow> redactor \<Rightarrow> redactor \<Rightarrow> bool" for g heap where
  redact_stepI: "redact_step g heap r (redact_perform g heap a r)"

inductive_cases redact_stepE: "redact_step g heap r r'"

definition redact_start :: "'a json_codec_scheme \<Rightarrow> redactor \<Rightarrow> bool" where
  "redact_start g r \<longleftrightarrow> r = empty_redactor \<or> (\<exists>sources. new_from_sources g sources = Some r)"

lemma leaf_texts_nonempty: "t \<in> set (leaf_texts g v) \<Longrightarrow> t \<noteq> []"
  by (induction g v rule: leaf_texts.induct) (auto split: if_splits)

lemma source_secrets_ok:
  "distinct secrets \<Longrightarrow> [] \<notin> set secrets \<Longrightarrow>
   distinct (source_secrets g inputs keys secrets) \<and> [] \<notin> set (source_secrets g inputs keys secrets)"
  by (induction g inputs keys secrets rule: source_secrets.induct) (auto simp: Let_def split: option.splits)

lemma sources_ok:
  "distinct secrets \<Longrightarrow> [] \<notin> set secrets \<Longrightarrow>
   distinct (fold (\<lambda>(inputs, keys). source_secrets g inputs keys) sources secrets) \<and>
   [] \<notin> set (fold (\<lambda>(inputs, keys). source_secrets g inputs keys) sources secrets)"
proof (induction sources arbitrary: secrets)
  case (Cons src sources)
  then show ?case using source_secrets_ok [of secrets g "fst src" "snd src"] by (cases src) simp
qed simp

lemma learn_leaves_spec:
  assumes "learn_leaves n ts known fresh w = (known', fresh', w')"
  shows "\<exists>more. fresh' = fresh @ more \<and> known' = known \<union> set more \<and> distinct more \<and> set more \<inter> known = {} \<and>
     set more \<subseteq> set ts \<and> (\<forall>t\<in>set more. min_learned_length \<le> rune_count t) \<and>
     (n + length fresh \<le> max_learned_values \<longrightarrow> n + length fresh' \<le> max_learned_values) \<and>
     (w \<longrightarrow> w') \<and> (\<forall>t\<in>set ts. t \<in> known' \<or> w')"
  using assms
proof (induction ts arbitrary: known fresh w)
  case (Cons t ts)
  consider "t \<in> known" | "t \<notin> known" "rune_count t < min_learned_length \<or> max_learned_values \<le> n + length fresh"
    | "t \<notin> known" "min_learned_length \<le> rune_count t" "n + length fresh < max_learned_values" by linarith
  then show ?case
  proof cases
    case 1
    with Cons.prems have "learn_leaves n ts known fresh w = (known', fresh', w')" by simp
    from Cons.IH [OF this] 1 show ?thesis by force
  next
    case 2
    with Cons.prems have "learn_leaves n ts known fresh True = (known', fresh', w')" by simp
    from Cons.IH [OF this] show ?thesis by force
  next
    case 3
    with Cons.prems have "learn_leaves n ts (insert t known) (fresh @ [t]) w = (known', fresh', w')" by simp
    from Cons.IH [OF this] obtain more where
      "fresh' = (fresh @ [t]) @ more" "known' = insert t known \<union> set more" "distinct more" "set more \<inter> insert t known = {}"
      "set more \<subseteq> set ts" "\<forall>t\<in>set more. min_learned_length \<le> rune_count t"
      "n + length (fresh @ [t]) \<le> max_learned_values \<longrightarrow> n + length fresh' \<le> max_learned_values"
      "w \<longrightarrow> w'" "\<forall>t\<in>set ts. t \<in> known' \<or> w'" by blast
    with 3 show ?thesis by (intro exI [of _ "t # more"]) auto
  qed
qed auto

lemma set_with_simps [simp]:
  "ss_secrets (set_with g so fresh w n nm) = longest_first (secrets_of so @ fresh)"
  "ss_body_forms (set_with g so fresh w n nm) = body_forms g (longest_first (secrets_of so @ fresh))"
  "ss_learned (set_with g so fresh w n nm) = names_of ss_learned so \<union> set fresh"
  "ss_withheld (set_with g so fresh w n nm) = (if w then {output_ref n nm} else {}) \<union> names_of ss_withheld so"
  "ss_sealed (set_with g so fresh w n nm) = (if w then {n} else {}) \<union> names_of ss_sealed so"
  by (auto simp: set_with_def new_secret_set_def Let_def)

lemma learn_output_ok:
  assumes "learned_ok g r"
  shows "learned_ok g (learn_output g nodeID name v r)"
proof -
  obtain known fresh w where l: "learn_leaves (rd_learned r) (leaf_texts g v) (rd_known r) [] False = (known, fresh, w)"
    by (cases "learn_leaves (rd_learned r) (leaf_texts g v) (rd_known r) [] False")
  have sp: "known = rd_known r \<union> set fresh" "distinct fresh" "set fresh \<inter> rd_known r = {}" "set fresh \<subseteq> set (leaf_texts g v)"
    "\<forall>t\<in>set fresh. min_learned_length \<le> rune_count t" "rd_learned r + length fresh \<le> max_learned_values"
    using learn_leaves_spec [OF l] assms by (auto simp: learned_ok_def)
  have fin: "finite (names_of ss_learned (rd_current r))"
    using assms finite_subset [of _ "rd_known r"] unfolding learned_ok_def by (metis List.finite_set)
  have "names_of ss_learned (rd_current r) \<inter> set fresh = {}" using sp(3) assms by (auto simp: learned_ok_def)
  then have "card (names_of ss_learned (rd_current r) \<union> set fresh) = rd_learned r + length fresh"
    using card_Un_disjoint [OF fin, of "set fresh"] sp(2) assms by (simp add: learned_ok_def distinct_card)
  then show ?thesis
    using assms sp leaf_texts_nonempty [of _ g v]
    by (auto simp: learn_output_def l learned_ok_def secrets_of_def [of "Some _"] names_of_def [of _ "Some _"])
qed

lemma withhold_ok: "learned_ok g r \<Longrightarrow> learned_ok g (withhold g nodeID name r)"
  by (auto simp: learned_ok_def withhold_def with_withheld_def secrets_of_def names_of_def new_secret_set_def Let_def
      longest_first_def split: option.splits)

lemma start_ok: "redact_start g r \<Longrightarrow> learned_ok g r \<and> rd_cache r = Map.empty"
  using sources_ok [of "[]" "go_text.truncate g"]
  by (auto simp: redact_start_def empty_redactor_def learned_ok_def secrets_of_def names_of_def new_from_sources_def
      new_secret_set_def Let_def split: if_splits)

lemma redactor_stable:
  "rd_cache (learn_output g nodeID name v r) = rd_cache r \<and>
   (learn_output g nodeID name v r = r \<or> rd_version (learn_output g nodeID name v r) = Suc (rd_version r))"
  by (auto simp: learn_output_def split: prod.splits)

lemma perform_learned_ok: "learned_ok g r \<Longrightarrow> learned_ok g (redact_perform g heap a r)"
proof (cases a)
  case (Report addr)
  then show "learned_ok g r \<Longrightarrow> ?thesis"
    by (auto simp: mask_result_def learned_ok_def split: option.splits)
qed (simp_all add: learn_output_ok withhold_ok)

lemma perform_cache_ok:
  assumes "cache_ok g heap r"
  shows "cache_ok g heap (redact_perform g heap a r)"
proof (cases a)
  case (Learn nodeID name v)
  then show ?thesis using assms redactor_stable [of g nodeID name v r] by (fastforce simp: cache_ok_def)
next
  case (Withhold nodeID name)
  then show ?thesis using assms by (fastforce simp: cache_ok_def withhold_def)
next
  case (Report addr)
  then show ?thesis using assms by (fastforce simp: cache_ok_def mask_result_def split: option.splits if_splits)
qed

interpretation redaction: invariant_system "redact_start g" "redact_step g heap" "redactor_ok g heap" for g heap
proof
  fix r assume "redact_start g r"
  then show "redactor_ok g heap r" by (auto simp: redactor_ok_def cache_ok_def dest: start_ok)
next
  fix r r' assume "redactor_ok g heap r" "redact_step g heap r r'"
  then show "redactor_ok g heap r'"
    by (auto simp: redactor_ok_def perform_learned_ok perform_cache_ok elim!: redact_stepE)
qed

lemma learn_output_current:
  assumes ok: "learned_ok g r"
  shows "set (secrets_of (rd_current r)) \<subseteq> set (secrets_of (rd_current (learn_output g nodeID name v r)))"
    and "names_of ss_withheld (rd_current r) \<subseteq> names_of ss_withheld (rd_current (learn_output g nodeID name v r))"
    and "names_of ss_sealed (rd_current r) \<subseteq> names_of ss_sealed (rd_current (learn_output g nodeID name v r))"
    and "\<forall>t\<in>set (leaf_texts g v). t \<in> set (secrets_of (rd_current (learn_output g nodeID name v r))) \<or>
      output_ref nodeID name \<in> names_of ss_withheld (rd_current (learn_output g nodeID name v r)) \<and>
      nodeID \<in> names_of ss_sealed (rd_current (learn_output g nodeID name v r))"
proof -
  obtain known fresh w where l: "learn_leaves (rd_learned r) (leaf_texts g v) (rd_known r) [] False = (known, fresh, w)"
    by (cases "learn_leaves (rd_learned r) (leaf_texts g v) (rd_known r) [] False")
  have sp: "known = rd_known r \<union> set fresh" "\<forall>t\<in>set (leaf_texts g v). t \<in> known \<or> w"
    using learn_leaves_spec [OF l] by auto
  have known: "set (secrets_of (rd_current r)) = rd_known r" using ok by (simp add: learned_ok_def)
  show "set (secrets_of (rd_current r)) \<subseteq> set (secrets_of (rd_current (learn_output g nodeID name v r)))"
    "names_of ss_withheld (rd_current r) \<subseteq> names_of ss_withheld (rd_current (learn_output g nodeID name v r))"
    "names_of ss_sealed (rd_current r) \<subseteq> names_of ss_sealed (rd_current (learn_output g nodeID name v r))"
    "\<forall>t\<in>set (leaf_texts g v). t \<in> set (secrets_of (rd_current (learn_output g nodeID name v r))) \<or>
      output_ref nodeID name \<in> names_of ss_withheld (rd_current (learn_output g nodeID name v r)) \<and>
      nodeID \<in> names_of ss_sealed (rd_current (learn_output g nodeID name v r))"
    using sp known by (auto simp: learn_output_def l secrets_of_def [of "Some _"] names_of_def [of _ "Some _"])
qed

section \<open>Learning before reporting\<close>

text \<open>
  \<open>learnSecretOutputs\<close> of the engine (\<open>pkg/engine/execution.go\<close>): a secret output's value is the one
  the node produced, or what its extractor finds in the response of a node that failed before.
\<close>

record 'rc declared_output =
  do_name :: string
  do_secret :: bool
  do_extract :: "'rc \<Rightarrow> go_error + gval"

definition secret_value :: "outputs \<Rightarrow> 'rc option \<Rightarrow> 'rc declared_output \<Rightarrow> gval option" where
  "secret_value produced response d =
     (if \<not> do_secret d then None
      else (case produced (do_name d) of
              Some v \<Rightarrow> Some v
            | None \<Rightarrow>
                (case response of
                   None \<Rightarrow> None
                 | Some rc \<Rightarrow> (case do_extract d rc of Inr v \<Rightarrow> Some v | Inl e \<Rightarrow> None))))"

fun learn_secret_outputs ::
    "'a json_codec_scheme \<Rightarrow> string \<Rightarrow> 'rc declared_output list \<Rightarrow> outputs \<Rightarrow> 'rc option \<Rightarrow> redactor \<Rightarrow> redactor" where
  "learn_secret_outputs g nodeID [] produced response r = r"
| "learn_secret_outputs g nodeID (d # ds) produced response r =
     learn_secret_outputs g nodeID ds produced response
       (case secret_value produced response d of
          Some v \<Rightarrow> learn_output g nodeID (do_name d) v r
        | None \<Rightarrow> r)"

text \<open>\<open>redactingObserver.NodeFinished\<close> after the engine has learned the node's secret outputs.\<close>

definition node_finished_report ::
    "'a tree_codec_scheme \<Rightarrow> (nat \<Rightarrow> node_report) \<Rightarrow> nat \<Rightarrow> 'rc declared_output list \<Rightarrow> outputs \<Rightarrow> 'rc option \<Rightarrow>
     redactor \<Rightarrow> masked_report option \<times> redactor" where
  "node_finished_report g heap addr ds produced response r =
     mask_result g addr (heap addr)
       (learn_secret_outputs g (np_node_id (heap addr)) ds produced response r)"

lemma learn_all_reach:
  "reach (redact_start g) (redact_step g heap) r \<Longrightarrow>
   reach (redact_start g) (redact_step g heap) (learn_secret_outputs g nodeID ds produced response r)"
proof (induction ds arbitrary: r)
  case (Cons d ds)
  have "reach (redact_start g) (redact_step g heap) (learn_output g nodeID n v r)" for n v
    using reach_step [OF Cons.prems redact_stepI [of g heap r "Learn nodeID n v"]] by simp
  with Cons show ?case by (auto split: option.splits)
qed simp

lemma learn_all_keeps:
  assumes "learned_ok g r"
  shows "learned_ok g (learn_secret_outputs g nodeID ds produced response r) \<and>
    set (secrets_of (rd_current r)) \<subseteq> set (secrets_of (rd_current (learn_secret_outputs g nodeID ds produced response r))) \<and>
    names_of ss_withheld (rd_current r) \<subseteq> names_of ss_withheld (rd_current (learn_secret_outputs g nodeID ds produced response r)) \<and>
    names_of ss_sealed (rd_current r) \<subseteq> names_of ss_sealed (rd_current (learn_secret_outputs g nodeID ds produced response r))"
  using assms
proof (induction ds arbitrary: r)
  case (Cons d ds)
  show ?case
  proof (cases "secret_value produced response d")
    case (Some v)
    then show ?thesis
      using Cons.IH [OF learn_output_ok [OF Cons.prems, where nodeID = nodeID and name = "do_name d" and v = v]]
        learn_output_current [OF Cons.prems, where nodeID = nodeID and name = "do_name d" and v = v]
      by auto
  qed (use Cons in simp)
qed simp

lemma learned_before:
  assumes "learned_ok g r" and "d \<in> set ds" and "secret_value produced response d = Some v" and "t \<in> set (leaf_texts g v)"
    and "so = rd_current (learn_secret_outputs g nodeID ds produced response r)"
  shows "t \<in> set (secrets_of so) \<or> output_ref nodeID (do_name d) \<in> names_of ss_withheld so \<and> nodeID \<in> names_of ss_sealed so"
  using assms(1,2) unfolding assms(5)
proof (induction ds arbitrary: r)
  case (Cons e ds)
  let ?r = "case secret_value produced response e of Some v \<Rightarrow> learn_output g nodeID (do_name e) v r | None \<Rightarrow> r"
  have ok: "learned_ok g ?r" using Cons.prems(1) by (auto simp: learn_output_ok split: option.splits)
  show ?case
  proof (cases "d = e")
    case True
    then show ?thesis
      using learn_all_keeps [OF ok, of nodeID ds produced response] assms(3,4)
        learn_output_current(4) [OF Cons.prems(1), where nodeID = nodeID and name = "do_name d" and v = v]
      by auto
  next
    case False
    then show ?thesis using Cons.IH [OF ok] Cons.prems(2) by simp
  qed
qed simp

section \<open>A concrete codec\<close>

text \<open>
  A codec that knows one form of document, a text after a hash sign. It encodes texts so, and
  nothing else, and keeps what it encodes.
\<close>

definition demo_codec :: tree_codec where
  "demo_codec = \<lparr>format_float = (\<lambda>x. ''1.5''), float_v = (\<lambda>x. ''1.5''), parse_float = (\<lambda>s. Inl (PlainError s)),
     match_string = (\<lambda>p s. Inr False), encode_json = (\<lambda>v. Inr ''{}''),
     marshal_json = (\<lambda>v. case v of GInt i \<Rightarrow> Inr (int_text i) | _ \<Rightarrow> Inr ''{}''), escape_json = (\<lambda>html s. s),
     decode_tree = (\<lambda>s. case s of c # t \<Rightarrow> if c = CHR 0x23 then Some (JStr t) else None | [] \<Rightarrow> None),
     encode_tree = (\<lambda>t. case t of JStr s \<Rightarrow> Some (CHR 0x23 # s) | _ \<Rightarrow> None)\<rparr>"

lemma demo_codec_faithful: "faithful_codec demo_codec S"
proof -
  have "b64_weight s \<le> length s" for s by (simp add: b64_weight_def)
  then show ?thesis
    by (auto simp: faithful_codec_def decode_body_def demo_codec_def le_imp_less_Suc split: jtree.splits)
qed

definition demo_secrets :: secret_set where
  "demo_secrets = new_secret_set demo_codec [''s3cret''] {} {''mint.pin''} {''mint''}"

lemma demo_secrets_plain: "plain_words (ss_secrets demo_secrets)" "plain_words (ss_body_forms demo_secrets)"
  by (code_simp)+

definition demo_sources :: "((string \<Rightarrow> gval option) \<times> string list) list" where
  "demo_sources = [([''pin'' \<mapsto> GStr ''7''], [''pin''])]"

section \<open>Properties\<close>



lemma mask_result_current:
  assumes "redactor_ok g heap r"
  shows "fst (mask_result g addr (heap addr) r) = map_option (\<lambda>S. set_result g S (heap addr)) (rd_current r) \<and>
    rd_current (snd (mask_result g addr (heap addr) r)) = rd_current r"
  using assms by (fastforce simp: redactor_ok_def cache_ok_def mask_result_def split: option.splits)

text \<open>
  Claim C28. Secret outputs are learned before they are reported: in any run, the result of a node
  that finished is masked against a set of secrets that has every leaf of its secret outputs, or
  withholds the output by name and seals the node; a result masked before is reused only while the
  set is the same. At most 500 values are learned, each of at least six characters.
\<close>

theorem secret_outputs_are_learned:
  assumes reach: "reach (redact_start g) (redact_step g heap) r"
    and report: "node_finished_report g heap addr ds produced response r = (reported, r')"
    and secret: "d \<in> set ds" "secret_value produced response d = Some v" "t \<in> set (leaf_texts g v)"
  shows "\<exists>S. rd_current r' = Some S \<and> reported = Some (set_result g S (heap addr)) \<and>
     (t \<in> set (ss_secrets S) \<or>
      output_ref (np_node_id (heap addr)) (do_name d) \<in> ss_withheld S \<and> np_node_id (heap addr) \<in> ss_sealed S) \<and>
     card (ss_learned S) \<le> 500 \<and> (\<forall>u\<in>ss_learned S. 6 \<le> rune_count u)"
proof -
  let ?learned = "learn_secret_outputs g (np_node_id (heap addr)) ds produced response r"
  have ok: "redactor_ok g heap ?learned" by (rule redaction.reach_inv [OF learn_all_reach [OF reach]])
  have r_ok: "learned_ok g r" using redaction.reach_inv [OF reach] by (simp add: redactor_ok_def)
  note leaf = learned_before [OF r_ok secret refl, of "np_node_id (heap addr)"]
  then obtain S where S: "rd_current ?learned = Some S"
    by (cases "rd_current ?learned") (auto simp: secrets_of_def names_of_def)
  have "learned_ok g ?learned" using ok by (simp add: redactor_ok_def)
  then have "card (ss_learned S) \<le> 500" "\<forall>u\<in>ss_learned S. 6 \<le> rune_count u"
    by (auto simp: learned_ok_def S names_of_def max_learned_values_def min_learned_length_def)
  moreover have "rd_current r' = Some S" "reported = Some (set_result g S (heap addr))"
    using mask_result_current [OF ok, of addr] report S by (auto simp: node_finished_report_def)
  ultimately show ?thesis using leaf by (auto simp: S secrets_of_def names_of_def)
qed

text \<open>
  Masking by name: in the report of a node result, an output that is withheld is masked
  wherever it is named, under the node's outputs and under every key that refers to it; a sealed
  node keeps only the fields that cannot carry the value, and the fields the runner writes itself
  stay as they are.
\<close>

theorem withheld_outputs_are_masked_by_name:
  assumes words: "plain_words (ss_secrets S)" "plain_words (ss_body_forms S)"
    and result: "map_of kvs ''node_id'' = Some (JStr nodeID)" "map_of kvs ''node_type'' = Some ty"
  shows "\<exists>own. mask_result_tree g S (JObj kvs) = JObj own \<and>
     (nodeID \<in> ss_sealed S \<longrightarrow> (\<forall>kv\<in>set own. kept_when_sealed (fst kv))) \<and>
     (\<forall>outs name v. (''outputs'', JObj outs) \<in> set own \<and> (name, v) \<in> set outs \<and>
        output_ref nodeID name \<in> ss_withheld S \<longrightarrow> v = JStr mask_word) \<and>
     (\<forall>kv\<in>set own. refers_to_withheld S (fst kv) \<and> fst kv \<notin> set own_fields \<and> fst kv \<noteq> ''http_calls'' \<longrightarrow>
        snd kv = JStr mask_word) \<and>
     (\<forall>kv\<in>set own. fst kv \<in> set own_fields \<longrightarrow> map_of kvs (fst kv) = Some (snd kv))"
proof -
  let ?kvs = "filter (\<lambda>kv. fst kv \<noteq> ''http_calls'') kvs"
  obtain masked where masked: "mask_tree g S (JObj ?kvs) = JObj masked" by simp
  let ?own = "restore_fields (identity_fields kvs) masked"
  have key: "map_of ?kvs k = map_of kvs k" if "k \<noteq> ''http_calls''" for k
    using that map_of_filter_key [of "\<lambda>k. k \<noteq> ''http_calls''" k kvs] by simp
  have result': "map_of ?kvs ''node_id'' = Some (JStr nodeID)" "map_of ?kvs ''node_type'' = Some ty"
    using result by (simp_all add: key)
  have field: "\<exists>u. (k, u) \<in> set (seal S ?kvs) \<and>
      (if k \<in> set own_fields then map_of kvs k = Some v else v = mask_field g S (mask_tree g S) k u)"
    if kv: "(k, v) \<in> set ?own" for k v
  proof -
    obtain w where w: "(k, w) \<in> set masked" "v = (case identity_fields kvs k of Some own \<Rightarrow> own | None \<Rightarrow> w)"
      using kv by (auto simp: restore_fields_def)
    obtain u where u: "(k, u) \<in> set (seal S ?kvs)" "w = mask_field g S (mask_tree g S) k u"
      using masked_fields [OF masked w(1)] by blast
    have "map_of kvs k \<noteq> None" using seal_keys [OF u(1)] by (auto simp: map_of_eq_None_iff)
    then show ?thesis using w(2) u by (intro exI [of _ u]) (auto simp: identity_fields_at)
  qed
  have sealed: "nodeID \<in> ss_sealed S \<Longrightarrow> kv \<in> set ?own \<Longrightarrow> kept_when_sealed (fst kv)" for kv
    using field [of "fst kv" "snd kv"] sealed_field [OF result'] by auto
  have outs: "v = JStr mask_word"
    if o: "(''outputs'', JObj outs) \<in> set ?own" and n: "(name, v) \<in> set outs" "output_ref nodeID name \<in> ss_withheld S"
    for outs name v
  proof -
    obtain u where u: "(''outputs'', u) \<in> set (seal S ?kvs)" "JObj outs = mask_field g S (mask_tree g S) ''outputs'' u"
      using field [OF o] by (auto simp: own_fields_def)
    then obtain w where "u = mask_outputs_by_name S nodeID w" using sealed_field [OF result' u(1)] by blast
    with u(2) obtain vs where "mask_tree g S (JObj (mask_by_name S nodeID vs)) = JObj outs"
      by (cases w) (auto simp: mask_field_def split: if_splits)
    then show ?thesis using withheld_stays_masked [OF words] n by blast
  qed
  have refs: "snd kv = JStr mask_word"
    if "kv \<in> set ?own" "refers_to_withheld S (fst kv)" "fst kv \<notin> set own_fields" for kv
    using field [of "fst kv" "snd kv"] that by (auto simp: mask_field_def)
  have own: "map_of kvs (fst kv) = Some (snd kv)" if "kv \<in> set ?own" "fst kv \<in> set own_fields" for kv
    using field [of "fst kv" "snd kv"] that by auto
  have "''http_calls'' \<notin> set own_fields" "kept_when_sealed ''http_calls''" by code_simp+
  then show ?thesis
    using sealed outs refs own masked
    by (cases "map_of kvs ''http_calls''"; cases "the (map_of kvs ''http_calls'')") (simp_all del: mask_tree.simps; blast)+
qed

theorem withheld_outputs_are_masked_by_name_witness:
  "\<exists>own. mask_result_tree demo_codec demo_secrets
       (JObj [(''node_id'', JStr ''mint''), (''node_type'', JStr ''request''),
              (''outputs'', JObj [(''pin'', JStr ''4821'')]), (''request_url'', JStr ''/pin/4821'')]) = JObj own \<and>
     (\<forall>kv\<in>set own. kept_when_sealed (fst kv)) \<and> (''outputs'', JObj [(''pin'', JStr mask_word)]) \<in> set own"
proof -
  let ?kvs = "[(''node_id'', JStr ''mint''), (''node_type'', JStr ''request''),
      (''outputs'', JObj [(''pin'', JStr ''4821'')]), (''request_url'', JStr ''/pin/4821'')]"
  have "map_of ?kvs ''node_id'' = Some (JStr ''mint'')" "map_of ?kvs ''node_type'' = Some (JStr ''request'')" by simp_all
  from withheld_outputs_are_masked_by_name [OF demo_secrets_plain this, of demo_codec]
  obtain own where own: "mask_result_tree demo_codec demo_secrets (JObj ?kvs) = JObj own"
      "''mint'' \<in> ss_sealed demo_secrets \<longrightarrow> (\<forall>kv\<in>set own. kept_when_sealed (fst kv))" by blast
  have "mask_result_tree demo_codec demo_secrets (JObj ?kvs) =
      JObj [(''node_id'', JStr ''mint''), (''node_type'', JStr ''request''), (''outputs'', JObj [(''pin'', JStr mask_word)])]"
    by code_simp
  moreover have "''mint'' \<in> ss_sealed demo_secrets" by code_simp
  ultimately show ?thesis using own by (auto simp del: mask_result_tree.simps)
qed

definition demo_outputs :: "unit declared_output list" where
  "demo_outputs = [\<lparr>do_name = ''jwt'', do_secret = True, do_extract = (\<lambda>_. Inl (PlainError ''no body''))\<rparr>]"

definition demo_report :: node_report where
  "demo_report = \<lparr>np_node_id = ''mint'', np_display_name = ''Mint'', np_node_type = ''request'', np_inputs = Some JNull,
     np_outputs = Some (JObj [(''jwt'', JStr ''minted-token'')]), np_error = None, np_executed_at = [], np_tree = None\<rparr>"

theorem secret_outputs_are_learned_witness:
  "\<exists>S. rd_current (snd (node_finished_report demo_codec (\<lambda>_. demo_report) 0 demo_outputs
       [''jwt'' \<mapsto> GStr ''minted-token''] None empty_redactor)) = Some S \<and> ''minted-token'' \<in> set (ss_secrets S)"
proof -
  let ?run = "node_finished_report demo_codec (\<lambda>_. demo_report) 0 demo_outputs [''jwt'' \<mapsto> GStr ''minted-token''] None empty_redactor"
  have reach: "reach (redact_start demo_codec) (redact_step demo_codec (\<lambda>_. demo_report)) empty_redactor"
    by (rule reach_start) (simp add: redact_start_def)
  have "hd demo_outputs \<in> set demo_outputs" by (simp add: demo_outputs_def)
  moreover have "secret_value [''jwt'' \<mapsto> GStr ''minted-token''] None (hd demo_outputs) = Some (GStr ''minted-token'')"
    by code_simp
  moreover have "''minted-token'' \<in> set (leaf_texts demo_codec (GStr ''minted-token''))" by code_simp
  ultimately obtain S where S: "rd_current (snd ?run) = Some S" "''minted-token'' \<in> set (ss_secrets S) \<or>
      output_ref (np_node_id demo_report) (do_name (hd demo_outputs)) \<in> ss_withheld S"
    using secret_outputs_are_learned [OF reach prod.collapse [symmetric]] by blast
  have "names_of ss_withheld (rd_current (snd ?run)) = {}" by code_simp
  then have "ss_withheld S = {}" by (simp add: S(1) names_of_def)
  with S show ?thesis by auto
qed

text \<open>
  Two secret outputs that are reported in clear: a number whose text is already known from a
  secret input is not learned, and masking a text does not mask a JSON number; and a slice of maps,
  such as the results of a loop, is learned as one text in Go's syntax, which no report holds, so
  that its token stays.
\<close>

theorem some_secret_outputs_stay_in_clear:
  "(\<exists>r S. new_from_sources demo_codec demo_sources = Some r \<and> rd_current (learn_output demo_codec ''mint'' ''num'' (GInt 7) r) = Some S \<and>
      ss_withheld S = {} \<and> mask_tree demo_codec S (JNum ''7'') = JNum ''7'') \<and>
   (\<exists>S. rd_current (learn_output demo_codec ''each'' ''results'' (GTSlice [GMap [(''token'', GStr ''minted-token'')]]) empty_redactor) = Some S \<and>
      ss_withheld S = {} \<and> mask_tree demo_codec S (JStr ''minted-token'') = JStr ''minted-token'')"
proof (intro conjI)
  have "\<not> Option.is_none (new_from_sources demo_codec demo_sources)" by code_simp
  then have "new_from_sources demo_codec demo_sources = Some (the (new_from_sources demo_codec demo_sources))"
    by (cases "new_from_sources demo_codec demo_sources") simp_all
  moreover define r where "r = the (new_from_sources demo_codec demo_sources)"
  moreover define S where "S = the (rd_current (learn_output demo_codec ''mint'' ''num'' (GInt 7) r))"
  moreover have "rd_current (learn_output demo_codec ''mint'' ''num'' (GInt 7) r) = Some S \<and> ss_withheld S = {} \<and>
      mask_tree demo_codec S (JNum ''7'') = JNum ''7''"
    unfolding S_def r_def by code_simp
  ultimately show "\<exists>r S. new_from_sources demo_codec demo_sources = Some r \<and>
      rd_current (learn_output demo_codec ''mint'' ''num'' (GInt 7) r) = Some S \<and>
      ss_withheld S = {} \<and> mask_tree demo_codec S (JNum ''7'') = JNum ''7''" by metis
next
  define S where
    "S = the (rd_current (learn_output demo_codec ''each'' ''results'' (GTSlice [GMap [(''token'', GStr ''minted-token'')]]) empty_redactor))"
  have "rd_current (learn_output demo_codec ''each'' ''results'' (GTSlice [GMap [(''token'', GStr ''minted-token'')]]) empty_redactor) =
      Some S \<and> ss_withheld S = {} \<and> mask_tree demo_codec S (JStr ''minted-token'') = JStr ''minted-token''"
    unfolding S_def by code_simp
  then show "\<exists>S. rd_current (learn_output demo_codec ''each'' ''results''
      (GTSlice [GMap [(''token'', GStr ''minted-token'')]]) empty_redactor) = Some S \<and>
      ss_withheld S = {} \<and> mask_tree demo_codec S (JStr ''minted-token'') = JStr ''minted-token''" by blast
qed

end
