(* ===== verification/Module_Node.thy ===== *)
theory Module_Node
  imports Module_Graph Nodes Redact
begin

text \<open>
  The module node (\<open>pkg/node/module_node.go\<close>) with the redactor its context carries, and the boundary
  of a run (\<open>pkg/runner/runner.go\<close>, \<open>pkg/redact/context.go\<close>): the redactor a run starts with, and the
  masking of everything that leaves it.
\<close>

section \<open>The module node\<close>

record module_data =
  md_flow_id :: string
  md_input_bindings :: "(string \<times> gval) list"
  md_output_bindings :: "(string \<times> string) list"

definition module_input_schema :: "module_data \<Rightarrow> string list" where
  "module_input_schema d = sort (extract_template_variables (GMap (md_input_bindings d)))"

definition module_output_schema :: "module_data \<Rightarrow> string list" where
  "module_output_schema d = sort (filter (\<lambda>k. k \<noteq> []) (map (\<lambda>kv. trim_space (fst kv)) (md_output_bindings d)))"

fun resolve_module_inputs ::
    "'a json_text_scheme \<Rightarrow> 'w resolver \<Rightarrow> (string \<times> gval) list \<Rightarrow> (string \<times> gval) list \<Rightarrow> 'w \<Rightarrow>
     (go_error + (string \<times> gval) list) \<times> 'w" where
  "resolve_module_inputs g r [] resolved w = (Inr resolved, w)"
| "resolve_module_inputs g r ((key, v) # bindings) resolved w =
     (if trim_space key = [] then (Inl (PlainError ''module input binding key cannot be empty''), w)
      else (case resolve g r v w of
              (v', w') \<Rightarrow> resolve_module_inputs g r bindings (AList.update (trim_space key) v' resolved) w'))"

record module_result = asserted_result +
  mo_flow_id :: string
  mo_child_outputs :: "(string \<times> gval) list"

definition module_failed ::
    "base_node \<Rightarrow> (string \<times> gval) list \<Rightarrow> string \<Rightarrow> go_error \<Rightarrow> child_outputs \<Rightarrow> module_result" where
  "module_failed n inputs flowID err child =
     asserted_result.extend (failed_node_base n (map_of inputs) err KindModule ''MODULE_FAILED'' (error_text err))
       \<lparr>mo_flow_id = flowID, mo_child_outputs = (case child of Some outs \<Rightarrow> outs | None \<Rightarrow> [])\<rparr>"

text \<open>\<open>withholdBoundOutputs\<close> through the redactor in the context, when it carries one.\<close>

fun withhold_bound_outputs ::
    "'a json_codec_scheme \<Rightarrow> string \<Rightarrow> (string \<times> string) list \<Rightarrow> redactor \<Rightarrow> redactor" where
  "withhold_bound_outputs g nodeID [] r = r"
| "withhold_bound_outputs g nodeID ((name, ref) # bindings) r =
     withhold_bound_outputs g nodeID bindings
       (if is_withheld r (trim_space ref) then withhold g nodeID (trim_space name) r else r)"

definition child_inputs ::
    "(string \<times> gval) list \<Rightarrow> (string \<times> gval) list \<Rightarrow> (string \<times> gval) list \<Rightarrow> (string \<times> gval) list" where
  "child_inputs flow_inputs overrides bound = AList.merge (AList.merge flow_inputs overrides) bound"

text \<open>
  \<open>Execute\<close>: the result and its error, the redactor, the world. No result at all is the panic of an
  executor that returned neither a result nor an error.
\<close>

definition module_execute ::
    "'a json_codec_scheme \<Rightarrow> string registry option \<Rightarrow> base_node \<Rightarrow> module_data \<Rightarrow> ('w, 'x) node_context_scheme \<Rightarrow>
     redactor option \<Rightarrow> 'w \<Rightarrow> (module_result \<times> go_error option) option \<times> redactor option \<times> 'w" where
  "module_execute g resolver n d cx red w =
     (let flowID = trim_space (md_flow_id d);
          failed = (\<lambda>err child w. (Some (module_failed n (cx_inputs cx) flowID err child, Some err), red, w)) in
      if flowID = [] then failed (PlainError ''module flow_id is required'') None w
      else (case cx_module_executor cx of
              None \<Rightarrow> failed (PlainError ''module executor unavailable'') None w
            | Some ex \<Rightarrow>
                (case Option.bind resolver (\<lambda>reg. resolve_flow reg flowID) of
                   None \<Rightarrow> failed (PlainError (''referenced flow '' @ dquote flowID @ '' not found'')) None w
                 | Some rf \<Rightarrow>
                     (case resolve_module_inputs g \<lparr>variables = map_of (cx_inputs cx), dynamic = None\<rparr>
                             (md_input_bindings d) [] w of
                        (Inl err, w1) \<Rightarrow> failed err None w1
                      | (Inr bound, w1) \<Rightarrow>
                          (case ex \<lparr>mr_flow_id = flowID, mr_definition = rf_definition rf,
                                    mr_inputs = child_inputs (cx_flow_inputs cx) (rf_overrides rf) bound, mr_ctx = None\<rparr> w1 of
                             (Inl (err, child), w2) \<Rightarrow> failed err child w2
                           | (Inr None, w2) \<Rightarrow> (None, red, w2)
                           | (Inr (Some finals), w2) \<Rightarrow>
                               (case export_outputs (map_of finals) (md_output_bindings d) of
                                  Inl err \<Rightarrow> failed err (Some finals) w2
                                | Inr outs \<Rightarrow>
                                    (Some (asserted_result.extend (base_result n KindModule (map_of (cx_inputs cx)) outs)
                                         \<lparr>mo_flow_id = flowID, mo_child_outputs = finals\<rparr>, None),
                                     map_option (withhold_bound_outputs g (bn_id n) (md_output_bindings d)) red, w2)))))))"

section \<open>The boundary of a run\<close>

text \<open>\<open>runtimeRedactor\<close>: the run's secret inputs, then those of every referenced flow.\<close>

definition runtime_redactor ::
    "'a json_codec_scheme \<Rightarrow> outputs \<Rightarrow> string list \<Rightarrow> (outputs \<times> string list) list \<Rightarrow> redactor" where
  "runtime_redactor g inputs keys referenced =
     (case new_from_sources g ((inputs, keys) # referenced) of Some r \<Rightarrow> r | None \<Rightarrow> empty_redactor)"

text \<open>\<open>ErrorMessage\<close> of \<open>context.go\<close>: a message for a log line.\<close>

definition redacted_message :: "redactor option \<Rightarrow> go_error option \<Rightarrow> string" where
  "redacted_message red err =
     (case Option.bind red rd_current of
        Some S \<Rightarrow> set_text S (safe_error_message err)
      | None \<Rightarrow> safe_error_message err)"

record flow_report =
  fr_results :: "(string \<times> nat) list"
  fr_final_outputs :: "jtree option"
  fr_error :: "go_error option"
  fr_error_msg :: "string option"

record masked_flow_report =
  mf_results :: "(string \<times> masked_report option) list"
  mf_final_outputs :: jtree
  mf_error :: "go_error option"
  mf_error_msg :: "string option"

fun mask_results ::
    "'a tree_codec_scheme \<Rightarrow> (nat \<Rightarrow> node_report) \<Rightarrow> (string \<times> nat) list \<Rightarrow> redactor \<Rightarrow>
     (string \<times> masked_report option) list \<times> redactor" where
  "mask_results g heap [] r = ([], r)"
| "mask_results g heap ((nodeID, addr) # rs) r =
     (let (m, r1) = mask_result g addr (heap addr) r; (ms, r2) = mask_results g heap rs r1
      in ((nodeID, m) # ms, r2))"

text \<open>\<open>FlowResult\<close>: nothing masked is the original itself.\<close>

definition mask_flow_result ::
    "'a tree_codec_scheme \<Rightarrow> (nat \<Rightarrow> node_report) \<Rightarrow> flow_report \<Rightarrow> redactor \<Rightarrow> masked_flow_report option \<times> redactor" where
  "mask_flow_result g heap fr r =
     (case rd_current r of
        None \<Rightarrow> (None, r)
      | Some S \<Rightarrow>
          (let (ms, r') = mask_results g heap (fr_results fr) r in
           (Some \<lparr>mf_results = ms, mf_final_outputs = mask_values g S (fr_final_outputs fr),
                  mf_error = map_option (mask_error S) (fr_error fr),
                  mf_error_msg = map_option (set_text S) (fr_error_msg fr)\<rparr>, r')))"

section \<open>Lemmas\<close>

lemma child_inputs_map: "map_of (child_inputs a b c) = map_of a ++ map_of b ++ map_of c"
  by (simp add: child_inputs_def merge_conv')

lemma export_from_spec:
  "export_from child bindings acc = Inr outs \<Longrightarrow>
   (\<forall>(name, ref)\<in>set bindings. trim_space name \<noteq> [] \<and> trim_space ref \<noteq> [] \<and> child (trim_space ref) \<noteq> None) \<and>
   outs = acc ++ map_of (rev (map (\<lambda>(name, ref). (trim_space name, the (child (trim_space ref)))) bindings))"
proof (induction child bindings acc rule: export_from.induct)
  case (2 child name ref bindings acc)
  obtain v where v: "trim_space name \<noteq> []" "trim_space ref \<noteq> []" "child (trim_space ref) = Some v"
    and e: "export_from child bindings (acc(trim_space name \<mapsto> v)) = Inr outs"
    using 2(2) by (auto split: if_splits option.splits)
  from 2(1) [OF _ v(3) e] v(1,2) show ?case
    by (simp add: v(3) map_add_assoc [symmetric] del: fun_upd_apply)
qed simp

lemma withhold_names:
  "names_of ss_withheld (rd_current (withhold g nodeID name r)) =
     insert (output_ref nodeID name) (names_of ss_withheld (rd_current r))"
  by (auto simp: withhold_def with_withheld_def names_of_def new_secret_set_def Let_def split: option.splits)

lemma withhold_bound_keeps: "is_withheld r ref \<Longrightarrow> is_withheld (withhold_bound_outputs g nodeID bindings r) ref"
  by (induction g nodeID bindings r rule: withhold_bound_outputs.induct) (auto simp: is_withheld_def withhold_names)

lemma withhold_bound:
  "(name, ref) \<in> set bindings \<Longrightarrow> is_withheld r (trim_space ref) \<Longrightarrow>
   is_withheld (withhold_bound_outputs g nodeID bindings r) (output_ref nodeID (trim_space name))"
proof (induction g nodeID bindings r rule: withhold_bound_outputs.induct)
  case (2 g nodeID name' ref' bindings r)
  let ?r = "if is_withheld r (trim_space ref') then withhold g nodeID (trim_space name') r else r"
  have "is_withheld ?r (trim_space ref)" using 2(3) by (simp add: is_withheld_def withhold_names)
  moreover have "is_withheld (withhold g nodeID (trim_space name) r) (output_ref nodeID (trim_space name))"
    by (simp add: is_withheld_def withhold_names)
  ultimately show ?case using 2 withhold_bound_keeps by (cases "(name, ref) \<in> set bindings") auto
qed simp

lemma mask_results_current:
  assumes "redactor_ok g heap r" and "rd_current r = Some S"
  shows "fst (mask_results g heap rs r) = map (\<lambda>(nodeID, addr). (nodeID, Some (set_result g S (heap addr)))) rs"
  using assms
proof (induction rs arbitrary: r)
  case (Cons x rs)
  obtain nodeID addr where x: "x = (nodeID, addr)" by (cases x)
  let ?r = "snd (mask_result g addr (heap addr) r)"
  have "redactor_ok g heap ?r"
    using redaction.step_inv [OF Cons.prems(1) redact_stepI [of g heap r "Report addr"]] by simp
  moreover have "fst (mask_result g addr (heap addr) r) = Some (set_result g S (heap addr))" "rd_current ?r = Some S"
    using mask_result_current [OF Cons.prems(1), of addr] Cons.prems(2) by auto
  ultimately show ?case using Cons.IH [of ?r] by (simp add: x case_prod_beta Let_def)
qed simp

lemma mask_values_clean:
  "plain_words (ss_secrets S) \<Longrightarrow> plain_words (ss_body_forms S) \<Longrightarrow> faithful_codec g S \<Longrightarrow> clean g S (mask_values g S v)"
proof -
  assume "plain_words (ss_secrets S)" "plain_words (ss_body_forms S)" "faithful_codec g S"
  note clean = mask_tree_clean [OF this]
  have "mask_value g S v = JObj kvs \<Longrightarrow> v \<noteq> None \<and> clean g S (JObj kvs)" for kvs
    using clean [of "the v"] by (auto simp: mask_value_def split: option.splits jtree.splits)
  then show ?thesis by (auto simp: mask_values_def clean_simps split: jtree.splits)
qed

lemma mask_error_clean:
  assumes "plain_words (ss_secrets S)" and "\<And>code msg. as_user_error err = Some (code, msg) \<Longrightarrow> \<not> holds_word (ss_secrets S) code"
  shows "\<not> holds_word (ss_secrets S) (error_text (mask_error S err))"
proof -
  have masked: "\<not> holds_word (ss_secrets S) (set_text S s)" for s by (simp add: set_text_def mask_all_clean [OF assms(1)])
  show ?thesis
  proof (cases "set_text S (error_text err) = error_text err")
    case True
    then show ?thesis using masked [of "error_text err"] by (simp add: mask_error_def)
  next
    case False
    then show ?thesis using masked assms(2) by (auto simp: mask_error_def split: option.splits)
  qed
qed

section \<open>Properties\<close>

text \<open>
  Claim C29. A module node runs its flow once, on the parent's flow inputs overlaid with the flow's
  overrides and then with the bindings, each resolved against the node's inputs; its outputs are
  exactly the child outputs it binds, under their trimmed names, and an output bound to a withheld
  child output is withheld too.
\<close>

theorem module_maps_inputs_and_outputs:
  assumes run: "module_execute g resolver n d cx red w = (Some (res, None), red', w')"
    and rec: "\<And>ex req w. cx_module_executor cx = Some ex \<Longrightarrow> calls (snd (ex req w)) = calls w @ [map_of (mr_inputs req)]"
  shows "\<exists>rf bound w1. Option.bind resolver (\<lambda>reg. resolve_flow reg (trim_space (md_flow_id d))) = Some rf \<and>
     resolve_module_inputs g \<lparr>variables = map_of (cx_inputs cx), dynamic = None\<rparr> (md_input_bindings d) [] w = (Inr bound, w1) \<and>
     calls w' = calls w1 @ [map_of (cx_flow_inputs cx) ++ map_of (rf_overrides rf) ++ map_of bound] \<and>
     r_outputs res = map_of (rev (map (\<lambda>(name, ref).
       (trim_space name, the (map_of (mo_child_outputs res) (trim_space ref)))) (md_output_bindings d))) \<and>
     (\<forall>(name, ref)\<in>set (md_output_bindings d). trim_space name \<noteq> [] \<and> map_of (mo_child_outputs res) (trim_space ref) \<noteq> None \<and>
        (\<forall>r. red = Some r \<and> is_withheld r (trim_space ref) \<longrightarrow>
           is_withheld (the red') (output_ref (bn_id n) (trim_space name))))"
proof -
  let ?r = "\<lparr>variables = map_of (cx_inputs cx), dynamic = None\<rparr>"
  obtain ex where ex: "cx_module_executor cx = Some ex"
    using run by (auto simp: module_execute_def Let_def split: if_splits option.splits)
  obtain rf where rf: "Option.bind resolver (\<lambda>reg. resolve_flow reg (trim_space (md_flow_id d))) = Some rf"
    using run ex by (auto simp: module_execute_def Let_def split: if_splits option.splits)
  obtain bound w1 where b: "resolve_module_inputs g ?r (md_input_bindings d) [] w = (Inr bound, w1)"
    using run ex rf by (auto simp: module_execute_def Let_def split: if_splits prod.splits sum.splits)
  let ?req = "\<lparr>mr_flow_id = trim_space (md_flow_id d), mr_definition = rf_definition rf,
      mr_inputs = child_inputs (cx_flow_inputs cx) (rf_overrides rf) bound, mr_ctx = None\<rparr>"
  obtain finals w2 outs where e: "ex ?req w1 = (Inr (Some finals), w2)"
    and o: "export_outputs (map_of finals) (md_output_bindings d) = Inr outs"
    and res: "res = asserted_result.extend (base_result n KindModule (map_of (cx_inputs cx)) outs)
        \<lparr>mo_flow_id = trim_space (md_flow_id d), mo_child_outputs = finals\<rparr>"
    and red': "red' = map_option (withhold_bound_outputs g (bn_id n) (md_output_bindings d)) red" and w': "w' = w2"
    using run ex rf b by (auto simp: module_execute_def Let_def split: if_splits prod.splits sum.splits option.splits)
  have "calls w' = calls w1 @ [map_of (cx_flow_inputs cx) ++ map_of (rf_overrides rf) ++ map_of bound]"
    using rec [OF ex, of ?req w1] e w' by (simp add: child_inputs_map)
  moreover note export_from_spec [OF o [unfolded export_outputs_def]]
  moreover have "r_outputs res = outs" "mo_child_outputs res = finals"
    by (simp_all add: res asserted_result.defs base_result_def)
  ultimately show ?thesis using rf b withhold_bound by (fastforce simp: red')
qed

definition demo_module_data :: module_data where
  "demo_module_data = \<lparr>md_flow_id = '' f '', md_input_bindings = [(''id'', GStr (braced ''list.ids''))],
     md_output_bindings = [(''passed'', ''ok'')]\<rparr>"

definition demo_flow_registry :: "string registry" where
  "demo_flow_registry = [(''f'', \<lparr>rf_definition = ''{}'', rf_overrides = [(''env'', GStr ''test'')]\<rparr>)]"

theorem module_maps_inputs_and_outputs_witness:
  "\<exists>bound. map map_of (snd (snd (module_execute demo_codec (Some demo_flow_registry) demo_base_node demo_module_data demo_node_context
       (Some empty_redactor) []))) = [map_of (cx_flow_inputs demo_node_context) ++ [''env'' \<mapsto> GStr ''test''] ++ map_of bound]"
proof -
  let ?run = "module_execute demo_codec (Some demo_flow_registry) demo_base_node demo_module_data demo_node_context (Some empty_redactor) []"
  let ?inputs = "resolve_module_inputs demo_codec \<lparr>variables = map_of (cx_inputs demo_node_context), dynamic = None\<rparr>
       (md_input_bindings demo_module_data) [] ([] :: (string \<times> gval) list list)"
  have "\<not> Option.is_none (fst ?run)" "Option.is_none (snd (the (fst ?run)))" by code_simp+
  then obtain res where run: "?run = (Some (res, None), fst (snd ?run), snd (snd ?run))"
    by (metis Option.is_none_def option.collapse prod.collapse)
  have rec: "map map_of (snd (ex req w)) = map map_of w @ [map_of (mr_inputs req)]"
    if "cx_module_executor demo_node_context = Some ex" for ex req w
    using that by (auto simp: demo_node_context_def demo_executor_def)
  have flow: "Option.bind (Some demo_flow_registry) (\<lambda>reg. resolve_flow reg (trim_space (md_flow_id demo_module_data))) =
      Some \<lparr>rf_definition = ''{}'', rf_overrides = [(''env'', GStr ''test'')]\<rparr>" by code_simp
  have start: "snd ?inputs = []" by code_simp
  obtain rf where "\<exists>bound w1. Option.bind (Some demo_flow_registry) (\<lambda>reg. resolve_flow reg (trim_space (md_flow_id demo_module_data))) = Some rf \<and>
      ?inputs = (Inr bound, w1) \<and> map map_of (snd (snd ?run)) =
        map map_of w1 @ [map_of (cx_flow_inputs demo_node_context) ++ map_of (rf_overrides rf) ++ map_of bound]"
    by (rule exE [OF module_maps_inputs_and_outputs [where calls = "map map_of", OF run]], rule rec, assumption) blast
  with flow obtain bound w1 where "?inputs = (Inr bound, w1)" "map map_of (snd (snd ?run)) =
      map map_of w1 @ [map_of (cx_flow_inputs demo_node_context) ++ [''env'' \<mapsto> GStr ''test''] ++ map_of bound]" by auto
  with start show ?thesis by (intro exI [of _ bound]) (simp del: map_add_upd)
qed

text \<open>
  Claim C30. What leaves a run is masked against one set: every node result of a flow result is
  masked against the secrets known when it is reported, whatever was cached before, the final
  outputs are clean, and neither the error nor its message holds a secret.
\<close>

theorem flow_result_holds_no_secret:
  assumes reach: "reach (redact_start g) (redact_step g heap) r" and S: "rd_current r = Some S"
    and words: "plain_words (ss_secrets S)" "plain_words (ss_body_forms S)" "faithful_codec g S"
    and codes: "\<And>err code msg. fr_error fr = Some err \<Longrightarrow> as_user_error err = Some (code, msg) \<Longrightarrow> \<not> holds_word (ss_secrets S) code"
  shows "\<exists>m. fst (mask_flow_result g heap fr r) = Some m \<and>
     mf_results m = map (\<lambda>(nodeID, addr). (nodeID, Some (set_result g S (heap addr)))) (fr_results fr) \<and>
     clean g S (mf_final_outputs m) \<and>
     (\<forall>err. mf_error m = Some err \<longrightarrow> \<not> holds_word (ss_secrets S) (error_text err)) \<and>
     (\<forall>msg. mf_error_msg m = Some msg \<longrightarrow> \<not> holds_word (ss_secrets S) msg)"
proof -
  note ok = redaction.reach_inv [OF reach]
  show ?thesis
    using mask_results_current [OF ok S, of "fr_results fr"] mask_values_clean [OF words, of "fr_final_outputs fr"]
      mask_error_clean [OF words(1)] codes mask_all_clean [OF words(1)]
    by (auto simp: mask_flow_result_def S case_prod_beta Let_def set_text_def)
qed

theorem flow_result_holds_no_secret_witness:
  "\<exists>m. fst (mask_flow_result demo_codec (\<lambda>_. demo_report)
       \<lparr>fr_results = [(''mint'', 0)], fr_final_outputs = None, fr_error = None, fr_error_msg = Some ''token minted-token''\<rparr>
       (learn_output demo_codec ''mint'' ''jwt'' (GStr ''minted-token'') empty_redactor)) = Some m \<and>
     length (mf_results m) = 1"
proof -
  let ?r = "learn_output demo_codec ''mint'' ''jwt'' (GStr ''minted-token'') empty_redactor"
  define S where "S = the (rd_current ?r)"
  have S: "rd_current ?r = Some S" "plain_words (ss_secrets S)" "plain_words (ss_body_forms S)"
    unfolding S_def by code_simp+
  have "reach (redact_start demo_codec) (redact_step demo_codec (\<lambda>_. demo_report)) ?r"
    by (rule reach_step [OF reach_start [where s = empty_redactor]])
      (use redact_stepI [of demo_codec "\<lambda>_. demo_report" empty_redactor "Learn ''mint'' ''jwt'' (GStr ''minted-token'')"]
        in \<open>simp_all add: redact_start_def\<close>)
  from flow_result_holds_no_secret [OF this S demo_codec_faithful,
      of "\<lparr>fr_results = [(''mint'', 0)], fr_final_outputs = None, fr_error = None, fr_error_msg = Some ''token minted-token''\<rparr>"]
  show ?thesis by auto
qed

end
