(* ===== verification/Event_Stream.thy ===== *)
theory Event_Stream
  imports Requests
begin

text \<open>
  The event stream node (\<open>pkg/node/sse_node.go\<close>): the fields of a stream line, the parser that
  dispatches an event at every blank line, the loop that reads until a stop condition, and \<open>Execute\<close>.
  What the node reads is a sequence of scans, finite or not: a scan is a line or the end of the body,
  with whether the stream's context is done by then. The HTTP client is the argument \<open>connect\<close>.
\<close>

section \<open>Lines of a stream\<close>

text \<open>
  \<open>bufio.Scanner\<close> over a body: lines end at a line feed and lose one carriage return, the last
  line may lack its end, and a line that does not fit the buffer ends the scan with an error. The
  bytes a failing read leaves are delivered as a line before the error.
\<close>

definition line_feed :: char where
  "line_feed = CHR 0x0A"

definition carriage_return :: char where
  "carriage_return = CHR 0x0D"

definition scanner_buffer_bytes :: nat where
  "scanner_buffer_bytes = 1048576"

definition token_too_long :: go_error where
  "token_too_long = PlainError ''bufio.Scanner: token too long''"

definition drop_return :: "string \<Rightarrow> string" where
  "drop_return s = (if s \<noteq> [] \<and> last s = carriage_return then butlast s else s)"

definition trim_returns :: "string \<Rightarrow> string" where
  "trim_returns s = rev (dropWhile (\<lambda>c. c = carriage_return) (rev s))"

function scan_lines :: "string \<Rightarrow> go_error option \<Rightarrow> string list \<times> go_error option" where
  "scan_lines body err =
     (if body = [] then ([], err)
      else
        (let line = takeWhile (\<lambda>c. c \<noteq> line_feed) body in
         if scanner_buffer_bytes \<le> length line then ([], Some token_too_long)
         else (case scan_lines (drop (Suc (length line)) body) err of
                 (lines, e) \<Rightarrow> (drop_return line # lines, e))))"
  by pat_completeness auto
termination by (relation "measure (\<lambda>(body, err). length body)") auto

declare scan_lines.simps [simp del]

text \<open>\<open>splitSseField\<close> and \<open>parseSseData\<close>.\<close>

definition split_sse_field :: "string \<Rightarrow> string \<times> string" where
  "split_sse_field line =
     (case dropWhile (\<lambda>c. c \<noteq> CHR '':'') line of
        [] \<Rightarrow> (line, [])
      | _ # value \<Rightarrow>
          (takeWhile (\<lambda>c. c \<noteq> CHR '':'') line,
           case strip_prefix '' '' value of Some v \<Rightarrow> v | None \<Rightarrow> value))"

definition parse_sse_data :: "'a request_text_scheme \<Rightarrow> string \<Rightarrow> gval" where
  "parse_sse_data g s =
     (if s = [] then GStr []
      else (case unmarshal_json g s of Inl e \<Rightarrow> GStr s | Inr v \<Rightarrow> v))"

text \<open>Why a stream ended.\<close>

definition stop_max_events :: string where
  "stop_max_events = ''max_events''"

definition stop_completion_event :: string where
  "stop_completion_event = ''completion_event''"

definition stop_timeout :: string where
  "stop_timeout = ''timeout''"

definition stop_eof :: string where
  "stop_eof = ''eof''"

definition stop_assertion_failure :: string where
  "stop_assertion_failure = ''assertion_failure''"

lemma stop_reasons:
  "distinct [[], stop_max_events, stop_completion_event, stop_timeout, stop_eof, stop_assertion_failure]"
  "distinct [stop_assertion_failure, stop_eof, stop_timeout, stop_completion_event, stop_max_events, []]"
  unfolding stop_max_events_def stop_completion_event_def stop_timeout_def stop_eof_def stop_assertion_failure_def
  by code_simp+

lemmas stop_distinct [simp] = stop_reasons [simplified]

section \<open>The parser\<close>

record sse_data =
  sd_url :: string
  sd_method :: string
  sd_headers :: "(string \<times> string) list"
  sd_max_events :: int
  sd_timeout_ms :: int
  sd_completion_event :: string
  sd_stop_on_assertion_failure :: "bool option"

definition max_events :: "sse_data \<Rightarrow> nat" where
  "max_events d = (if 0 < sd_max_events d then nat (sd_max_events d) else 100)"

definition stream_timeout_ms :: "sse_data \<Rightarrow> int" where
  "stream_timeout_ms d = (if 0 < sd_timeout_ms d then sd_timeout_ms d else 30000)"

definition stop_on_assertion_failure :: "sse_data \<Rightarrow> bool" where
  "stop_on_assertion_failure d = (case sd_stop_on_assertion_failure d of None \<Rightarrow> True | Some b \<Rightarrow> b)"

text \<open>The assertions of one event: their results carry the index of the event.\<close>

definition event_error :: "nat \<Rightarrow> go_error \<Rightarrow> go_error" where
  "event_error i err = WrapError (''event '' @ nat_text i @ '' '' @ error_text err) err"

definition evaluate_event ::
    "'a request_text_scheme \<Rightarrow> (string \<rightharpoonup> comparator) \<Rightarrow> value_context assertion list \<Rightarrow> gval \<Rightarrow> nat \<Rightarrow>
     assertion_result list \<times> go_error option" where
  "evaluate_event g comparators as v i =
     (if as = [] then ([], None)
      else (case evaluate_assertions (go_text.truncate g) comparators as (new_value_response_context g v) of
              (results, err) \<Rightarrow> (map (\<lambda>r. r\<lparr>a_index := i\<rparr>) results, map_option (event_error i) err)))"

record sse_parser =
  sp_data_lines :: "string list"
  sp_event_name :: string
  sp_have_data :: bool
  sp_events :: "gval list"
  sp_results :: "assertion_result list"

text \<open>
  \<open>dispatch\<close> and \<open>feed\<close>: the parser, the stop reason, empty while the stream goes on, and the error
  of a failed assertion that ends it.
\<close>

definition dispatch ::
    "'a request_text_scheme \<Rightarrow> (string \<rightharpoonup> comparator) \<Rightarrow> sse_data \<Rightarrow> value_context assertion list \<Rightarrow> sse_parser \<Rightarrow>
     sse_parser \<times> string \<times> go_error option" where
  "dispatch g comparators d as p =
     (if \<not> sp_have_data p \<and> sp_event_name p = [] then (p, [], None)
      else
        (let name = sp_event_name p;
             payload = join_with [line_feed] (sp_data_lines p);
             v = parse_sse_data g payload;
             (results, err) = evaluate_event g comparators as v (length (sp_events p));
             p' = \<lparr>sp_data_lines = [], sp_event_name = [], sp_have_data = False,
                   sp_events = sp_events p @ [v], sp_results = sp_results p @ results\<rparr>
         in if err \<noteq> None \<and> stop_on_assertion_failure d then (p', stop_assertion_failure, err)
            else if sd_completion_event d \<noteq> [] \<and> (name = sd_completion_event d \<or> payload = sd_completion_event d)
            then (p', stop_completion_event, None)
            else if max_events d \<le> length (sp_events p') then (p', stop_max_events, None)
            else (p', [], None)))"

definition feed ::
    "'a request_text_scheme \<Rightarrow> (string \<rightharpoonup> comparator) \<Rightarrow> sse_data \<Rightarrow> value_context assertion list \<Rightarrow> string \<Rightarrow> sse_parser \<Rightarrow>
     sse_parser \<times> string \<times> go_error option" where
  "feed g comparators d as line p =
     (if line = [] then dispatch g comparators d as p
      else if has_prefix line '':'' then (p, [], None)
      else (case split_sse_field line of
              (field, value) \<Rightarrow>
                if field = ''data'' then (p\<lparr>sp_data_lines := sp_data_lines p @ [value], sp_have_data := True\<rparr>, [], None)
                else if field = ''event'' then (p\<lparr>sp_event_name := value\<rparr>, [], None)
                else (p, [], None)))"

section \<open>Reading until a stop condition\<close>

datatype scan =
    Scanned string bool
  | Ended bool "go_error option"

text \<open>Events, assertion results, the stop reason, and the error of the stream.\<close>

type_synonym consumed = "gval list \<times> assertion_result list \<times> string \<times> go_error option"

definition stopped :: "sse_parser \<Rightarrow> string \<Rightarrow> go_error option \<Rightarrow> consumed" where
  "stopped p reason err = (sp_events p, sp_results p, reason, err)"

definition stream_read_error :: "go_error \<Rightarrow> go_error" where
  "stream_read_error err = UserError ''SSE_FAILED'' ''SSE stream read error'' (Some err)"

partial_function (option) consume_from ::
    "'a request_text_scheme \<Rightarrow> (string \<rightharpoonup> comparator) \<Rightarrow> sse_data \<Rightarrow> value_context assertion list \<Rightarrow> (nat \<Rightarrow> scan) \<Rightarrow>
     nat \<Rightarrow> sse_parser \<Rightarrow> consumed option" where
  "consume_from g comparators d as scans n p =
     (case scans n of
        Ended done err \<Rightarrow>
          Some (if done then stopped p stop_timeout None else stopped p stop_eof (map_option stream_read_error err))
      | Scanned line done \<Rightarrow>
          (if done then Some (stopped p stop_timeout None)
           else (case feed g comparators d as (trim_returns line) p of
                   (p', reason, err) \<Rightarrow>
                     if err \<noteq> None \<or> reason \<noteq> [] then Some (stopped p' reason err)
                     else consume_from g comparators d as scans (Suc n) p')))"

definition new_parser :: sse_parser where
  "new_parser = \<lparr>sp_data_lines = [], sp_event_name = [], sp_have_data = False, sp_events = [], sp_results = []\<rparr>"

definition consume ::
    "'a request_text_scheme \<Rightarrow> (string \<rightharpoonup> comparator) \<Rightarrow> sse_data \<Rightarrow> value_context assertion list \<Rightarrow> (nat \<Rightarrow> scan) \<Rightarrow>
     consumed option" where
  "consume g comparators d as scans = consume_from g comparators d as scans 0 new_parser"

section \<open>Execute\<close>

record sse_request =
  sq_method :: string
  sq_url :: string
  sq_headers :: "(string \<times> string) list"
  sq_timeout_ms :: int

text \<open>
  What building the request and sending it came to: no request, a \<open>UserError\<close> the client's error
  wraps, a failure of the transport with whether the stream's context is done, or a response with
  its status and its body.
\<close>

datatype connect_outcome =
    NotBuilt go_error
  | CallRefused go_error
  | NotConnected transport_failure bool
  | Connected int "nat \<Rightarrow> scan"

record sse_result = asserted_result +
  se_method :: string
  se_url :: string
  se_events :: "gval list"
  se_event_count :: nat
  se_stop_reason :: string

definition sse_references :: "base_node \<Rightarrow> sse_data \<Rightarrow> string list" where
  "sse_references n d =
     remdups (text_references (sd_url d) @ concat (map (text_references \<circ> snd) (sd_headers d)) @
       assertion_references (bn_assertions n))"

definition sse_output_schema :: "string list" where
  "sse_output_schema = [''events'', ''count'', ''last'']"

text \<open>
  \<open>strings.ToUpper\<close> on the letters of a method; a method with any other character is no token, and no
  request is built from it.
\<close>

definition sse_method :: "sse_data \<Rightarrow> string" where
  "sse_method d = (let m = map ascii_upper (trim_space (sd_method d)) in if m = [] then ''GET'' else m)"

definition prepare_connection ::
    "'a request_text_scheme \<Rightarrow> 'w resolver \<Rightarrow> sse_data \<Rightarrow> 'w \<Rightarrow> (go_error + string \<times> (string \<times> string) list) \<times> 'w" where
  "prepare_connection g r d w =
     (case resolve g r (GStr (sd_url d)) w of
        (GStr url, w1) \<Rightarrow> (case resolve_headers g r (sd_headers d) w1 of (headers, w2) \<Rightarrow> (Inr (url, headers), w2))
      | (v, w1) \<Rightarrow> (Inl (PlainError (''resolved SSE URL is not a string: '' @ type_name g v)), w1))"

definition sse_succeeded :: "base_node \<Rightarrow> outputs \<Rightarrow> string \<Rightarrow> string \<Rightarrow> consumed \<Rightarrow> sse_result \<times> go_error option" where
  "sse_succeeded n inputs method url c =
     (case c of
        (events, results, reason, _) \<Rightarrow>
          (asserted_result.extend
             ((base_result n KindSse inputs
                [''events'' \<mapsto> GList events, ''count'' \<mapsto> GInt (int (length events)),
                 ''last'' \<mapsto> (if events = [] then GNil else last events)])\<lparr>r_assertion_results := results\<rparr>)
             \<lparr>se_method = method, se_url = url, se_events = events, se_event_count = length events, se_stop_reason = reason\<rparr>,
           None))"

definition sse_failed ::
    "base_node \<Rightarrow> outputs \<Rightarrow> string \<Rightarrow> string \<Rightarrow> consumed \<Rightarrow> go_error \<Rightarrow> sse_result \<times> go_error option" where
  "sse_failed n inputs method url c err =
     (case c of
        (events, results, reason, _) \<Rightarrow>
          (asserted_result.extend
             ((failed_node_base n inputs err KindSse ''SSE_FAILED'' (error_text err))\<lparr>r_assertion_results := results\<rparr>)
             \<lparr>se_method = method, se_url = url, se_events = events, se_event_count = length events, se_stop_reason = reason\<rparr>,
           Some err))"

definition nothing_consumed :: consumed where
  "nothing_consumed = ([], [], [], None)"

text \<open>No result stands for an execution that does not return.\<close>

definition sse_execute ::
    "'a request_text_scheme \<Rightarrow> (string \<rightharpoonup> comparator) \<Rightarrow> base_node \<Rightarrow> sse_data \<Rightarrow> ('w, 'x) execution_context_scheme \<Rightarrow>
     (sse_request \<Rightarrow> 'w \<Rightarrow> connect_outcome \<times> 'w) \<Rightarrow> 'w \<Rightarrow> (sse_result \<times> go_error option) option \<times> 'w" where
  "sse_execute g comparators n d cx connect w =
     (let inputs = map_of (cx_inputs cx);
          method = sse_method d in
      case prepare_connection g (node_resolver cx) d w of
        (Inl err, w1) \<Rightarrow> (Some (sse_failed n inputs method (sd_url d) nothing_consumed err), w1)
      | (Inr (url, headers), w1) \<Rightarrow>
          (let failed = sse_failed n inputs method url in
           case resolve_assertions g cx (bn_assertions n) w1 of
             ((_, Some err), w2) \<Rightarrow> (Some (failed nothing_consumed err), w2)
           | ((as, None), w2) \<Rightarrow>
               (case connect
                       \<lparr>sq_method = method, sq_url = url,
                        sq_headers = [(''Accept'', ''text/event-stream''), (''Cache-Control'', ''no-cache'')] @ headers,
                        sq_timeout_ms = stream_timeout_ms d\<rparr> w2 of
                  (NotBuilt err, w3) \<Rightarrow>
                    (Some (failed nothing_consumed
                       (UserError ''SSE_FAILED'' (''Could not build the SSE request for '' @ request_host g url) (Some err))), w3)
                | (CallRefused err, w3) \<Rightarrow> (Some (failed nothing_consumed err), w3)
                | (NotConnected f done, w3) \<Rightarrow>
                    (Some
                       (if done then sse_succeeded n inputs method url ([], [], stop_timeout, None)
                        else failed nothing_consumed (classify_request_error g url f)), w3)
                | (Connected status scans, w3) \<Rightarrow>
                    (if status < 200 \<or> 300 \<le> status
                     then (Some (failed nothing_consumed
                             (UserError ''SSE_FAILED'' (''SSE endpoint returned non-2xx status: '' @ int_text status) None)), w3)
                     else
                       (map_option
                          (\<lambda>c. case c of
                                 (events, results, reason, Some err) \<Rightarrow> failed c err
                               | (events, results, reason, None) \<Rightarrow> sse_succeeded n inputs method url c)
                          (consume g comparators d as scans), w3)))))"

section \<open>The events of a list of lines\<close>

text \<open>
  What a stream means, read as a whole: the lines between two blank lines are a block; the fields of
  a block give its name and its data, and a block with neither is no event.
\<close>

definition field_values :: "string \<Rightarrow> string list \<Rightarrow> string list" where
  "field_values name block =
     map (\<lambda>l. snd (split_sse_field l))
       (filter (\<lambda>l. \<not> has_prefix l '':'' \<and> fst (split_sse_field l) = name) block)"

definition block_event :: "string list \<Rightarrow> (string \<times> string) list" where
  "block_event block =
     (let name = last ([] # field_values ''event'' block); values = field_values ''data'' block in
      if values = [] \<and> name = [] then [] else [(name, join_with [line_feed] values)])"

fun stream_events :: "string list \<Rightarrow> string list \<Rightarrow> (string \<times> string) list" where
  "stream_events block [] = []"
| "stream_events block (l # ls) =
     (if l = [] then block_event block @ stream_events [] ls else stream_events (block @ [l]) ls)"

text \<open>Judging the events of a stream in order, from index \<open>i\<close> on, up to the first one that stops it.\<close>

fun judge_events ::
    "'a request_text_scheme \<Rightarrow> (string \<rightharpoonup> comparator) \<Rightarrow> sse_data \<Rightarrow> value_context assertion list \<Rightarrow> nat \<Rightarrow>
     (string \<times> string) list \<Rightarrow> consumed" where
  "judge_events g comparators d as i [] = ([], [], [], None)"
| "judge_events g comparators d as i ((name, payload) # es) =
     (let v = parse_sse_data g payload; (results, err) = evaluate_event g comparators as v i in
      if err \<noteq> None \<and> stop_on_assertion_failure d then ([v], results, stop_assertion_failure, err)
      else if sd_completion_event d \<noteq> [] \<and> sd_completion_event d \<in> {name, payload}
      then ([v], results, stop_completion_event, None)
      else if max_events d \<le> Suc i then ([v], results, stop_max_events, None)
      else (case judge_events g comparators d as (Suc i) es of
              (vs, later, reason, e) \<Rightarrow> (v # vs, results @ later, reason, e)))"

text \<open>How a stream ends that no event stopped.\<close>

fun stream_ending :: "scan \<Rightarrow> string \<times> go_error option" where
  "stream_ending (Scanned line done) = (stop_timeout, None)"
| "stream_ending (Ended done err) = (if done then (stop_timeout, None) else (stop_eof, map_option stream_read_error err))"

fun last_scan :: "scan \<Rightarrow> bool" where
  "last_scan (Scanned line done) = done"
| "last_scan (Ended done err) = True"

fun scanned_line :: "scan \<Rightarrow> string" where
  "scanned_line (Scanned line done) = trim_returns line"
| "scanned_line (Ended done err) = []"

definition read_lines :: "(nat \<Rightarrow> scan) \<Rightarrow> nat \<Rightarrow> string list" where
  "read_lines scans n = map (\<lambda>i. scanned_line (scans i)) [0..<n]"

text \<open>The parser has read a block so far.\<close>

definition has_read :: "sse_parser \<Rightarrow> string list \<Rightarrow> bool" where
  "has_read p block \<longleftrightarrow>
     sp_data_lines p = field_values ''data'' block \<and> sp_have_data p = (field_values ''data'' block \<noteq> []) \<and>
     sp_event_name p = last ([] # field_values ''event'' block)"

lemma has_read_new [simp]: "has_read new_parser []"
  by (simp add: has_read_def new_parser_def field_values_def)

lemma feed_field:
  assumes "has_read p block" and "line \<noteq> []"
  shows "\<exists>p'. feed g comparators d as line p = (p', [], None) \<and> has_read p' (block @ [line]) \<and>
     sp_events p' = sp_events p \<and> sp_results p' = sp_results p"
  using assms by (auto simp: feed_def has_read_def field_values_def split: prod.splits)

lemma feed_blank_nothing:
  assumes "has_read p block" and "block_event block = []"
  shows "feed g comparators d as [] p = (p, [], None)" and "has_read p []"
  using assms
  by (auto simp: feed_def dispatch_def has_read_def block_event_def field_values_def Let_def split: if_splits)

text \<open>A step of the parser on a blank line is a step of \<open>judge_events\<close> on the event of its block.\<close>

lemma feed_blank_event:
  assumes "has_read p block" and "block_event block = [(name, payload)]"
  obtains p' reason err results where "feed g comparators d as [] p = (p', reason, err)" and "has_read p' []"
    and "sp_results p' = sp_results p @ results" and "sp_events p' = sp_events p @ [parse_sse_data g payload]"
    and "\<And>es. judge_events g comparators d as (length (sp_events p)) ((name, payload) # es) =
          (if err \<noteq> None \<or> reason \<noteq> [] then ([parse_sse_data g payload], results, reason, err)
           else (case judge_events g comparators d as (Suc (length (sp_events p))) es of
                   (vs, later, r, e) \<Rightarrow> (parse_sse_data g payload # vs, results @ later, r, e)))"
proof -
  have "sp_event_name p = name" "join_with [line_feed] (sp_data_lines p) = payload"
    "\<not> (\<not> sp_have_data p \<and> sp_event_name p = [])"
    using assms by (auto simp: has_read_def block_event_def Let_def split: if_splits)
  moreover obtain rs e where ev: "evaluate_event g comparators as (parse_sse_data g payload) (length (sp_events p)) = (rs, e)"
    by fastforce
  moreover obtain p' reason err where f: "feed g comparators d as [] p = (p', reason, err)"
    by (cases "feed g comparators d as [] p")
  ultimately have "p' = \<lparr>sp_data_lines = [], sp_event_name = [], sp_have_data = False,
        sp_events = sp_events p @ [parse_sse_data g payload], sp_results = sp_results p @ rs\<rparr>"
    and stop: "(reason, err) =
       (if e \<noteq> None \<and> stop_on_assertion_failure d then (stop_assertion_failure, e)
        else if sd_completion_event d \<noteq> [] \<and> sd_completion_event d \<in> {name, payload} then (stop_completion_event, None)
        else if max_events d \<le> Suc (length (sp_events p)) then (stop_max_events, None) else ([], None))"
    by (auto simp: feed_def dispatch_def Let_def split: if_splits)
  with f show ?thesis
    by (intro that [of p' reason err rs]) (auto simp: has_read_def field_values_def ev Let_def split: if_splits prod.splits)
qed

lemma consume_lines:
  assumes "\<And>i. i < length raws \<Longrightarrow> scans (n + i) = Scanned (raws ! i) False" and "has_read p block"
  shows "case judge_events g comparators d as (length (sp_events p)) (stream_events block (map trim_returns raws)) of
       (vs, rs, reason, err) \<Rightarrow>
         if err \<noteq> None \<or> reason \<noteq> []
         then consume_from g comparators d as scans n p = Some (sp_events p @ vs, sp_results p @ rs, reason, err)
         else \<exists>p'. consume_from g comparators d as scans n p = consume_from g comparators d as scans (n + length raws) p' \<and>
                sp_events p' = sp_events p @ vs \<and> sp_results p' = sp_results p @ rs"
  using assms
proof (induction raws arbitrary: n p block)
  case Nil
  show ?case by (auto intro: exI [of _ p])
next
  case (Cons raw raws)
  have scan: "scans n = Scanned raw False" using Cons.prems(1) [of 0] by simp
  have tail: "scans (Suc n + i) = Scanned (raws ! i) False" if "i < length raws" for i
    using Cons.prems(1) [of "Suc i"] that by simp
  note step = consume_from.simps [of g comparators d as scans n p, unfolded scan scan.case if_False]
  show ?case
  proof (cases "trim_returns raw = []")
    case False
    then obtain p' where p': "feed g comparators d as (trim_returns raw) p = (p', [], None)"
        "has_read p' (block @ [trim_returns raw])" "sp_events p' = sp_events p" "sp_results p' = sp_results p"
      using feed_field [OF Cons.prems(2)] by blast
    from Cons.IH [OF tail p'(2)] show ?thesis
      using False by (auto simp: step p' split: prod.splits if_splits)
  next
    case blank: True
    show ?thesis
    proof (cases "block_event block")
      case Nil
      with Cons.IH [OF tail feed_blank_nothing(2) [OF Cons.prems(2) Nil]] show ?thesis
        by (auto simp: step blank Nil feed_blank_nothing(1) [OF Cons.prems(2) Nil] split: prod.splits if_splits)
    next
      case (Cons e rest)
      then obtain name payload where e: "block_event block = [(name, payload)]"
        by (auto simp: block_event_def Let_def split: if_splits)
      obtain p' reason err results where
        p': "feed g comparators d as [] p = (p', reason, err)" "has_read p' []"
          "sp_results p' = sp_results p @ results" "sp_events p' = sp_events p @ [parse_sse_data g payload]"
        and j: "\<And>es. judge_events g comparators d as (length (sp_events p)) ((name, payload) # es) =
          (if err \<noteq> None \<or> reason \<noteq> [] then ([parse_sse_data g payload], results, reason, err)
           else (case judge_events g comparators d as (Suc (length (sp_events p))) es of
                   (vs, later, r, e) \<Rightarrow> (parse_sse_data g payload # vs, results @ later, r, e)))"
        using feed_blank_event [OF Cons.prems(2) e] by blast
      have events: "stream_events block (map trim_returns (raw # raws)) = (name, payload) # stream_events [] (map trim_returns raws)"
        by (simp add: blank e)
      show ?thesis
      proof (cases "err \<noteq> None \<or> reason \<noteq> []")
        case True
        with p' show ?thesis unfolding events j by (simp add: step blank stopped_def)
      next
        case False
        with p' have "consume_from g comparators d as scans n p = consume_from g comparators d as scans (Suc n) p'"
          by (simp add: step blank)
        with Cons.IH [OF tail p'(2)] False p'(3,4) show ?thesis
          unfolding events j by (auto split: prod.splits if_splits)
      qed
    qed
  qed
qed

lemma judge_error_reason:
  "judge_events g comparators d as i es = (vs, rs, reason, err) \<Longrightarrow> err \<noteq> None \<Longrightarrow> reason \<noteq> []"
  by (induction es arbitrary: i vs rs) (auto simp: Let_def split: prod.splits if_splits)

text \<open>An event stream that has as many events as the node takes is stopped by one of them.\<close>

lemma judge_stops:
  "max_events d \<le> i + length es \<Longrightarrow> es \<noteq> [] \<Longrightarrow>
   judge_events g comparators d as i es = (vs, rs, reason, err) \<Longrightarrow> reason \<noteq> []"
proof (induction es arbitrary: i vs rs reason err)
  case (Cons e es)
  obtain name payload where e: "e = (name, payload)" by (cases e)
  show ?case
  proof (cases "es = []")
    case True
    with Cons.prems show ?thesis by (auto simp: e Let_def split: prod.splits if_splits)
  next
    case False
    have "max_events d \<le> Suc i + length es" using Cons.prems(1) by simp
    note IH = Cons.IH [OF this False]
    from Cons.prems(3) show ?thesis by (auto simp: e Let_def split: prod.splits if_splits dest: IH)
  qed
qed simp

lemma evaluate_from_passed: "evaluate_from g comparators i as rc = (rs, None) \<Longrightarrow> r \<in> set rs \<Longrightarrow> a_passed r"
  by (induction g comparators i as rc arbitrary: rs rule: evaluate_from.induct)
    (auto simp: failure_of_def Let_def split: if_splits option.splits prod.splits)

lemma evaluate_event_results:
  "evaluate_event g comparators as v i = (rs, err) \<Longrightarrow> r \<in> set rs \<Longrightarrow> a_index r = i \<and> (err = None \<longrightarrow> a_passed r)"
  by (auto simp: evaluate_event_def evaluate_assertions_def split: if_splits prod.splits) (rule evaluate_from_passed)

text \<open>What a parser keeps while the stream goes on.\<close>

definition parser_ok :: "sse_data \<Rightarrow> sse_parser \<Rightarrow> bool" where
  "parser_ok d p \<longleftrightarrow>
     length (sp_events p) < max_events d \<and>
     (\<forall>r\<in>set (sp_results p). a_index r < length (sp_events p) \<and> (stop_on_assertion_failure d \<longrightarrow> a_passed r))"

definition consumed_ok :: "sse_data \<Rightarrow> consumed \<Rightarrow> bool" where
  "consumed_ok d c \<longleftrightarrow>
     (case c of
        (events, results, reason, err) \<Rightarrow>
          length events \<le> max_events d \<and> (\<forall>r\<in>set results. a_index r < length events) \<and>
          (reason = stop_max_events \<longrightarrow> length events = max_events d) \<and>
          (err \<noteq> None \<longrightarrow> reason \<in> {stop_assertion_failure, stop_eof}) \<and>
          (stop_on_assertion_failure d \<and> reason \<noteq> stop_assertion_failure \<longrightarrow> (\<forall>r\<in>set results. a_passed r)) \<and>
          reason \<in> {stop_max_events, stop_completion_event, stop_timeout, stop_eof, stop_assertion_failure})"

lemma new_parser_ok [simp]: "parser_ok d new_parser"
  by (simp add: parser_ok_def new_parser_def max_events_def)

lemma dispatch_ok:
  assumes "parser_ok d p" and "dispatch g comparators d as p = (p', reason, err)"
  shows "if err \<noteq> None \<or> reason \<noteq> [] then consumed_ok d (stopped p' reason err) else parser_ok d p'"
proof (cases "\<not> sp_have_data p \<and> sp_event_name p = []")
  case True
  with assms show ?thesis by (auto simp: dispatch_def)
next
  case False
  obtain rs e where ev: "evaluate_event g comparators as (parse_sse_data g (join_with [line_feed] (sp_data_lines p)))
      (length (sp_events p)) = (rs, e)" by fastforce
  note rs = evaluate_event_results [OF ev]
  show ?thesis
    using False assms rs unfolding dispatch_def
    by (auto simp: ev Let_def parser_ok_def consumed_ok_def stopped_def less_Suc_eq split: if_splits)
qed

lemma feed_ok:
  assumes "parser_ok d p" and "feed g comparators d as line p = (p', reason, err)"
  shows "if err \<noteq> None \<or> reason \<noteq> [] then consumed_ok d (stopped p' reason err) else parser_ok d p'"
  using dispatch_ok [OF assms(1), of g comparators as p' reason err] assms
  by (auto simp: feed_def parser_ok_def split: if_splits prod.splits)

lemma consume_from_ok:
  assumes "consume_from g comparators d as scans n p = Some c" and "parser_ok d p"
  shows "consumed_ok d c"
proof (rule consume_from.raw_induct [where P = "\<lambda>g comparators d as scans n p c. parser_ok d p \<longrightarrow> consumed_ok d c",
      OF _ assms(1), rule_format, OF _ assms(2)])
  fix cf and g :: "'a request_text_scheme" and comparators d as scans n p c
  assume IH: "\<And>g :: 'a request_text_scheme. \<And>comparators d as scans n p c.
      cf g comparators d as scans n p = Some c \<Longrightarrow> parser_ok d p \<Longrightarrow> consumed_ok d c"
    and run: "(case scans n of
        Ended done err \<Rightarrow>
          Some (if done then stopped p stop_timeout None else stopped p stop_eof (map_option stream_read_error err))
      | Scanned line done \<Rightarrow>
          (if done then Some (stopped p stop_timeout None)
           else (case feed g comparators d as (trim_returns line) p of
                   (p', reason, err) \<Rightarrow>
                     if err \<noteq> None \<or> reason \<noteq> [] then Some (stopped p' reason err)
                     else cf g comparators d as scans (Suc n) p'))) = Some c"
    and ok: "parser_ok d p"
  have ends: "consumed_ok d (stopped p stop_timeout None)" "consumed_ok d (stopped p stop_eof err)" for err
    using ok by (auto simp: consumed_ok_def stopped_def parser_ok_def)
  show "consumed_ok d c"
  proof (cases "scans n")
    case (Ended fin err)
    with run ends show ?thesis by (auto split: if_splits)
  next
    case (Scanned line fin)
    obtain p' reason err where f: "feed g comparators d as (trim_returns line) p = (p', reason, err)"
      by (cases "feed g comparators d as (trim_returns line) p")
    from run Scanned f ends feed_ok [OF ok f] IH [of g comparators d as scans "Suc n" p' c] show ?thesis
      by (auto split: if_splits)
  qed
qed

section \<open>Writing a stream\<close>

text \<open>A server's form of an event, and the scans of a body that came to its end.\<close>

definition write_event :: "string \<times> string \<Rightarrow> string list" where
  "write_event e =
     (if fst e = [] then [] else [''event: '' @ fst e]) @
     map (\<lambda>v. ''data: '' @ v) (split_at line_feed (snd e)) @ [[]]"

definition write_stream :: "(string \<times> string) list \<Rightarrow> string" where
  "write_stream events = concat (map (\<lambda>l. l @ [line_feed]) (concat (map write_event events)))"

definition finite_scans :: "string list \<Rightarrow> go_error option \<Rightarrow> nat \<Rightarrow> scan" where
  "finite_scans ls err n = (if n < length ls then Scanned (ls ! n) False else Ended False err)"

definition plain_event :: "string \<times> string \<Rightarrow> bool" where
  "plain_event e \<longleftrightarrow>
     line_feed \<notin> set (fst e) \<and> carriage_return \<notin> set (fst e) \<and> carriage_return \<notin> set (snd e) \<and>
     length (fst e) + 7 < scanner_buffer_bytes \<and> length (snd e) + 6 < scanner_buffer_bytes"

lemma takeWhile_line: "line_feed \<notin> set l \<Longrightarrow> takeWhile (\<lambda>c. c \<noteq> line_feed) (l @ line_feed # s) = l"
  by (subst takeWhile_append2) auto

lemma scan_written:
  "(\<And>l. l \<in> set ls \<Longrightarrow> line_feed \<notin> set l \<and> carriage_return \<notin> set l \<and> length l < scanner_buffer_bytes) \<Longrightarrow>
   scan_lines (concat (map (\<lambda>l. l @ [line_feed]) ls)) err = (ls, err)"
proof (induction ls)
  case Nil
  show ?case by (simp add: scan_lines.simps)
next
  case (Cons l ls)
  have l: "line_feed \<notin> set l" "carriage_return \<notin> set l" "length l < scanner_buffer_bytes" using Cons.prems [of l] by auto
  then have "drop_return l = l" by (auto simp: drop_return_def dest: last_in_set)
  moreover have "scan_lines (concat (map (\<lambda>l. l @ [line_feed]) ls)) err = (ls, err)" using Cons by simp
  ultimately show ?case
    using l by (subst scan_lines.simps) (simp add: takeWhile_line)
qed

lemma trim_returns_plain: "carriage_return \<notin> set l \<Longrightarrow> trim_returns l = l"
  unfolding trim_returns_def by (cases "rev l") (auto simp: rev_swap dropWhile_eq_self_iff)

lemma stream_events_block:
  "[] \<notin> set ls \<Longrightarrow> stream_events block (ls @ [] # rest) = block_event (block @ ls) @ stream_events [] rest"
  by (induction ls arbitrary: block) auto

lemma block_event_written:
  "block_event ((if name = [] then [] else [''event: '' @ name]) @ map (\<lambda>v. ''data: '' @ v) (split_at line_feed payload)) =
     [(name, payload)]"
  by (auto simp: block_event_def field_values_def split_sse_field_def comp_def filter_map join_split Let_def)

lemma stream_events_written: "stream_events [] (concat (map write_event events)) = events"
proof (induction events)
  case (Cons e events)
  let ?block = "(if fst e = [] then [] else [''event: '' @ fst e]) @ map (\<lambda>v. ''data: '' @ v) (split_at line_feed (snd e))"
  have "stream_events [] (?block @ [] # concat (map write_event events)) =
      block_event ?block @ stream_events [] (concat (map write_event events))"
    using stream_events_block [of ?block "[]"] by (cases "fst e = []") (auto simp del: stream_events.simps(2))
  moreover have "concat (map write_event (e # events)) = ?block @ [] # concat (map write_event events)"
    by (simp add: write_event_def)
  ultimately show ?case using Cons block_event_written [of "fst e" "snd e"] by (simp only: prod.collapse append.simps)
qed simp

lemma split_at_chars: "w \<in> set (split_at sep s) \<Longrightarrow> set w \<subseteq> set s \<and> length w \<le> length s"
proof (induction s arbitrary: w)
  case (Cons c s)
  then show ?case by (cases "split_at sep s") (auto split: if_splits, fastforce+)
qed simp

lemma written_lines:
  assumes "plain_event e" and "l \<in> set (write_event e)"
  shows "line_feed \<notin> set l \<and> carriage_return \<notin> set l \<and> length l < scanner_buffer_bytes"
proof -
  have "line_feed \<noteq> CHR '' ''" by (simp add: line_feed_def)
  have w: "line_feed \<notin> set w \<and> carriage_return \<notin> set w \<and> length w + 6 < scanner_buffer_bytes"
    if "w \<in> set (split_at line_feed (snd e))" for w
    using that split_at_chars [OF that] split_at_no_sep [OF that] assms(1) by (auto simp: plain_event_def)
  show ?thesis
    using assms w
    by (auto simp: write_event_def plain_event_def line_feed_def carriage_return_def scanner_buffer_bytes_def split: if_splits)
qed

lemma judge_plain:
  "sd_completion_event d = [] \<Longrightarrow> i + length es \<le> max_events d \<Longrightarrow> i < max_events d \<Longrightarrow>
   judge_events g comparators d [] i es =
     (map (\<lambda>e. parse_sse_data g (snd e)) es, [], if i + length es = max_events d then stop_max_events else [], None)"
  by (induction es arbitrary: i) (auto simp: evaluate_event_def Let_def simp flip: length_0_conv)

lemma new_parser_sel: "sp_events new_parser = []" "sp_results new_parser = []"
  by (simp_all add: new_parser_def)

text \<open>The loop, up to the first scan that is not a line in time.\<close>

lemma consume_read:
  assumes "\<forall>i<n. \<not> last_scan (scans i)"
    and "judge_events g comparators d as 0 (stream_events [] (read_lines scans n)) = (vs, rs, reason, err)"
  shows "(reason \<noteq> [] \<longrightarrow> consume g comparators d as scans = Some (vs, rs, reason, err)) \<and>
     (reason = [] \<and> last_scan (scans n) \<longrightarrow> consume g comparators d as scans = Some (vs, rs, stream_ending (scans n)))"
proof -
  define line where "line s = (case s of Scanned l _ \<Rightarrow> l | Ended _ _ \<Rightarrow> [])" for s
  let ?raws = "map (\<lambda>i. line (scans i)) [0..<n]"
  have scans: "scans i = Scanned (line (scans i)) False" if "i < n" for i
    using assms(1) that by (cases "scans i") (force simp: line_def)+
  have lines: "map trim_returns ?raws = read_lines scans n"
    unfolding read_lines_def map_map by (rule map_cong [OF refl]) (metis atLeastLessThan_iff comp_apply scanned_line.simps(1) scans set_upt)
  have "scans (0 + i) = Scanned (?raws ! i) False" if "i < length ?raws" for i using scans that by simp
  from consume_lines [OF this has_read_new, of g comparators d as] have run:
    "if err \<noteq> None \<or> reason \<noteq> [] then consume g comparators d as scans = Some (vs, rs, reason, err)
     else \<exists>p'. consume g comparators d as scans = consume_from g comparators d as scans n p' \<and> sp_events p' = vs \<and> sp_results p' = rs"
    unfolding lines by (auto simp: consume_def assms(2) new_parser_sel split: if_splits)
  have "consume_from g comparators d as scans n p = Some (sp_events p, sp_results p, stream_ending (scans n))" if "last_scan (scans n)" for p
    using that by (subst consume_from.simps) (cases "scans n"; auto simp: stopped_def)
  with run judge_error_reason [OF assms(2)] show ?thesis by (auto split: if_splits)
qed

text \<open>A failed execution reports the events and assertions up to its failure, but no output.\<close>

lemma sse_succeeded_fields:
  "sse_succeeded n inputs method url (events, results, reason, e) = (res, err) \<Longrightarrow>
   err = None \<and> r_error res = None \<and> se_events res = events \<and> se_event_count res = length events \<and> se_stop_reason res = reason \<and>
   r_assertion_results res = results \<and> r_outputs res ''events'' = Some (GList events) \<and>
   r_outputs res ''count'' = Some (GInt (int (length events)))"
  by (auto simp: sse_succeeded_def asserted_result.defs base_result_def)

lemma sse_failed_fields:
  "sse_failed n inputs method url (events, results, reason, e) cause = (res, err) \<Longrightarrow>
   err = Some cause \<and> r_error res = Some cause \<and> se_events res = events \<and> se_event_count res = length events \<and>
   se_stop_reason res = reason \<and> r_assertion_results res = results \<and> r_outputs res = Map.empty"
  by (auto simp: sse_failed_def asserted_result.defs base_result_def failed_node_base_def Let_def split: option.splits prod.splits)

text \<open>
  An execution whose context was done, at the connection or while reading, succeeds: it fails only
  before the stream, at a failed assertion, or when reading the body failed.
\<close>

lemma sse_execute_connected:
  assumes "prepare_connection g (node_resolver cx) d w = (Inr (url, headers), w1)"
    and "resolve_assertions g cx (bn_assertions n) w1 = ((as, None), w2)"
    and "connect \<lparr>sq_method = sse_method d, sq_url = url,
           sq_headers = [(''Accept'', ''text/event-stream''), (''Cache-Control'', ''no-cache'')] @ headers,
           sq_timeout_ms = stream_timeout_ms d\<rparr> w2 = (Connected 200 scans, w3)"
    and "consume g comparators d as scans = Some (events, results, reason, err)"
  shows "\<exists>res. sse_execute g comparators n d cx connect w = (Some (res, err), w3) \<and> se_events res = events \<and>
     se_stop_reason res = reason \<and> r_error res = err \<and> r_assertion_results res = results"
proof (cases err)
  case None
  obtain res e where "sse_succeeded n (map_of (cx_inputs cx)) (sse_method d) url (events, results, reason, err) = (res, e)"
    by fastforce
  with sse_succeeded_fields [OF this] None assms show ?thesis by (simp add: sse_execute_def Let_def)
next
  case (Some cause)
  obtain res e where "sse_failed n (map_of (cx_inputs cx)) (sse_method d) url (events, results, reason, err) cause = (res, e)"
    by fastforce
  with sse_failed_fields [OF this] Some assms show ?thesis by (simp add: sse_execute_def Let_def)
qed

section \<open>Properties\<close>

text \<open>
  Claim C31. The streaming parser implements the reading of a whole stream. Whatever the lines and
  wherever they end, what the loop collected is the judgement of the events the lines read so far
  mean, in order, up to the first event that stops it; if none does, the stream ended with its last
  scan: a timeout when the context is done, else the end of the body or its read error.
\<close>

theorem streaming_refines_whole_stream:
  assumes "\<forall>i<n. \<not> last_scan (scans i)" and "last_scan (scans n)"
  shows "consume g comparators d as scans =
     Some (case judge_events g comparators d as 0 (stream_events [] (read_lines scans n)) of
             (vs, rs, reason, err) \<Rightarrow>
               if reason \<noteq> [] then (vs, rs, reason, err) else (vs, rs, stream_ending (scans n)))"
proof -
  obtain vs rs reason err where
    "judge_events g comparators d as 0 (stream_events [] (read_lines scans n)) = (vs, rs, reason, err)" by (rule prod_cases4)
  then show ?thesis using consume_read [OF assms(1)] assms(2) by simp
qed

definition demo_stream :: sse_data where
  "demo_stream = \<lparr>sd_url = ''https://x/events'', sd_method = [], sd_headers = [], sd_max_events = 2, sd_timeout_ms = 0,
     sd_completion_event = [], sd_stop_on_assertion_failure = None\<rparr>"

definition demo_lines :: "string list" where
  "demo_lines = [''event: token'', ''data: a'', [], '':keep'', ''data: b'']"

theorem streaming_refines_whole_stream_witness:
  "consume demo_request_text Map.empty demo_stream [] (finite_scans demo_lines None) = Some ([GStr ''a''], [], stop_eof, None)"
proof -
  have "\<forall>i<5. \<not> last_scan (finite_scans demo_lines None i)" "last_scan (finite_scans demo_lines None 5)"
    by (simp_all add: finite_scans_def demo_lines_def)
  moreover have "judge_events demo_request_text Map.empty demo_stream [] 0 (stream_events [] (read_lines (finite_scans demo_lines None) 5)) =
      ([GStr ''a''], [], [], None)" by code_simp
  moreover have "stream_ending (finite_scans demo_lines None 5) = (stop_eof, None)" by (simp add: finite_scans_def demo_lines_def)
  ultimately show ?thesis
    using streaming_refines_whole_stream [of 5 "finite_scans demo_lines None" demo_request_text Map.empty demo_stream "[]"] by simp
qed


text \<open>A stream without end.\<close>

definition demo_ticks :: "nat \<Rightarrow> scan" where
  "demo_ticks i = Scanned (if even i then ''data: tick'' else []) False"


text \<open>
  Claim C33. Reading back what a server writes: the events of a body in the event stream format,
  their data on several lines, are collected in order, each parsed as JSON or kept as its text, when
  no assertion or completion event stops the stream and the node takes that many.
\<close>

theorem written_stream_is_read_back:
  assumes "\<forall>e\<in>set events. plain_event e" and "length events \<le> max_events d" and "sd_completion_event d = []"
  shows "\<exists>lines. scan_lines (write_stream events) None = (lines, None) \<and>
     consume g comparators d [] (finite_scans lines None) =
       Some (map (\<lambda>e. parse_sse_data g (snd e)) events, [],
             if length events = max_events d then stop_max_events else stop_eof, None)"
proof -
  let ?lines = "concat (map write_event events)"
  have plain: "line_feed \<notin> set l \<and> carriage_return \<notin> set l \<and> length l < scanner_buffer_bytes" if "l \<in> set ?lines" for l
    using that assms(1) written_lines by force
  have "scanned_line (finite_scans ?lines None i) = ?lines ! i" if "i < length ?lines" for i
    using trim_returns_plain [of "?lines ! i"] plain [OF nth_mem [OF that]] that by (simp add: finite_scans_def)
  then have "read_lines (finite_scans ?lines None) (length ?lines) = map ((!) ?lines) [0..<length ?lines]"
    unfolding read_lines_def by (intro map_cong) simp_all
  then have read: "read_lines (finite_scans ?lines None) (length ?lines) = ?lines" by (simp only: map_nth)
  have "0 < max_events d" by (simp add: max_events_def)
  then have judged: "judge_events g comparators d [] 0 (stream_events [] (read_lines (finite_scans ?lines None) (length ?lines))) =
      (map (\<lambda>e. parse_sse_data g (snd e)) events, [], if length events = max_events d then stop_max_events else [], None)"
    using judge_plain [of d 0 events g comparators] assms(2,3) by (simp add: read stream_events_written)
  have "\<forall>i<length ?lines. \<not> last_scan (finite_scans ?lines None i)" "last_scan (finite_scans ?lines None (length ?lines))"
    "stream_ending (finite_scans ?lines None (length ?lines)) = (stop_eof, None)"
    by (simp_all add: finite_scans_def)
  then have "consume g comparators d [] (finite_scans ?lines None) =
      Some (map (\<lambda>e. parse_sse_data g (snd e)) events, [], if length events = max_events d then stop_max_events else stop_eof, None)"
    using consume_read [OF _ judged] by (simp split: if_splits)
  moreover have "scan_lines (write_stream events) None = (?lines, None)"
    unfolding write_stream_def by (rule scan_written) (use plain in blast)+
  ultimately show ?thesis by blast
qed

theorem written_stream_is_read_back_witness:
  "\<exists>lines. scan_lines (write_stream [(''tick'', ''a'' @ [line_feed] @ ''b'')]) None = (lines, None) \<and>
     consume demo_request_text Map.empty demo_stream [] (finite_scans lines None) =
       Some ([GStr (''a'' @ [line_feed] @ ''b'')], [], stop_eof, None)"
proof -
  let ?e = "(''tick'', ''a'' @ [line_feed] @ ''b'')"
  have "\<forall>e\<in>set [?e]. plain_event e"
    by (simp add: plain_event_def line_feed_def carriage_return_def scanner_buffer_bytes_def)
  moreover have "max_events demo_stream = 2" "sd_completion_event demo_stream = []"
    by (simp_all add: max_events_def demo_stream_def)
  moreover have "parse_sse_data demo_request_text (''a'' @ [line_feed] @ ''b'') = GStr (''a'' @ [line_feed] @ ''b'')" by code_simp
  ultimately show ?thesis
    using written_stream_is_read_back [of "[?e]" demo_stream demo_request_text Map.empty] by simp
qed

end
