(* ===== verification/Flow_Checks.thy ===== *)
theory Flow_Checks
  imports Templates
begin

text \<open>
  The checks of a flow file: reading a check line (\<open>pkg/flowdsl/expect.go\<close>) and writing one for a
  stored check (\<open>checkLine\<close> and its parts in \<open>pkg/flowdsl/decompile.go\<close>). A check is the wire form of
  an assertion. Lines are the texts of YAML scalars, valid UTF-8.
\<close>

section \<open>Text\<close>

text \<open>
  What Go's \<open>strconv\<close> computes about floats, the conversion \<open>int64(x)\<close> of a float that is one above
  the largest 64-bit integer, which the language leaves to the machine, and \<open>%T\<close>.
\<close>

record check_text = go_text +
  int64_overflow :: int
  value_type :: "gval \<Rightarrow> string"

definition blank :: "char \<Rightarrow> bool" where
  "blank c \<longleftrightarrow> c = CHR '' '' \<or> c = CHR 0x09"

definition line_end :: "char \<Rightarrow> bool" where
  "line_end c \<longleftrightarrow> c = CHR 0x0D \<or> c = CHR 0x0A"

definition trim_line_end :: "string \<Rightarrow> string" where
  "trim_line_end s = rev (dropWhile line_end (rev s))"

text \<open>\<open>strings.Cut(s, " ")\<close>.\<close>

definition cut_space :: "string \<Rightarrow> string \<times> string option" where
  "cut_space s =
     (case dropWhile (\<lambda>c. c \<noteq> CHR '' '') s of
        [] \<Rightarrow> (s, None)
      | _ # rest \<Rightarrow> (takeWhile (\<lambda>c. c \<noteq> CHR '' '') s, Some rest))"

text \<open>\<open>strings.Fields\<close>: the bytes a space at the front takes, the first field and the rest.\<close>

definition space_width :: "string \<Rightarrow> nat" where
  "space_width s =
     (case s of
        [] \<Rightarrow> 0
      | a # t \<Rightarrow>
          if ascii_space a then 1
          else (case t of
                  [] \<Rightarrow> 0
                | b # u \<Rightarrow>
                    if space2 a b then 2
                    else (case u of [] \<Rightarrow> 0 | c # _ \<Rightarrow> if space3 a b c then 3 else 0)))"

fun first_field :: "string \<Rightarrow> string \<times> string" where
  "first_field [] = ([], [])"
| "first_field (c # s) =
     (if 0 < space_width (c # s) then ([], c # s)
      else (case first_field s of (field, rest) \<Rightarrow> (c # field, rest)))"

lemma first_field_split: "first_field s = (field, rest) \<Longrightarrow> s = field @ rest"
  by (induction s arbitrary: field) (auto split: if_splits prod.splits)

lemma first_field_nonempty: "s \<noteq> [] \<Longrightarrow> space_width s = 0 \<Longrightarrow> fst (first_field s) \<noteq> []"
  by (cases s) (auto split: prod.splits)

lemma space_width_le: "space_width s \<le> length s"
  by (auto simp: space_width_def split: list.splits)

function split_fields :: "string \<Rightarrow> string list" where
  "split_fields s =
     (if s = [] then []
      else if 0 < space_width s then split_fields (drop (space_width s) s)
      else (case first_field s of (field, rest) \<Rightarrow> field # split_fields rest))"
  by pat_completeness auto
termination
proof (relation "measure length", goal_cases)
  case (2 s)
  then show ?case using space_width_le [of s] by simp
next
  case (3 s field rest)
  then have f: "first_field s = (field, rest)" by simp
  have "s = field @ rest" by (rule first_field_split [OF f])
  moreover have "field \<noteq> []" using first_field_nonempty [of s] 3(1,2) by (simp add: f)
  ultimately show ?case by simp
qed simp

declare split_fields.simps [simp del]

section \<open>Quoted text\<close>

text \<open>
  \<open>strconv.QuotedPrefix\<close> and \<open>Unquote\<close> of a text in double quotes: the text between the quotes and
  what follows them. A line end, an unknown escape and a missing quote are errors.
\<close>

definition hex_nibble :: "char \<Rightarrow> nat option" where
  "hex_nibble c =
     (let n = of_char c :: nat in
      if 48 \<le> n \<and> n \<le> 57 then Some (n - 48)
      else if 97 \<le> n \<and> n \<le> 102 then Some (n - 87)
      else if 65 \<le> n \<and> n \<le> 70 then Some (n - 55) else None)"

fun hex_number :: "nat \<Rightarrow> nat \<Rightarrow> string \<Rightarrow> (nat \<times> string) option" where
  "hex_number 0 v s = Some (v, s)"
| "hex_number (Suc n) v [] = None"
| "hex_number (Suc n) v (c # s) =
     (case hex_nibble c of None \<Rightarrow> None | Some d \<Rightarrow> hex_number n (16 * v + d) s)"

definition octal_digit :: "char \<Rightarrow> nat option" where
  "octal_digit c = (let n = of_char c :: nat in if 48 \<le> n \<and> n \<le> 55 then Some (n - 48) else None)"

definition octal_number :: "string \<Rightarrow> (nat \<times> string) option" where
  "octal_number s =
     (case s of
        a # b # c # rest \<Rightarrow>
          (case (octal_digit a, octal_digit b, octal_digit c) of
             (Some x, Some y, Some z) \<Rightarrow> if 64 * x + 8 * y + z \<le> 255 then Some (64 * x + 8 * y + z, rest) else None
           | _ \<Rightarrow> None)
      | _ \<Rightarrow> None)"

definition utf8 :: "nat \<Rightarrow> string" where
  "utf8 n =
     (if n < 128 then [char_of n]
      else if n < 2048 then [char_of (192 + n div 64), char_of (128 + n mod 64)]
      else if n < 65536 then [char_of (224 + n div 4096), char_of (128 + n div 64 mod 64), char_of (128 + n mod 64)]
      else [char_of (240 + n div 262144), char_of (128 + n div 4096 mod 64), char_of (128 + n div 64 mod 64),
            char_of (128 + n mod 64)])"

definition valid_rune :: "nat \<Rightarrow> bool" where
  "valid_rune n \<longleftrightarrow> n \<le> 1114111 \<and> \<not> (55296 \<le> n \<and> n \<le> 57343)"

definition code_point :: "nat \<Rightarrow> string \<Rightarrow> (string \<times> string) option" where
  "code_point digits s =
     (case hex_number digits 0 s of
        Some (v, rest) \<Rightarrow> if valid_rune v then Some (utf8 v, rest) else None
      | None \<Rightarrow> None)"

text \<open>What a backslash stands for, given what follows it.\<close>

definition unquote_escape :: "string \<Rightarrow> (string \<times> string) option" where
  "unquote_escape s =
     (case s of
        [] \<Rightarrow> None
      | c # rest \<Rightarrow>
          (if c = CHR ''a'' then Some ([CHR 0x07], rest) else if c = CHR ''b'' then Some ([CHR 0x08], rest)
           else if c = CHR ''f'' then Some ([CHR 0x0C], rest) else if c = CHR ''n'' then Some ([CHR 0x0A], rest)
           else if c = CHR ''r'' then Some ([CHR 0x0D], rest) else if c = CHR ''t'' then Some ([CHR 0x09], rest)
           else if c = CHR ''v'' then Some ([CHR 0x0B], rest)
           else if c = CHR 0x5C \<or> c = CHR 0x22 then Some ([c], rest)
           else if c = CHR ''x'' then map_option (\<lambda>(v, rest). ([char_of v], rest)) (hex_number 2 0 rest)
           else if c = CHR ''u'' then code_point 4 rest
           else if c = CHR ''U'' then code_point 8 rest
           else map_option (\<lambda>(v, rest). ([char_of v], rest)) (octal_number s)))"

lemma hex_number_suffix: "hex_number n v s = Some (u, rest) \<Longrightarrow> \<exists>p. s = p @ rest"
  by (induction n v s rule: hex_number.induct) (auto split: option.splits)

lemma octal_suffix: "octal_number s = Some (v, rest) \<Longrightarrow> \<exists>p. s = p @ rest"
  by (auto simp: octal_number_def split: list.splits option.splits if_splits)

lemma unquote_escape_suffix: "unquote_escape s = Some (piece, rest) \<Longrightarrow> \<exists>p. s = p @ rest"
  by (auto simp: unquote_escape_def code_point_def split: list.splits if_splits option.splits
      dest!: hex_number_suffix octal_suffix)

lemma unquote_escape_shorter: "unquote_escape s = Some (piece, rest) \<Longrightarrow> length rest \<le> length s"
  using unquote_escape_suffix by fastforce

function unquote_rest :: "string \<Rightarrow> (string \<times> string) option" where
  "unquote_rest [] = None"
| "unquote_rest (c # s) =
     (if c = CHR 0x22 then Some ([], s)
      else if c = CHR 0x0A then None
      else if c = CHR 0x5C
      then (case unquote_escape s of
              None \<Rightarrow> None
            | Some (piece, rest) \<Rightarrow> map_option (\<lambda>(t, rest). (piece @ t, rest)) (unquote_rest rest))
      else map_option (\<lambda>(t, rest). (c # t, rest)) (unquote_rest s))"
  by pat_completeness auto
termination
  by (relation "measure length") (auto dest: unquote_escape_shorter)

declare unquote_rest.simps(2) [simp del]

definition invalid_syntax :: go_error where
  "invalid_syntax = PlainError ''invalid syntax''"

section \<open>Checks\<close>

record check =
  ck_extractor :: string
  ck_extractor_data :: "(string \<times> gval) list"
  ck_operator :: string
  ck_operator_data :: "(string \<times> gval) list"

definition expect_operators :: "string list" where
  "expect_operators =
     [''equals'', ''not_equals'', ''contains'', ''not_contains'', ''greater_than'', ''less_than'',
      ''greater_than_or_equal'', ''less_than_or_equal'', ''empty'', ''not_empty'', ''starts_with'',
      ''ends_with'', ''regex'', ''between'']"

definition valueless_operators :: "string list" where
  "valueless_operators = [''empty'', ''not_empty'']"

definition status_word :: string where
  "status_word = ''status''"

definition status_equals :: "string \<Rightarrow> check" where
  "status_equals code =
     \<lparr>ck_extractor = ''status_code'', ck_extractor_data = [], ck_operator = ''equals'',
      ck_operator_data = [(''value'', GStr code)]\<rparr>"

section \<open>Reading a line\<close>

definition take_target :: "string \<Rightarrow> go_error + string \<times> string" where
  "take_target s =
     (case s of
        c # body \<Rightarrow>
          (if c = CHR 0x22
           then (case unquote_rest body of
                   None \<Rightarrow> Inl invalid_syntax
                 | Some (target, rest) \<Rightarrow> Inr (target, dropWhile blank rest))
           else (case cut_space s of (head, rest) \<Rightarrow> Inr (head, case rest of None \<Rightarrow> [] | Some r \<Rightarrow> r)))
      | [] \<Rightarrow> Inr ([], []))"

text \<open>The target, the operator, and the value where there is one.\<close>

definition split_check :: "string \<Rightarrow> go_error + string \<times> string \<times> string option" where
  "split_check s =
     (case take_target (dropWhile blank s) of
        Inl err \<Rightarrow> Inl (WrapError (dquote s @ '': '' @ error_text err) err)
      | Inr (target, rest) \<Rightarrow>
          (if rest = [] then Inr (target, [], None)
           else (case cut_space rest of
                   (operator, value) \<Rightarrow>
                     if value \<noteq> None \<and> trim_space (the value) = [] \<and> operator \<in> set valueless_operators
                     then Inr (target, operator, None)
                     else Inr (target, operator, value))))"

definition bound_token :: "'a check_text_scheme \<Rightarrow> string \<Rightarrow> gval" where
  "bound_token g s =
     (case atoi s of
        Some i \<Rightarrow> GInt i
      | None \<Rightarrow> (case parse_float g s of Inr x \<Rightarrow> GFloat x | Inl _ \<Rightarrow> GStr s))"

definition needs_two :: "string \<Rightarrow> go_error" where
  "needs_two s = PlainError (dquote s @ '': between needs two values, such as '' @ dquote ''$.n between 1 5'')"

definition finish_between :: "'a check_text_scheme \<Rightarrow> check \<Rightarrow> string \<Rightarrow> string option \<Rightarrow> go_error + check" where
  "finish_between g c s value =
     (case value of
        None \<Rightarrow> Inl (needs_two s)
      | Some v \<Rightarrow>
          (case split_fields v of
             [low, high] \<Rightarrow> Inr (c\<lparr>ck_operator_data := [(''value'', GList [bound_token g low, bound_token g high])]\<rparr>)
           | _ \<Rightarrow> Inl (needs_two s)))"

definition target_extractor :: "string \<Rightarrow> (string \<times> (string \<times> gval) list) option" where
  "target_extractor target =
     (if has_prefix target ''$'' then Some (''json_path'', [(''path'', GStr target)])
      else
        (case (strip_prefix ''header:'' target, strip_prefix ''query:'' target) of
           (Some (c # name), _) \<Rightarrow> Some (''header'', [(''header_name'', GStr (c # name))])
         | (_, Some (c # name)) \<Rightarrow> Some (''query_param'', [(''param_name'', GStr (c # name))])
         | _ \<Rightarrow>
             if target = ''body'' then Some (''body'', [])
             else if target = status_word then Some (''status_code'', []) else None))"

definition parse_check :: "'a check_text_scheme \<Rightarrow> string \<Rightarrow> go_error + check" where
  "parse_check g s =
     (case split_check s of
        Inl err \<Rightarrow> Inl err
      | Inr (target, operator, value) \<Rightarrow>
          (let failed = (\<lambda>msg. Inl (PlainError (dquote s @ msg))) in
           if operator = []
           then failed ('': expected '' @ dquote ''<target> <operator> [value]'' @ '', such as '' @ dquote ''$.id not_empty'')
           else if operator \<notin> set expect_operators then failed ('': unknown operator '' @ dquote operator)
           else
             (case target_extractor target of
                None \<Rightarrow>
                  failed '': target must be a JSONPath ($.id), header:<name>, query:<name>, body, or status: <code>''
              | Some (extractor, extractor_data) \<Rightarrow>
                  (let c = \<lparr>ck_extractor = extractor, ck_extractor_data = extractor_data, ck_operator = operator,
                            ck_operator_data = []\<rparr>;
                       valueless = operator \<in> set valueless_operators in
                   if operator = ''between'' then finish_between g c s value
                   else if valueless \<and> value \<noteq> None then failed ('': '' @ operator @ '' takes no value'')
                   else if \<not> valueless \<and> value = None then failed ('': '' @ operator @ '' needs a value'')
                   else Inr (case value of None \<Rightarrow> c | Some v \<Rightarrow> c\<lparr>ck_operator_data := [(''value'', GStr v)]\<rparr>)))))"

definition parse_expect_line :: "'a check_text_scheme \<Rightarrow> string \<Rightarrow> go_error + check" where
  "parse_expect_line g line =
     (let s = trim_line_end (dropWhile blank line) in
      if trim_space s = [] then Inl (PlainError ''empty check'')
      else
        (case strip_prefix ''status:'' s of
           Some rest \<Rightarrow>
             (let code = trim_space rest in
              if atoi code = None then Inl (PlainError (''status '' @ dquote code @ '' is not a number''))
              else Inr (status_equals code))
         | None \<Rightarrow> parse_check g s))"

section \<open>Writing a line\<close>

definition check_target :: "check \<Rightarrow> go_error + string" where
  "check_target c =
     (let txt = (\<lambda>key. case map_of (ck_extractor_data c) key of Some (GStr s) \<Rightarrow> s | _ \<Rightarrow> []) in
      if ck_extractor c = ''status_code'' then Inr status_word
      else if ck_extractor c = ''json_path''
      then (if txt ''path'' = [] then Inl (PlainError ''json_path check has no usable path'') else Inr (txt ''path''))
      else if ck_extractor c = ''header''
      then (if txt ''header_name'' = [] then Inl (PlainError ''header check has no header name'')
            else Inr (''header:'' @ txt ''header_name''))
      else if ck_extractor c = ''query_param''
      then (if txt ''param_name'' = [] then Inl (PlainError ''query check has no parameter name'')
            else Inr (''query:'' @ txt ''param_name''))
      else if ck_extractor c = ''body'' then Inr ''body''
      else Inl (PlainError (''extractor '' @ dquote (ck_extractor c))))"

definition quote_target :: "string \<Rightarrow> string" where
  "quote_target target = (if list_ex (\<lambda>c. blank c \<or> line_end c) target then dquote target else target)"

definition whole_int64 :: "go_float \<Rightarrow> bool" where
  "whole_int64 x \<longleftrightarrow> (case x of Fin q \<Rightarrow> q = of_int \<lfloor>q\<rfloor> \<and> - (2 ^ 63) \<le> q \<and> q \<le> 2 ^ 63 | _ \<Rightarrow> False)"

definition float_text :: "'a check_text_scheme \<Rightarrow> go_float \<Rightarrow> string" where
  "float_text g x =
     (case x of
        Fin q \<Rightarrow> if whole_int64 x then int_text (if q = 2 ^ 63 then int64_overflow g else \<lfloor>q\<rfloor>) else format_float g x
      | _ \<Rightarrow> format_float g x)"

definition expect_text :: "'a check_text_scheme \<Rightarrow> gval \<Rightarrow> go_error + string" where
  "expect_text g v =
     (case v of
        GStr s \<Rightarrow> Inr s
      | GBool b \<Rightarrow> Inr (bool_text b)
      | GFloat x \<Rightarrow> Inr (float_text g x)
      | GInt i \<Rightarrow> Inr (int_text i)
      | _ \<Rightarrow> Inl (PlainError (''check value '' @ value_type g v @ '' is not text'')))"

definition between_bounds :: "'a check_text_scheme \<Rightarrow> gval option \<Rightarrow> go_error + string \<times> string" where
  "between_bounds g v =
     (case v of
        Some (GList [a, b]) \<Rightarrow>
          (case expect_text g a of
             Inl e \<Rightarrow> Inl e
           | Inr low \<Rightarrow>
               (case expect_text g b of
                  Inl e \<Rightarrow> Inl e
                | Inr high \<Rightarrow>
                    if list_ex (\<lambda>c. blank c \<or> c = CHR 0x0A) low \<or> list_ex (\<lambda>c. blank c \<or> c = CHR 0x0A) high
                    then Inl (PlainError ''between bounds must be single tokens'')
                    else Inr (low, high)))
      | _ \<Rightarrow> Inl (PlainError ''between needs two bounds''))"

definition check_line :: "'a check_text_scheme \<Rightarrow> check \<Rightarrow> go_error + string" where
  "check_line g c =
     (case check_target c of
        Inl e \<Rightarrow> Inl e
      | Inr plain \<Rightarrow>
          (let op = ck_operator c; target = quote_target plain; value = map_of (ck_operator_data c) ''value'' in
           if op = ''between''
           then map_sum id (\<lambda>(low, high). target @ '' between '' @ low @ '' '' @ high) (between_bounds g value)
           else if op \<in> set valueless_operators then Inr (target @ '' '' @ op)
           else
             (case expect_text g (case value of Some v \<Rightarrow> v | None \<Rightarrow> GNil) of
                Inl e \<Rightarrow> Inl e
              | Inr t \<Rightarrow>
                  if op = ''equals'' \<and> target = status_word \<and> atoi t \<noteq> None then Inr (''status: '' @ t)
                  else if t = [] then Inr (target @ '' '' @ op @ '' '')
                  else Inr (target @ '' '' @ op @ '' '' @ t))))"

section \<open>Texts that start with a solid character\<close>

definition solid :: "char \<Rightarrow> bool" where
  "solid c \<longleftrightarrow> of_char c < (128 :: nat) \<and> \<not> ascii_space c"

lemma trim_left_solid: "solid c \<Longrightarrow> trim_left (c # s) = c # s"
  by (cases s; cases "tl s") (auto simp: solid_def space2_def space3_def Let_def)

lemma trim_left_rev_solid: "solid c \<Longrightarrow> trim_left_rev (c # s) = c # s"
  by (cases s; cases "tl s") (auto simp: solid_def space2_def space3_def Let_def)

lemma trim_space_solid: "solid c \<Longrightarrow> trim_space (c # s) \<noteq> []"
  using trim_left_rev_keeps [of c "rev s"] by (auto simp add: trim_space_def trim_left_solid solid_def simp del: trim_left.simps)

lemma trim_space_solid_text: "list_all solid s \<Longrightarrow> trim_space s = s"
proof (cases s)
  case (Cons c t)
  assume s: "list_all solid s"
  then have "trim_left s = s" by (simp add: Cons trim_left_solid del: trim_left.simps)
  moreover obtain d u where d: "rev s = d # u" by (cases "rev s") (simp_all add: Cons)
  then have "d \<in> set s" by (metis list.set_intros(1) set_rev)
  then have "trim_left_rev (rev s) = rev s" unfolding d using s by (simp add: trim_left_rev_solid list_all_iff del: trim_left_rev.simps)
  ultimately show ?thesis by (simp add: trim_space_def)
qed (simp add: trim_space_def)

lemma solid_digit: "is_digit c \<Longrightarrow> solid c"
  by (auto simp: is_digit_def solid_def ascii_space_def)

lemma atoi_solid: "atoi s \<noteq> None \<Longrightarrow> list_all solid s \<and> s \<noteq> []"
proof -
  assume "atoi s \<noteq> None"
  moreover have "solid CHR ''-''" "solid CHR ''+''" by (auto simp: solid_def ascii_space_def)
  ultimately show ?thesis
    by (auto simp: atoi_def Let_def list_all_iff split: list.splits if_splits dest: solid_digit)
qed

lemma solid_no_blank: "solid c \<Longrightarrow> \<not> blank c \<and> \<not> line_end c"
  by (auto simp: solid_def blank_def line_end_def ascii_space_def)

lemma trim_line_end_id: "s = [] \<or> \<not> line_end (last s) \<Longrightarrow> trim_line_end s = s"
  by (cases s rule: rev_cases) (auto simp: trim_line_end_def)

lemma cut_space_at: "CHR '' '' \<notin> set t \<Longrightarrow> cut_space (t @ CHR '' '' # r) = (t, Some r)"
  by (auto simp: cut_space_def dropWhile_append takeWhile_append)

lemma cut_space_none: "CHR '' '' \<notin> set t \<Longrightarrow> cut_space t = (t, None)"
proof -
  assume "CHR '' '' \<notin> set t"
  then have "dropWhile (\<lambda>c. c \<noteq> CHR '' '') t = []" by (auto simp: dropWhile_eq_Nil_conv)
  then show ?thesis by (simp only: cut_space_def list.case)
qed

section \<open>Quoting and back\<close>

lemma hex_nibble_digit: "d < 16 \<Longrightarrow> hex_nibble (hex_digit d) = Some d"
  by (auto simp: hex_nibble_def hex_digit_def Let_def)

lemma hex_pair:
  assumes "n < 256"
  shows "hex_number 2 0 (hex_digit (n div 16) # hex_digit (n mod 16) # t) = Some (n, t)"
proof -
  have "n div 16 < 16" using assms by (simp add: less_mult_imp_div_less)
  then have "hex_nibble (hex_digit (n div 16)) = Some (n div 16)" "hex_nibble (hex_digit (n mod 16)) = Some (n mod 16)"
    by (simp_all add: hex_nibble_digit)
  then have "hex_number (Suc (Suc 0)) 0 (hex_digit (n div 16) # hex_digit (n mod 16) # t) = Some (16 * (n div 16) + n mod 16, t)"
    by simp
  then show ?thesis by (simp add: numeral_2_eq_2)
qed

lemma char_codes:
  "(of_char c = (34 :: nat)) = (c = CHR 0x22)"
  "(of_char c = (92 :: nat)) = (c = CHR 0x5C)"
  "(of_char c = (7 :: nat)) = (c = CHR 0x07)"
  "(of_char c = (8 :: nat)) = (c = CHR 0x08)"
  "(of_char c = (12 :: nat)) = (c = CHR 0x0C)"
  "(of_char c = (10 :: nat)) = (c = CHR 0x0A)"
  "(of_char c = (13 :: nat)) = (c = CHR 0x0D)"
  "(of_char c = (9 :: nat)) = (c = CHR 0x09)"
  "(of_char c = (11 :: nat)) = (c = CHR 0x0B)"
  using of_char_eq_iff [of c "CHR 0x22", where ?'a = nat]
    of_char_eq_iff [of c "CHR 0x5C", where ?'a = nat]
    of_char_eq_iff [of c "CHR 0x07", where ?'a = nat]
    of_char_eq_iff [of c "CHR 0x08", where ?'a = nat]
    of_char_eq_iff [of c "CHR 0x0C", where ?'a = nat]
    of_char_eq_iff [of c "CHR 0x0A", where ?'a = nat]
    of_char_eq_iff [of c "CHR 0x0D", where ?'a = nat]
    of_char_eq_iff [of c "CHR 0x09", where ?'a = nat]
    of_char_eq_iff [of c "CHR 0x0B", where ?'a = nat]
  by simp_all

lemma unquote_quote_char:
  "unquote_rest (quote_char c @ t) = map_option (\<lambda>(u, rest). (c # u, rest)) (unquote_rest t)"
proof -
  let ?n = "of_char c :: nat"
  have n: "?n < 256" by (rule nat_of_char_less_256)
  show ?thesis
  proof (cases "c \<in> {CHR 0x22, CHR 0x5C, CHR 0x07, CHR 0x08, CHR 0x0C, CHR 0x0A, CHR 0x0D, CHR 0x09, CHR 0x0B}")
    case True
    then show ?thesis
      by (elim insertE; simp add: quote_char_def Let_def unquote_rest.simps(2) unquote_escape_def)
  next
    case False
    then have c: "quote_char c = (if ?n < 32 \<or> ?n = 127 then [CHR 0x5C, CHR ''x'', hex_digit (?n div 16), hex_digit (?n mod 16)] else [c])"
      by (simp add: quote_char_def Let_def char_codes)
    show ?thesis
    proof (cases "?n < 32 \<or> ?n = 127")
      case True
      then show ?thesis using hex_pair [OF n] unfolding c by (simp add: unquote_rest.simps(2) unquote_escape_def)
    next
      case other: False
      then show ?thesis using False unfolding c by (simp add: unquote_rest.simps(2))
    qed
  qed
qed

lemma unquote_dquote: "unquote_rest (concat (map quote_char s) @ CHR 0x22 # rest) = Some (s, rest)"
  by (induction s) (simp_all add: unquote_quote_char unquote_rest.simps(2))

section \<open>Numbers and back\<close>

lemma digits_value_append: "digits_value (ds @ [c]) = 10 * digits_value ds + (of_char c - 48)"
  by (simp add: digits_value_def)

lemma digit_char_value: "d < 10 \<Longrightarrow> of_char (digit_char d) = 48 + d"
  by (simp add: digit_char_def)

lemma digit_char_digit: "d < 10 \<Longrightarrow> is_digit (digit_char d)"
  by (simp add: is_digit_def digit_char_value)

lemma nat_text_value: "digits_value (nat_text n) = n \<and> list_all is_digit (nat_text n) \<and> nat_text n \<noteq> []"
proof (induction n rule: nat_text.induct)
  case (1 n)
  show ?case
  proof (cases "n < 10")
    case True
    then show ?thesis
      by (subst (1 2 3) nat_text.simps) (simp add: digits_value_def digit_char_value digit_char_digit)
  next
    case False
    then show ?thesis
      using 1 by (subst (1 2 3) nat_text.simps) (simp add: digits_value_append digit_char_value digit_char_digit)
  qed
qed

lemma atoi_int_text: "- (2 ^ 63) \<le> i \<Longrightarrow> i < 2 ^ 63 \<Longrightarrow> atoi (int_text i) = Some i"
proof (cases "i < 0")
  case True
  assume "- (2 ^ 63) \<le> i"
  with True nat_text_value [of "nat (- i)"] show ?thesis by (simp add: atoi_def int_text_def)
next
  case False
  assume i: "i < 2 ^ 63"
  obtain c ds where c: "nat_text (nat i) = c # ds" using nat_text_value [of "nat i"] by (cases "nat_text (nat i)") auto
  have "is_digit c" using nat_text_value [of "nat i"] by (simp add: c)
  then have "c \<noteq> CHR ''-''" "c \<noteq> CHR ''+''" by (auto simp: is_digit_def)
  with False i nat_text_value [of "nat i"] show ?thesis by (simp add: atoi_def int_text_def c Let_def)
qed

lemma atoi_range: "atoi s = Some i \<Longrightarrow> - (2 ^ 63) \<le> i \<and> i < 2 ^ 63"
  by (auto simp: atoi_def Let_def split: list.splits if_splits)

section \<open>Tokens\<close>

definition token :: "string \<Rightarrow> bool" where
  "token t \<longleftrightarrow> t \<noteq> [] \<and> first_field t = (t, [])"

lemma first_field_token: "first_field s = (t, rest) \<Longrightarrow> first_field t = (t, [])"
proof (induction s arbitrary: t)
  case (Cons c s)
  show ?case
  proof (cases "0 < space_width (c # s)")
    case False
    obtain u where u: "first_field s = (u, rest)" "t = c # u" using Cons.prems False by (auto split: prod.splits)
    have "s = u @ rest" by (rule first_field_split [OF u(1)])
    then have "space_width (c # u) = 0"
      using False by (auto simp: space_width_def split: list.splits if_splits)
    then show ?thesis using Cons.IH [OF u(1)] u(2) by simp
  qed (use Cons.prems in simp)
qed simp

lemma split_fields_token: "t \<in> set (split_fields s) \<Longrightarrow> token t"
proof (induction s rule: split_fields.induct)
  case (1 s)
  show ?case
  proof (cases "s = [] \<or> 0 < space_width s")
    case True
    with 1 show ?thesis by (auto simp: split_fields.simps [of s] split: if_splits)
  next
    case False
    obtain u rest where u: "first_field s = (u, rest)" by fastforce
    with False 1(3) have "t = u \<or> t \<in> set (split_fields rest)" by (simp add: split_fields.simps [of s])
    then show ?thesis
      using 1(2) [OF _ _ u [symmetric]] False first_field_token [OF u] first_field_nonempty [of s] u by (auto simp: token_def)
  qed
qed

lemma space_width_append: "s \<noteq> [] \<Longrightarrow> space_width (s @ CHR '' '' # r) = space_width s"
  by (cases s; cases "tl s"; cases "tl (tl s)"; cases r) (auto simp: space_width_def space2_def space3_def Let_def)

lemma first_field_append: "first_field t = (t, []) \<Longrightarrow> first_field (t @ CHR '' '' # r) = (t, CHR '' '' # r)"
proof (induction t)
  case Nil
  then show ?case by (simp add: space_width_def ascii_space_def)
next
  case (Cons c t)
  then have "space_width (c # t) = 0" "first_field t = (t, [])" by (auto split: if_splits prod.splits)
  with Cons.IH show ?case using space_width_append [of "c # t" r] by simp
qed

lemma token_space_width: "token t \<Longrightarrow> space_width t = 0"
  by (cases t) (auto simp: token_def split: if_splits)

lemma split_fields_two:
  assumes "token low" and "token high"
  shows "split_fields (low @ CHR '' '' # high) = [low, high]"
proof -
  note f = first_field_append [of low high]
  have high: "split_fields high = [high]"
    using assms(2) token_space_width [of high] by (simp add: split_fields.simps [of high] token_def split_fields.simps [of "[]"])
  have blank: "space_width (CHR '' '' # high) = 1" by (simp add: space_width_def ascii_space_def)
  have "space_width (low @ CHR '' '' # high) = 0"
    using assms(1) token_space_width [of low] space_width_append [of low high] by (simp add: token_def)
  then have "split_fields (low @ CHR '' '' # high) = low # split_fields (CHR '' '' # high)"
    using assms(1) f by (simp add: split_fields.simps [of "low @ CHR '' '' # high"] token_def)
  also have "split_fields (CHR '' '' # high) = [high]"
    using blank high by (simp add: split_fields.simps [of "CHR '' '' # high"])
  finally show ?thesis .
qed

lemma token_no_space: "first_field t = (t, []) \<Longrightarrow> c \<in> set t \<Longrightarrow> \<not> ascii_space c"
proof (induction t)
  case (Cons d t)
  then have "space_width (d # t) = 0" "first_field t = (t, [])" by (auto split: if_splits prod.splits)
  then show ?case using Cons by (auto simp: space_width_def split: if_splits)
qed simp

lemma token_plain: "token t \<Longrightarrow> \<not> list_ex (\<lambda>c. blank c \<or> c = CHR 0x0A) t \<and> \<not> line_end (last t)"
proof -
  assume t: "token t"
  have "\<not> ascii_space c" if "c \<in> set t" for c
    using token_no_space [OF conjunct2 [OF t [unfolded token_def]] that] .
  moreover have "ascii_space c" if "blank c \<or> line_end c" for c
    using that by (auto simp: ascii_space_def blank_def line_end_def)
  moreover have "last t \<in> set t" using t by (simp add: token_def)
  ultimately show ?thesis by (auto simp: list_ex_iff line_end_def)
qed

lemma solid_token: "list_all solid t \<Longrightarrow> first_field t = (t, [])"
proof (induction t)
  case (Cons c t)
  then have "space_width (c # t) = 0"
    by (auto simp: space_width_def solid_def space2_def space3_def Let_def split: list.splits)
  then show ?case using Cons by simp
qed simp

section \<open>A written line is read back\<close>

definition nameable :: "check \<Rightarrow> bool" where
  "nameable c \<longleftrightarrow>
     (case check_target c of
        Inr t \<Rightarrow> target_extractor t = Some (ck_extractor c, ck_extractor_data c)
      | Inl _ \<Rightarrow> False)"

lemma extractor_target:
  "target_extractor t = Some (e, d) \<Longrightarrow>
   check_target \<lparr>ck_extractor = e, ck_extractor_data = d, ck_operator = op, ck_operator_data = v\<rparr> = Inr t \<and>
   (\<exists>c u. t = c # u \<and> solid c \<and> c \<noteq> CHR 0x22) \<and>
   (strip_prefix ''status:'' (t @ CHR '' '' # r) = None)"
proof -
  have solids: "list_all solid ''$hqbs''" by (simp add: solid_def ascii_space_def)
  assume "target_extractor t = Some (e, d)"
  then consider u where "t = CHR ''$'' # u" "e = ''json_path''" "d = [(''path'', GStr t)]"
    | c u where "t = ''header:'' @ c # u" "e = ''header''" "d = [(''header_name'', GStr (c # u))]"
    | c u where "t = ''query:'' @ c # u" "e = ''query_param''" "d = [(''param_name'', GStr (c # u))]"
    | "t = ''body''" "e = ''body''" "d = []" | "t = ''status''" "e = ''status_code''" "d = []"
    by (auto simp: target_extractor_def has_prefix_iff strip_prefix_iff status_word_def
        split: if_splits option.splits list.splits)
  then show ?thesis
    using solids by cases (auto simp: check_target_def status_word_def)
qed

lemma operators_plain: "op \<in> set expect_operators \<Longrightarrow> list_all solid op \<and> op \<noteq> []"
proof -
  have "list_all (\<lambda>op. list_all solid op \<and> op \<noteq> []) expect_operators" by code_simp
  then show "op \<in> set expect_operators \<Longrightarrow> list_all solid op \<and> op \<noteq> []" by (simp add: list_all_iff)
qed

lemma solid_no_space: "list_all solid s \<Longrightarrow> CHR '' '' \<notin> set s"
  by (auto simp: list_all_iff solid_def ascii_space_def)

lemma take_quoted_target:
  assumes "target_extractor t = Some (e, d)" and "r \<noteq> []" and "\<not> blank (hd r)"
  shows "take_target (quote_target t @ CHR '' '' # r) = Inr (t, r)"
proof (cases "list_ex (\<lambda>c. blank c \<or> line_end c) t")
  case True
  have "dropWhile blank (CHR '' '' # r) = r" using assms(2,3) by (cases r) (auto simp: blank_def)
  then show ?thesis
    using True unquote_dquote [of t "CHR '' '' # r"] by (simp add: quote_target_def take_target_def dquote_def)
next
  case False
  obtain c u where "t = c # u" "c \<noteq> CHR 0x22" using extractor_target [OF assms(1)] by blast
  moreover have "CHR '' '' \<notin> set t" using False by (auto simp: list_ex_iff blank_def)
  ultimately show ?thesis
    using False cut_space_at [of t r] by (simp add: quote_target_def take_target_def)
qed

text \<open>The parts of a line that has a target, an operator and perhaps a value.\<close>

definition line_of :: "string \<Rightarrow> string \<Rightarrow> string option \<Rightarrow> string" where
  "line_of t op v = quote_target t @ CHR '' '' # op @ (case v of None \<Rightarrow> [] | Some v \<Rightarrow> CHR '' '' # v)"

lemma line_head:
  assumes "target_extractor t = Some (e, d)"
  shows "\<exists>c u. line_of t op v = c # u \<and> solid c \<and> strip_prefix ''status:'' (line_of t op v) = None"
proof (cases "list_ex (\<lambda>c. blank c \<or> line_end c) t")
  case True
  then show ?thesis by (simp add: line_of_def quote_target_def dquote_def solid_def ascii_space_def)
next
  case False
  obtain c u where "t = c # u" "solid c" using extractor_target [OF assms] by blast
  moreover have "strip_prefix ''status:'' (line_of t op v) = None"
    using extractor_target [OF assms] False by (simp add: line_of_def quote_target_def)
  ultimately show ?thesis using False by (simp add: line_of_def quote_target_def)
qed

lemma split_line:
  assumes "target_extractor t = Some (e, d)" and "op \<in> set expect_operators"
    and "op \<in> set valueless_operators \<Longrightarrow> v = None"
  shows "split_check (line_of t op v) = Inr (t, op, v)"
proof -
  note op = operators_plain [OF assms(2)]
  obtain c u where c: "line_of t op v = c # u" "solid c" using line_head [OF assms(1)] by blast
  then have drop: "dropWhile blank (line_of t op v) = line_of t op v" by (auto dest: solid_no_blank)
  let ?r = "op @ (case v of None \<Rightarrow> [] | Some v \<Rightarrow> CHR '' '' # v)"
  have "\<not> blank (hd ?r)" using op by (cases op) (auto dest: solid_no_blank)
  then have t: "take_target (line_of t op v) = Inr (t, ?r)"
    unfolding line_of_def using op by (intro take_quoted_target [OF assms(1)]) auto
  have cut: "cut_space ?r = (op, v)"
    using cut_space_at cut_space_none solid_no_space op by (cases v) simp_all
  have "?r \<noteq> []" using op by simp
  moreover have "\<not> (v \<noteq> None \<and> trim_space (the v) = [] \<and> op \<in> set valueless_operators)" using assms(3) by auto
  ultimately show ?thesis unfolding split_check_def drop t by (simp only: sum.case prod.case cut if_False)
qed

lemma parse_line:
  assumes t: "target_extractor t = Some (e, d)" and op: "op \<in> set expect_operators"
    and v: "op \<in> set valueless_operators \<longleftrightarrow> v = None" and ends: "\<not> line_end (last (line_of t op v))"
  shows "parse_expect_line g (line_of t op v) =
     (let c = \<lparr>ck_extractor = e, ck_extractor_data = d, ck_operator = op, ck_operator_data = []\<rparr> in
      if op = ''between'' then finish_between g c (line_of t op v) v
      else Inr (case v of None \<Rightarrow> c | Some v \<Rightarrow> c\<lparr>ck_operator_data := [(''value'', GStr v)]\<rparr>))"
proof -
  obtain c u where c: "line_of t op v = c # u" "solid c" "strip_prefix ''status:'' (line_of t op v) = None"
    using line_head [OF t] by blast
  then have "dropWhile blank (line_of t op v) = line_of t op v" by (auto dest: solid_no_blank)
  moreover have "trim_line_end (line_of t op v) = line_of t op v" by (rule trim_line_end_id) (use ends in simp)
  moreover have "trim_space (line_of t op v) \<noteq> []" using trim_space_solid [OF c(2)] c(1) by simp
  moreover have "op \<noteq> []" using operators_plain [OF op] by simp
  moreover have "split_check (line_of t op v) = Inr (t, op, v)" by (rule split_line [OF t op]) (use v in simp)
  ultimately show ?thesis using c(3) op t v by (auto simp: parse_expect_line_def parse_check_def Let_def)
qed

text \<open>What a file states of a check's value: a text, or bounds read as numbers where they are.\<close>

definition stated_data :: "'a check_text_scheme \<Rightarrow> check \<Rightarrow> (string \<times> gval) list" where
  "stated_data g c =
     (let value = map_of (ck_operator_data c) ''value'' in
      if ck_operator c \<in> set valueless_operators then []
      else if ck_operator c = ''between''
      then (case between_bounds g value of
              Inr (low, high) \<Rightarrow> [(''value'', GList [bound_token g low, bound_token g high])]
            | Inl _ \<Rightarrow> [])
      else (case expect_text g (case value of Some v \<Rightarrow> v | None \<Rightarrow> GNil) of
              Inr t \<Rightarrow> [(''value'', GStr t)]
            | Inl _ \<Rightarrow> []))"

definition value_survives :: "'a check_text_scheme \<Rightarrow> check \<Rightarrow> bool" where
  "value_survives g c \<longleftrightarrow>
     (let value = map_of (ck_operator_data c) ''value'' in
      if ck_operator c \<in> set valueless_operators then True
      else if ck_operator c = ''between''
      then (case between_bounds g value of Inr (low, high) \<Rightarrow> token low \<and> token high | Inl _ \<Rightarrow> True)
      else (case expect_text g (case value of Some v \<Rightarrow> v | None \<Rightarrow> GNil) of
              Inr t \<Rightarrow> t = [] \<or> \<not> line_end (last t)
            | Inl _ \<Rightarrow> True))"

lemma quote_target_status: "quote_target t = status_word \<Longrightarrow> t = status_word"
  by (auto simp: quote_target_def dquote_def status_word_def split: if_splits)

lemma parse_status:
  assumes "atoi t \<noteq> None"
  shows "parse_expect_line g (''status: '' @ t) = Inr (status_equals t)"
proof -
  have t: "list_all solid t" "t \<noteq> []" using atoi_solid [OF assms] by auto
  have "solid (last t)" using t by (simp add: list_all_iff)
  then have "trim_line_end (''status: '' @ t) = ''status: '' @ t"
    using t by (intro trim_line_end_id) (auto dest: solid_no_blank)
  moreover have "trim_space (CHR '' '' # t) = t"
    using trim_space_solid_text [OF t(1)] by (simp add: trim_space_def ascii_space_def)
  moreover have "trim_space (''status: '' @ t) \<noteq> []" by (simp add: trim_space_solid solid_def ascii_space_def)
  ultimately show ?thesis using assms by (simp add: parse_expect_line_def blank_def Let_def)
qed

lemma line_of_last:
  assumes "op \<in> set expect_operators" and "\<And>w. v = Some w \<Longrightarrow> w = [] \<or> \<not> line_end (last w)"
  shows "\<not> line_end (last (line_of t op v))"
proof (cases v)
  case None
  have "solid (last op)" using operators_plain [OF assms(1)] by (simp add: list_all_iff)
  then show ?thesis using operators_plain [OF assms(1)] by (simp add: None line_of_def solid_no_blank)
next
  case (Some w)
  then show ?thesis using assms(2) by (cases "w = []") (auto simp: line_of_def line_end_def)
qed

lemma check_line_read_back:
  assumes line: "check_line g c = Inr line" and named: "nameable c"
    and op: "ck_operator c \<in> set expect_operators" and survives: "value_survives g c"
  shows "parse_expect_line g line = Inr (c\<lparr>ck_operator_data := stated_data g c\<rparr>)"
proof -
  let ?val = "map_of (ck_operator_data c) ''value''"
  obtain t where t: "check_target c = Inr t" "target_extractor t = Some (ck_extractor c, ck_extractor_data c)"
    using named by (auto simp: nameable_def split: sum.splits)
  have "\<not> (''between'' \<in> set valueless_operators)" by code_simp
  consider "ck_operator c = ''between''" | "ck_operator c \<in> set valueless_operators"
    | "ck_operator c \<noteq> ''between''" "ck_operator c \<notin> set valueless_operators" by blast
  then show ?thesis
  proof cases
    case 1
    obtain low high where b: "between_bounds g ?val = Inr (low, high)" and l: "line = line_of t (ck_operator c) (Some (low @ CHR '' '' # high))"
      using line t(1) 1 by (auto simp: check_line_def line_of_def Let_def map_sum_def split: sum.splits prod.splits)
    have tokens: "token low" "token high" using survives b 1 by (simp_all add: value_survives_def valueless_operators_def)
    have "\<not> line_end (last line)"
      unfolding l using tokens token_plain [of high] by (intro line_of_last [OF op]) (auto simp: token_def)
    then have "parse_expect_line g line = finish_between g
        \<lparr>ck_extractor = ck_extractor c, ck_extractor_data = ck_extractor_data c, ck_operator = ck_operator c, ck_operator_data = []\<rparr>
        line (Some (low @ CHR '' '' # high))"
      unfolding l by (subst parse_line [OF t(2) op]) (auto simp: 1 valueless_operators_def)
    then show ?thesis
      using b 1 tokens by (simp add: finish_between_def split_fields_two stated_data_def valueless_operators_def)
  next
    case 2
    then have l: "line = line_of t (ck_operator c) None"
      using line t(1) by (auto simp: check_line_def line_of_def Let_def valueless_operators_def)
    show ?thesis
      unfolding l using 2 line_of_last [OF op, of None]
      by (subst parse_line [OF t(2) op]) (auto simp: stated_data_def valueless_operators_def)
  next
    case 3
    let ?v = "case ?val of Some v \<Rightarrow> v | None \<Rightarrow> GNil"
    obtain w where w: "expect_text g ?v = Inr w"
      using line t(1) 3 by (auto simp: check_line_def Let_def split: sum.splits)
    have data: "stated_data g c = [(''value'', GStr w)]" using 3 w by (simp add: stated_data_def)
    show ?thesis
    proof (cases "ck_operator c = ''equals'' \<and> quote_target t = status_word \<and> atoi w \<noteq> None")
      case True
      then have "t = status_word" using quote_target_status by blast
      then have "ck_extractor c = ''status_code''" "ck_extractor_data c = []"
        using t(2) by (auto simp: target_extractor_def status_word_def)
      moreover have "line = ''status: '' @ w" using line t(1) w 3 True by (auto simp: check_line_def Let_def)
      ultimately show ?thesis using True parse_status [of w g] by (simp add: data status_equals_def)
    next
      case False
      have l: "line = line_of t (ck_operator c) (Some w)"
        using line t(1) w 3 False by (auto simp: check_line_def line_of_def Let_def split: if_splits)
      have "w = [] \<or> \<not> line_end (last w)" using survives 3 w by (simp add: value_survives_def)
      then have "\<not> line_end (last line)" unfolding l by (intro line_of_last [OF op]) auto
      then show ?thesis
        unfolding l data using 3 by (subst parse_line [OF t(2) op]) auto
    qed
  qed
qed

section \<open>A line that was read can be written\<close>

lemma unquote_rest_suffix: "unquote_rest s = Some (t, rest) \<Longrightarrow> \<exists>p. s = p @ rest"
proof (induction s arbitrary: t rule: unquote_rest.induct)
  case (2 c s)
  show ?case
  proof (cases "c = CHR 0x5C")
    case True
    with 2(3) obtain piece r u where r: "unquote_escape s = Some (piece, r)" and u: "unquote_rest r = Some (u, rest)"
      by (auto simp: unquote_rest.simps(2) split: option.splits)
    obtain p where "s = p @ r" using unquote_escape_suffix [OF r] by blast
    moreover obtain q where "r = q @ rest" using 2(1) [OF _ _ True r refl u] True by auto
    ultimately show ?thesis by (intro exI [of _ "c # p @ q"]) simp
  next
    case False
    with 2(2) [OF _ _ False] 2(3) show ?thesis
      by (auto simp: unquote_rest.simps(2) split: if_splits)
  qed
qed simp

lemma cut_space_Some: "cut_space s = (h, Some r) \<Longrightarrow> s = h @ CHR '' '' # r"
proof -
  assume c: "cut_space s = (h, Some r)"
  then obtain d where d: "dropWhile (\<lambda>c. c \<noteq> CHR '' '') s = d # r" "h = takeWhile (\<lambda>c. c \<noteq> CHR '' '') s"
    by (auto simp: cut_space_def split: list.splits)
  have "d = CHR '' ''" using hd_dropWhile [of "\<lambda>c. c \<noteq> CHR '' ''" s] d(1) by simp
  moreover have "s = takeWhile (\<lambda>c. c \<noteq> CHR '' '') s @ dropWhile (\<lambda>c. c \<noteq> CHR '' '') s" by simp
  ultimately show ?thesis by (simp only: d)
qed

lemma take_target_suffix: "take_target s = Inr (t, r) \<Longrightarrow> r \<noteq> [] \<Longrightarrow> \<exists>p. s = p @ r"
proof -
  assume t: "take_target s = Inr (t, r)" and r: "r \<noteq> []"
  then obtain c body where s: "s = c # body" by (cases s) (auto simp: take_target_def)
  show ?thesis
  proof (cases "c = CHR 0x22")
    case True
    with t s obtain rest where u: "unquote_rest body = Some (t, rest)" "r = dropWhile blank rest"
      by (auto simp: take_target_def split: option.splits)
    obtain p where "body = p @ rest" using unquote_rest_suffix [OF u(1)] by blast
    then have "s = (c # p @ takeWhile blank rest) @ r" by (simp add: s u(2))
    then show ?thesis by blast
  next
    case False
    with t s r obtain h where "cut_space s = (h, Some r)" by (auto simp: take_target_def split: prod.splits option.splits)
    then have "s = (h @ [CHR '' '']) @ r" using cut_space_Some by simp
    then show ?thesis by blast
  qed
qed

lemma split_check_suffix: "split_check s = Inr (t, op, Some v) \<Longrightarrow> \<exists>p. s = p @ v"
proof -
  assume c: "split_check s = Inr (t, op, Some v)"
  then obtain r where r: "take_target (dropWhile blank s) = Inr (t, r)" "r \<noteq> []"
    by (auto simp: split_check_def split: sum.splits if_splits prod.splits)
  then have "cut_space r = (op, Some v)"
    using c by (auto simp: split_check_def split: prod.splits if_splits)
  then have "r = op @ CHR '' '' # v" by (rule cut_space_Some)
  moreover obtain p where "dropWhile blank s = p @ r" using take_target_suffix [OF r] by blast
  ultimately have "s = (takeWhile blank s @ p @ op @ [CHR '' '']) @ v"
    by (metis append.assoc append_Cons append_Nil takeWhile_dropWhile_id)
  then show ?thesis by blast
qed

lemma trim_line_end_last: "trim_line_end s = [] \<or> \<not> line_end (last (trim_line_end s))"
  using hd_dropWhile [of line_end "rev s"] by (auto simp: trim_line_end_def last_rev)

text \<open>What reading a line gives.\<close>

lemma parsed_check:
  assumes "parse_expect_line g l = Inr c"
  obtains v where "nameable c" and "ck_operator c \<in> set expect_operators"
    and "ck_operator c \<in> set valueless_operators \<longleftrightarrow> v = None" and "\<And>w. v = Some w \<Longrightarrow> w = [] \<or> \<not> line_end (last w)"
    and "ck_operator c \<noteq> ''between'' \<Longrightarrow>
      ck_operator_data c = (case v of None \<Rightarrow> [] | Some w \<Rightarrow> [(''value'', GStr w)])"
    and "ck_operator c = ''between'' \<Longrightarrow> \<exists>low high. token low \<and> token high \<and>
      ck_operator_data c = [(''value'', GList [bound_token g low, bound_token g high])]"
proof -
  let ?s = "trim_line_end (dropWhile blank l)"
  show ?thesis
  proof (cases "strip_prefix ''status:'' ?s")
    case (Some rest)
    then have c: "c = status_equals (trim_space rest)" and n: "atoi (trim_space rest) \<noteq> None"
      using assms by (auto simp: parse_expect_line_def Let_def split: if_splits)
    have w: "list_all solid (trim_space rest)" using atoi_solid [OF n] by simp
    show ?thesis
    proof (rule that [of "Some (trim_space rest)"])
      show "nameable c" by (simp add: c nameable_def status_equals_def check_target_def target_extractor_def status_word_def)
      show "w = [] \<or> \<not> line_end (last w)" if "Some (trim_space rest) = Some w" for w
        using that \<open>list_all solid (trim_space rest)\<close> last_in_set [of w] by (auto simp: list_all_iff dest: solid_no_blank)
    qed (auto simp: c status_equals_def expect_operators_def valueless_operators_def)
  next
    case None
    then have p: "parse_check g ?s = Inr c" using assms by (auto simp: parse_expect_line_def Let_def split: if_splits)
    obtain t op v where sp: "split_check ?s = Inr (t, op, v)" using p by (auto simp: parse_check_def split: sum.splits)
    obtain e d where t: "target_extractor t = Some (e, d)" and op: "op \<in> set expect_operators"
      using p sp by (auto simp: parse_check_def Let_def split: if_splits option.splits)
    let ?c = "\<lparr>ck_extractor = e, ck_extractor_data = d, ck_operator = op, ck_operator_data = []\<rparr>"
    have ends: "w = [] \<or> \<not> line_end (last w)" if "v = Some w" for w
      using split_check_suffix [of ?s t op w] sp that trim_line_end_last [of "dropWhile blank l"] by auto
    have name: "nameable (?c\<lparr>ck_operator_data := data\<rparr>)" for data
      using extractor_target [OF t, of op data] t by (simp add: nameable_def)
    have betw: "\<exists>low high w. v = Some w \<and> token low \<and> token high \<and>
        c = ?c\<lparr>ck_operator_data := [(''value'', GList [bound_token g low, bound_token g high])]\<rparr>" if f: "finish_between g ?c ?s v = Inr c"
    proof -
      obtain w where w: "v = Some w" using f by (auto simp: finish_between_def split: option.splits)
      obtain low high where "split_fields w = [low, high]"
        "c = ?c\<lparr>ck_operator_data := [(''value'', GList [bound_token g low, bound_token g high])]\<rparr>"
        using f w by (auto simp: finish_between_def split: list.splits)
      then show ?thesis using w split_fields_token [of low w] split_fields_token [of high w] by auto
    qed
    have not_valueless: "''between'' \<notin> set valueless_operators" by code_simp
    show ?thesis
    proof (cases "op = ''between''")
      case True
      then have f: "finish_between g ?c ?s v = Inr c"
        using p sp t op by (auto simp: parse_check_def Let_def split: if_splits)
      from betw [OF f] obtain low high w where b: "v = Some w" "token low" "token high"
        "c = ?c\<lparr>ck_operator_data := [(''value'', GList [bound_token g low, bound_token g high])]\<rparr>" by blast
      show ?thesis
        by (rule that [of v]) (use b True name op ends not_valueless in auto)
    next
      case False
      then have c: "c = ?c\<lparr>ck_operator_data := case v of None \<Rightarrow> [] | Some w \<Rightarrow> [(''value'', GStr w)]\<rparr>"
        and v: "op \<in> set valueless_operators \<longleftrightarrow> v = None"
        using p sp t op by (auto simp: parse_check_def Let_def split: if_splits option.splits)
      show ?thesis
      proof (rule that [of v])
        show "nameable c" unfolding c by (rule name)
        show "ck_operator c \<in> set expect_operators" unfolding c using op by simp
        show "ck_operator c \<in> set valueless_operators \<longleftrightarrow> v = None" unfolding c using v by simp
        show "w = [] \<or> \<not> line_end (last w)" if "v = Some w" for w using ends [OF that] .
        show "ck_operator_data c = (case v of None \<Rightarrow> [] | Some w \<Rightarrow> [(''value'', GStr w)])" unfolding c by simp
        show "\<exists>low high. token low \<and> token high \<and> ck_operator_data c = [(''value'', GList [bound_token g low, bound_token g high])]"
          if "ck_operator c = ''between''" using that False unfolding c by simp
      qed
    qed
  qed
qed

text \<open>The checks without a floating-point bound, whose form would change with its text.\<close>

definition is_float :: "gval \<Rightarrow> bool" where
  "is_float v \<longleftrightarrow> (case v of GFloat x \<Rightarrow> True | _ \<Rightarrow> False)"

definition no_float_bound :: "check \<Rightarrow> bool" where
  "no_float_bound c \<longleftrightarrow>
     (case map_of (ck_operator_data c) ''value'' of
        Some (GList vs) \<Rightarrow> \<not> list_ex is_float vs
      | _ \<Rightarrow> True)"

lemma bound_text:
  assumes "token s" and "\<not> is_float (bound_token g s)"
  shows "\<exists>t. expect_text g (bound_token g s) = Inr t \<and> token t \<and> bound_token g t = bound_token g s"
proof (cases "atoi s")
  case None
  with assms show ?thesis by (auto simp: bound_token_def expect_text_def is_float_def split: sum.splits)
next
  case (Some i)
  have i: "atoi (int_text i) = Some i" using atoi_int_text atoi_range [OF Some] by blast
  have "list_all solid (int_text i) \<and> int_text i \<noteq> []" by (rule atoi_solid) (simp add: i)
  then have "token (int_text i)" using solid_token by (simp add: token_def)
  with i Some show ?thesis by (simp add: bound_token_def expect_text_def)
qed

lemma check_line_written:
  assumes parsed: "parse_expect_line g l = Inr c" and bounds: "no_float_bound c"
  shows "\<exists>l'. check_line g c = Inr l' \<and> nameable c \<and> ck_operator c \<in> set expect_operators \<and> value_survives g c \<and>
     c\<lparr>ck_operator_data := stated_data g c\<rparr> = c"
proof (rule parsed_check [OF parsed])
  fix v
  assume name: "nameable c" and op: "ck_operator c \<in> set expect_operators"
    and val: "ck_operator c \<in> set valueless_operators \<longleftrightarrow> v = None" and ends: "\<And>w. v = Some w \<Longrightarrow> w = [] \<or> \<not> line_end (last w)"
    and plain: "ck_operator c \<noteq> ''between'' \<Longrightarrow> ck_operator_data c = (case v of None \<Rightarrow> [] | Some w \<Rightarrow> [(''value'', GStr w)])"
    and betw: "ck_operator c = ''between'' \<Longrightarrow> \<exists>low high. token low \<and> token high \<and>
      ck_operator_data c = [(''value'', GList [bound_token g low, bound_token g high])]"
  obtain t where t: "check_target c = Inr t" using name by (auto simp: nameable_def split: sum.splits)
  show ?thesis
  proof (cases "ck_operator c = ''between''")
    case True
    then obtain low high where lh: "token low" "token high"
      and data: "ck_operator_data c = [(''value'', GList [bound_token g low, bound_token g high])]" using betw by blast
    have nf: "\<not> is_float (bound_token g low)" "\<not> is_float (bound_token g high)"
      using bounds by (simp_all add: no_float_bound_def data)
    obtain a where a: "expect_text g (bound_token g low) = Inr a" "token a" "bound_token g a = bound_token g low"
      using bound_text [OF lh(1) nf(1)] by blast
    obtain b where b: "expect_text g (bound_token g high) = Inr b" "token b" "bound_token g b = bound_token g high"
      using bound_text [OF lh(2) nf(2)] by blast
    have "between_bounds g (map_of (ck_operator_data c) ''value'') = Inr (a, b)"
      using a b token_plain by (simp add: data between_bounds_def)
    then show ?thesis
      using True name op t a b data
      by (simp add: check_line_def Let_def value_survives_def stated_data_def valueless_operators_def)
  next
    case False
    then show ?thesis
      using name op val ends plain t
      by (cases v) (auto simp: check_line_def Let_def value_survives_def stated_data_def expect_text_def)
  qed
qed

section \<open>Properties\<close>


text \<open>
  Every check a flow file can state is kept when the flow is written as a file again: a line
  that was read can be written, and the line written is read as the very same check.
\<close>

theorem file_checks_survive:
  assumes "parse_expect_line g l = Inr c" and "no_float_bound c"
  shows "\<exists>l'. check_line g c = Inr l' \<and> parse_expect_line g l' = Inr c"
  using check_line_written [OF assms] check_line_read_back [of g c] by fastforce

definition demo_check_text :: check_text where
  "demo_check_text = \<lparr>format_float = (\<lambda>_. ''1.5''), float_v = (\<lambda>_. ''1.5''), parse_float = (\<lambda>_. Inl (PlainError ''syntax'')),
     match_string = (\<lambda>_ _. Inr False), int64_overflow = - (2 ^ 63), value_type = (\<lambda>_. ''<nil>'')\<rparr>"


theorem file_checks_survive_witness:
  "\<exists>l. check_line demo_check_text
       \<lparr>ck_extractor = ''status_code'', ck_extractor_data = [], ck_operator = ''between'',
        ck_operator_data = [(''value'', GList [GInt 200, GInt 299])]\<rparr> = Inr l \<and> l \<noteq> []"
proof -
  let ?c = "\<lparr>ck_extractor = ''status_code'', ck_extractor_data = [], ck_operator = ''between'',
      ck_operator_data = [(''value'', GList [GInt 200, GInt 299])]\<rparr>"
  have "parse_expect_line demo_check_text ''status between 200 299'' = Inr ?c" "no_float_bound ?c" by code_simp+
  then obtain l where l: "check_line demo_check_text ?c = Inr l" "parse_expect_line demo_check_text l = Inr ?c"
    using file_checks_survive by blast
  have "l \<noteq> []" using l(2) by (auto simp: parse_expect_line_def trim_line_end_def trim_space_def)
  with l show ?thesis by blast
qed

text \<open>
  Two stored checks that change when they are written and read back without an error: a text
  that ends in a line end loses it, and the number 2^63 becomes whatever 64-bit integer the machine
  converts it to.
\<close>

theorem some_checks_change_in_a_file:
  "(\<exists>line. check_line demo_check_text
        \<lparr>ck_extractor = ''body'', ck_extractor_data = [], ck_operator = ''equals'', ck_operator_data = [(''value'', GStr (''ok'' @ [CHR 0x0A]))]\<rparr> = Inr line \<and>
      parse_expect_line demo_check_text line = Inr
        \<lparr>ck_extractor = ''body'', ck_extractor_data = [], ck_operator = ''equals'', ck_operator_data = [(''value'', GStr ''ok'')]\<rparr>) \<and>
   check_line demo_check_text
     \<lparr>ck_extractor = ''json_path'', ck_extractor_data = [(''path'', GStr ''$.n'')], ck_operator = ''equals'',
      ck_operator_data = [(''value'', GFloat (Fin (2 ^ 63)))]\<rparr> = Inr (''$.n equals '' @ int_text (- (2 ^ 63)))"
proof
  show "\<exists>line. check_line demo_check_text
        \<lparr>ck_extractor = ''body'', ck_extractor_data = [], ck_operator = ''equals'', ck_operator_data = [(''value'', GStr (''ok'' @ [CHR 0x0A]))]\<rparr> = Inr line \<and>
      parse_expect_line demo_check_text line = Inr
        \<lparr>ck_extractor = ''body'', ck_extractor_data = [], ck_operator = ''equals'', ck_operator_data = [(''value'', GStr ''ok'')]\<rparr>"
    by (rule exI [of _ "''body equals ok'' @ [CHR 0x0A]"]) code_simp
qed (simp add: check_line_def check_target_def quote_target_def expect_text_def float_text_def whole_int64_def demo_check_text_def
    valueless_operators_def status_word_def blank_def line_end_def int_text_def)

end
