(* ===== verification/Flow_Graph.thy ===== *)
theory Flow_Graph
  imports Flow_Checks "HOL-Library.AList"
begin

text \<open>
  Flow files as a compiled form (\<open>pkg/flowdsl/ir.go\<close>) and as the API stores them
  (\<open>pkg/flowdsl/wire/types.go\<close>): the node specifications, the lowering of a graph to a create-flow
  request with its edges (\<open>lower.go\<close>, \<open>integration.go\<close>), the implicit chain of steps
  (\<open>parse_fields.go\<close>), and the edges a stored flow is written with (\<open>decompile.go\<close>). Flow IDs are
  texts: parsing a UUID, and encoding a node as JSON, which can fail, are fields of \<open>flow_text\<close>.
\<close>

section \<open>The stored form\<close>

text \<open>Frontend metadata, which the compiler leaves absent, is left out.\<close>

record wire_edge =
  we_id :: string
  we_source :: string
  we_target :: string
  we_type :: string
  we_source_handle :: "string option"
  we_target_handle :: "string option"

definition edge_success :: string where
  "edge_success = ''success''"

definition edge_failure :: string where
  "edge_failure = ''failure''"

record wire_output =
  wo_name :: string
  wo_secret :: "bool option"
  wo_extractor :: string
  wo_path :: "string option"
  wo_header :: "string option"

type_synonym pairs = "(string \<times> gval) list"

record integration_ref =
  ir_id :: string
  ir_operation :: "string option"
  ir_event :: "string option"
  ir_inputs :: "pairs option"

record wire_request =
  wr_method :: string
  wr_url :: string
  wr_headers :: "(string \<times> string) list option"
  wr_query_params :: "pairs option"
  wr_body :: gval
  wr_timeout :: "int option"
  wr_integration :: "integration_ref option"

record wire_module =
  wm_flow_id :: string
  wm_input_bindings :: "pairs option"
  wm_output_bindings :: "(string \<times> string) list option"

record wire_case =
  wc_when :: check
  wc_target :: string

record wire_branch =
  wb_target :: gval
  wb_cases :: "wire_case list"
  wb_default :: "string option"

record wire_poll =
  wp_max_attempts :: "int option"
  wp_interval_ms :: "int option"
  wp_timeout_ms :: "int option"

record wire_loop =
  wl_items :: gval
  wl_item_var :: "string option"
  wl_index_var :: "string option"
  wl_max_iterations :: "int option"
  wl_continue_on_error :: "bool option"

record wire_expectation =
  wx_name :: string
  wx_min :: "int option"
  wx_max :: "int option"
  wx_assertions :: "check list"

record wire_webhook =
  ww_timeout_ms :: "int option"
  ww_settle_ms :: "int option"
  ww_expect :: "wire_expectation list option"
  ww_integration :: "integration_ref option"

record wire_sse =
  ws_url :: string
  ws_method :: "string option"
  ws_headers :: "(string \<times> string) list option"
  ws_timeout_ms :: "int option"
  ws_max_events :: "int option"
  ws_completion_event :: "string option"
  ws_stop_on_assertion_failure :: "bool option"

text \<open>What the nodes of every kind have.\<close>

record wire_shell =
  wn_id :: string
  wn_display_name :: string
  wn_run_when :: "string option"
  wn_assertions :: "check list option"
  wn_outputs :: "wire_output list option"

datatype wire_node = WireNode wire_shell wire_data
and wire_data =
    WRequest wire_request
  | WModule wire_module
  | WDelay int
  | WSet pairs
  | WAssert gval
  | WBranch wire_branch
  | WPoll wire_poll wire_inline
  | WLoop wire_loop wire_inline
  | WWebhook wire_webhook
  | WSse wire_sse
and wire_inline = WireInline "wire_node list" "wire_edge list option"

record flow_definition =
  fd_name :: string
  fd_version :: string
  fd_description :: "string option"
  fd_nodes :: "wire_node list"
  fd_edges :: "wire_edge list"

record create_flow_request =
  cf_name :: string
  cf_auto_layout :: "bool option"
  cf_definition :: flow_definition
  cf_version :: "string option"
  cf_description :: "string option"
  cf_role :: "string option"
  cf_tags :: "string list option"
  cf_folder_id :: "string option"

section \<open>The compiled form\<close>

datatype severity = ErrorLevel | WarningLevel

record diagnostic =
  dg_file :: string
  dg_line :: int
  dg_severity :: severity
  dg_message :: string

record out_decl =
  od_name :: string
  od_binding :: string
  od_extractor :: string
  od_path :: string
  od_header :: string
  od_secret :: bool
  od_line :: int

record req_spec =
  rs_method :: string
  rs_url :: string
  rs_headers :: pairs
  rs_query :: pairs
  rs_body :: "gval option"
  rs_timeout :: "int option"

record hook_group =
  hg_name :: string
  hg_min :: "int option"
  hg_max :: "int option"
  hg_checks :: "check list"

record integ_spec =
  is_id :: string
  is_operation :: string
  is_event :: string
  is_inputs :: pairs
  is_timeout :: "int option"
  is_settle :: "int option"
  is_groups :: "hook_group list"

record mod_spec =
  ms_ref :: string
  ms_ref_line :: int
  ms_flow_id :: string
  ms_inputs :: pairs
  ms_explicit :: bool

record dsl_case =
  dc_when :: check
  dc_target :: string
  dc_line :: int

record branch_spec =
  bs_target :: "gval option"
  bs_cases :: "dsl_case list"
  bs_default :: "string option"

record poll_spec =
  ps_max_attempts :: "int option"
  ps_interval :: "int option"
  ps_timeout :: "int option"

record loop_spec =
  ls_items :: gval
  ls_item_var :: string
  ls_index_var :: string
  ls_max :: "int option"
  ls_continue_on :: "bool option"

record hook_spec =
  hs_timeout :: "int option"
  hs_settle :: "int option"
  hs_groups :: "hook_group list"

record sse_spec =
  ss_url :: string
  ss_method :: string
  ss_headers :: pairs
  ss_timeout :: "int option"
  ss_max_events :: "int option"
  ss_completion :: "string option"
  ss_stop :: "bool option"

record node_head =
  nh_id :: string
  nh_line :: int
  nh_display :: string
  nh_run_when :: string
  nh_next :: "string list"
  nh_next_set :: bool
  nh_fail :: "string list"
  nh_expects :: "check list"

record graph_head =
  gh_path :: string
  gh_inline :: bool
  gh_line :: int
  gh_name :: string
  gh_description :: string
  gh_role :: string
  gh_version :: string
  gh_tags :: "string list"
  gh_id :: string
  gh_folder :: string
  gh_folder_line :: int
  gh_inputs :: "string list"
  gh_public :: "string list option"
  gh_from_steps :: bool
  gh_injected :: "string list"

text \<open>
  A node with its outputs and its kind's specification, absent when reading it failed, and a graph with
  its nodes, its exports and its diagnostics. A poll or loop body is a graph.
\<close>

datatype dsl_node = DslNode (n_head: node_head) (n_outputs: "out_decl list") (n_spec: node_spec)
and node_spec =
    NoKind
  | RequestSpec "req_spec option"
  | ModuleSpec "mod_spec option"
  | DelaySpec int
  | SetSpec pairs
  | AssertSpec "gval option"
  | BranchSpec "branch_spec option"
  | PollSpec "poll_spec option" "dsl_graph option"
  | LoopSpec "loop_spec option" "dsl_graph option"
  | WebhookSpec "hook_spec option"
  | SseSpec "sse_spec option"
  | IntegrationSpec "integ_spec option"
and dsl_graph =
  DslGraph (g_head: graph_head) (g_nodes: "dsl_node list") (g_exports: "(string \<times> string) list") (g_diags: "diagnostic list")

abbreviation n_id :: "dsl_node \<Rightarrow> string" where
  "n_id n \<equiv> nh_id (n_head n)"

definition is_event_spec :: "integ_spec \<Rightarrow> bool" where
  "is_event_spec s \<longleftrightarrow> is_event s \<noteq> []"

text \<open>\<open>graph.add\<close>.\<close>

definition add_diag :: "severity \<Rightarrow> int \<Rightarrow> string \<Rightarrow> dsl_graph \<Rightarrow> dsl_graph" where
  "add_diag sev line msg g =
     (case g of
        DslGraph h ns ex ds \<Rightarrow>
          DslGraph h ns ex (ds @ [\<lparr>dg_file = gh_path h, dg_line = line, dg_severity = sev, dg_message = msg\<rparr>]))"

fun collect_diags :: "dsl_graph \<Rightarrow> diagnostic list"
  and nested_diags :: "dsl_node \<Rightarrow> diagnostic list"
  and spec_diags :: "node_spec \<Rightarrow> diagnostic list" where
  "collect_diags (DslGraph h ns ex ds) = ds @ concat (map nested_diags ns)"
| "nested_diags (DslNode h outs spec) = spec_diags spec"
| "spec_diags (PollSpec (Some s) (Some body)) = collect_diags body"
| "spec_diags (LoopSpec (Some s) (Some body)) = collect_diags body"
| "spec_diags _ = []"

definition has_error :: "dsl_graph \<Rightarrow> bool" where
  "has_error g \<longleftrightarrow> list_ex (\<lambda>d. dg_severity d = ErrorLevel) (collect_diags g)"

section \<open>Edges\<close>

text \<open>
  \<open>addEdge\<close>, with the edges so far and the keys seen. A key joins source, target and type with NUL
  characters, which no node id holds.
\<close>

type_synonym edge_acc = "wire_edge list \<times> (string \<times> string \<times> string) set"

definition add_wire_edge :: "string \<Rightarrow> string \<Rightarrow> string \<Rightarrow> edge_acc \<Rightarrow> edge_acc" where
  "add_wire_edge source kind target acc =
     (case acc of
        (edges, seen) \<Rightarrow>
          if target = [] \<or> (source, target, kind) \<in> seen then acc
          else
            (edges @ [\<lparr>we_id = source @ ''-'' @ target @ (if kind = edge_failure then ''-failure'' else []),
                       we_source = source, we_target = target, we_type = kind,
                       we_source_handle = None, we_target_handle = None\<rparr>],
             insert (source, target, kind) seen))"

fun branch_targets :: "node_spec \<Rightarrow> string list" where
  "branch_targets (BranchSpec (Some b)) =
     map dc_target (bs_cases b) @ (case bs_default b of Some target \<Rightarrow> [target] | None \<Rightarrow> [])"
| "branch_targets _ = []"

definition add_branch_edges :: "dsl_node \<Rightarrow> edge_acc \<Rightarrow> edge_acc" where
  "add_branch_edges n acc = fold (add_wire_edge (n_id n) edge_success) (branch_targets (n_spec n)) acc"

definition add_node_edges :: "dsl_node \<Rightarrow> edge_acc \<Rightarrow> edge_acc" where
  "add_node_edges n acc =
     fold (add_wire_edge (n_id n) edge_failure) (nh_fail (n_head n))
       (add_branch_edges n (fold (add_wire_edge (n_id n) edge_success) (nh_next (n_head n)) acc))"

definition lower_edges :: "dsl_node list \<Rightarrow> wire_edge list" where
  "lower_edges ns = fst (fold add_node_edges ns ([], {}))"

text \<open>\<open>linkSteps\<close>: each step is followed by the next one, unless it set \<open>next\<close> or is a branch.\<close>

definition is_branch :: "node_spec \<Rightarrow> bool" where
  "is_branch s \<longleftrightarrow> (case s of BranchSpec _ \<Rightarrow> True | _ \<Rightarrow> False)"

definition with_next :: "string list \<Rightarrow> dsl_node \<Rightarrow> dsl_node" where
  "with_next ids n = DslNode ((n_head n)\<lparr>nh_next := ids, nh_next_set := True\<rparr>) (n_outputs n) (n_spec n)"

fun link_steps :: "dsl_node list \<Rightarrow> dsl_node list" where
  "link_steps (step # after # rest) =
     (if is_branch (n_spec step) \<or> nh_next_set (n_head step) then step else with_next [n_id after] step)
       # link_steps (after # rest)"
| "link_steps ns = ns"

text \<open>\<open>edgeNames\<close>: the names a stored node is written with under \<open>next\<close> and \<open>on_failure\<close>.\<close>

fun edge_names :: "string \<Rightarrow> wire_edge list \<Rightarrow> go_error + string list \<times> string list" where
  "edge_names nodeID [] = Inr ([], [])"
| "edge_names nodeID (e # es) =
     (if we_source e \<noteq> nodeID then edge_names nodeID es
      else if we_type e = edge_success then map_sum id (\<lambda>(next, fail). (we_target e # next, fail)) (edge_names nodeID es)
      else if we_type e = edge_failure then map_sum id (\<lambda>(next, fail). (next, we_target e # fail)) (edge_names nodeID es)
      else Inl (PlainError (''edge '' @ dquote (we_id e) @ '' has type '' @ dquote (we_type e))))"

section \<open>Lowering\<close>

record flow_text = check_text +
  parse_uuid :: "string \<Rightarrow> string option"
  encode_node :: "wire_node \<Rightarrow> go_error option"

text \<open>A node lowered to its stored form, an error, or, for a missing specification, a nil dereference.\<close>

type_synonym 'x lowered = "(go_error + 'x) option"

definition base_assertions :: "node_head \<Rightarrow> check list option" where
  "base_assertions h = (if nh_expects h = [] then None else Some (nh_expects h))"

definition run_when_of :: "string \<Rightarrow> string option" where
  "run_when_of value = Some (if value = ''always'' then ''always'' else ''on_success'')"

text \<open>The map that a list of pairs is copied into: of two values of a key the later one stays.\<close>

definition go_map :: "(string \<times> 'v) list \<Rightarrow> (string \<times> 'v) list" where
  "go_map ps = fold (\<lambda>(k, v). AList.update k v) ps []"

definition string_map :: "pairs \<Rightarrow> (string \<times> string) list option" where
  "string_map ps =
     (if ps = [] then None
      else Some (go_map (concat (map (\<lambda>(k, v). case v of GStr s \<Rightarrow> [(k, s)] | _ \<Rightarrow> []) ps))))"

definition any_map :: "pairs \<Rightarrow> pairs option" where
  "any_map ps = (if ps = [] then None else Some (go_map ps))"

definition str_ptr :: "string \<Rightarrow> string option" where
  "str_ptr s = (if s = [] then None else Some s)"

definition binding_map :: "out_decl list \<Rightarrow> (string \<times> string) list option" where
  "binding_map decls =
     (let bound = map (\<lambda>d. (od_name d, od_binding d)) (filter (\<lambda>d. od_binding d \<noteq> []) decls) in
      if bound = [] then None else Some (go_map bound))"

definition secret_ptr :: "bool \<Rightarrow> bool option" where
  "secret_ptr on = (if on then Some True else None)"

definition lower_output :: "out_decl \<Rightarrow> wire_output" where
  "lower_output d =
     (let item = \<lparr>wo_name = od_name d, wo_secret = secret_ptr (od_secret d), wo_extractor = ''json_path'',
                  wo_path = None, wo_header = None\<rparr> in
      if od_extractor d = ''header'' then item\<lparr>wo_extractor := ''header'', wo_header := Some (od_header d)\<rparr>
      else if od_extractor d = ''body'' then item\<lparr>wo_extractor := ''body''\<rparr>
      else if od_extractor d = ''status_code'' then item\<lparr>wo_extractor := ''status_code''\<rparr>
      else item\<lparr>wo_path := Some (od_path d)\<rparr>)"

definition extractor_outputs :: "out_decl list \<Rightarrow> wire_output list option" where
  "extractor_outputs decls = (if decls = [] then None else Some (map lower_output decls))"

definition hook_groups :: "hook_group list \<Rightarrow> wire_expectation list option" where
  "hook_groups groups =
     (if groups = [] then None
      else Some (map (\<lambda>g. \<lparr>wx_name = hg_name g, wx_min = hg_min g, wx_max = hg_max g, wx_assertions = hg_checks g\<rparr>) groups))"

definition shell_of :: "node_head \<Rightarrow> wire_output list option \<Rightarrow> wire_shell" where
  "shell_of h outs =
     \<lparr>wn_id = nh_id h, wn_display_name = nh_display h, wn_run_when = run_when_of (nh_run_when h),
      wn_assertions = base_assertions h, wn_outputs = outs\<rparr>"

text \<open>The \<open>From...\<close> methods: a node is kept in its JSON form.\<close>

definition wire_of :: "'a flow_text_scheme \<Rightarrow> wire_shell \<Rightarrow> wire_data \<Rightarrow> wire_node lowered" where
  "wire_of t shell d =
     Some (case encode_node t (WireNode shell d) of Some err \<Rightarrow> Inl err | None \<Rightarrow> Inr (WireNode shell d))"

definition lower_request :: "'a flow_text_scheme \<Rightarrow> node_head \<Rightarrow> out_decl list \<Rightarrow> req_spec \<Rightarrow> wire_node lowered" where
  "lower_request t h outs s =
     wire_of t (shell_of h (extractor_outputs outs))
       (WRequest \<lparr>wr_method = map ascii_upper (rs_method s), wr_url = rs_url s, wr_headers = string_map (rs_headers s),
          wr_query_params = any_map (rs_query s), wr_body = (case rs_body s of Some v \<Rightarrow> v | None \<Rightarrow> GNil),
          wr_timeout = rs_timeout s, wr_integration = None\<rparr>)"

definition lower_module :: "'a flow_text_scheme \<Rightarrow> node_head \<Rightarrow> out_decl list \<Rightarrow> mod_spec \<Rightarrow> wire_node lowered" where
  "lower_module t h outs s =
     (case parse_uuid t (ms_flow_id s) of
        None \<Rightarrow> Some (Inl (PlainError (''node '' @ dquote (nh_id h) @ '' has no flow id'')))
      | Some flow \<Rightarrow>
          wire_of t (shell_of h None)
            (WModule \<lparr>wm_flow_id = flow, wm_input_bindings = any_map (ms_inputs s), wm_output_bindings = binding_map outs\<rparr>))"

definition lower_branch :: "'a flow_text_scheme \<Rightarrow> node_head \<Rightarrow> branch_spec \<Rightarrow> wire_node lowered" where
  "lower_branch t h s =
     wire_of t (shell_of h None)
       (WBranch \<lparr>wb_target = (case bs_target s of Some v \<Rightarrow> v | None \<Rightarrow> GNil),
          wb_cases = map (\<lambda>c. \<lparr>wc_when = dc_when c, wc_target = dc_target c\<rparr>) (bs_cases s), wb_default = bs_default s\<rparr>)"

definition lower_webhook :: "'a flow_text_scheme \<Rightarrow> node_head \<Rightarrow> out_decl list \<Rightarrow> hook_spec \<Rightarrow> wire_node lowered" where
  "lower_webhook t h outs s =
     wire_of t (shell_of h (extractor_outputs outs))
       (WWebhook \<lparr>ww_timeout_ms = hs_timeout s, ww_settle_ms = hs_settle s, ww_expect = hook_groups (hs_groups s),
          ww_integration = None\<rparr>)"

definition lower_sse :: "'a flow_text_scheme \<Rightarrow> node_head \<Rightarrow> out_decl list \<Rightarrow> sse_spec \<Rightarrow> wire_node lowered" where
  "lower_sse t h outs s =
     wire_of t (shell_of h (extractor_outputs outs))
       (WSse \<lparr>ws_url = ss_url s, ws_method = str_ptr (map ascii_upper (ss_method s)), ws_headers = string_map (ss_headers s),
          ws_timeout_ms = ss_timeout s, ws_max_events = ss_max_events s, ws_completion_event = ss_completion s,
          ws_stop_on_assertion_failure = ss_stop s\<rparr>)"

definition lower_integration :: "'a flow_text_scheme \<Rightarrow> node_head \<Rightarrow> out_decl list \<Rightarrow> integ_spec \<Rightarrow> wire_node lowered" where
  "lower_integration t h outs s =
     (let ref = \<lparr>ir_id = is_id s, ir_operation = None, ir_event = None, ir_inputs = None\<rparr>;
          shell = shell_of h (extractor_outputs outs) in
      if is_event_spec s
      then wire_of t shell
             (WWebhook \<lparr>ww_timeout_ms = is_timeout s, ww_settle_ms = is_settle s, ww_expect = hook_groups (is_groups s),
                ww_integration = Some (ref\<lparr>ir_event := Some (is_event s)\<rparr>)\<rparr>)
      else wire_of t shell
             (WRequest \<lparr>wr_method = [], wr_url = [], wr_headers = None, wr_query_params = None, wr_body = GNil,
                wr_timeout = is_timeout s,
                wr_integration = Some (ref\<lparr>ir_operation := Some (is_operation s), ir_inputs := any_map (is_inputs s)\<rparr>)\<rparr>))"

definition needs_body :: "node_head \<Rightarrow> go_error" where
  "needs_body h = PlainError (''node '' @ dquote (nh_id h) @ '' needs a body'')"

text \<open>The nodes in order, up to the first that fails.\<close>

fun lower_all :: "'x lowered list \<Rightarrow> 'x list lowered" where
  "lower_all [] = Some (Inr [])"
| "lower_all (x # xs) =
     (case x of
        None \<Rightarrow> None
      | Some (Inl err) \<Rightarrow> Some (Inl err)
      | Some (Inr w) \<Rightarrow>
          (case lower_all xs of
             None \<Rightarrow> None
           | Some (Inl err) \<Rightarrow> Some (Inl err)
           | Some (Inr ws) \<Rightarrow> Some (Inr (w # ws))))"

definition optional_edges :: "wire_edge list \<Rightarrow> wire_edge list option" where
  "optional_edges es = (if es = [] then None else Some es)"

definition with_inline ::
    "'a flow_text_scheme \<Rightarrow> wire_shell \<Rightarrow> (wire_inline \<Rightarrow> wire_data) \<Rightarrow> wire_inline lowered \<Rightarrow> wire_node lowered" where
  "with_inline t shell f body =
     (case body of
        None \<Rightarrow> None
      | Some (Inl err) \<Rightarrow> Some (Inl err)
      | Some (Inr inline) \<Rightarrow> wire_of t shell (f inline))"

definition lower_delay :: "'a flow_text_scheme \<Rightarrow> node_head \<Rightarrow> int \<Rightarrow> wire_node lowered" where
  "lower_delay t h ms = wire_of t (shell_of h None) (WDelay ms)"

definition lower_set :: "'a flow_text_scheme \<Rightarrow> node_head \<Rightarrow> pairs \<Rightarrow> wire_node lowered" where
  "lower_set t h vars = wire_of t (shell_of h None) (WSet (go_map vars))"

definition lower_assert :: "'a flow_text_scheme \<Rightarrow> node_head \<Rightarrow> out_decl list \<Rightarrow> gval option \<Rightarrow> wire_node lowered" where
  "lower_assert t h outs target =
     wire_of t (shell_of h (extractor_outputs outs)) (WAssert (case target of Some v \<Rightarrow> v | None \<Rightarrow> GNil))"

definition lower_poll :: "'a flow_text_scheme \<Rightarrow> node_head \<Rightarrow> poll_spec \<Rightarrow> wire_inline lowered \<Rightarrow> wire_node lowered" where
  "lower_poll t h s body =
     with_inline t (shell_of h None)
       (WPoll \<lparr>wp_max_attempts = ps_max_attempts s, wp_interval_ms = ps_interval s, wp_timeout_ms = ps_timeout s\<rparr>) body"

definition lower_loop :: "'a flow_text_scheme \<Rightarrow> node_head \<Rightarrow> loop_spec \<Rightarrow> wire_inline lowered \<Rightarrow> wire_node lowered" where
  "lower_loop t h s body =
     with_inline t (shell_of h None)
       (WLoop \<lparr>wl_items = ls_items s, wl_item_var = str_ptr (ls_item_var s), wl_index_var = str_ptr (ls_index_var s),
          wl_max_iterations = ls_max s, wl_continue_on_error = ls_continue_on s\<rparr>) body"

fun lower_node :: "'a flow_text_scheme \<Rightarrow> dsl_node \<Rightarrow> wire_node lowered"
  and lower_spec :: "'a flow_text_scheme \<Rightarrow> node_head \<Rightarrow> out_decl list \<Rightarrow> node_spec \<Rightarrow> wire_node lowered"
  and lower_inline :: "'a flow_text_scheme \<Rightarrow> dsl_graph \<Rightarrow> wire_inline lowered" where
  "lower_node t (DslNode h outs spec) = lower_spec t h outs spec"
| "lower_spec t h outs NoKind = Some (Inl (PlainError (''node '' @ dquote (nh_id h) @ '' has no kind'')))"
| "lower_spec t h outs (RequestSpec s) = Option.bind s (lower_request t h outs)"
| "lower_spec t h outs (ModuleSpec s) = Option.bind s (lower_module t h outs)"
| "lower_spec t h outs (DelaySpec ms) = lower_delay t h ms"
| "lower_spec t h outs (SetSpec vars) = lower_set t h vars"
| "lower_spec t h outs (AssertSpec target) = lower_assert t h outs target"
| "lower_spec t h outs (BranchSpec s) = Option.bind s (lower_branch t h)"
| "lower_spec t h outs (PollSpec None body) = None"
| "lower_spec t h outs (PollSpec (Some s) None) = Some (Inl (needs_body h))"
| "lower_spec t h outs (PollSpec (Some s) (Some body)) = lower_poll t h s (lower_inline t body)"
| "lower_spec t h outs (LoopSpec None body) = None"
| "lower_spec t h outs (LoopSpec (Some s) None) = Some (Inl (needs_body h))"
| "lower_spec t h outs (LoopSpec (Some s) (Some body)) = lower_loop t h s (lower_inline t body)"
| "lower_spec t h outs (WebhookSpec s) = Option.bind s (lower_webhook t h outs)"
| "lower_spec t h outs (SseSpec s) = Option.bind s (lower_sse t h outs)"
| "lower_spec t h outs (IntegrationSpec s) = Option.bind s (lower_integration t h outs)"
| "lower_inline t (DslGraph h ns ex ds) =
     (case lower_all (map (lower_node t) ns) of
        None \<Rightarrow> None
      | Some (Inl err) \<Rightarrow> Some (Inl err)
      | Some (Inr ws) \<Rightarrow> Some (Inr (WireInline ws (optional_edges (lower_edges ns)))))"

definition lower_graph :: "'a flow_text_scheme \<Rightarrow> dsl_graph \<Rightarrow> create_flow_request lowered" where
  "lower_graph t g =
     (let h = g_head g in
      case lower_all (map (lower_node t) (g_nodes g)) of
        None \<Rightarrow> None
      | Some (Inl err) \<Rightarrow> Some (Inl err)
      | Some (Inr ws) \<Rightarrow>
          Some (Inr
            \<lparr>cf_name = gh_name h, cf_auto_layout = Some True,
             cf_definition = \<lparr>fd_name = gh_name h, fd_version = gh_version h, fd_description = str_ptr (gh_description h),
                              fd_nodes = ws, fd_edges = lower_edges (g_nodes g)\<rparr>,
             cf_version = Some (gh_version h), cf_description = str_ptr (gh_description h),
             cf_role = str_ptr (gh_role h), cf_tags = (if gh_tags h = [] then None else Some (gh_tags h)),
             cf_folder_id = parse_uuid t (gh_folder h)\<rparr>))"

section \<open>The edges of a lowered graph\<close>

definition edge_key :: "wire_edge \<Rightarrow> string \<times> string \<times> string" where
  "edge_key e = (we_source e, we_target e, we_type e)"

text \<open>What a node states: its \<open>next\<close> list, the targets of its branch and its \<open>on_failure\<close> list.\<close>

definition stated_edges :: "dsl_node \<Rightarrow> (string \<times> string \<times> string) list" where
  "stated_edges n =
     map (\<lambda>target. (n_id n, target, edge_success)) (nh_next (n_head n) @ branch_targets (n_spec n)) @
     map (\<lambda>target. (n_id n, target, edge_failure)) (nh_fail (n_head n))"

text \<open>A list without the later of its equal elements.\<close>

definition firsts :: "'k list \<Rightarrow> 'k list" where
  "firsts xs = rev (remdups (rev xs))"

lemma firsts_append: "firsts (xs @ [x]) = (if x \<in> set xs then firsts xs else firsts xs @ [x])"
  by (simp add: firsts_def)

lemma set_firsts [simp]: "set (firsts xs) = set xs"
  by (simp add: firsts_def)

lemma distinct_firsts [simp]: "distinct (firsts xs)"
  by (simp add: firsts_def)

text \<open>The edges so far are the stated ones, without empty targets, each once.\<close>

definition edges_of :: "(string \<times> string \<times> string) list \<Rightarrow> edge_acc \<Rightarrow> bool" where
  "edges_of ks acc \<longleftrightarrow>
     map edge_key (fst acc) = firsts (filter (\<lambda>(s, t, k). t \<noteq> []) ks) \<and>
     snd acc = set (filter (\<lambda>(s, t, k). t \<noteq> []) ks)"

lemma add_wire_edge_of: "edges_of ks acc \<Longrightarrow> edges_of (ks @ [(s, t, k)]) (add_wire_edge s k t acc)"
  by (cases acc) (auto simp: edges_of_def add_wire_edge_def firsts_append edge_key_def)

lemma fold_edges_of:
  "edges_of ks acc \<Longrightarrow> edges_of (ks @ map (\<lambda>t. (s, t, k)) ts) (fold (add_wire_edge s k) ts acc)"
proof (induction ts arbitrary: ks acc)
  case (Cons t ts)
  then show ?case using Cons.IH [OF add_wire_edge_of [OF Cons.prems]] by simp
qed simp

lemma add_node_edges_of: "edges_of ks acc \<Longrightarrow> edges_of (ks @ stated_edges n) (add_node_edges n acc)"
  using fold_edges_of [OF fold_edges_of [OF fold_edges_of]]
  by (simp add: add_node_edges_def add_branch_edges_def stated_edges_def)

lemma fold_node_edges_of:
  "edges_of ks acc \<Longrightarrow> edges_of (ks @ concat (map stated_edges ns)) (fold add_node_edges ns acc)"
proof (induction ns arbitrary: ks acc)
  case (Cons n ns)
  then show ?case using Cons.IH [OF add_node_edges_of [OF Cons.prems]] by simp
qed simp

lemma lower_edges_keys:
  "map edge_key (lower_edges ns) = firsts (filter (\<lambda>(s, t, k). t \<noteq> []) (concat (map stated_edges ns)))"
proof -
  have "edges_of [] ([], {})" by (simp add: edges_of_def firsts_def)
  from fold_node_edges_of [OF this] show ?thesis by (simp add: lower_edges_def edges_of_def)
qed

lemma lowered_edge:
  "(s, t, k) \<in> edge_key ` set (lower_edges ns) \<longleftrightarrow> t \<noteq> [] \<and> (\<exists>n \<in> set ns. (s, t, k) \<in> set (stated_edges n))"
  using arg_cong [OF lower_edges_keys, of set ns] by auto

lemma lowered_edges_distinct: "distinct (map edge_key (lower_edges ns))"
  by (simp add: lower_edges_keys)

section \<open>Stored edges\<close>

lemma edge_names_targets:
  "edge_names i es = Inr (next, fail) \<Longrightarrow>
   set next = {we_target e |e. e \<in> set es \<and> we_source e = i \<and> we_type e = edge_success} \<and>
   set fail = {we_target e |e. e \<in> set es \<and> we_source e = i \<and> we_type e = edge_failure}"
proof (induction es arbitrary: "next" fail)
  case (Cons e es)
  consider (other) "we_source e \<noteq> i" | (success) "we_source e = i" "we_type e = edge_success"
    | (failure) "we_source e = i" "we_type e \<noteq> edge_success" "we_type e = edge_failure"
    using Cons.prems by (cases "we_source e = i"; cases "we_type e = edge_success"; cases "we_type e = edge_failure") auto
  then show ?case
  proof cases
    case other
    then show ?thesis using Cons.IH [of "next" fail] Cons.prems by auto
  next
    case success
    then obtain nx where "edge_names i es = Inr (nx, fail)" "next = we_target e # nx"
      using Cons.prems by (cases "edge_names i es") auto
    then show ?thesis using success Cons.IH [of nx fail] by (auto simp: edge_success_def edge_failure_def)
  next
    case failure
    then obtain fl where "edge_names i es = Inr (next, fl)" "fail = we_target e # fl"
      using Cons.prems by (cases "edge_names i es") auto
    then show ?thesis using failure Cons.IH [of "next" fl] by (auto simp: edge_success_def edge_failure_def)
  qed
qed auto

lemma edge_names_types:
  "edge_names i es = Inr ns \<Longrightarrow> e \<in> set es \<Longrightarrow> we_source e = i \<Longrightarrow> we_type e = edge_success \<or> we_type e = edge_failure"
proof (induction es arbitrary: ns)
  case (Cons a es)
  then show ?case by (cases "edge_names i es") (auto split: if_splits)
qed simp

section \<open>Steps\<close>

lemma link_steps_length [simp]: "length (link_steps ns) = length ns"
  by (induction ns rule: link_steps.induct) auto

lemma link_steps_nth:
  "i < length ns \<Longrightarrow>
   link_steps ns ! i =
     (if Suc i < length ns \<and> \<not> is_branch (n_spec (ns ! i)) \<and> \<not> nh_next_set (n_head (ns ! i))
      then with_next [n_id (ns ! Suc i)] (ns ! i) else ns ! i)"
  by (induction ns arbitrary: i rule: link_steps.induct) (auto simp: nth_Cons split: nat.splits)

section \<open>Closed flows\<close>

abbreviation node_shell :: "wire_node \<Rightarrow> wire_shell" where
  "node_shell w \<equiv> (case w of WireNode shell d \<Rightarrow> shell)"

abbreviation node_data :: "wire_node \<Rightarrow> wire_data" where
  "node_data w \<equiv> (case w of WireNode shell d \<Rightarrow> d)"

definition wire_id :: "wire_node \<Rightarrow> string" where
  "wire_id w = wn_id (node_shell w)"

fun routes :: "wire_data \<Rightarrow> string list" where
  "routes (WBranch b) = map wc_target (wb_cases b) @ (case wb_default b of Some target \<Rightarrow> [target] | None \<Rightarrow> [])"
| "routes _ = []"

text \<open>
  The edges of a list of nodes join two of them, none twice, and a branch has an edge to every node it
  can route to. A flow is closed when this holds for it and for the body of every poll and loop.
\<close>

definition closed_edges :: "wire_node list \<Rightarrow> wire_edge list \<Rightarrow> bool" where
  "closed_edges ws es \<longleftrightarrow>
     (\<forall>e \<in> set es. we_source e \<in> wire_id ` set ws \<and> we_target e \<in> wire_id ` set ws \<and>
        we_type e \<in> {edge_success, edge_failure}) \<and>
     distinct (map edge_key es) \<and>
     (\<forall>w \<in> set ws. \<forall>target \<in> set (routes (node_data w)).
        target \<noteq> [] \<longrightarrow> (wire_id w, target, edge_success) \<in> edge_key ` set es)"

fun closed_node :: "wire_node \<Rightarrow> bool"
  and closed_data :: "wire_data \<Rightarrow> bool"
  and closed_inline :: "wire_inline \<Rightarrow> bool" where
  "closed_node (WireNode shell d) = closed_data d"
| "closed_data (WPoll p inline) = closed_inline inline"
| "closed_data (WLoop l inline) = closed_inline inline"
| "closed_data _ = True"
| "closed_inline (WireInline ws es) =
     (list_all closed_node ws \<and> closed_edges ws (case es of Some xs \<Rightarrow> xs | None \<Rightarrow> []))"

definition closed_flow :: "flow_definition \<Rightarrow> bool" where
  "closed_flow d \<longleftrightarrow> list_all closed_node (fd_nodes d) \<and> closed_edges (fd_nodes d) (fd_edges d)"

text \<open>A graph whose edges name its own nodes, with the bodies in it.\<close>

definition node_targets :: "dsl_node \<Rightarrow> string list" where
  "node_targets n = nh_next (n_head n) @ nh_fail (n_head n) @ branch_targets (n_spec n)"

definition edges_known :: "dsl_node list \<Rightarrow> bool" where
  "edges_known ns \<longleftrightarrow> (\<forall>n \<in> set ns. set (node_targets n) \<subseteq> insert [] (n_id ` set ns))"

text \<open>A predicate on a graph and on the body of every poll and loop in it.\<close>

fun every_graph :: "(dsl_graph \<Rightarrow> bool) \<Rightarrow> dsl_graph \<Rightarrow> bool"
  and every_node :: "(dsl_graph \<Rightarrow> bool) \<Rightarrow> dsl_node \<Rightarrow> bool"
  and every_spec :: "(dsl_graph \<Rightarrow> bool) \<Rightarrow> node_spec \<Rightarrow> bool" where
  "every_graph P (DslGraph h ns ex ds) = (P (DslGraph h ns ex ds) \<and> list_all (every_node P) ns)"
| "every_node P (DslNode h outs spec) = every_spec P spec"
| "every_spec P (PollSpec (Some s) (Some body)) = every_graph P body"
| "every_spec P (LoopSpec (Some s) (Some body)) = every_graph P body"
| "every_spec P _ = True"

abbreviation known_graph :: "dsl_graph \<Rightarrow> bool" where
  "known_graph g \<equiv> edges_known (g_nodes g)"

section \<open>Lowered nodes\<close>

lemma wire_of_Inr [elim!]:
  assumes "wire_of t shell d = Some (Inr w)"
  obtains "w = WireNode shell d"
  using assms by (auto simp: wire_of_def split: option.splits)

lemma with_inline_Inr [elim!]:
  assumes "with_inline t shell f body = Some (Inr w)"
  obtains inline where "body = Some (Inr inline)" "w = WireNode shell (f inline)"
  using assms by (auto simp: with_inline_def split: option.splits sum.splits)

lemmas lower_kind_defs =
  lower_delay_def lower_set_def lower_assert_def lower_poll_def lower_loop_def
  lower_request_def lower_module_def lower_branch_def lower_webhook_def lower_sse_def lower_integration_def

lemma lower_spec_id: "lower_spec t h outs spec = Some (Inr w) \<Longrightarrow> wire_id w = nh_id h"
  by (cases "(t, h, outs, spec)" rule: lower_spec.cases)
     (auto simp: lower_kind_defs wire_id_def shell_of_def Let_def split: Option.bind_splits option.splits if_splits)

lemma lower_node_id: "lower_node t n = Some (Inr w) \<Longrightarrow> wire_id w = n_id n"
  by (cases n) (simp add: lower_spec_id)

lemma lower_spec_routes:
  "lower_spec t h outs spec = Some (Inr w) \<Longrightarrow> routes (node_data w) = branch_targets spec"
  by (cases "(t, h, outs, spec)" rule: lower_spec.cases)
     (auto simp: lower_kind_defs Let_def comp_def split: Option.bind_splits option.splits if_splits)

lemma lower_node_routes: "lower_node t n = Some (Inr w) \<Longrightarrow> routes (node_data w) = branch_targets (n_spec n)"
  by (cases n) (simp add: lower_spec_routes)

lemma lower_all_nodes:
  "lower_all (map f ns) = Some (Inr ws) \<Longrightarrow> list_all2 (\<lambda>n w. f n = Some (Inr w)) ns ws"
  by (induction ns arbitrary: ws) (auto split: option.splits sum.splits)

lemma lowered_nodes:
  assumes "lower_all (map (lower_node t) ns) = Some (Inr ws)"
  shows "map wire_id ws = map n_id ns"
    and "w \<in> set ws \<Longrightarrow> \<exists>n \<in> set ns. lower_node t n = Some (Inr w)"
proof -
  note nodes = lower_all_nodes [OF assms]
  show "map wire_id ws = map n_id ns"
    using nodes by (induction rule: list_all2_induct) (auto simp: lower_node_id)
  show "w \<in> set ws \<Longrightarrow> \<exists>n \<in> set ns. lower_node t n = Some (Inr w)"
    using nodes by (induction rule: list_all2_induct) auto
qed

lemma lowered_edges_closed:
  assumes "edges_known ns" and lowered: "lower_all (map (lower_node t) ns) = Some (Inr ws)"
  shows "closed_edges ws (lower_edges ns)"
proof -
  have ids: "wire_id ` set ws = n_id ` set ns"
    using arg_cong [OF lowered_nodes(1) [OF lowered], of set] by simp
  have ends: "we_source e \<in> n_id ` set ns \<and> we_target e \<in> n_id ` set ns \<and> we_type e \<in> {edge_success, edge_failure}"
    if "e \<in> set (lower_edges ns)" for e
  proof -
    from that have "(we_source e, we_target e, we_type e) \<in> edge_key ` set (lower_edges ns)"
      by (force simp: edge_key_def)
    then obtain n where "n \<in> set ns" "we_target e \<noteq> []"
      "(we_source e, we_target e, we_type e) \<in> set (stated_edges n)"
      by (auto simp: lowered_edge)
    then show ?thesis using assms(1) by (fastforce simp: edges_known_def node_targets_def stated_edges_def)
  qed
  have branches: "(wire_id w, target, edge_success) \<in> edge_key ` set (lower_edges ns)"
    if w: "w \<in> set ws" and target: "target \<in> set (routes (node_data w))" "target \<noteq> []" for w target
  proof -
    obtain n where n: "n \<in> set ns" "lower_node t n = Some (Inr w)" using lowered_nodes(2) [OF lowered w] by blast
    then show ?thesis
      using target lower_node_routes [OF n(2)] lower_node_id [OF n(2)] by (auto simp: lowered_edge stated_edges_def)
  qed
  show ?thesis
    unfolding closed_edges_def ids using ends branches lowered_edges_distinct by blast
qed

lemma closed_edges_optional [simp]:
  "closed_edges ws (case optional_edges es of Some xs \<Rightarrow> xs | None \<Rightarrow> []) = closed_edges ws es"
  by (simp add: optional_edges_def)

lemma lowered_closed:
  "every_node known_graph n \<Longrightarrow> lower_node t n = Some (Inr w) \<Longrightarrow> closed_node w"
  "every_spec known_graph spec \<Longrightarrow> lower_spec t h outs spec = Some (Inr w) \<Longrightarrow> closed_node w"
  "every_graph known_graph g \<Longrightarrow> lower_inline t g = Some (Inr inline) \<Longrightarrow> closed_inline inline"
proof (induction t n and t h outs spec and t g arbitrary: w and w and inline
    rule: lower_node_lower_spec_lower_inline.induct)
  case (18 t h ns ex ds)
  from 18(3) obtain ws where ws: "lower_all (map (lower_node t) ns) = Some (Inr ws)"
    and inline: "inline = WireInline ws (optional_edges (lower_edges ns))"
    by (auto split: option.splits sum.splits)
  have "list_all closed_node ws"
    using lowered_nodes(2) [OF ws] 18(1,2) by (fastforce simp: list_all_iff)
  then show ?case using lowered_edges_closed [OF _ ws] 18(2) inline by simp
qed (auto simp: lower_kind_defs Let_def split: Option.bind_splits option.splits if_splits)

lemma lowered_flow_closed:
  assumes "every_graph known_graph g" and lowered: "lower_graph t g = Some (Inr request)"
  shows "closed_flow (cf_definition request)"
proof -
  obtain h ns ex ds where g: "g = DslGraph h ns ex ds" by (cases g)
  obtain ws where ws: "lower_all (map (lower_node t) ns) = Some (Inr ws)"
    and d: "fd_nodes (cf_definition request) = ws" "fd_edges (cf_definition request) = lower_edges ns"
    using lowered by (auto simp: g lower_graph_def Let_def split: option.splits sum.splits)
  have "list_all closed_node ws"
    using lowered_nodes(2) [OF ws] lowered_closed(1) assms(1) by (fastforce simp: list_all_iff g)
  moreover have "closed_edges ws (lower_edges ns)" using lowered_edges_closed [OF _ ws] assms(1) by (simp add: g)
  ultimately show ?thesis by (simp add: closed_flow_def d)
qed

section \<open>Properties\<close>

text \<open>
  Claim C35. The edges of a stored flow survive its flow file: when every node is written with its
  \<open>next\<close> and \<open>on_failure\<close> names, compiling the nodes gives the stored edges again, each once, and no
  other, the edges a branch adds included.
\<close>

theorem stored_edges_survive:
  assumes "\<forall>n \<in> set ns. edge_names (n_id n) es = Inr (nh_next (n_head n), nh_fail (n_head n))"
    and "\<forall>e \<in> set es. we_source e \<in> n_id ` set ns \<and> we_target e \<noteq> []"
    and "\<forall>n \<in> set ns. set (branch_targets (n_spec n)) \<subseteq> set (nh_next (n_head n))"
  shows "edge_key ` set (lower_edges ns) = edge_key ` set es \<and> distinct (map edge_key (lower_edges ns))"
proof -
  have stated: "(s, t, k) \<in> set (stated_edges n) \<longleftrightarrow> (\<exists>e \<in> set es. edge_key e = (s, t, k) \<and> we_source e = n_id n)"
    if n: "n \<in> set ns" for n s t k
  proof -
    note names = bspec [OF assms(1) n]
    have "(s, t, k) \<in> set (stated_edges n) \<longleftrightarrow>
          s = n_id n \<and> (k = edge_success \<and> t \<in> set (nh_next (n_head n)) \<or> k = edge_failure \<and> t \<in> set (nh_fail (n_head n)))"
      using bspec [OF assms(3) n] by (auto simp: stated_edges_def)
    also have "\<dots> \<longleftrightarrow> (\<exists>e \<in> set es. edge_key e = (s, t, k) \<and> we_source e = n_id n)"
      unfolding edge_names_targets [OF names, THEN conjunct1] edge_names_targets [OF names, THEN conjunct2]
      using edge_names_types [OF names] by (simp add: edge_key_def) blast
    finally show ?thesis .
  qed
  have "(s, t, k) \<in> edge_key ` set (lower_edges ns) \<longleftrightarrow> (s, t, k) \<in> edge_key ` set es" for s t k
  proof -
    have "(s, t, k) \<in> edge_key ` set (lower_edges ns) \<longleftrightarrow>
          t \<noteq> [] \<and> (\<exists>n \<in> set ns. \<exists>e \<in> set es. edge_key e = (s, t, k) \<and> we_source e = n_id n)"
      unfolding lowered_edge using stated by blast
    also have "\<dots> \<longleftrightarrow> (\<exists>e \<in> set es. edge_key e = (s, t, k))"
      using assms(2) by (fastforce simp: edge_key_def)
    finally show ?thesis by (simp add: image_iff eq_commute)
  qed
  then have "edge_key ` set (lower_edges ns) = edge_key ` set es" by (intro set_eqI) (simp only: split_paired_all)
  then show ?thesis using lowered_edges_distinct by simp
qed

definition demo_step :: "string \<Rightarrow> string list \<Rightarrow> string list \<Rightarrow> node_spec \<Rightarrow> dsl_node" where
  "demo_step i next fail spec =
     DslNode \<lparr>nh_id = i, nh_line = 1, nh_display = i, nh_run_when = ''on_success'', nh_next = next, nh_next_set = next \<noteq> [],
              nh_fail = fail, nh_expects = []\<rparr> [] spec"

definition demo_edge :: "string \<Rightarrow> string \<Rightarrow> string \<Rightarrow> wire_edge" where
  "demo_edge source target kind =
     \<lparr>we_id = ''e'', we_source = source, we_target = target, we_type = kind, we_source_handle = None,
      we_target_handle = None\<rparr>"

definition demo_route :: node_spec where
  "demo_route =
     BranchSpec (Some \<lparr>bs_target = None, bs_cases = [\<lparr>dc_when = status_equals ''200'', dc_target = ''b'', dc_line = 1\<rparr>],
                       bs_default = None\<rparr>)"

theorem stored_edges_survive_witness:
  "edge_key ` set (lower_edges [demo_step ''a'' [''b''] [''c''] demo_route, demo_step ''b'' [] [] (DelaySpec 5),
                                demo_step ''c'' [] [] (DelaySpec 5)]) =
     edge_key ` set [demo_edge ''a'' ''c'' ''failure'', demo_edge ''a'' ''b'' ''success''] \<and>
   distinct (map edge_key (lower_edges [demo_step ''a'' [''b''] [''c''] demo_route, demo_step ''b'' [] [] (DelaySpec 5),
                                        demo_step ''c'' [] [] (DelaySpec 5)]))"
  by (rule stored_edges_survive)
     (simp_all add: demo_step_def demo_edge_def demo_route_def edge_success_def edge_failure_def status_equals_def)

text \<open>
  Two edges of a compiled flow can have the same id, which the stored form calls unique: the
  success edge to \<open>b-failure\<close> and the failure edge to \<open>b\<close>, or edges between names that join to one text.
\<close>

definition colliding_nodes :: "dsl_node list" where
  "colliding_nodes =
     [demo_step ''a'' [''b-failure''] [''b''] (DelaySpec 5), demo_step ''b'' [] [] (DelaySpec 5),
      demo_step ''b-failure'' [] [] (DelaySpec 5), demo_step ''x-y'' [''z''] [] (DelaySpec 5),
      demo_step ''x'' [''y-z''] [] (DelaySpec 5), demo_step ''z'' [] [] (DelaySpec 5), demo_step ''y-z'' [] [] (DelaySpec 5)]"

theorem edge_ids_can_collide:
  "edges_known colliding_nodes \<and> distinct (map n_id colliding_nodes) \<and>
   map we_id (lower_edges colliding_nodes) = [''a-b-failure'', ''a-b-failure'', ''x-y-z'', ''x-y-z''] \<and>
   distinct (map edge_key (lower_edges colliding_nodes))"
  by (simp add: edges_known_def node_targets_def colliding_nodes_def demo_step_def lower_edges_def add_node_edges_def
        add_branch_edges_def add_wire_edge_def edge_success_def edge_failure_def edge_key_def)

end
