(* ===== verification/Flow_Resolve.thy ===== *)
theory Flow_Resolve
  imports Flow_Graph Validation "HOL-Library.Product_Lexorder"
begin

text \<open>
  From parsed flow files to compiled flows (\<open>pkg/flowdsl/resolve.go\<close>, \<open>compile.go\<close>): module references
  are resolved between the files, depth first with a state for each file; every graph is then checked
  for edges and references that lead nowhere, its exports are collected, and a graph without errors is
  lowered. A file is visited under fuel, one unit for each file on the stack; that the number of files
  is enough is proved. The walks of a Go map have no order; here they follow the order of insertion,
  which the sorting of the diagnostics hides.
\<close>

section \<open>Module references\<close>

text \<open>\<open>path.Clean\<close>, with the segments kept so far in reverse.\<close>

definition clean_segment :: "bool \<Rightarrow> string list \<Rightarrow> string \<Rightarrow> string list" where
  "clean_segment rooted out seg =
     (if seg = [] \<or> seg = ''.'' then out
      else if seg = ''..''
      then (case out of
              [] \<Rightarrow> if rooted then [] else [seg]
            | u # rest \<Rightarrow> if u = ''..'' then seg # out else rest)
      else seg # out)"

definition clean_path :: "string \<Rightarrow> string" where
  "clean_path s =
     (let rooted = has_prefix s ''/'';
          body = join_with ''/'' (rev (foldl (clean_segment rooted) [] (split_at CHR ''/'' s))) in
      if rooted then CHR ''/'' # body else if body = [] then ''.'' else body)"

definition flow_suffixes :: "string list" where
  "flow_suffixes = [''.flow.yaml'', ''.flow.yml'', ''.yaml'', ''.yml'']"

definition has_suffix :: "string \<Rightarrow> string \<Rightarrow> bool" where
  "has_suffix s suffix = has_prefix (rev s) (rev suffix)"

definition is_flow_file :: "string \<Rightarrow> bool" where
  "is_flow_file name \<longleftrightarrow> (let low = map ascii_lower name in has_suffix low ''.flow.yaml'' \<or> has_suffix low ''.flow.yml'')"

definition strip_flow_suffix :: "string \<Rightarrow> string" where
  "strip_flow_suffix s =
     (case find (has_suffix (map ascii_lower s)) flow_suffixes of
        Some suffix \<Rightarrow> take (length s - length suffix) s
      | None \<Rightarrow> s)"

datatype module_target = OutsideLibrary | FlowIdTarget string | FileTarget string

definition module_path :: "'a flow_text_scheme \<Rightarrow> string \<Rightarrow> module_target" where
  "module_path t ref =
     (let trimmed = trim_space ref in
      if parse_uuid t trimmed \<noteq> None then FlowIdTarget trimmed
      else
        (let plain = (case strip_prefix ''./'' trimmed of Some rest \<Rightarrow> rest | None \<Rightarrow> trimmed);
             cleaned = strip_flow_suffix (clean_path (map (\<lambda>c. if c = CHR 0x5C then CHR ''/'' else c) plain)) in
         if cleaned = ''.'' \<or> cleaned = ''..'' \<or> has_prefix cleaned ''../'' then OutsideLibrary
         else FileTarget cleaned))"

definition is_flow_id :: "'a flow_text_scheme \<Rightarrow> string \<Rightarrow> bool" where
  "is_flow_id t s \<longleftrightarrow> parse_uuid t s \<noteq> None"

section \<open>References in texts\<close>

definition id_char :: "char \<Rightarrow> bool" where
  "id_char c \<longleftrightarrow> (let n = of_char c :: nat in
     48 \<le> n \<and> n \<le> 57 \<or> 65 \<le> n \<and> n \<le> 90 \<or> 97 \<le> n \<and> n \<le> 122 \<or> n = 95 \<or> n = 45)"

definition path_char :: "char \<Rightarrow> bool" where
  "path_char c \<longleftrightarrow> id_char c \<or> c \<in> {CHR ''.'', CHR ''$'', CHR ''['', CHR '']''}"

definition regex_space :: "char \<Rightarrow> bool" where
  "regex_space c \<longleftrightarrow> c \<in> {CHR '' '', CHR 0x09, CHR 0x0A, CHR 0x0C, CHR 0x0D}"

text \<open>
  A match of \<open>refPattern\<close> at the front of a text, and what follows it. No class of the pattern shares a
  character with what has to follow it, so the longest runs give the only match.
\<close>

definition ref_at :: "string \<Rightarrow> ((string \<times> string) \<times> string) option" where
  "ref_at s =
     Option.bind (strip_prefix ''{{'' s) (\<lambda>a.
       let b = dropWhile regex_space a; source = takeWhile id_char b in
       if source = [] then None
       else
         (case dropWhile id_char b of
            [] \<Rightarrow> None
          | c # d \<Rightarrow>
              (if c \<noteq> dot then None
               else
                 (let output = takeWhile path_char d in
                  if output = [] then None
                  else map_option (Pair (source, output))
                         (strip_prefix ''}}'' (dropWhile regex_space (dropWhile path_char d)))))))"

lemma strip_prefix_length: "strip_prefix p s = Some r \<Longrightarrow> length s = length p + length r"
  by (induction p s rule: strip_prefix.induct) (auto split: if_splits)

lemma ref_at_shorter:
  assumes "ref_at s = Some (ref, rest)"
  shows "length rest < length s"
proof -
  from assms obtain a c d where a: "strip_prefix ''{{'' s = Some a"
    and d: "dropWhile id_char (dropWhile regex_space a) = c # d"
    and rest: "strip_prefix ''}}'' (dropWhile regex_space (dropWhile path_char d)) = Some rest"
    by (auto simp: ref_at_def Let_def split: Option.bind_splits if_splits list.splits)
  have "length (c # d) \<le> length a"
    using length_dropWhile_le [of id_char "dropWhile regex_space a"] length_dropWhile_le [of regex_space a] d by simp
  moreover have "length rest \<le> length d"
    using strip_prefix_length [OF rest] length_dropWhile_le [of regex_space "dropWhile path_char d"]
      length_dropWhile_le [of path_char d] by simp
  ultimately show ?thesis using strip_prefix_length [OF a] by simp
qed

text \<open>\<open>refPattern.FindAllStringSubmatch\<close>.\<close>

function text_refs :: "string \<Rightarrow> (string \<times> string) list" where
  "text_refs [] = []"
| "text_refs (c # s) =
     (case ref_at (c # s) of
        Some (ref, rest) \<Rightarrow> ref # text_refs rest
      | None \<Rightarrow> text_refs s)"
  by pat_completeness auto
termination by (relation "measure length") (auto dest: ref_at_shorter)

fun collect_strings :: "gval \<Rightarrow> string list" where
  "collect_strings (GStr s) = [s]"
| "collect_strings (GMap kvs) = concat (map (\<lambda>kv. collect_strings (snd kv)) kvs)"
| "collect_strings (GList vs) = concat (map collect_strings vs)"
| "collect_strings _ = []"

definition pair_texts :: "pairs \<Rightarrow> string list" where
  "pair_texts ps = collect_strings (GMap (go_map ps))"

definition check_texts :: "check \<Rightarrow> string list" where
  "check_texts c = collect_strings (GMap (ck_operator_data c)) @ collect_strings (GMap (ck_extractor_data c))"

definition optional_texts :: "gval option \<Rightarrow> string list" where
  "optional_texts v = (case v of Some x \<Rightarrow> collect_strings x | None \<Rightarrow> [])"

definition group_texts :: "hook_group list \<Rightarrow> string list" where
  "group_texts groups = concat (map (\<lambda>g. concat (map check_texts (hg_checks g))) groups)"

fun spec_texts :: "node_spec \<Rightarrow> string list" where
  "spec_texts (RequestSpec (Some s)) =
     rs_url s # pair_texts (rs_headers s) @ pair_texts (rs_query s) @ optional_texts (rs_body s)"
| "spec_texts (ModuleSpec (Some s)) = pair_texts (ms_inputs s)"
| "spec_texts (IntegrationSpec (Some s)) = pair_texts (is_inputs s) @ group_texts (is_groups s)"
| "spec_texts (SetSpec vars) = pair_texts vars"
| "spec_texts (AssertSpec target) = optional_texts target"
| "spec_texts (BranchSpec (Some s)) = optional_texts (bs_target s) @ concat (map (\<lambda>c. check_texts (dc_when c)) (bs_cases s))"
| "spec_texts (LoopSpec (Some s) body) = collect_strings (ls_items s)"
| "spec_texts (SseSpec (Some s)) = ss_url s # pair_texts (ss_headers s)"
| "spec_texts _ = []"

fun wait_texts :: "node_spec \<Rightarrow> string list" where
  "wait_texts (WebhookSpec (Some s)) = group_texts (hs_groups s)"
| "wait_texts _ = []"

definition node_texts :: "dsl_node \<Rightarrow> string list" where
  "node_texts n =
     spec_texts (n_spec n) @ concat (map check_texts (nh_expects (n_head n))) @ wait_texts (n_spec n)"

section \<open>Outputs a node has\<close>

definition webhook_outputs :: "string list" where
  "webhook_outputs = [''id'', ''method'', ''headers'', ''query'', ''body'', ''received_at'']"

definition declared_names :: "out_decl list \<Rightarrow> string list" where
  "declared_names outs = filter (\<lambda>name. name \<noteq> []) (map od_name outs)"

text \<open>The names a node declares; None when an integration decides them at launch.\<close>

definition declared_outputs :: "dsl_node \<Rightarrow> string list option" where
  "declared_outputs n =
     (case n_spec n of
        SetSpec vars \<Rightarrow> Some (map fst vars)
      | BranchSpec s \<Rightarrow> Some [''matched'', ''matchedIndex'']
      | PollSpec s body \<Rightarrow> Some [''attempts'', ''result'']
      | LoopSpec s body \<Rightarrow> Some [''results'', ''count'']
      | DelaySpec ms \<Rightarrow> Some []
      | SseSpec s \<Rightarrow> Some ([''events'', ''count'', ''last''] @ declared_names (n_outputs n))
      | WebhookSpec s \<Rightarrow> Some (webhook_outputs @ declared_names (n_outputs n))
      | IntegrationSpec s \<Rightarrow>
          (case s of
             Some i \<Rightarrow> if is_event_spec i then Some (webhook_outputs @ declared_names (n_outputs n)) else None
           | None \<Rightarrow> None)
      | _ \<Rightarrow> Some (declared_names (n_outputs n)))"

text \<open>\<open>declaresOutput\<close>: a name, or a path into one; the loop is the one of \<open>hasPathRoot\<close>.\<close>

definition declares_output :: "string list \<Rightarrow> string \<Rightarrow> bool" where
  "declares_output names output = has_path_root output names"

section \<open>Checks of a graph\<close>

definition node_set :: "dsl_graph \<Rightarrow> string set" where
  "node_set g = set (map n_id (g_nodes g))"

definition node_error :: "dsl_node \<Rightarrow> string \<Rightarrow> dsl_graph \<Rightarrow> dsl_graph" where
  "node_error n msg = add_diag ErrorLevel (nh_line (n_head n)) (''node '' @ dquote (n_id n) @ msg)"

text \<open>\<open>knownNode\<close>.\<close>

definition lint_target :: "string set \<Rightarrow> dsl_node \<Rightarrow> string \<times> string \<Rightarrow> dsl_graph \<Rightarrow> dsl_graph" where
  "lint_target ids n wt g =
     (case wt of
        (what, target) \<Rightarrow>
          if target = [] \<or> target \<in> ids then g
          else node_error n ('' '' @ what @ '' '' @ dquote target @ '' does not exist'') g)"

definition lint_targets :: "dsl_node \<Rightarrow> (string \<times> string) list" where
  "lint_targets n =
     map (Pair ''next'') (nh_next (n_head n)) @ map (Pair ''on_failure'') (nh_fail (n_head n)) @
     (case n_spec n of
        BranchSpec (Some b) \<Rightarrow>
          map (\<lambda>c. (''branch target'', dc_target c)) (bs_cases b) @
          (case bs_default b of Some target \<Rightarrow> [(''default'', target)] | None \<Rightarrow> [])
      | _ \<Rightarrow> [])"

definition lint_edges :: "dsl_graph \<Rightarrow> dsl_graph" where
  "lint_edges g = fold (\<lambda>n. fold (lint_target (node_set g) n) (lint_targets n)) (g_nodes g) g"

text \<open>A map from ids keeps the last node of an id.\<close>

definition find_node :: "dsl_graph \<Rightarrow> string \<Rightarrow> dsl_node option" where
  "find_node g i = find (\<lambda>n. n_id n = i) (rev (g_nodes g))"

definition lint_failure_target :: "dsl_graph \<Rightarrow> dsl_node \<Rightarrow> string \<Rightarrow> dsl_graph \<Rightarrow> dsl_graph" where
  "lint_failure_target g0 n target g =
     (case find_node g0 target of
        None \<Rightarrow> g
      | Some dest \<Rightarrow>
          (let mode = nh_run_when (n_head dest) in
           if mode = ''always'' then g
           else add_diag WarningLevel (nh_line (n_head n))
                  (''node '' @ dquote (n_id n) @ '' on_failure goes to '' @ dquote target @ '' with run_when '' @ mode @
                   ''; set run_when: always'') g))"

definition lint_failure :: "dsl_graph \<Rightarrow> dsl_graph" where
  "lint_failure g = fold (\<lambda>n. fold (lint_failure_target g n) (nh_fail (n_head n))) (g_nodes g) g"

definition reference_text :: "string \<Rightarrow> string \<Rightarrow> string" where
  "reference_text source output = ''{{'' @ source @ ''.'' @ output @ ''}}''"

definition missing_ref :: "dsl_node \<Rightarrow> string \<Rightarrow> string \<Rightarrow> dsl_graph \<Rightarrow> dsl_graph" where
  "missing_ref n source output g =
     node_error n
       ('' references '' @ reference_text source output @
        (if gh_inline (g_head g)
         then '' but a poll or loop body only sees its own nodes and the flow's initial inputs''
         else '' but node '' @ dquote source @ '' does not exist'')) g"

definition lint_ref :: "dsl_graph \<Rightarrow> dsl_node \<Rightarrow> string \<times> string \<Rightarrow> dsl_graph \<Rightarrow> dsl_graph" where
  "lint_ref g0 n ref g =
     (case ref of
        (source, output) \<Rightarrow>
          (let ids = node_set g0 in
           if source \<in> set (gh_injected (g_head g0)) \<and> source \<notin> ids then g
           else if source = ''webhook'' \<and> ''webhook'' \<notin> ids \<and> (output = ''url'' \<or> output = ''requests_url'') then g
           else if source \<notin> ids then missing_ref n source output g
           else
             (case Option.bind (find_node g0 source) declared_outputs of
                None \<Rightarrow> g
              | Some names \<Rightarrow>
                  if declares_output names output then g
                  else node_error n
                         ('' references '' @ reference_text source output @ '' but node '' @ dquote source @
                          '' does not declare output '' @ dquote output) g)))"

definition lint_refs :: "dsl_graph \<Rightarrow> dsl_graph" where
  "lint_refs g =
     fold (\<lambda>n. fold (\<lambda>s. fold (lint_ref g n) (text_refs s)) (node_texts n)) (g_nodes g) g"

section \<open>Exports\<close>

text \<open>The outputs a node publishes, with their bindings; a name occurs once.\<close>

definition publishes_outputs :: "node_spec \<Rightarrow> bool" where
  "publishes_outputs s \<longleftrightarrow>
     (case s of
        RequestSpec _ \<Rightarrow> True | SseSpec _ \<Rightarrow> True | AssertSpec _ \<Rightarrow> True | WebhookSpec _ \<Rightarrow> True
      | ModuleSpec _ \<Rightarrow> True | IntegrationSpec _ \<Rightarrow> True | _ \<Rightarrow> False)"

definition node_exports :: "dsl_node \<Rightarrow> (string \<times> string) list" where
  "node_exports n =
     map (\<lambda>name. (name, n_id n @ ''.'' @ name))
       (remdups
         (if publishes_outputs (n_spec n) then declared_names (n_outputs n)
          else (case n_spec n of SetSpec vars \<Rightarrow> map fst vars | _ \<Rightarrow> [])))"

definition public_name :: "dsl_graph \<Rightarrow> string \<Rightarrow> bool" where
  "public_name g name \<longleftrightarrow>
     (case gh_public (g_head g) of
        Some (p # ps) \<Rightarrow> name \<in> set (p # ps)
      | _ \<Rightarrow> gh_role (g_head g) = ''module'')"

text \<open>The bindings of the whole graph, each with the line of its node.\<close>

definition found_exports :: "dsl_graph \<Rightarrow> (string \<times> string \<times> int) list" where
  "found_exports g =
     concat (map (\<lambda>n. map (\<lambda>(name, binding). (name, binding, nh_line (n_head n))) (node_exports n)) (g_nodes g))"

definition bindings_of :: "dsl_graph \<Rightarrow> string \<Rightarrow> (string \<times> int) list" where
  "bindings_of g name = map snd (filter (\<lambda>f. fst f = name) (found_exports g))"

definition warn_repeated :: "dsl_graph \<Rightarrow> string \<Rightarrow> dsl_graph \<Rightarrow> dsl_graph" where
  "warn_repeated g0 name g =
     (case bindings_of g0 name of
        (b, line) # rest \<Rightarrow>
          if rest \<noteq> [] \<and> public_name g0 name
          then add_diag WarningLevel line (''output '' @ dquote name @ '' is declared more than once'') g else g
      | [] \<Rightarrow> g)"

definition single_exports :: "dsl_graph \<Rightarrow> (string \<times> string) list" where
  "single_exports g =
     concat (map (\<lambda>name. case bindings_of g name of [(b, line)] \<Rightarrow> [(name, b)] | _ \<Rightarrow> [])
       (remdups (map fst (found_exports g))))"

definition check_public :: "dsl_graph \<Rightarrow> string \<Rightarrow> dsl_graph \<Rightarrow> dsl_graph" where
  "check_public g0 name g =
     (if bindings_of g0 name = []
      then add_diag ErrorLevel (gh_line (g_head g0)) (''output '' @ dquote name @ '' is not declared'') g
      else g)"

definition with_exports :: "(string \<times> string) list \<Rightarrow> dsl_graph \<Rightarrow> dsl_graph" where
  "with_exports ex g = DslGraph (g_head g) (g_nodes g) ex (g_diags g)"

definition fill_exports :: "dsl_graph \<Rightarrow> dsl_graph" where
  "fill_exports g =
     (let warned = fold (warn_repeated g) (remdups (map fst (found_exports g))) g in
      case gh_public (g_head g) of
        None \<Rightarrow> with_exports (single_exports g) warned
      | Some public \<Rightarrow>
          with_exports (filter (\<lambda>e. fst e \<in> set public) (single_exports g)) (fold (check_public g) public warned))"

section \<open>Binding modules\<close>

definition binding_shape :: "string \<Rightarrow> bool" where
  "binding_shape s \<longleftrightarrow>
     (case split_at dot s of
        [a, b] \<Rightarrow> a \<noteq> [] \<and> b \<noteq> [] \<and> list_all id_char a \<and> list_all id_char b
      | _ \<Rightarrow> False)"

definition check_binding_shape :: "dsl_node \<Rightarrow> dsl_graph \<Rightarrow> dsl_graph" where
  "check_binding_shape n =
     fold (\<lambda>out g.
         if od_binding out = [] \<or> binding_shape (od_binding out) then g
         else add_diag ErrorLevel (od_line out)
                (''node '' @ dquote (n_id n) @ '' output '' @ dquote (od_name out) @
                 '' must be a child output like request.accessToken'') g)
       (n_outputs n)"

definition module_error :: "dsl_node \<Rightarrow> mod_spec \<Rightarrow> string \<Rightarrow> dsl_graph \<Rightarrow> dsl_graph" where
  "module_error n m msg = add_diag ErrorLevel (ms_ref_line m) (''node '' @ dquote (n_id n) @ '' module '' @ msg)"

definition check_inputs :: "dsl_node \<Rightarrow> mod_spec \<Rightarrow> dsl_graph \<Rightarrow> dsl_graph \<Rightarrow> dsl_graph" where
  "check_inputs n m dep g =
     (let inputs = gh_inputs (g_head dep); given = map fst (ms_inputs m); path = gh_path (g_head dep) in
      if inputs = [] then g
      else
        fold (\<lambda>name g. if name \<in> set given then g else module_error n m (dquote path @ '' needs input '' @ dquote name) g) inputs
          (fold (\<lambda>name g. if name \<in> set inputs then g else module_error n m (dquote path @ '' has no input '' @ dquote name) g)
            given g))"

text \<open>The outputs of a module node: those it states, checked, or else all exports of the module.\<close>

definition export_decl :: "string \<times> string \<Rightarrow> out_decl" where
  "export_decl e =
     \<lparr>od_name = fst e, od_binding = snd e, od_extractor = [], od_path = [], od_header = [], od_secret = False, od_line = 0\<rparr>"

definition with_outputs :: "out_decl list \<Rightarrow> dsl_node \<Rightarrow> dsl_node" where
  "with_outputs outs n = DslNode (n_head n) outs (n_spec n)"

definition fill_bindings :: "dsl_node \<Rightarrow> mod_spec \<Rightarrow> dsl_graph \<Rightarrow> dsl_graph \<Rightarrow> dsl_graph \<times> dsl_node" where
  "fill_bindings n m dep g =
     (if ms_explicit m
      then
        (fold (\<lambda>out g.
             if \<not> binding_shape (od_binding out) \<or> od_binding out \<in> snd ` set (g_exports dep) then g
             else add_diag ErrorLevel (od_line out)
                    (''node '' @ dquote (n_id n) @ '' output '' @ dquote (od_name out) @ '' binds '' @
                     dquote (od_binding out) @ '', which '' @ gh_path (g_head dep) @ '' does not declare'') g)
           (n_outputs n) (check_binding_shape n g), n)
      else (g, with_outputs (n_outputs n @ map export_decl (sort_key fst (g_exports dep))) n))"

definition with_flow_id :: "string \<Rightarrow> mod_spec \<Rightarrow> dsl_node \<Rightarrow> dsl_node" where
  "with_flow_id flow m n = DslNode (n_head n) (n_outputs n) (ModuleSpec (Some (m\<lparr>ms_flow_id := flow\<rparr>)))"

text \<open>The rest of \<open>bindModule\<close>, once the file of the module has been visited.\<close>

definition bind_file ::
    "'a flow_text_scheme \<Rightarrow> dsl_node \<Rightarrow> mod_spec \<Rightarrow> string \<Rightarrow> dsl_graph \<Rightarrow> dsl_graph \<Rightarrow> dsl_graph \<times> dsl_node" where
  "bind_file t n m path dep g =
     (let flow = gh_id (g_head dep) in
      if trim_space flow = []
      then (module_error n m (dquote path @ '' has no id; create the module, then set id to its flow id'') g, n)
      else if \<not> is_flow_id t flow
      then (module_error n m (dquote path @ '' id '' @ dquote flow @ '' is not a flow id'') g, n)
      else fill_bindings (with_flow_id flow m n) (m\<lparr>ms_flow_id := flow\<rparr>) dep (check_inputs n m dep g))"

section \<open>Resolution\<close>

datatype visit_state = Visiting | Visited

record file_resolver =
  fr_by :: "string \<rightharpoonup> nat"
  fr_state :: "string \<rightharpoonup> visit_state"
  fr_stack :: "string list"
  fr_graphs :: "dsl_graph list"

type_synonym visitor = "nat \<Rightarrow> file_resolver \<Rightarrow> file_resolver option"

definition bind_module ::
    "'a flow_text_scheme \<Rightarrow> visitor \<Rightarrow> file_resolver \<Rightarrow> dsl_graph \<Rightarrow> dsl_node \<Rightarrow> mod_spec \<Rightarrow>
     (file_resolver \<times> dsl_graph \<times> dsl_node) option" where
  "bind_module t visit r g n m =
     (case module_path t (ms_ref m) of
        OutsideLibrary \<Rightarrow> Some (r, module_error n m (dquote (ms_ref m) @ '' is outside the library'') g, n)
      | FlowIdTarget flow \<Rightarrow> Some (r, check_binding_shape n g, with_flow_id flow m n)
      | FileTarget path \<Rightarrow>
          if fr_state r path = Some Visiting
          then Some (r, add_diag ErrorLevel (ms_ref_line m)
                          (''module cycle: '' @ join_with '' -> '' (fr_stack r @ [path])) g, n)
          else
            (case fr_by r path of
               None \<Rightarrow> Some (r, module_error n m (dquote (ms_ref m) @ '' does not match a flow file under the root'') g, n)
             | Some j \<Rightarrow> map_option (\<lambda>r'. (r', bind_file t n m path (fr_graphs r' ! j) g)) (visit j r)))"

definition warn_folder :: "'a flow_text_scheme \<Rightarrow> dsl_graph \<Rightarrow> dsl_graph" where
  "warn_folder t g =
     (let h = g_head g in
      if gh_inline h \<or> gh_folder h = [] \<or> is_flow_id t (gh_folder h) then g
      else add_diag WarningLevel (gh_folder_line h)
             (''folder '' @ dquote (gh_folder h) @ '' is a path, and folder_id needs the folder's id, so it was left unset'') g)"

definition with_nodes :: "dsl_node list \<Rightarrow> dsl_graph \<Rightarrow> dsl_graph" where
  "with_nodes ns g = DslGraph (g_head g) ns (g_exports g) (g_diags g)"

text \<open>The checks \<open>finish\<close> ends with.\<close>

definition lint_graph :: "dsl_graph \<Rightarrow> dsl_graph" where
  "lint_graph g = fill_exports (lint_failure (lint_refs (lint_edges g)))"

text \<open>
  \<open>finish\<close>, with the graph the diagnostics go to. \<open>bindModule\<close> does something for a module node only,
  and \<open>visitBody\<close> for a poll or a loop that has a body, which is an inline graph and is finished at once.
\<close>

fun finish :: "'a flow_text_scheme \<Rightarrow> visitor \<Rightarrow> file_resolver \<Rightarrow> dsl_graph \<Rightarrow> (file_resolver \<times> dsl_graph) option"
  and finish_nodes ::
    "'a flow_text_scheme \<Rightarrow> visitor \<Rightarrow> file_resolver \<Rightarrow> dsl_node list \<Rightarrow> dsl_graph \<Rightarrow>
     (file_resolver \<times> dsl_graph \<times> dsl_node list) option"
  and finish_node ::
    "'a flow_text_scheme \<Rightarrow> visitor \<Rightarrow> file_resolver \<Rightarrow> dsl_node \<Rightarrow> dsl_graph \<Rightarrow>
     (file_resolver \<times> dsl_graph \<times> dsl_node) option"
  and visit_body ::
    "'a flow_text_scheme \<Rightarrow> visitor \<Rightarrow> file_resolver \<Rightarrow> node_spec \<Rightarrow> (file_resolver \<times> node_spec) option" where
  "finish t visit r (DslGraph h ns ex ds) =
     (case finish_nodes t visit r ns (warn_folder t (DslGraph h ns ex ds)) of
        None \<Rightarrow> None
      | Some (r', g, ns') \<Rightarrow> Some (r', lint_graph (with_nodes ns' g)))"
| "finish_nodes t visit r [] g = Some (r, g, [])"
| "finish_nodes t visit r (n # ns) g =
     (case finish_node t visit r n g of
        None \<Rightarrow> None
      | Some (r1, g1, n') \<Rightarrow>
          (case finish_nodes t visit r1 ns g1 of
             None \<Rightarrow> None
           | Some (r2, g2, ns') \<Rightarrow> Some (r2, g2, n' # ns')))"
| "finish_node t visit r (DslNode h outs (ModuleSpec (Some m))) g =
     bind_module t visit r g (DslNode h outs (ModuleSpec (Some m))) m"
| "finish_node t visit r (DslNode h outs spec) g =
     (case visit_body t visit r spec of None \<Rightarrow> None | Some (r', spec') \<Rightarrow> Some (r', g, DslNode h outs spec'))"
| "visit_body t visit r (PollSpec (Some s) (Some body)) =
     (case finish t visit r body of None \<Rightarrow> None | Some (r', body') \<Rightarrow> Some (r', PollSpec (Some s) (Some body')))"
| "visit_body t visit r (LoopSpec (Some s) (Some body)) =
     (case finish t visit r body of None \<Rightarrow> None | Some (r', body') \<Rightarrow> Some (r', LoopSpec (Some s) (Some body')))"
| "visit_body t visit r spec = Some (r, spec)"

text \<open>\<open>visit\<close> of a file's graph.\<close>

definition begin_visit :: "string \<Rightarrow> file_resolver \<Rightarrow> file_resolver" where
  "begin_visit path r = r\<lparr>fr_state := (fr_state r)(path \<mapsto> Visiting), fr_stack := fr_stack r @ [path]\<rparr>"

definition end_visit :: "string \<Rightarrow> nat \<Rightarrow> dsl_graph \<Rightarrow> file_resolver \<Rightarrow> file_resolver" where
  "end_visit path i g r =
     r\<lparr>fr_graphs := (fr_graphs r)[i := g], fr_stack := butlast (fr_stack r), fr_state := (fr_state r)(path \<mapsto> Visited)\<rparr>"

fun visit_file :: "'a flow_text_scheme \<Rightarrow> nat \<Rightarrow> visitor" where
  "visit_file t 0 i r = None"
| "visit_file t (Suc fuel) i r =
     (let path = gh_path (g_head (fr_graphs r ! i)) in
      if fr_state r path \<noteq> None then Some r
      else
        (case finish t (visit_file t fuel) (begin_visit path r) (fr_graphs r ! i) of
           None \<Rightarrow> None
         | Some (r', g) \<Rightarrow> Some (end_visit path i g r')))"

text \<open>\<open>resolver.by\<close>: the first file of a path.\<close>

definition files_by_path :: "dsl_graph list \<Rightarrow> string \<rightharpoonup> nat" where
  "files_by_path gs path =
     find (\<lambda>i. \<not> gh_inline (g_head (gs ! i)) \<and> gh_path (g_head (gs ! i)) = path) [0..<length gs]"

fun visit_files :: "visitor \<Rightarrow> nat list \<Rightarrow> file_resolver \<Rightarrow> file_resolver option" where
  "visit_files visit [] r = Some r"
| "visit_files visit (i # is) r =
     (if gh_inline (g_head (fr_graphs r ! i)) then visit_files visit is r
      else Option.bind (visit i r) (visit_files visit is))"

definition resolver_start :: "dsl_graph list \<Rightarrow> file_resolver" where
  "resolver_start gs = \<lparr>fr_by = files_by_path gs, fr_state = Map.empty, fr_stack = [], fr_graphs = gs\<rparr>"

definition resolve_all :: "'a flow_text_scheme \<Rightarrow> dsl_graph list \<Rightarrow> dsl_graph list option" where
  "resolve_all t gs =
     map_option fr_graphs (visit_files (visit_file t (Suc (length gs))) [0..<length gs] (resolver_start gs))"

section \<open>Compilation\<close>

record compiled_flow =
  co_path :: string
  co_request :: create_flow_request

record outcome =
  oc_flows :: "compiled_flow list"
  oc_diags :: "diagnostic list"

definition outcome_errors :: "outcome \<Rightarrow> diagnostic list" where
  "outcome_errors o' = filter (\<lambda>d. dg_severity d = ErrorLevel) (oc_diags o')"

definition filter_paths :: "(string \<Rightarrow> bool) \<Rightarrow> outcome \<Rightarrow> outcome" where
  "filter_paths keep o' =
     \<lparr>oc_flows = filter (\<lambda>f. keep (co_path f)) (oc_flows o'),
      oc_diags = filter (\<lambda>d. dg_file d = [] \<or> keep (dg_file d)) (oc_diags o')\<rparr>"

text \<open>The flows and the diagnostics so far; None is the nil dereference of a missing specification.\<close>

definition compile_graph :: "'a flow_text_scheme \<Rightarrow> dsl_graph \<Rightarrow> outcome \<Rightarrow> outcome option" where
  "compile_graph t g o' =
     (if gh_inline (g_head g) then Some o'
      else
        (let collected = o'\<lparr>oc_diags := oc_diags o' @ collect_diags g\<rparr> in
         if has_error g then Some collected
         else
           (case lower_graph t g of
              None \<Rightarrow> None
            | Some (Inl err) \<Rightarrow>
                Some (collected\<lparr>oc_diags := oc_diags collected @
                        [\<lparr>dg_file = gh_path (g_head g), dg_line = 0, dg_severity = ErrorLevel, dg_message = error_text err\<rparr>]\<rparr>)
            | Some (Inr request) \<Rightarrow>
                Some (collected\<lparr>oc_flows := oc_flows collected @ [\<lparr>co_path = gh_path (g_head g), co_request = request\<rparr>]\<rparr>))))"

fun compile_resolved :: "'a flow_text_scheme \<Rightarrow> dsl_graph list \<Rightarrow> outcome \<Rightarrow> outcome option" where
  "compile_resolved t [] o' = Some o'"
| "compile_resolved t (g # gs) o' = Option.bind (compile_graph t g o') (compile_resolved t gs)"

definition sorted_outcome :: "outcome \<Rightarrow> outcome" where
  "sorted_outcome o' =
     \<lparr>oc_flows = sort_key co_path (oc_flows o'),
      oc_diags = sort_key (\<lambda>d. (dg_file d, dg_line d, dg_message d)) (oc_diags o')\<rparr>"

definition compile_graphs :: "'a flow_text_scheme \<Rightarrow> dsl_graph list \<Rightarrow> outcome option" where
  "compile_graphs t gs =
     Option.bind (resolve_all t gs) (\<lambda>gs'.
       map_option sorted_outcome (compile_resolved t gs' \<lparr>oc_flows = [], oc_diags = []\<rparr>))"

text \<open>
  The graphs of the files of a library, read in the order of their names: \<open>loadFlowFiles\<close>. A module
  path of more than one file is an error of each. \<open>seen\<close> is the last file of a path so far.
\<close>

definition duplicate_path :: "dsl_graph \<Rightarrow> dsl_graph" where
  "duplicate_path g =
     add_diag ErrorLevel 1 (''module path '' @ dquote (gh_path (g_head g)) @ '' is declared by more than one file'') g"

fun load_files :: "(string \<rightharpoonup> nat) \<Rightarrow> dsl_graph list \<Rightarrow> dsl_graph list \<Rightarrow> dsl_graph list" where
  "load_files seen loaded [] = loaded"
| "load_files seen loaded (one # rest) =
     (let key = gh_path (g_head one); seen' = seen(key \<mapsto> length loaded) in
      case seen key of
        None \<Rightarrow> load_files seen' (loaded @ [one]) rest
      | Some prev \<Rightarrow> load_files seen' (loaded[prev := duplicate_path (loaded ! prev)] @ [duplicate_path one]) rest)"

text \<open>\<open>CompileDir\<close> on the graphs read from the files under a folder.\<close>

definition compile_library :: "'a flow_text_scheme \<Rightarrow> string \<Rightarrow> dsl_graph list \<Rightarrow> outcome lowered" where
  "compile_library t folder gs =
     (if gs = [] then Some (Inl (PlainError (''no flow files in '' @ folder)))
      else map_option Inr (compile_graphs t (load_files Map.empty [] gs)))"

section \<open>The files a file reaches\<close>

fun module_refs :: "dsl_graph \<Rightarrow> string list"
  and node_refs :: "dsl_node \<Rightarrow> string list"
  and spec_refs :: "node_spec \<Rightarrow> string list" where
  "module_refs (DslGraph h ns ex ds) = concat (map node_refs ns)"
| "node_refs (DslNode h outs spec) = spec_refs spec"
| "spec_refs (ModuleSpec (Some m)) = (if ms_ref m = [] then [] else [ms_ref m])"
| "spec_refs (PollSpec (Some s) (Some body)) = module_refs body"
| "spec_refs (LoopSpec (Some s) (Some body)) = module_refs body"
| "spec_refs _ = []"

text \<open>The files a graph names as modules.\<close>

definition file_targets :: "'a flow_text_scheme \<Rightarrow> string list \<Rightarrow> string list" where
  "file_targets t refs =
     concat (map (\<lambda>ref. case module_path t ref of FileTarget path \<Rightarrow> [path] | _ \<Rightarrow> []) refs)"

text \<open>
  \<open>walk\<close>, with the paths kept so far and fuel for the depth of the recursion; None is out of fuel.
\<close>

fun fold_option :: "('b \<Rightarrow> 'c \<Rightarrow> 'c option) \<Rightarrow> 'b list \<Rightarrow> 'c \<Rightarrow> 'c option" where
  "fold_option f [] acc = Some acc"
| "fold_option f (x # xs) acc = Option.bind (f x acc) (fold_option f xs)"

fun walk_modules ::
    "'a flow_text_scheme \<Rightarrow> (string \<rightharpoonup> dsl_graph) \<Rightarrow> nat \<Rightarrow> string \<Rightarrow> string list \<Rightarrow> string list option" where
  "walk_modules t by 0 key keep = None"
| "walk_modules t by (Suc fuel) key keep =
     (if key \<in> set keep then Some keep
      else
        (case by key of
           None \<Rightarrow> Some keep
         | Some g \<Rightarrow> fold_option (walk_modules t by fuel) (file_targets t (module_refs g)) (keep @ [key])))"

definition reachable_files :: "'a flow_text_scheme \<Rightarrow> string \<Rightarrow> dsl_graph list \<Rightarrow> string list option" where
  "reachable_files t first gs =
     walk_modules t (\<lambda>key. find (\<lambda>g. gh_path (g_head g) = key) gs) (length gs + 2) first []"

text \<open>The end of \<open>CompileFile\<close>: the file is read on its own when the library does not hold it.\<close>

definition compile_file :: "'a flow_text_scheme \<Rightarrow> string \<Rightarrow> dsl_graph \<Rightarrow> dsl_graph list \<Rightarrow> outcome option" where
  "compile_file t key own gs =
     (let loaded = load_files Map.empty [] gs;
          graphs = (if list_ex (\<lambda>g. gh_path (g_head g) = key) loaded then loaded else loaded @ [own]) in
      Option.bind (compile_graphs t graphs) (\<lambda>o'.
        map_option (\<lambda>keep. filter_paths (\<lambda>p. p \<in> set keep) o') (reachable_files t key graphs)))"

end
