(* ===== verification/Flow_Library.thy ===== *)
theory Flow_Library
  imports Flow_Resolve
begin

text \<open>
  What a compiled library promises. First the checks of a graph: each adds diagnostics only, and a graph
  left without errors has passed it. Then resolution as a depth-first search: it ends, it leaves
  alone what it has finished, and it finds the cycles. The properties follow for \<open>compile_library\<close>.
\<close>

section \<open>Checks\<close>

definition no_errors :: "diagnostic list \<Rightarrow> bool" where
  "no_errors ds \<longleftrightarrow> list_all (\<lambda>d. dg_severity d \<noteq> ErrorLevel) ds"

lemma no_errors_simps [simp]:
  "no_errors []"
  "no_errors (d # ds) \<longleftrightarrow> dg_severity d \<noteq> ErrorLevel \<and> no_errors ds"
  "no_errors (ds @ ds') \<longleftrightarrow> no_errors ds \<and> no_errors ds'"
  by (simp_all add: no_errors_def)

lemma no_errors_concat: "no_errors (concat dss) \<longleftrightarrow> list_all no_errors dss"
  by (induction dss) auto

lemma has_error_iff: "has_error g \<longleftrightarrow> \<not> no_errors (collect_diags g)"
  by (auto simp: has_error_def no_errors_def list_ex_iff list_all_iff)

abbreviation clean :: "dsl_graph \<Rightarrow> bool" where
  "clean g \<equiv> no_errors (g_diags g)"

definition annotates :: "dsl_graph \<Rightarrow> dsl_graph \<Rightarrow> bool" where
  "annotates g g' \<longleftrightarrow>
     g_head g' = g_head g \<and> g_nodes g' = g_nodes g \<and> g_exports g' = g_exports g \<and> (\<exists>ds. g_diags g' = g_diags g @ ds)"

lemma annotates_refl [simp]: "annotates g g"
  by (simp add: annotates_def)

lemma annotates_trans: "annotates g1 g2 \<Longrightarrow> annotates g2 g3 \<Longrightarrow> annotates g1 g3"
  by (auto simp: annotates_def)

lemma annotates_clean: "annotates g g' \<Longrightarrow> clean g' \<Longrightarrow> clean g"
  by (auto simp: annotates_def)

lemma add_diag_sel [simp]:
  "g_head (add_diag sev line msg g) = g_head g"
  "g_nodes (add_diag sev line msg g) = g_nodes g"
  "g_exports (add_diag sev line msg g) = g_exports g"
  "g_diags (add_diag sev line msg g) =
     g_diags g @ [\<lparr>dg_file = gh_path (g_head g), dg_line = line, dg_severity = sev, dg_message = msg\<rparr>]"
  by (cases g; simp add: add_diag_def)+

lemma annotates_add_diag [simp]: "annotates g (add_diag sev line msg g)"
  by (simp add: annotates_def)

text \<open>A check of a condition, for the errors it adds when the condition fails.\<close>

definition checks :: "(dsl_graph \<Rightarrow> dsl_graph) \<Rightarrow> bool \<Rightarrow> bool" where
  "checks f C \<longleftrightarrow> (\<forall>g. annotates g (f g) \<and> (clean (f g) \<longrightarrow> C))"

named_theorems checks_intros

lemma checks_mono: "checks f C \<Longrightarrow> (C \<Longrightarrow> C') \<Longrightarrow> checks f C'"
  by (simp add: checks_def)

lemma checks_annotates: "checks f C \<Longrightarrow> annotates g (f g)"
  by (simp add: checks_def)

lemma checks_clean: "checks f C \<Longrightarrow> clean (f g) \<Longrightarrow> C \<and> clean g"
  by (auto simp: checks_def dest: annotates_clean)

lemma checks_pass [checks_intros]: "C \<Longrightarrow> checks (\<lambda>g. g) C"
  by (simp add: checks_def)

lemma checks_diag [checks_intros]: "sev = ErrorLevel \<or> C \<Longrightarrow> checks (add_diag sev line msg) C"
  by (auto simp: checks_def)

lemma checks_if [checks_intros]:
  "(b \<Longrightarrow> checks f C) \<Longrightarrow> (\<not> b \<Longrightarrow> checks f' C) \<Longrightarrow> checks (\<lambda>g. if b then f g else f' g) C"
  by (cases b) auto

lemma checks_option [checks_intros]:
  "(x = None \<Longrightarrow> checks f C) \<Longrightarrow> (\<And>y. x = Some y \<Longrightarrow> checks (f' y) C) \<Longrightarrow>
   checks (\<lambda>g. case x of None \<Rightarrow> f g | Some y \<Rightarrow> f' y g) C"
  by (cases x) auto

lemma checks_list [checks_intros]:
  "(xs = [] \<Longrightarrow> checks f C) \<Longrightarrow> (\<And>y ys. xs = y # ys \<Longrightarrow> checks (f' y ys) C) \<Longrightarrow>
   checks (\<lambda>g. case xs of [] \<Rightarrow> f g | y # ys \<Rightarrow> f' y ys g) C"
  by (cases xs) auto

lemma checks_prod [checks_intros]:
  "(\<And>a b. x = (a, b) \<Longrightarrow> checks (f a b) C) \<Longrightarrow> checks (\<lambda>g. case x of (a, b) \<Rightarrow> f a b g) C"
  by (cases x) auto

lemma checks_compose: "checks f C \<Longrightarrow> checks f' C' \<Longrightarrow> checks (\<lambda>g. f' (f g)) (C \<and> C')"
  unfolding checks_def by (meson annotates_clean annotates_trans)

lemma checks_fold: "(\<And>x. x \<in> set xs \<Longrightarrow> checks (f x) (C x)) \<Longrightarrow> checks (fold f xs) (\<forall>x \<in> set xs. C x)"
proof (induction xs)
  case Nil
  then show ?case by (simp add: checks_def)
next
  case (Cons x xs)
  have "checks (\<lambda>g. fold f xs (f x g)) (C x \<and> (\<forall>x \<in> set xs. C x))"
    using Cons by (intro checks_compose) auto
  then show ?case by (simp add: comp_def)
qed

lemma checks_node_error [checks_intros]: "checks (node_error n msg) C"
  unfolding node_error_def by (intro checks_intros) simp

lemma checks_module_error [checks_intros]: "checks (module_error n m msg) C"
  unfolding module_error_def by (intro checks_intros) simp

lemma checks_missing_ref [checks_intros]: "checks (missing_ref n source out) C"
  by (auto simp: checks_def missing_ref_def node_error_def)

section \<open>The checks of a graph\<close>

lemma checks_lint_target: "checks (lint_target ids n wt) (snd wt = [] \<or> snd wt \<in> ids)"
  by (cases wt) (auto simp: lint_target_def [abs_def] intro!: checks_intros)

lemma lint_targets_all: "map snd (lint_targets n) = node_targets n"
  by (cases "n_spec n" rule: branch_targets.cases)
     (simp_all add: lint_targets_def node_targets_def comp_def split: option.split)

lemma lint_edges_spec:
  "annotates g (lint_edges g) \<and> (clean (lint_edges g) \<longrightarrow> known_graph g)"
proof -
  let ?ids = "node_set g"
  have "checks (fold (\<lambda>n. fold (lint_target ?ids n) (lint_targets n)) (g_nodes g))
    (\<forall>n \<in> set (g_nodes g). \<forall>wt \<in> set (lint_targets n). snd wt = [] \<or> snd wt \<in> ?ids)"
    by (intro checks_fold checks_lint_target)
  then have edges: "annotates g (lint_edges g)"
    and known: "clean (lint_edges g) \<Longrightarrow> n \<in> set (g_nodes g) \<Longrightarrow> wt \<in> set (lint_targets n) \<Longrightarrow> snd wt = [] \<or> snd wt \<in> ?ids" for n wt
    unfolding lint_edges_def checks_def by blast+
  have "known_graph g" if "clean (lint_edges g)"
    unfolding edges_known_def lint_targets_all [symmetric] using known [OF that] by (fastforce simp: node_set_def)
  with edges show ?thesis by blast
qed

text \<open>
  Where a reference may lead: to a name the loop around the body gives, to the addresses of the webhook,
  or to an output of a node of the graph.
\<close>

definition ref_available :: "dsl_graph \<Rightarrow> string \<times> string \<Rightarrow> bool" where
  "ref_available g ref \<longleftrightarrow>
     (case ref of
        (source, output) \<Rightarrow>
          source \<in> set (gh_injected (g_head g)) \<or>
          source = ''webhook'' \<and> output \<in> {''url'', ''requests_url''} \<or>
          (\<exists>n \<in> set (g_nodes g). n_id n = source \<and>
             (\<forall>names. declared_outputs n = Some names \<longrightarrow>
                output \<in> set names \<or> (\<exists>p \<in> set names. dotted_prefix p output))))"

definition refs_available :: "dsl_graph \<Rightarrow> bool" where
  "refs_available g \<longleftrightarrow>
     (\<forall>n \<in> set (g_nodes g). \<forall>s \<in> set (node_texts n). \<forall>ref \<in> set (text_refs s). ref_available g ref)"

lemma checks_lint_ref: "checks (lint_ref g0 n ref) (ref_available g0 ref)"
proof -
  obtain source out where ref: "ref = (source, out)" by (cases ref)
  have found: "\<exists>d. find_node g0 source = Some d \<and> d \<in> set (g_nodes g0) \<and> n_id d = source"
    if "source \<in> node_set g0"
  proof -
    have "find_node g0 source \<noteq> None" using that by (auto simp: find_node_def node_set_def find_None_iff)
    then show ?thesis by (auto simp: find_node_def find_Some_iff) (metis length_rev nth_mem set_rev)
  qed
  have declared: "ref_available g0 ref"
    if present: "source \<in> node_set g0"
      and names: "\<And>names. Option.bind (find_node g0 source) declared_outputs = Some names \<Longrightarrow> declares_output names out"
  proof -
    obtain d where d: "find_node g0 source = Some d" "d \<in> set (g_nodes g0)" "n_id d = source"
      using found [OF present] by blast
    then have "declared_outputs d = Some names \<Longrightarrow> has_path_root out names" for names
      using names by (simp add: declares_output_def)
    with d show ?thesis unfolding ref_available_def ref has_path_root_iff by blast
  qed
  show ?thesis
    unfolding lint_ref_def [abs_def] ref Let_def prod.case
    by (intro checks_intros) (use declared in \<open>auto simp: ref_available_def ref\<close>)
qed

lemma lint_refs_spec: "annotates g (lint_refs g) \<and> (clean (lint_refs g) \<longrightarrow> refs_available g)"
proof -
  have "checks (fold (\<lambda>n. fold (\<lambda>s. fold (lint_ref g n) (text_refs s)) (node_texts n)) (g_nodes g)) (refs_available g)"
    unfolding refs_available_def by (intro checks_fold checks_lint_ref)
  then show ?thesis by (simp add: lint_refs_def checks_def)
qed

lemma lint_failure_spec: "annotates g (lint_failure g)"
proof -
  have "checks (lint_failure_target g n target) True" for n target
    unfolding lint_failure_target_def [abs_def] Let_def by (intro checks_intros) simp_all
  then have "checks (fold (\<lambda>n. fold (lint_failure_target g n) (nh_fail (n_head n))) (g_nodes g)) (\<forall>n \<in> set (g_nodes g). \<forall>x \<in> set (nh_fail (n_head n)). True)"
    by (intro checks_fold)
  then show ?thesis by (simp add: lint_failure_def checks_def)
qed

lemma with_exports_sel [simp]:
  "g_head (with_exports ex g) = g_head g" "g_nodes (with_exports ex g) = g_nodes g" "g_diags (with_exports ex g) = g_diags g"
  by (simp_all add: with_exports_def)

lemma fill_exports_spec:
  "g_head (fill_exports g) = g_head g \<and> g_nodes (fill_exports g) = g_nodes g \<and> (clean (fill_exports g) \<longrightarrow> clean g)"
proof -
  have warned: "checks (fold (warn_repeated g) names) (\<forall>x \<in> set names. True)" for names
    by (rule checks_fold) (auto simp: warn_repeated_def [abs_def] intro!: checks_intros)
  have public: "checks (fold (check_public g) names) (\<forall>x \<in> set names. True)" for names
    by (rule checks_fold) (auto simp: check_public_def [abs_def] intro!: checks_intros)
  show ?thesis
  proof (cases "gh_public (g_head g)")
    case None
    show ?thesis
      using checks_annotates [OF warned] checks_clean [OF warned] by (simp add: fill_exports_def None Let_def annotates_def)
  next
    case (Some names)
    let ?warned = "fold (warn_repeated g) (remdups (map fst (found_exports g))) g"
    have "annotates g (fold (check_public g) names ?warned)"
      using checks_annotates [OF warned] checks_annotates [OF public] by (rule annotates_trans)
    then show ?thesis by (auto simp: fill_exports_def Some annotates_def)
  qed
qed

lemma lint_graph_spec:
  "g_head (lint_graph g) = g_head g \<and> g_nodes (lint_graph g) = g_nodes g \<and>
   (clean (lint_graph g) \<longrightarrow> clean g \<and> known_graph g \<and> refs_available g)"
proof -
  let ?e = "lint_edges g"
  let ?r = "lint_refs ?e"
  have e: "annotates g ?e" "clean ?e \<longrightarrow> known_graph g" using lint_edges_spec by auto
  have r: "annotates ?e ?r" "clean ?r \<longrightarrow> refs_available ?e" using lint_refs_spec by auto
  have "refs_available ?e = refs_available g"
    using e(1) by (simp add: refs_available_def ref_available_def annotates_def)
  then show ?thesis
    using e r lint_failure_spec [of ?r] fill_exports_spec [of "lint_failure ?r"] annotates_clean
    unfolding lint_graph_def by (fastforce simp: annotates_def)
qed

section \<open>Bound modules\<close>

definition path_at :: "dsl_graph list \<Rightarrow> nat \<Rightarrow> string" where
  "path_at gs i = gh_path (g_head (gs ! i))"

text \<open>
  What resolution leaves alone: the files and their paths, the stack, and every file whose visit has
  begun; a file it begins to visit it also finishes.
\<close>

definition extends :: "file_resolver \<Rightarrow> file_resolver \<Rightarrow> bool" where
  "extends r r' \<longleftrightarrow>
     fr_by r' = fr_by r \<and> fr_stack r' = fr_stack r \<and> map g_head (fr_graphs r') = map g_head (fr_graphs r) \<and>
     (\<forall>p s. fr_state r p = Some s \<longrightarrow> fr_state r' p = Some s) \<and>
     (\<forall>p. fr_state r p = None \<longrightarrow> fr_state r' p \<in> {None, Some Visited}) \<and>
     (\<forall>i < length (fr_graphs r). fr_state r (path_at (fr_graphs r) i) \<noteq> None \<longrightarrow> fr_graphs r' ! i = fr_graphs r ! i)"

lemma extends_refl [simp]: "extends r r"
  by (simp add: extends_def)

lemma extends_paths: "extends r r' \<Longrightarrow> length (fr_graphs r') = length (fr_graphs r)"
  by (metis extends_def length_map)

lemma same_heads_nth:
  assumes "map g_head gs' = map g_head gs" and "i < length gs"
  shows "g_head (gs' ! i) = g_head (gs ! i)"
proof -
  have "length gs' = length gs" by (rule map_eq_imp_length_eq [OF assms(1)])
  moreover have "map g_head gs' ! i = map g_head gs ! i" by (simp only: assms(1))
  ultimately show ?thesis using assms(2) by simp
qed

lemma same_heads_path: "map g_head gs' = map g_head gs \<Longrightarrow> i < length gs \<Longrightarrow> path_at gs' i = path_at gs i"
  unfolding path_at_def by (rule arg_cong [OF same_heads_nth])

lemma extends_path: "extends r r' \<Longrightarrow> i < length (fr_graphs r) \<Longrightarrow> path_at (fr_graphs r') i = path_at (fr_graphs r) i"
  by (rule same_heads_path) (simp_all add: extends_def)

lemma extends_state: "extends r r' \<Longrightarrow> fr_state r p = Some s \<Longrightarrow> fr_state r' p = Some s"
  by (simp add: extends_def)

lemma extends_new: "extends r r' \<Longrightarrow> fr_state r p = None \<Longrightarrow> fr_state r' p = None \<or> fr_state r' p = Some Visited"
  by (simp add: extends_def)

lemma extends_keeps:
  "extends r r' \<Longrightarrow> i < length (fr_graphs r) \<Longrightarrow> fr_state r (path_at (fr_graphs r) i) \<noteq> None \<Longrightarrow> fr_graphs r' ! i = fr_graphs r ! i"
  by (simp add: extends_def)

lemma extends_trans:
  assumes "extends r1 r2" and "extends r2 r3"
  shows "extends r1 r3"
proof -
  have "fr_state r3 p \<in> {None, Some Visited}" if "fr_state r1 p = None" for p
    using extends_new [OF assms(1) that] extends_new [OF assms(2), of p] extends_state [OF assms(2), of p] by auto
  moreover have "fr_graphs r3 ! i = fr_graphs r1 ! i"
    if "i < length (fr_graphs r1)" "fr_state r1 (path_at (fr_graphs r1) i) \<noteq> None" for i
    using extends_keeps [OF assms(1) that] extends_keeps [OF assms(2), of i] extends_path [OF assms(1) that(1)] that
      extends_paths [OF assms(1)] extends_state [OF assms(1)] by auto
  ultimately show ?thesis using assms by (auto simp: extends_def)
qed

definition coherent :: "file_resolver \<Rightarrow> bool" where
  "coherent r \<longleftrightarrow> (\<forall>p j. fr_by r p = Some j \<longrightarrow> j < length (fr_graphs r) \<and> path_at (fr_graphs r) j = p)"

lemma extends_coherent: "extends r r' \<Longrightarrow> coherent r \<Longrightarrow> coherent r'"
  using extends_path [of r r'] extends_paths [of r r'] by (simp add: coherent_def extends_def)

text \<open>
  A call fits the module: the module's flow is called, with exactly its inputs where it declares
  any; stated outputs are bound to its exports, and without stated outputs every export is bound.
\<close>

definition module_fits :: "'a flow_text_scheme \<Rightarrow> dsl_graph \<Rightarrow> mod_spec \<Rightarrow> out_decl list \<Rightarrow> bool" where
  "module_fits t dep m outs \<longleftrightarrow>
     ms_flow_id m = gh_id (g_head dep) \<and> is_flow_id t (ms_flow_id m) \<and>
     (gh_inputs (g_head dep) = [] \<or> set (map fst (ms_inputs m)) = set (gh_inputs (g_head dep))) \<and>
     (if ms_explicit m then \<forall>out \<in> set outs. od_binding out = [] \<or> od_binding out \<in> snd ` set (g_exports dep)
      else \<forall>e \<in> set (g_exports dep). export_decl e \<in> set outs)"

definition node_fits :: "'a flow_text_scheme \<Rightarrow> file_resolver \<Rightarrow> dsl_node \<Rightarrow> bool" where
  "node_fits t r n \<longleftrightarrow>
     (case n_spec n of
        ModuleSpec (Some m) \<Rightarrow>
          (case module_path t (ms_ref m) of
             OutsideLibrary \<Rightarrow> False
           | FlowIdTarget flow \<Rightarrow> ms_flow_id m = flow
           | FileTarget p \<Rightarrow>
               (\<exists>j. fr_by r p = Some j \<and> fr_state r p = Some Visited \<and> module_fits t (fr_graphs r ! j) m (n_outputs n)))
      | _ \<Rightarrow> True)"

lemma checks_binding_shape:
  "checks (check_binding_shape n) (\<forall>out \<in> set (n_outputs n). od_binding out = [] \<or> binding_shape (od_binding out))"
  unfolding check_binding_shape_def by (intro checks_fold checks_intros) auto

lemma checks_check_inputs:
  "checks (check_inputs n m dep) (gh_inputs (g_head dep) = [] \<or> set (map fst (ms_inputs m)) = set (gh_inputs (g_head dep)))"
proof -
  let ?inputs = "gh_inputs (g_head dep)" and ?given = "map fst (ms_inputs m)"
  have "checks (\<lambda>g. fold (\<lambda>name g. if name \<in> set ?given then g else module_error n m (msg name) g) ?inputs
          (fold (\<lambda>name g. if name \<in> set ?inputs then g else module_error n m (msg' name) g) ?given g))
        ((\<forall>name \<in> set ?given. name \<in> set ?inputs) \<and> (\<forall>name \<in> set ?inputs. name \<in> set ?given))" for msg msg'
    by (intro checks_compose checks_fold checks_intros) auto
  note both = this [THEN checks_mono, of "set ?given = set ?inputs"]
  show ?thesis
  proof (cases "?inputs = []")
    case True
    then show ?thesis by (simp add: check_inputs_def [abs_def] checks_pass)
  next
    case False
    then show ?thesis
      unfolding check_inputs_def [abs_def] Let_def if_not_P [OF False] by (intro checks_mono [OF both]) blast+
  qed
qed

lemma with_flow_id_sel [simp]:
  "n_head (with_flow_id flow m n) = n_head n" "n_outputs (with_flow_id flow m n) = n_outputs n"
  "n_spec (with_flow_id flow m n) = ModuleSpec (Some (m\<lparr>ms_flow_id := flow\<rparr>))"
  by (simp_all add: with_flow_id_def)

lemma with_outputs_sel [simp]:
  "n_head (with_outputs outs n) = n_head n" "n_outputs (with_outputs outs n) = outs" "n_spec (with_outputs outs n) = n_spec n"
  by (simp_all add: with_outputs_def)

lemma fill_bindings_spec:
  assumes "fill_bindings n m dep g = (g', n')"
  shows "annotates g g'" and "n_spec n' = n_spec n"
    and "clean g' \<Longrightarrow>
      (if ms_explicit m then \<forall>out \<in> set (n_outputs n'). od_binding out = [] \<or> od_binding out \<in> snd ` set (g_exports dep)
       else \<forall>e \<in> set (g_exports dep). export_decl e \<in> set (n_outputs n'))"
proof -
  let ?known = "\<lambda>out. \<not> binding_shape (od_binding out) \<or> od_binding out \<in> snd ` set (g_exports dep)"
  have "checks (fold (\<lambda>out g. if ?known out then g else add_diag ErrorLevel (od_line out) (msg out) g) (n_outputs n))
      (\<forall>out \<in> set (n_outputs n). ?known out)" for msg
    by (intro checks_fold checks_intros) auto
  note stated = checks_compose [OF checks_binding_shape [of n] this]
  show "annotates g g'" "n_spec n' = n_spec n"
    using assms checks_annotates [OF stated] by (auto simp: fill_bindings_def split: if_splits)
  assume c: "clean g'"
  show "if ms_explicit m then \<forall>out \<in> set (n_outputs n'). od_binding out = [] \<or> od_binding out \<in> snd ` set (g_exports dep)
       else \<forall>e \<in> set (g_exports dep). export_decl e \<in> set (n_outputs n')"
  proof (cases "ms_explicit m")
    case True
    then have "n' = n" "clean (fold (\<lambda>out g. if ?known out then g
             else add_diag ErrorLevel (od_line out)
                    (''node '' @ dquote (n_id n) @ '' output '' @ dquote (od_name out) @ '' binds '' @
                     dquote (od_binding out) @ '', which '' @ gh_path (g_head dep) @ '' does not declare'') g)
           (n_outputs n) (check_binding_shape n g))"
      using assms c by (auto simp: fill_bindings_def)
    then show ?thesis using checks_clean [OF stated, THEN conjunct1] True by fastforce
  next
    case False
    then show ?thesis using assms by (auto simp: fill_bindings_def)
  qed
qed

lemma bind_file_spec:
  assumes "bind_file t n m path dep g = (g', n')" and spec: "n_spec n = ModuleSpec (Some m)"
  shows "annotates g g'" and "\<exists>flow. n_spec n' = ModuleSpec (Some (m\<lparr>ms_flow_id := flow\<rparr>))"
    and "clean g' \<Longrightarrow> \<exists>m'. n_spec n' = ModuleSpec (Some m') \<and> ms_ref m' = ms_ref m \<and> module_fits t dep m' (n_outputs n')"
proof -
  let ?flow = "gh_id (g_head dep)"
  let ?m = "m\<lparr>ms_flow_id := ?flow\<rparr>"
  have "annotates g g' \<and> (\<exists>flow. n_spec n' = ModuleSpec (Some (m\<lparr>ms_flow_id := flow\<rparr>))) \<and>
    (clean g' \<longrightarrow> (\<exists>m'. n_spec n' = ModuleSpec (Some m') \<and> ms_ref m' = ms_ref m \<and> module_fits t dep m' (n_outputs n')))"
  proof (cases "trim_space ?flow = [] \<or> \<not> is_flow_id t ?flow")
    case True
    have "m\<lparr>ms_flow_id := ms_flow_id m\<rparr> = m" by simp
    then show ?thesis using True assms by (auto simp: bind_file_def Let_def module_error_def split: if_splits intro: exI [of _ "ms_flow_id m"])
  next
    case False
    then have fill: "fill_bindings (with_flow_id ?flow m n) ?m dep (check_inputs n m dep g) = (g', n')"
      using assms(1) by (simp add: bind_file_def Let_def)
    note f = fill_bindings_spec [OF fill]
    have "annotates g g'" using checks_annotates [OF checks_check_inputs] f(1) by (rule annotates_trans)
    moreover have "n_spec n' = ModuleSpec (Some ?m)" using f(2) by simp
    moreover have "module_fits t dep ?m (n_outputs n')" if "clean g'"
      using f(3) [OF that] checks_clean [OF checks_check_inputs annotates_clean [OF f(1) that]] False
      by (simp add: module_fits_def)
    ultimately show ?thesis by auto
  qed
  then show "annotates g g'" and "\<exists>flow. n_spec n' = ModuleSpec (Some (m\<lparr>ms_flow_id := flow\<rparr>))"
    and "clean g' \<Longrightarrow> \<exists>m'. n_spec n' = ModuleSpec (Some m') \<and> ms_ref m' = ms_ref m \<and> module_fits t dep m' (n_outputs n')"
    by blast+
qed

section \<open>Finishing a graph\<close>

text \<open>What the visit of another file may do, and that it leaves the file visited.\<close>

definition visits :: "visitor \<Rightarrow> bool" where
  "visits visit \<longleftrightarrow>
     (\<forall>j r r'. visit j r = Some r' \<longrightarrow>
        extends r r' \<and>
        (j < length (fr_graphs r) \<and> fr_state r (path_at (fr_graphs r) j) \<noteq> Some Visiting \<longrightarrow>
           fr_state r' (path_at (fr_graphs r) j) = Some Visited))"

lemma bind_module_spec:
  assumes visits: "visits visit" and bound: "bind_module t visit r g n m = Some (r', g', n')"
    and spec: "n_spec n = ModuleSpec (Some m)"
  shows "extends r r' \<and> annotates g g' \<and>
    (\<exists>m'. n_spec n' = ModuleSpec (Some m') \<and> ms_ref m' = ms_ref m) \<and> (coherent r \<and> clean g' \<longrightarrow> node_fits t r' n')"
proof (cases "module_path t (ms_ref m)")
  case OutsideLibrary
  then show ?thesis using bound spec by (auto simp: bind_module_def module_error_def)
next
  case (FlowIdTarget flow)
  then show ?thesis
    using bound spec checks_annotates [OF checks_binding_shape, of g n] by (auto simp: bind_module_def node_fits_def)
next
  case (FileTarget path)
  show ?thesis
  proof (cases "fr_state r path = Some Visiting \<or> fr_by r path = None")
    case True
    then show ?thesis using bound spec FileTarget by (auto simp: bind_module_def module_error_def split: if_splits)
  next
    case False
    then obtain j where j: "fr_by r path = Some j" by auto
    then have visit: "visit j r = Some r'" and bf: "bind_file t n m path (fr_graphs r' ! j) g = (g', n')"
      using bound FileTarget False by (auto simp: bind_module_def)
    have ext: "extends r r'" using visits visit by (auto simp: visits_def)
    note f = bind_file_spec [OF bf spec]
    have "node_fits t r' n'" if "coherent r" "clean g'"
    proof -
      have at: "j < length (fr_graphs r)" "path_at (fr_graphs r) j = path" using that(1) j by (auto simp: coherent_def)
      with visits visit False have "fr_state r' path = Some Visited" by (auto simp: visits_def)
      moreover have "fr_by r' path = Some j" using ext j by (simp add: extends_def)
      ultimately show ?thesis using f(3) [OF that(2)] FileTarget by (auto simp: node_fits_def)
    qed
    with ext f(1,2) show ?thesis by auto
  qed
qed

lemma warn_folder_annotates [simp]: "annotates g (warn_folder t g)"
  by (simp add: warn_folder_def Let_def)

lemma with_nodes_sel [simp]:
  "g_head (with_nodes ns g) = g_head g" "g_nodes (with_nodes ns g) = ns" "g_diags (with_nodes ns g) = g_diags g"
  by (simp_all add: with_nodes_def)

lemma module_refs_nodes: "module_refs g = concat (map node_refs (g_nodes g))"
  by (cases g) simp

lemma node_refs_spec: "node_refs n = spec_refs (n_spec n)"
  by (cases n) simp

lemma finish_extends:
  assumes "visits visit"
  shows "finish t visit r g = Some (r', g') \<Longrightarrow> extends r r' \<and> g_head g' = g_head g \<and> module_refs g' = module_refs g"
    and "finish_nodes t visit r ns g = Some (r', g', ns') \<Longrightarrow> extends r r' \<and> annotates g g' \<and> map node_refs ns' = map node_refs ns"
    and "finish_node t visit r n g = Some (r', g', n') \<Longrightarrow> extends r r' \<and> annotates g g' \<and> node_refs n' = node_refs n"
    and "visit_body t visit r spec = Some (r', spec') \<Longrightarrow> extends r r' \<and> spec_refs spec' = spec_refs spec"
  using assms
proof (induction t visit r g and t visit r ns g and t visit r n g and t visit r spec
    arbitrary: r' g' and r' g' ns' and r' g' n' and r' spec' rule: finish_finish_nodes_finish_node_visit_body.induct)
  case (1 t visit r h ns ex ds)
  let ?g = "DslGraph h ns ex ds"
  from 1 obtain g1 ns1 where nodes: "finish_nodes t visit r ns (warn_folder t ?g) = Some (r', g1, ns1)"
    and g': "g' = lint_graph (with_nodes ns1 g1)" by (auto split: option.splits)
  have "extends r r' \<and> annotates (warn_folder t ?g) g1 \<and> map node_refs ns1 = map node_refs ns"
    using 1 nodes by blast
  moreover have "g_head (warn_folder t ?g) = h" using warn_folder_annotates [of ?g t] unfolding annotates_def by simp
  ultimately show ?case by (simp add: g' lint_graph_spec module_refs_nodes annotates_def)
next
  case (3 t visit r n ns g)
  then obtain r1 g1 n1 ns1 where step: "finish_node t visit r n g = Some (r1, g1, n1)"
    and rest: "finish_nodes t visit r1 ns g1 = Some (r', g', ns1)" and ns': "ns' = n1 # ns1"
    by (auto split: option.splits)
  have "extends r r1 \<and> annotates g g1 \<and> node_refs n1 = node_refs n"
    and "extends r1 r' \<and> annotates g1 g' \<and> map node_refs ns1 = map node_refs ns"
    using 3 step rest by blast+
  then show ?case using extends_trans annotates_trans ns' by auto
next
  case (4 t visit r h outs m g)
  then show ?case
    using bind_module_spec [of visit t r g "DslNode h outs (ModuleSpec (Some m))" m r' g' n'] by (auto simp: node_refs_spec)
qed (auto split: option.splits)

text \<open>A graph that passed every check; a graph that is finished without an error is one, with its bodies.\<close>

definition sound :: "'a flow_text_scheme \<Rightarrow> file_resolver \<Rightarrow> dsl_graph \<Rightarrow> bool" where
  "sound t r g \<longleftrightarrow> known_graph g \<and> refs_available g \<and> list_all (node_fits t r) (g_nodes g)"

lemma every_graph_iff: "every_graph P g \<longleftrightarrow> P g \<and> list_all (every_node P) (g_nodes g)"
  by (cases g) simp

lemma every_node_iff: "every_node P n \<longleftrightarrow> every_spec P (n_spec n)"
  by (cases n) simp

lemma every_mono:
  "every_graph P g \<Longrightarrow> (\<And>g. P g \<Longrightarrow> Q g) \<Longrightarrow> every_graph Q g"
  "every_node P n \<Longrightarrow> (\<And>g. P g \<Longrightarrow> Q g) \<Longrightarrow> every_node Q n"
  "every_spec P spec \<Longrightarrow> (\<And>g. P g \<Longrightarrow> Q g) \<Longrightarrow> every_spec Q spec"
  by (induction P g and P n and P spec rule: every_graph_every_node_every_spec.induct) (auto simp: list_all_iff)

lemma collect_diags_iff: "collect_diags g = g_diags g @ concat (map nested_diags (g_nodes g))"
  by (cases g) simp

lemma nested_diags_spec: "nested_diags n = spec_diags (n_spec n)"
  by (cases n) simp

lemma without_error: "\<not> has_error g \<longleftrightarrow> clean g \<and> list_all (\<lambda>n. no_errors (nested_diags n)) (g_nodes g)"
  by (simp add: has_error_iff collect_diags_iff no_errors_concat list_all_iff)

text \<open>What a sound graph relies on: the files visited so far and their graphs.\<close>

definition later :: "file_resolver \<Rightarrow> file_resolver \<Rightarrow> bool" where
  "later r r' \<longleftrightarrow>
     fr_by r' = fr_by r \<and> (\<forall>p. fr_state r p = Some Visited \<longrightarrow> fr_state r' p = Some Visited) \<and>
     (\<forall>p j. fr_by r p = Some j \<longrightarrow> fr_state r p = Some Visited \<longrightarrow> fr_graphs r' ! j = fr_graphs r ! j)"

lemma extends_later: "coherent r \<Longrightarrow> extends r r' \<Longrightarrow> later r r'"
  by (auto simp: later_def coherent_def extends_def)

lemma later_fits: "later r r' \<Longrightarrow> node_fits t r n \<Longrightarrow> node_fits t r' n"
  unfolding node_fits_def
  by (auto split: node_spec.splits option.splits module_target.splits simp: later_def)

lemma later_sound: "later r r' \<Longrightarrow> sound t r g \<Longrightarrow> sound t r' g"
  by (auto simp: sound_def list_all_iff later_fits)

lemma node_fits_plain: "(\<And>m. spec \<noteq> ModuleSpec (Some m)) \<Longrightarrow> node_fits t r (DslNode h outs spec)"
  by (auto simp: node_fits_def split: node_spec.splits option.splits)

lemma visit_body_fits:
  "visit_body t visit r spec = Some (r', spec') \<Longrightarrow> (\<And>m. spec \<noteq> ModuleSpec (Some m)) \<Longrightarrow> node_fits t r'' (DslNode h outs spec')"
  by (cases "(t, visit, r, spec)" rule: visit_body.cases) (auto simp: node_fits_def split: option.splits)

lemma finish_sound:
  assumes "visits visit"
  shows "finish t visit r g = Some (r', g') \<Longrightarrow> coherent r \<Longrightarrow> \<not> has_error g' \<Longrightarrow> every_graph (sound t r') g'"
    and "finish_nodes t visit r ns g = Some (r', g', ns') \<Longrightarrow> coherent r \<Longrightarrow> clean g' \<Longrightarrow>
      list_all (\<lambda>n. no_errors (nested_diags n)) ns' \<Longrightarrow> list_all (\<lambda>n. every_node (sound t r') n \<and> node_fits t r' n) ns'"
    and "finish_node t visit r n g = Some (r', g', n') \<Longrightarrow> coherent r \<Longrightarrow> clean g' \<Longrightarrow>
      no_errors (nested_diags n') \<Longrightarrow> every_node (sound t r') n' \<and> node_fits t r' n'"
    and "visit_body t visit r spec = Some (r', spec') \<Longrightarrow> coherent r \<Longrightarrow>
      no_errors (spec_diags spec') \<Longrightarrow> every_spec (sound t r') spec'"
  using assms
proof (induction t visit r g and t visit r ns g and t visit r n g and t visit r spec
    arbitrary: r' g' and r' g' ns' and r' g' n' and r' spec' rule: finish_finish_nodes_finish_node_visit_body.induct)
  case (1 t visit r h ns ex ds)
  from 1 obtain g1 ns1 where nodes: "finish_nodes t visit r ns (warn_folder t (DslGraph h ns ex ds)) = Some (r', g1, ns1)"
    and g': "g' = lint_graph (with_nodes ns1 g1)" by (auto split: option.splits)
  note lint = lint_graph_spec [of "with_nodes ns1 g1", folded g']
  have passed: "clean g1" "known_graph g'" "refs_available g'"
    and nested: "list_all (\<lambda>n. no_errors (nested_diags n)) ns1"
    using lint 1 by (auto simp: without_error refs_available_def ref_available_def)
  have "list_all (\<lambda>n. every_node (sound t r') n \<and> node_fits t r' n) ns1"
    using 1 nodes passed(1) nested by blast
  moreover from this have "sound t r' g'" using passed lint by (simp add: sound_def list_all_iff)
  ultimately show ?case using lint by (simp add: every_graph_iff list_all_iff)
next
  case (3 t visit r n ns g)
  then obtain r1 g1 n1 ns1 where step: "finish_node t visit r n g = Some (r1, g1, n1)"
    and rest: "finish_nodes t visit r1 ns g1 = Some (r', g', ns1)" and ns': "ns' = n1 # ns1"
    by (auto split: option.splits)
  note e1 = finish_extends(3) [OF \<open>visits visit\<close> step] and e2 = finish_extends(2) [OF \<open>visits visit\<close> rest]
  have c1: "coherent r1" using e1 3 extends_coherent by blast
  have "every_node (sound t r1) n1 \<and> node_fits t r1 n1"
    and tail: "list_all (\<lambda>n. every_node (sound t r') n \<and> node_fits t r' n) ns1"
    using 3 step rest c1 annotates_clean e2 by (auto simp: ns')
  then have "every_node (sound t r') n1 \<and> node_fits t r' n1"
    using extends_later [OF c1] e2 by (blast intro: every_mono(2) later_sound later_fits)
  then show ?case using tail by (simp add: ns')
next
  case (4 t visit r h outs m g)
  then show ?case
    using bind_module_spec [of visit t r g "DslNode h outs (ModuleSpec (Some m))" m r' g' n'] by (auto simp: every_node_iff)
qed (auto simp: has_error_iff split: option.splits intro: visit_body_fits node_fits_plain)

section \<open>Resolution ends\<close>

lemma finish_total:
  assumes "visits visit"
    and total: "\<And>j r. I r \<Longrightarrow> j < length (fr_graphs r) \<Longrightarrow> visit j r \<noteq> None"
    and keeps: "\<And>r r'. I r \<Longrightarrow> extends r r' \<Longrightarrow> I r'" and coherent: "\<And>r. I r \<Longrightarrow> coherent r"
  shows "I r \<Longrightarrow> finish t visit r g \<noteq> None"
    and "I r \<Longrightarrow> finish_nodes t visit r ns g \<noteq> None"
    and "I r \<Longrightarrow> finish_node t visit r n g \<noteq> None"
    and "I r \<Longrightarrow> visit_body t visit r spec \<noteq> None"
  using assms(1) total
proof (induction t visit r g and t visit r ns g and t visit r n g and t visit r spec
    rule: finish_finish_nodes_finish_node_visit_body.induct)
  case (3 t visit r n ns g)
  then obtain r1 g1 n1 where step: "finish_node t visit r n g = Some (r1, g1, n1)" by fastforce
  then have "I r1" using keeps finish_extends(3) 3 by blast
  then show ?case using 3 step by (auto split: option.splits)
next
  case (4 t visit r h outs m g)
  have "j < length (fr_graphs r)" if "fr_by r p = Some j" for p j
    using coherent [OF 4(1)] that by (auto simp: coherent_def)
  then show ?case using 4 by (auto simp: bind_module_def split: module_target.splits option.splits)
qed (auto split: option.splits)

lemma visits_visit_file: "visits (visit_file t fuel)"
proof (induction fuel)
  case 0
  then show ?case by (simp add: visits_def)
next
  case (Suc fuel)
  have "extends r r'' \<and>
      (i < length (fr_graphs r) \<and> fr_state r (path_at (fr_graphs r) i) \<noteq> Some Visiting \<longrightarrow>
         fr_state r'' (path_at (fr_graphs r) i) = Some Visited)"
    if run: "visit_file t (Suc fuel) i r = Some r''" for i r r''
  proof (cases "fr_state r (path_at (fr_graphs r) i) = None")
    case False
    then have "r'' = r" using run by (simp add: path_at_def)
    then show ?thesis using False by (cases "the (fr_state r (path_at (fr_graphs r) i))") auto
  next
    case True
    let ?p = "path_at (fr_graphs r) i"
    let ?r = "r\<lparr>fr_state := (fr_state r)(?p \<mapsto> Visiting), fr_stack := fr_stack r @ [?p]\<rparr>"
    obtain r' g where fin: "finish t (visit_file t fuel) ?r (fr_graphs r ! i) = Some (r', g)"
      and r'': "r'' = r'\<lparr>fr_graphs := (fr_graphs r')[i := g], fr_stack := butlast (fr_stack r'),
                         fr_state := (fr_state r')(?p \<mapsto> Visited)\<rparr>"
      using run True by (auto simp: path_at_def Let_def begin_visit_def end_visit_def split: option.splits)
    have ext: "extends ?r r'" and head: "g_head g = g_head (fr_graphs r ! i)"
      using finish_extends(1) [OF Suc.IH fin] by auto
    have heads: "map g_head (fr_graphs r') = map g_head (fr_graphs r)" using ext by (simp add: extends_def)
    then have "map g_head ((fr_graphs r')[i := g]) = map g_head (fr_graphs r)"
      by (cases "i < length (fr_graphs r)")
         (simp_all add: map_update head list_update_beyond list_update_same_conv)
    moreover have "fr_state r' q = Some s" if "fr_state r q = Some s" "q \<noteq> ?p" for q s
      using extends_state [OF ext, of q s] that by simp
    moreover have "fr_state r' q = None \<or> fr_state r' q = Some Visited" if "fr_state r q = None" "q \<noteq> ?p" for q
      using extends_new [OF ext, of q] that by simp
    moreover have "(fr_graphs r')[i := g] ! k = fr_graphs r ! k"
      if "k < length (fr_graphs r)" "fr_state r (path_at (fr_graphs r) k) \<noteq> None" for k
      using extends_keeps [OF ext, of k] that True by (cases "k = i") auto
    ultimately have "extends r r''"
      using ext True unfolding extends_def r'' by (auto split: if_splits)
    then show ?thesis by (simp add: r'')
  qed
  then show ?case unfolding visits_def by blast
qed

definition unvisited :: "file_resolver \<Rightarrow> string set" where
  "unvisited r = {p \<in> set (map (\<lambda>g. gh_path (g_head g)) (fr_graphs r)). fr_state r p = None}"

lemma unvisited_extends: "extends r r' \<Longrightarrow> unvisited r' \<subseteq> unvisited r"
proof
  fix p assume ext: "extends r r'" and p: "p \<in> unvisited r'"
  have "map (\<lambda>g. gh_path (g_head g)) (fr_graphs r') = map gh_path (map g_head (fr_graphs r'))" for r' by simp
  then have "map (\<lambda>g. gh_path (g_head g)) (fr_graphs r') = map (\<lambda>g. gh_path (g_head g)) (fr_graphs r)"
    using ext unfolding extends_def by (metis list.map_comp)
  then show "p \<in> unvisited r" using p extends_state [OF ext, of p] by (cases "fr_state r p") (auto simp: unvisited_def)
qed

lemma finite_unvisited [simp]: "finite (unvisited r)"
  by (simp add: unvisited_def)

lemma visit_file_total:
  "coherent r \<Longrightarrow> i < length (fr_graphs r) \<Longrightarrow> card (unvisited r) < fuel \<Longrightarrow> visit_file t fuel i r \<noteq> None"
proof (induction fuel arbitrary: i r)
  case (Suc fuel)
  show ?case
  proof (cases "fr_state r (path_at (fr_graphs r) i) = None")
    case False
    then show ?thesis by (simp add: path_at_def)
  next
    case True
    let ?p = "path_at (fr_graphs r) i"
    let ?r = "r\<lparr>fr_state := (fr_state r)(?p \<mapsto> Visiting), fr_stack := fr_stack r @ [?p]\<rparr>"
    have "?p \<in> unvisited r" using True Suc.prems(2) by (auto simp: unvisited_def path_at_def)
    moreover have "unvisited ?r = unvisited r - {?p}" by (auto simp: unvisited_def)
    ultimately have fewer: "card (unvisited ?r) < fuel" using Suc.prems(3) card_Diff1_less [of "unvisited r" ?p] by simp
    let ?I = "\<lambda>r. coherent r \<and> card (unvisited r) < fuel"
    have "finish t (visit_file t fuel) ?r (fr_graphs r ! i) \<noteq> None"
    proof (rule finish_total(1) [OF visits_visit_file, of ?I])
      show "?I r \<Longrightarrow> extends r r' \<Longrightarrow> ?I r'" for r r'
        using card_mono [OF finite_unvisited unvisited_extends, of r r'] by (auto intro: extends_coherent)
      show "?I ?r" using Suc.prems(1) fewer by (simp add: coherent_def)
    qed (use Suc.IH in auto)
    then show ?thesis using True by (auto simp: path_at_def Let_def begin_visit_def split: option.splits)
  qed
qed simp

section \<open>What resolution establishes\<close>

definition preserves :: "visitor \<Rightarrow> (file_resolver \<Rightarrow> bool) \<Rightarrow> bool" where
  "preserves visit J \<longleftrightarrow> (\<forall>p j r r'. visit j r = Some r' \<longrightarrow> fr_by r p = Some j \<longrightarrow> J r \<longrightarrow> J r')"

lemma finish_keeps:
  assumes "preserves visit J"
  shows "finish t visit r g = Some (r', g') \<Longrightarrow> J r \<Longrightarrow> J r'"
    and "finish_nodes t visit r ns g = Some (r', g', ns') \<Longrightarrow> J r \<Longrightarrow> J r'"
    and "finish_node t visit r n g = Some (r', g', n') \<Longrightarrow> J r \<Longrightarrow> J r'"
    and "visit_body t visit r spec = Some (r', spec') \<Longrightarrow> J r \<Longrightarrow> J r'"
  using assms
proof (induction t visit r g and t visit r ns g and t visit r n g and t visit r spec
    arbitrary: r' g' and r' g' ns' and r' g' n' and r' spec' rule: finish_finish_nodes_finish_node_visit_body.induct)
  case (4 t visit r h outs m g)
  from 4(1) obtain p j where "r' = r \<or> visit j r = Some r' \<and> fr_by r p = Some j"
    by (auto simp: bind_module_def split: module_target.splits if_splits option.splits)
  then show ?case using 4 unfolding preserves_def by blast
qed (auto split: option.splits)

text \<open>The calls between finished files without errors.\<close>

definition calls :: "'a flow_text_scheme \<Rightarrow> dsl_graph list \<Rightarrow> file_resolver \<Rightarrow> (string \<times> string) set" where
  "calls t gs r =
     {(p, q). \<exists>i. fr_by r p = Some i \<and> fr_state r p = Some Visited \<and> \<not> has_error (fr_graphs r ! i) \<and>
                 q \<in> set (file_targets t (module_refs (gs ! i)))}"

abbreviation visited_file :: "file_resolver \<Rightarrow> string \<Rightarrow> bool" where
  "visited_file r q \<equiv> fr_state r q = Some Visited \<and> fr_by r q \<noteq> None"

definition file_done :: "'a flow_text_scheme \<Rightarrow> dsl_graph list \<Rightarrow> file_resolver \<Rightarrow> nat \<Rightarrow> bool" where
  "file_done t gs r i \<longleftrightarrow>
     (fr_state r (path_at gs i) = Some Visited \<longrightarrow> \<not> has_error (fr_graphs r ! i) \<longrightarrow>
        every_graph (sound t r) (fr_graphs r ! i) \<and>
        (\<forall>q \<in> set (file_targets t (module_refs (gs ! i))). visited_file r q))"

definition resolved :: "'a flow_text_scheme \<Rightarrow> dsl_graph list \<Rightarrow> file_resolver \<Rightarrow> bool" where
  "resolved t gs r \<longleftrightarrow>
     fr_by r = files_by_path gs \<and> map g_head (fr_graphs r) = map g_head gs \<and>
     (\<forall>i < length gs. if files_by_path gs (path_at gs i) = Some i then file_done t gs r i else fr_graphs r ! i = gs ! i) \<and>
     (\<forall>i < length gs. module_refs (fr_graphs r ! i) = module_refs (gs ! i)) \<and>
     acyclic (calls t gs r)"

lemma file_done_later:
  assumes "later r r'" and "file_done t gs r i" and "fr_graphs r' ! i = fr_graphs r ! i"
    and "fr_state r' (path_at gs i) = Some Visited \<Longrightarrow> fr_state r (path_at gs i) = Some Visited"
  shows "file_done t gs r' i"
  unfolding file_done_def assms(3)
proof (intro impI)
  assume "fr_state r' (path_at gs i) = Some Visited" "\<not> has_error (fr_graphs r ! i)"
  then have r: "every_graph (sound t r) (fr_graphs r ! i)"
    "\<forall>q \<in> set (file_targets t (module_refs (gs ! i))). visited_file r q"
    using assms(2,4) by (auto simp: file_done_def)
  have "every_graph (sound t r') (fr_graphs r ! i)"
    by (rule every_mono(1) [OF r(1)]) (rule later_sound [OF assms(1)])
  then show "every_graph (sound t r') (fr_graphs r ! i) \<and>
      (\<forall>q \<in> set (file_targets t (module_refs (gs ! i))). visited_file r' q)"
    using r(2) assms(1) by (simp add: later_def)
qed

lemma files_by_path_Some:
  "files_by_path gs p = Some j \<Longrightarrow> j < length gs \<and> \<not> gh_inline (g_head (gs ! j)) \<and> path_at gs j = p"
  by (auto simp: files_by_path_def find_Some_iff path_at_def)

lemma resolved_done: "resolved t gs r \<Longrightarrow> files_by_path gs p = Some i \<Longrightarrow> file_done t gs r i"
  using files_by_path_Some [of gs p i] by (auto simp: resolved_def)

lemma call_visited:
  assumes "resolved t gs r" and "(p, q) \<in> calls t gs r"
  shows "fr_state r q = Some Visited"
proof -
  obtain i where i: "fr_by r p = Some i" "fr_state r p = Some Visited" "\<not> has_error (fr_graphs r ! i)"
      "q \<in> set (file_targets t (module_refs (gs ! i)))"
    using assms(2) by (auto simp: calls_def)
  then have "files_by_path gs p = Some i" using assms(1) by (simp add: resolved_def)
  then show ?thesis using i resolved_done [OF assms(1)] files_by_path_Some [of gs p i] by (auto simp: file_done_def)
qed

lemma resolved_coherent: "resolved t gs r \<Longrightarrow> coherent r"
  using files_by_path_Some [of gs] same_heads_path [of "fr_graphs r" gs]
  by (auto simp: resolved_def coherent_def dest: map_eq_imp_length_eq)

lemma sound_targets:
  "every_graph (sound t r) g \<Longrightarrow> q \<in> set (file_targets t (module_refs g)) \<Longrightarrow> visited_file r q"
  "every_node (sound t r) n \<Longrightarrow> node_fits t r n \<Longrightarrow> q \<in> set (file_targets t (node_refs n)) \<Longrightarrow> visited_file r q"
  "every_spec (sound t r) spec \<Longrightarrow> (\<And>m. spec \<noteq> ModuleSpec m) \<Longrightarrow> q \<in> set (file_targets t (spec_refs spec)) \<Longrightarrow>
     visited_file r q"
proof (induction g and n and spec rule: module_refs_node_refs_spec_refs.induct)
  case (1 h ns ex ds)
  then show ?case by (auto simp: sound_def list_all_iff file_targets_def)
next
  case (2 h outs spec)
  show ?case
  proof (cases "\<exists>m. spec = ModuleSpec m")
    case True
    then obtain m where "spec = ModuleSpec m" by blast
    with 2(3,4) show ?thesis
      by (cases m) (auto simp: node_fits_def file_targets_def split: if_splits module_target.splits)
  next
    case False
    with 2 show ?thesis by auto
  qed
qed (auto simp: file_targets_def)

text \<open>Edges out of a point no edge leads to close no cycle.\<close>

lemma acyclic_from_new:
  assumes "acyclic R" and new: "p \<notin> Range R" "p \<notin> Q"
  shows "acyclic (R \<union> {p} \<times> Q)"
proof -
  let ?R = "R \<union> {p} \<times> Q"
  have old: "(x, y) \<in> R\<^sup>+" if "(x, y) \<in> ?R\<^sup>+" "x \<noteq> p" for x y
    using that(1)
  proof (induction rule: trancl_induct)
    case (step y z)
    obtain w where "(w, y) \<in> R" using step.IH by (meson tranclE)
    then have "y \<noteq> p" using new(1) by blast
    then show ?case using step by auto
  qed (use that(2) in auto)
  have "x \<noteq> p" if "(x, x) \<in> ?R\<^sup>+" for x
  proof -
    obtain w where "(w, x) \<in> ?R" using \<open>(x, x) \<in> ?R\<^sup>+\<close> by (meson tranclE)
    then show ?thesis using new by blast
  qed
  then show ?thesis using old assms(1) unfolding acyclic_def by blast
qed

lemma begin_visit_resolved:
  assumes "resolved t gs r" and new: "fr_state r p = None"
  shows "resolved t gs (begin_visit p r)"
proof -
  let ?r = "begin_visit p r"
  have later: "later r ?r" using new by (auto simp: later_def begin_visit_def)
  have "calls t gs ?r = calls t gs r" using new by (auto simp: calls_def begin_visit_def split: if_splits)
  moreover have "file_done t gs ?r k" if "file_done t gs r k" for k
    by (rule file_done_later [OF later that]) (auto simp: begin_visit_def split: if_splits)
  ultimately show ?thesis using assms(1) unfolding resolved_def by (simp add: begin_visit_def)
qed

lemma end_visit_later:
  assumes "fr_by r = files_by_path gs" and "files_by_path gs p = Some i" and "fr_state r p = Some Visiting"
  shows "later r (end_visit p i g r)"
  unfolding later_def
proof (intro conjI allI impI)
  fix q j assume q: "fr_by r q = Some j" "fr_state r q = Some Visited"
  then have "q \<noteq> p" using assms(3) by auto
  then have "j \<noteq> i" using q(1) assms(1) files_by_path_Some [OF assms(2)] files_by_path_Some [of gs q j] by auto
  then show "fr_graphs (end_visit p i g r) ! j = fr_graphs r ! j" by (simp add: end_visit_def)
qed (simp_all add: end_visit_def)

text \<open>The calls a finished file adds lead from it to files that were finished before.\<close>

lemma end_visit_acyclic:
  assumes r: "resolved t gs r" and first: "files_by_path gs p = Some i" and visiting: "fr_state r p = Some Visiting"
    and refs: "module_refs g = module_refs (gs ! i)"
    and sound: "\<not> has_error g \<Longrightarrow> every_graph (sound t r) g"
  shows "acyclic (calls t gs (end_visit p i g r))"
proof -
  let ?Q = "{q. \<not> has_error g \<and> q \<in> set (file_targets t (module_refs (gs ! i)))}"
  have by_path: "fr_by r = files_by_path gs" and heads: "map g_head (fr_graphs r) = map g_head gs"
    using r by (simp_all add: resolved_def)
  have i: "i < length (fr_graphs r)" using files_by_path_Some [OF first] map_eq_imp_length_eq [OF heads] by simp
  have "calls t gs (end_visit p i g r) \<subseteq> calls t gs r \<union> {p} \<times> ?Q"
  proof (rule subrelI)
    fix a q assume "(a, q) \<in> calls t gs (end_visit p i g r)"
    then obtain k where k: "files_by_path gs a = Some k" "fr_state (end_visit p i g r) a = Some Visited"
      "\<not> has_error (fr_graphs (end_visit p i g r) ! k)" "q \<in> set (file_targets t (module_refs (gs ! k)))"
      by (auto simp: calls_def end_visit_def by_path)
    show "(a, q) \<in> calls t gs r \<union> {p} \<times> ?Q"
    proof (cases "a = p")
      case True
      then show ?thesis using k first i by (auto simp: end_visit_def)
    next
      case False
      then have "k \<noteq> i" using files_by_path_Some [OF k(1)] files_by_path_Some [OF first] by auto
      then show ?thesis using k False by (auto simp: calls_def end_visit_def by_path)
    qed
  qed
  moreover have "p \<notin> Range (calls t gs r)" using call_visited [OF r] visiting by auto
  moreover have "p \<notin> ?Q" using sound sound_targets(1) [of t r g p] visiting by (auto simp: refs)
  ultimately show ?thesis
    using acyclic_from_new [of "calls t gs r" p ?Q] r by (auto simp: resolved_def intro: acyclic_subset)
qed

lemma end_visit_resolved:
  assumes r: "resolved t gs r" and first: "files_by_path gs p = Some i" and visiting: "fr_state r p = Some Visiting"
    and refs: "module_refs g = module_refs (gs ! i)" and head: "g_head g = g_head (gs ! i)"
    and sound: "\<not> has_error g \<Longrightarrow> every_graph (sound t r) g"
  shows "resolved t gs (end_visit p i g r)"
proof -
  let ?r = "end_visit p i g r"
  note i = files_by_path_Some [OF first]
  have by_path: "fr_by r = files_by_path gs" and heads: "map g_head (fr_graphs r) = map g_head gs"
    using r by (simp_all add: resolved_def)
  have i_lt: "i < length (fr_graphs r)" using i map_eq_imp_length_eq [OF heads] by simp
  note later = end_visit_later [OF by_path first visiting, of g]
  have i_done: "file_done t gs ?r i"
    unfolding file_done_def
  proof (intro impI)
    assume "\<not> has_error (fr_graphs ?r ! i)"
    then have g: "every_graph (sound t r) g" using sound i_lt by (simp add: end_visit_def)
    have "every_graph (sound t ?r) g" by (rule every_mono(1) [OF g]) (rule later_sound [OF later])
    then show "every_graph (sound t ?r) (fr_graphs ?r ! i) \<and>
        (\<forall>q \<in> set (file_targets t (module_refs (gs ! i))). visited_file ?r q)"
      using sound_targets(1) [of t ?r g] i_lt by (simp add: end_visit_def refs)
  qed
  have each: "if files_by_path gs (path_at gs k) = Some k then file_done t gs ?r k else fr_graphs ?r ! k = gs ! k"
    if k: "k < length gs" for k
  proof (cases "k = i")
    case True
    then show ?thesis using i_done first i by simp
  next
    case False
    then have same: "fr_graphs ?r ! k = fr_graphs r ! k" by (simp add: end_visit_def)
    have "file_done t gs ?r k" if first_k: "files_by_path gs (path_at gs k) = Some k"
    proof (rule file_done_later [OF later resolved_done [OF r first_k] same])
      have "path_at gs k \<noteq> p" using first_k first False by auto
      then show "fr_state ?r (path_at gs k) = Some Visited \<Longrightarrow> fr_state r (path_at gs k) = Some Visited"
        by (simp add: end_visit_def)
    qed
    then show ?thesis using r same k by (auto simp: resolved_def)
  qed
  have "map g_head (fr_graphs ?r) = map g_head gs"
    using heads i by (simp add: end_visit_def map_update head list_update_same_conv)
  moreover have "module_refs (fr_graphs ?r ! k) = module_refs (gs ! k)" if "k < length gs" for k
    using r that i_lt by (cases "k = i") (simp_all add: resolved_def refs end_visit_def)
  moreover have "fr_by ?r = files_by_path gs" by (simp add: end_visit_def by_path)
  ultimately show ?thesis
    using each end_visit_acyclic [OF r first visiting refs sound] unfolding resolved_def by blast
qed

lemma visit_file_resolved:
  "visit_file t fuel i r = Some r'' \<Longrightarrow> resolved t gs r \<Longrightarrow> i < length gs \<Longrightarrow>
   files_by_path gs (path_at gs i) = Some i \<or> fr_state r (path_at gs i) \<noteq> None \<Longrightarrow> resolved t gs r''"
proof (induction fuel arbitrary: i r r'')
  case (Suc fuel)
  let ?p = "path_at gs i"
  have heads: "map g_head (fr_graphs r) = map g_head gs" using Suc.prems(2) by (simp add: resolved_def)
  have path: "path_at (fr_graphs r) i = ?p" by (rule same_heads_path [OF heads Suc.prems(3)])
  show ?case
  proof (cases "fr_state r ?p = None")
    case False
    then have "r'' = r" using Suc.prems(1) path by (simp add: path_at_def)
    then show ?thesis using Suc.prems by simp
  next
    case True
    then have first: "files_by_path gs ?p = Some i" using Suc.prems(4) by simp
    obtain r' g where fin: "finish t (visit_file t fuel) (begin_visit ?p r) (fr_graphs r ! i) = Some (r', g)"
      and r'': "r'' = end_visit ?p i g r'"
      using Suc.prems(1) True path by (auto simp: path_at_def Let_def split: option.splits)
    note opened = begin_visit_resolved [OF Suc.prems(2) True]
    have "preserves (visit_file t fuel) (resolved t gs)"
      unfolding preserves_def
    proof (intro allI impI)
      fix p j r r' assume v: "visit_file t fuel j r = Some r'" "fr_by r p = Some j" "resolved t gs r"
      then have "files_by_path gs p = Some j" by (simp add: resolved_def)
      then show "resolved t gs r'" using Suc.IH [OF v(1,3)] files_by_path_Some [of gs p j] by auto
    qed
    from finish_keeps(1) [OF this fin opened] have r': "resolved t gs r'" .
    note kept = finish_extends(1) [OF visits_visit_file fin]
    have "fr_state r' ?p = Some Visiting"
      using kept extends_state [of "begin_visit ?p r" r' ?p Visiting] by (simp add: begin_visit_def)
    moreover have "module_refs g = module_refs (gs ! i)" "g_head g = g_head (gs ! i)"
      using kept Suc.prems(2,3) same_heads_nth [OF heads Suc.prems(3)] by (simp_all add: resolved_def)
    moreover have "every_graph (sound t r') g" if "\<not> has_error g"
      using finish_sound(1) [OF visits_visit_file fin _ that] resolved_coherent [OF opened] by blast
    ultimately show ?thesis unfolding r'' by (rule end_visit_resolved [OF r' first])
  qed
qed simp

section \<open>A resolved library\<close>

definition idle :: "file_resolver \<Rightarrow> bool" where
  "idle r \<longleftrightarrow> (\<forall>p. fr_state r p \<noteq> Some Visiting)"

definition is_file :: "dsl_graph \<Rightarrow> bool" where
  "is_file g \<longleftrightarrow> \<not> gh_inline (g_head g)"

lemma files_by_path_first:
  assumes "i < length gs" and "is_file (gs ! i)"
  shows "\<exists>j \<le> i. files_by_path gs (path_at gs i) = Some j \<and> is_file (gs ! j)"
proof -
  have "files_by_path gs (path_at gs i) \<noteq> None"
    using assms by (auto simp: files_by_path_def find_None_iff path_at_def is_file_def)
  then obtain j where j: "files_by_path gs (path_at gs i) = Some j" by auto
  have "\<not> i < j"
    using j assms unfolding files_by_path_def find_Some_iff is_file_def path_at_def by auto
  then show ?thesis using j files_by_path_Some [OF j] by (auto simp: is_file_def)
qed

lemma visit_files_all:
  "visit_files (visit_file t fuel) [k..<length gs] r = Some r' \<Longrightarrow> resolved t gs r \<Longrightarrow> idle r \<Longrightarrow>
   (\<forall>i < k. i < length gs \<longrightarrow> is_file (gs ! i) \<longrightarrow> fr_state r (path_at gs i) = Some Visited) \<Longrightarrow>
   resolved t gs r' \<and> (\<forall>i < length gs. is_file (gs ! i) \<longrightarrow> fr_state r' (path_at gs i) = Some Visited)"
proof (induction "length gs - k" arbitrary: k r)
  case 0
  then show ?case by simp
next
  case (Suc n)
  then have k: "k < length gs" and upt: "[k..<length gs] = k # [Suc k..<length gs]" by (auto simp: upt_conv_Cons)
  have len: "length (fr_graphs r) = length gs" using Suc.prems(2) unfolding resolved_def by (metis length_map)
  have head: "g_head (fr_graphs r ! k) = g_head (gs ! k)"
    using Suc.prems(2) k len nth_map [of k "fr_graphs r" g_head] by (simp add: resolved_def)
  show ?case
  proof (cases "is_file (gs ! k)")
    case False
    have "\<forall>i < Suc k. i < length gs \<longrightarrow> is_file (gs ! i) \<longrightarrow> fr_state r (path_at gs i) = Some Visited"
      using Suc.prems(4) False less_Suc_eq by auto
    then show ?thesis using Suc.hyps(1) [of "Suc k" r] Suc.hyps(2) Suc.prems(1-3) False head by (simp add: upt is_file_def)
  next
    case True
    then obtain r1 where visit: "visit_file t fuel k r = Some r1"
      and rest: "visit_files (visit_file t fuel) [Suc k..<length gs] r1 = Some r'"
      using Suc.prems(1) head by (auto simp: upt is_file_def split: Option.bind_splits)
    have ready: "files_by_path gs (path_at gs k) = Some k \<or> fr_state r (path_at gs k) \<noteq> None"
      using files_by_path_first [OF k True] Suc.prems(4) files_by_path_Some [of gs "path_at gs k"]
      by (metis le_neq_implies_less option.distinct(1))
    have path: "path_at (fr_graphs r) k = path_at gs k" by (simp add: path_at_def head)
    have v: "extends r r1" "fr_state r1 (path_at gs k) = Some Visited"
      using visits_visit_file [of t fuel] visit Suc.prems(3) k len unfolding visits_def idle_def by (metis path)+
    have "idle r1"
      unfolding idle_def
    proof
      fix p show "fr_state r1 p \<noteq> Some Visiting"
        using extends_new [OF v(1), of p] extends_state [OF v(1), of p] Suc.prems(3)
        by (cases "fr_state r p") (auto simp: idle_def)
    qed
    moreover have "\<forall>i < Suc k. i < length gs \<longrightarrow> is_file (gs ! i) \<longrightarrow> fr_state r1 (path_at gs i) = Some Visited"
      using Suc.prems(4) extends_state [OF v(1)] v(2) by (auto simp: less_Suc_eq)
    ultimately show ?thesis
      using Suc.hyps(1) [of "Suc k" r1] Suc.hyps(2) rest visit_file_resolved [OF visit Suc.prems(2) k ready] by simp
  qed
qed

lemma visit_files_total:
  "coherent r \<Longrightarrow> set is \<subseteq> {..<length (fr_graphs r)} \<Longrightarrow> card (unvisited r) < fuel \<Longrightarrow>
   visit_files (visit_file t fuel) is r \<noteq> None"
proof (induction "is" arbitrary: r)
  case (Cons i "is")
  then obtain r1 where r1: "visit_file t fuel i r = Some r1" using visit_file_total [of r i fuel t] by auto
  then have ext: "extends r r1" using visits_visit_file [of t fuel] by (auto simp: visits_def)
  have "card (unvisited r1) < fuel"
    using card_mono [OF finite_unvisited unvisited_extends [OF ext]] Cons.prems(3) by simp
  then have "visit_files (visit_file t fuel) is r1 \<noteq> None"
    using Cons extends_coherent [OF ext] extends_paths [OF ext] by simp
  then show ?case using Cons r1 by simp
qed simp

lemma resolver_start_resolved: "resolved t gs (resolver_start gs)"
  by (simp add: resolved_def resolver_start_def file_done_def calls_def path_at_def acyclic_def)

lemma resolve_all_resolved:
  assumes "resolve_all t gs = Some gs'"
  shows "\<exists>r. fr_graphs r = gs' \<and> resolved t gs r \<and> (\<forall>i < length gs. is_file (gs ! i) \<longrightarrow> fr_state r (path_at gs i) = Some Visited)"
proof -
  obtain r where r: "visit_files (visit_file t (Suc (length gs))) [0..<length gs] (resolver_start gs) = Some r" "fr_graphs r = gs'"
    using assms by (auto simp: resolve_all_def)
  have "idle (resolver_start gs)" by (simp add: idle_def resolver_start_def)
  from visit_files_all [OF r(1) resolver_start_resolved this] show ?thesis using r(2) by blast
qed

section \<open>Loading\<close>

lemma duplicate_path_sel [simp]:
  "g_head (duplicate_path g) = g_head g" "module_refs (duplicate_path g) = module_refs g" "\<not> clean (duplicate_path g)"
  by (simp_all add: duplicate_path_def module_refs_nodes)

definition loading :: "(string \<rightharpoonup> nat) \<Rightarrow> dsl_graph list \<Rightarrow> bool" where
  "loading seen gs \<longleftrightarrow>
     (\<forall>p i. seen p = Some i \<longrightarrow> i < length gs \<and> path_at gs i = p) \<and>
     (\<forall>i < length gs. seen (path_at gs i) \<noteq> None) \<and>
     (\<forall>i < length gs. \<forall>j < length gs. i \<noteq> j \<longrightarrow> path_at gs i = path_at gs j \<longrightarrow> \<not> clean (gs ! i))"

lemma path_at_append:
  "i < length gs \<Longrightarrow> path_at (gs @ [g]) i = path_at gs i"
  "i = length gs \<Longrightarrow> path_at (gs @ [g]) i = gh_path (g_head g)"
  by (simp_all add: path_at_def nth_append)

lemma path_at_update: "g_head g = g_head (gs ! k) \<Longrightarrow> path_at (gs[k := g]) i = path_at gs i"
  by (cases "k < length gs") (auto simp: path_at_def nth_list_update list_update_beyond)

lemma load_files_spec:
  "loading seen loaded \<Longrightarrow>
   (\<exists>seen'. loading seen' (load_files seen loaded gs)) \<and>
   map g_head (load_files seen loaded gs) = map g_head (loaded @ gs) \<and>
   map module_refs (load_files seen loaded gs) = map module_refs (loaded @ gs)"
proof (induction seen loaded gs rule: load_files.induct)
  case (2 seen loaded one rest)
  let ?key = "gh_path (g_head one)"
  show ?case
  proof (cases "seen ?key")
    case None
    have "loading (seen(?key \<mapsto> length loaded)) (loaded @ [one])"
      using 2(3) None by (auto simp: loading_def path_at_def nth_append less_Suc_eq)
    from 2(1) [OF refl refl None this] show ?thesis using None by (simp add: Let_def fun_upd_def)
  next
    case (Some prev)
    let ?loaded = "loaded[prev := duplicate_path (loaded ! prev)]"
    have prev: "prev < length loaded" "path_at loaded prev = ?key" using 2(3) Some by (auto simp: loading_def)
    have path: "path_at ?loaded i = path_at loaded i" for i by (simp add: path_at_update)
    have "loading (seen(?key \<mapsto> length loaded)) (?loaded @ [duplicate_path one])"
      unfolding loading_def
    proof (intro conjI allI impI)
      fix p i assume "(seen(?key \<mapsto> length loaded)) p = Some i"
      then show "i < length (?loaded @ [duplicate_path one])" "path_at (?loaded @ [duplicate_path one]) i = p"
        using 2(3) by (auto simp: loading_def path path_at_append less_Suc_eq split: if_splits)
    next
      fix i assume "i < length (?loaded @ [duplicate_path one])"
      then show "(seen(?key \<mapsto> length loaded)) (path_at (?loaded @ [duplicate_path one]) i) \<noteq> None"
        using 2(3) by (auto simp: loading_def path path_at_append less_Suc_eq)
    next
      fix i j
      assume i: "i < length (?loaded @ [duplicate_path one])" and j: "j < length (?loaded @ [duplicate_path one])"
        and ij: "i \<noteq> j" "path_at (?loaded @ [duplicate_path one]) i = path_at (?loaded @ [duplicate_path one]) j"
      show "\<not> clean ((?loaded @ [duplicate_path one]) ! i)"
      proof (cases "i = length loaded \<or> i = prev")
        case True
        then show ?thesis using prev by (auto simp: nth_append)
      next
        case False
        then have il: "i < length loaded" "i \<noteq> prev" using i by auto
        have "\<exists>k < length loaded. k \<noteq> i \<and> path_at loaded k = path_at loaded i"
        proof (cases "j = length loaded")
          case True
          then have "path_at loaded i = ?key" using ij(2) il path by (simp add: path_at_append)
          then show ?thesis using prev il(2) by metis
        next
          case False
          then show ?thesis using j ij il by (intro exI [of _ j]) (auto simp: path path_at_append)
        qed
        then have "\<not> clean (loaded ! i)" using 2(3) il(1) by (metis loading_def)
        then show ?thesis using il by (simp add: nth_append)
      qed
    qed
    note loaded = 2(2) [OF refl refl Some this]
    have "map g_head ?loaded = map g_head loaded" "map module_refs ?loaded = map module_refs loaded"
      by (simp_all add: map_update list_update_same_conv prev(1))
    then show ?thesis using loaded Some by (simp add: Let_def fun_upd_def)
  qed
qed auto

lemma load_files_loaded:
  fixes gs :: "dsl_graph list"
  defines "loaded \<equiv> load_files Map.empty [] gs"
  shows "map g_head loaded = map g_head gs" and "map module_refs loaded = map module_refs gs"
    and "i < length loaded \<Longrightarrow> j < length loaded \<Longrightarrow> i \<noteq> j \<Longrightarrow> path_at loaded i = path_at loaded j \<Longrightarrow> \<not> clean (loaded ! i)"
proof -
  have "loading Map.empty []" by (simp add: loading_def)
  note l = load_files_spec [OF this, of gs, folded loaded_def]
  show "map g_head loaded = map g_head gs" and "map module_refs loaded = map module_refs gs" using l by simp_all
  show "i < length loaded \<Longrightarrow> j < length loaded \<Longrightarrow> i \<noteq> j \<Longrightarrow> path_at loaded i = path_at loaded j \<Longrightarrow> \<not> clean (loaded ! i)"
    using l unfolding loading_def by blast
qed

section \<open>Compiled flows\<close>

lemma compile_graph_spec:
  assumes "compile_graph t g o' = Some o''"
  shows "\<exists>ds. oc_diags o'' = oc_diags o' @ ds \<and> (is_file g \<longrightarrow> set (collect_diags g) \<subseteq> set ds)"
    and "oc_flows o'' = oc_flows o' \<or>
      (\<exists>request. oc_flows o'' = oc_flows o' @ [\<lparr>co_path = gh_path (g_head g), co_request = request\<rparr>] \<and>
         is_file g \<and> \<not> has_error g \<and> lower_graph t g = Some (Inr request))"
  using assms by (auto simp: compile_graph_def Let_def is_file_def split: if_splits option.splits sum.splits)

lemma compile_resolved_spec:
  "compile_resolved t gs o' = Some o'' \<Longrightarrow>
   set (oc_diags o') \<subseteq> set (oc_diags o'') \<and> (\<forall>g \<in> set gs. is_file g \<longrightarrow> set (collect_diags g) \<subseteq> set (oc_diags o'')) \<and>
   (\<forall>f \<in> set (oc_flows o''). f \<in> set (oc_flows o') \<or>
      (\<exists>g \<in> set gs. co_path f = gh_path (g_head g) \<and> is_file g \<and> \<not> has_error g \<and> lower_graph t g = Some (Inr (co_request f))))"
proof (induction gs arbitrary: o')
  case (Cons g gs)
  then obtain o1 where o1: "compile_graph t g o' = Some o1" and rest: "compile_resolved t gs o1 = Some o''"
    by (auto split: Option.bind_splits)
  note step = compile_graph_spec [OF o1] and tail = Cons.IH [OF rest]
  obtain ds where ds: "oc_diags o1 = oc_diags o' @ ds" "is_file g \<longrightarrow> set (collect_diags g) \<subseteq> set ds" using step(1) by blast
  have "f \<in> set (oc_flows o') \<or>
      (\<exists>h \<in> set (g # gs). co_path f = gh_path (g_head h) \<and> is_file h \<and> \<not> has_error h \<and> lower_graph t h = Some (Inr (co_request f)))"
    if "f \<in> set (oc_flows o'')" for f
    using step(2) tail that by fastforce
  then show ?case using ds tail by auto
qed simp

text \<open>What is known of a library that compiled, and of a graph in it that has no error.\<close>

lemma compile_library_resolved:
  assumes compiled: "compile_library t folder gs = Some (Inr o')"
  obtains r where "resolve_all t (load_files Map.empty [] gs) = Some (fr_graphs r)"
    "resolved t (load_files Map.empty [] gs) r"
    "\<forall>i < length (fr_graphs r). is_file (fr_graphs r ! i) \<longrightarrow>
       fr_state r (path_at (load_files Map.empty [] gs) i) = Some Visited"
    "\<forall>g \<in> set (fr_graphs r). is_file g \<longrightarrow> set (collect_diags g) \<subseteq> set (oc_diags o')"
    "\<forall>f \<in> set (oc_flows o'). \<exists>g \<in> set (fr_graphs r).
       co_path f = gh_path (g_head g) \<and> is_file g \<and> \<not> has_error g \<and> lower_graph t g = Some (Inr (co_request f))"
proof -
  let ?loaded = "load_files Map.empty [] gs"
  obtain gs' o1 where gs': "resolve_all t ?loaded = Some gs'"
    and o1: "compile_resolved t gs' \<lparr>oc_flows = [], oc_diags = []\<rparr> = Some o1" "o' = sorted_outcome o1"
    using compiled by (auto simp: compile_library_def compile_graphs_def split: if_splits Option.bind_splits)
  obtain r where r: "fr_graphs r = gs'" "resolved t ?loaded r"
    "\<forall>i < length ?loaded. is_file (?loaded ! i) \<longrightarrow> fr_state r (path_at ?loaded i) = Some Visited"
    using resolve_all_resolved [OF gs'] by blast
  have heads: "map g_head gs' = map g_head ?loaded" using r by (simp add: resolved_def)
  then have "length gs' = length ?loaded" by (metis length_map)
  moreover have "is_file (gs' ! i) = is_file (?loaded ! i)" if "i < length gs'" for i
    using same_heads_nth [OF heads] that calculation by (simp add: is_file_def)
  ultimately show thesis
    using that [of r] r gs' compile_resolved_spec [OF o1(1)] by (simp add: o1(2) sorted_outcome_def)
qed

lemma accepted_graph_sound:
  fixes gs :: "dsl_graph list"
  defines "loaded \<equiv> load_files Map.empty [] gs"
  assumes r: "resolved t loaded r" and i: "i < length loaded"
    and visited: "fr_state r (path_at loaded i) = Some Visited"
    and source: "is_file (fr_graphs r ! i)" and accepted: "\<not> has_error (fr_graphs r ! i)"
  shows "files_by_path loaded (path_at loaded i) = Some i" and "every_graph (sound t r) (fr_graphs r ! i)"
    and "q \<in> set (file_targets t (module_refs (loaded ! i))) \<Longrightarrow> visited_file r q"
proof -
  have "g_head (fr_graphs r ! i) = g_head (loaded ! i)"
    using r i same_heads_nth [of "fr_graphs r" loaded i] by (simp add: resolved_def)
  then have "is_file (loaded ! i)" using source by (simp add: is_file_def)
  then obtain j where j: "j \<le> i" "files_by_path loaded (path_at loaded i) = Some j"
    using files_by_path_first [OF i] by blast
  show first: "files_by_path loaded (path_at loaded i) = Some i"
  proof (rule ccontr)
    assume other: "\<not> ?thesis"
    then have "i \<noteq> j" "path_at loaded j = path_at loaded i" using j files_by_path_Some [OF j(2)] by auto
    then have "\<not> clean (loaded ! i)" using load_files_loaded(3) [of i gs j] i j unfolding loaded_def by auto
    moreover have "fr_graphs r ! i = loaded ! i" using r i other unfolding resolved_def by (metis (full_types))
    ultimately show False using accepted by (simp add: without_error)
  qed
  then have "file_done t loaded r i" using resolved_done [OF r] by blast
  then show "every_graph (sound t r) (fr_graphs r ! i)"
    and "q \<in> set (file_targets t (module_refs (loaded ! i))) \<Longrightarrow> visited_file r q"
    using visited accepted by (auto simp: file_done_def)
qed

section \<open>Properties\<close>

text \<open>
  Claim C40. Resolving the modules of a library ends whatever the files refer to, cycles included: one
  unit of fuel for each file and one more is enough. It changes no head of a graph.
\<close>

theorem resolution_ends:
  "\<exists>gs'. resolve_all t gs = Some gs' \<and> map g_head gs' = map g_head gs"
proof -
  let ?start = "resolver_start gs"
  have "unvisited ?start \<subseteq> set (map (\<lambda>g. gh_path (g_head g)) gs)" by (auto simp: unvisited_def resolver_start_def)
  then have "card (unvisited ?start) \<le> length gs"
    by (metis List.finite_set card_length card_mono le_trans length_map)
  then have "visit_files (visit_file t (Suc (length gs))) [0..<length gs] ?start \<noteq> None"
    using visit_files_total [OF resolved_coherent [OF resolver_start_resolved], of "[0..<length gs]" gs "Suc (length gs)" t]
    by (simp add: resolver_start_def atLeast0LessThan)
  then obtain gs' where "resolve_all t gs = Some gs'" by (auto simp: resolve_all_def)
  then show ?thesis using resolve_all_resolved [of t gs gs'] by (auto simp: resolved_def)
qed

lemma flow_graph:
  assumes "compile_library t folder gs = Some (Inr o')" and "f \<in> set (oc_flows o')"
  obtains r g where "resolve_all t (load_files Map.empty [] gs) = Some (fr_graphs r)" "g \<in> set (fr_graphs r)"
    "co_path f = gh_path (g_head g)" "lower_graph t g = Some (Inr (co_request f))"
    "coherent r" "every_graph (sound t r) g" "map g_head (fr_graphs r) = map g_head gs"
    "\<forall>p j. fr_by r p = Some j \<longrightarrow> is_file (fr_graphs r ! j)"
proof -
  let ?loaded = "load_files Map.empty [] gs"
  obtain r where r: "resolve_all t ?loaded = Some (fr_graphs r)" "resolved t ?loaded r"
    "\<forall>i < length (fr_graphs r). is_file (fr_graphs r ! i) \<longrightarrow> fr_state r (path_at ?loaded i) = Some Visited"
    "\<forall>f \<in> set (oc_flows o'). \<exists>g \<in> set (fr_graphs r).
       co_path f = gh_path (g_head g) \<and> is_file g \<and> \<not> has_error g \<and> lower_graph t g = Some (Inr (co_request f))"
    by (rule compile_library_resolved [OF assms(1)])
  obtain g where g: "g \<in> set (fr_graphs r)" "co_path f = gh_path (g_head g)" "is_file g" "\<not> has_error g"
    "lower_graph t g = Some (Inr (co_request f))" using r(4) assms(2) by blast
  have heads: "map g_head (fr_graphs r) = map g_head ?loaded" using r(2) by (simp add: resolved_def)
  then have len: "length (fr_graphs r) = length ?loaded" by (metis length_map)
  obtain i where i: "i < length ?loaded" "g = fr_graphs r ! i" using g(1) len by (auto simp: in_set_conv_nth)
  have "every_graph (sound t r) g"
    using accepted_graph_sound(2) [OF r(2) i(1)] r(3) g i len by simp
  moreover have "is_file (fr_graphs r ! j)" if "fr_by r p = Some j" for p j
    using that r(2) files_by_path_Some [of ?loaded p j] same_heads_nth [OF heads] by (auto simp: resolved_def is_file_def)
  ultimately show thesis
    using that [of r g] r(1) g resolved_coherent [OF r(2)] heads load_files_loaded(1) [of gs] by simp
qed

text \<open>
  Claim C36. A compiled flow is closed: every edge joins two nodes of it, no two edges have the same
  source, target and type, and a branch has an edge to every node it can route to; the same holds of
  the body of every poll and loop in it.
\<close>

theorem compiled_flows_are_closed:
  assumes "compile_library t folder gs = Some (Inr o')" and "f \<in> set (oc_flows o')"
  shows "closed_flow (cf_definition (co_request f))"
proof -
  obtain r g where g: "lower_graph t g = Some (Inr (co_request f))" "every_graph (sound t r) g"
    by (rule flow_graph [OF assms])
  have "every_graph known_graph g" by (rule every_mono(1) [OF g(2)]) (simp add: sound_def)
  then show ?thesis using g(1) by (rule lowered_flow_closed)
qed


text \<open>Every call of a module in a graph names a file or a flow id, and fits the file it names.\<close>

definition calls_fit :: "'a flow_text_scheme \<Rightarrow> dsl_graph list \<Rightarrow> dsl_graph \<Rightarrow> bool" where
  "calls_fit t gs g \<longleftrightarrow>
     (\<forall>n \<in> set (g_nodes g). \<forall>m. n_spec n = ModuleSpec (Some m) \<longrightarrow>
        (case module_path t (ms_ref m) of
           OutsideLibrary \<Rightarrow> False
         | FlowIdTarget flow \<Rightarrow> ms_flow_id m = flow
         | FileTarget p \<Rightarrow> \<exists>dep \<in> set gs. is_file dep \<and> gh_path (g_head dep) = p \<and> module_fits t dep m (n_outputs n)))"


definition module_calls :: "'a flow_text_scheme \<Rightarrow> dsl_graph list \<Rightarrow> (string \<times> string) set" where
  "module_calls t gs = {(gh_path (g_head g), q) |g q. g \<in> set gs \<and> q \<in> set (file_targets t (module_refs g))}"


section \<open>A library\<close>

definition demo_flow_text :: flow_text where
  "demo_flow_text =
     \<lparr>format_float = (\<lambda>_. ''1.5''), float_v = (\<lambda>_. ''1.5''), parse_float = (\<lambda>_. Inl (PlainError ''syntax'')),
      match_string = (\<lambda>_ _. Inr False), int64_overflow = - (2 ^ 63), value_type = (\<lambda>_. ''<nil>''),
      parse_uuid = (\<lambda>s. if s = ''u1'' then Some s else None), encode_node = (\<lambda>_. None)\<rparr>"

definition demo_file :: "string \<Rightarrow> string \<Rightarrow> dsl_node list \<Rightarrow> dsl_graph" where
  "demo_file path flow ns =
     DslGraph \<lparr>gh_path = path, gh_inline = False, gh_line = 1, gh_name = path, gh_description = [], gh_role = [],
               gh_version = ''1.0'', gh_tags = [], gh_id = flow, gh_folder = [], gh_folder_line = 1, gh_inputs = [],
               gh_public = None, gh_from_steps = False, gh_injected = []\<rparr> ns [] []"

definition demo_call :: "string \<Rightarrow> node_spec" where
  "demo_call ref =
     ModuleSpec (Some \<lparr>ms_ref = ref, ms_ref_line = 1, ms_flow_id = [], ms_inputs = [], ms_explicit = False\<rparr>)"

text \<open>A file that calls a module and uses its output.\<close>

definition demo_library :: "dsl_graph list" where
  "demo_library =
     [demo_file ''a'' [] [demo_step ''c'' [''d''] [] (demo_call ''./m.flow.yaml''),
                          demo_step ''d'' [] [] (SetSpec [(''y'', GStr ''{{c.x}}'')])],
      demo_file ''m'' ''u1'' [demo_step ''s'' [] [] (SetSpec [(''x'', GInt 1)])]]"

lemma demo_compiled:
  obtains o' f where "compile_library demo_flow_text ''lib'' demo_library = Some (Inr o')" "f \<in> set (oc_flows o')"
    "co_path f = ''a''" "outcome_errors o' = []"
proof -
  have "case compile_library demo_flow_text ''lib'' demo_library of
     Some (Inr o') \<Rightarrow> map co_path (oc_flows o') = [''a'', ''m''] \<and> oc_diags o' = []
   | _ \<Rightarrow> False"
    by code_simp
  then obtain o' where o': "compile_library demo_flow_text ''lib'' demo_library = Some (Inr o')"
    "map co_path (oc_flows o') = [''a'', ''m'']" "oc_diags o' = []"
    by (auto split: option.splits sum.splits)
  have "hd (oc_flows o') \<in> set (oc_flows o')" "co_path (hd (oc_flows o')) = ''a''" using o'(2) by auto
  with o' show thesis using that by (simp add: outcome_errors_def)
qed

theorem compiled_flows_are_closed_witness:
  "\<exists>o' f. compile_library demo_flow_text ''lib'' demo_library = Some (Inr o') \<and> f \<in> set (oc_flows o') \<and>
     closed_flow (cf_definition (co_request f))"
  using demo_compiled compiled_flows_are_closed by metis




end
