(* ===== verification/Core_Value.thy ===== *)
theory Core_Value
  imports Templates "HOL-Library.AList"
begin

text \<open>
  The values, assertions and outputs of the library form of the engine (\<open>pkg/core/value\<close>,
  \<open>pkg/core/assert\<close>, \<open>pkg/core/output\<close>) and its resolution of templates in the text of a node
  (\<open>pkg/core/tmpl\<close>). A \<open>value.Value\<close> is the value it boxes, \<open>GNil\<close> the absent one; a \<open>value.Map\<close>
  is an association list with distinct names. JSONPath and the JSON codec are arguments.
\<close>

section \<open>Values\<close>

text \<open>
  What the package calls of code outside the repository and of \<open>encoding/json\<close>: \<open>parse\<close> and \<open>Select\<close>
  of a JSONPath (nothing where the path does not parse), \<open>json.Marshal\<close>, and \<open>json.Unmarshal\<close> into
  a string and into any value.
\<close>

record core_text = go_text +
  select_path :: "string \<Rightarrow> (gval \<Rightarrow> gval list) option"
  marshal :: "gval \<Rightarrow> go_error + string"
  unmarshal_string :: "string \<Rightarrow> go_error + string"
  unmarshal_any :: "string \<Rightarrow> go_error + gval"

type_synonym value_map = "(string \<times> gval) list"

abbreviation boxed :: "value_map \<Rightarrow> gval" where "boxed \<equiv> GMap"

text \<open>A nil map reads as the empty one.\<close>

definition entries :: "value_map option \<Rightarrow> value_map" where
  "entries m = (case m of None \<Rightarrow> [] | Some kvs \<Rightarrow> kvs)"

definition copy_entries :: "value_map \<Rightarrow> value_map \<Rightarrow> value_map" where
  "copy_entries dst src = fold (\<lambda>(k, v). AList.update k v) src dst"

fun member_path :: "gval \<Rightarrow> string list \<Rightarrow> gval option" where
  "member_path v [] = Some v"
| "member_path v (seg # segs) =
     (case v of
        GMap kvs \<Rightarrow> (case map_of kvs seg of None \<Rightarrow> None | Some v' \<Rightarrow> member_path v' segs)
      | _ \<Rightarrow> None)"

definition trim_dot :: "string \<Rightarrow> string" where
  "trim_dot path = (case strip_prefix ''.'' path of None \<Rightarrow> path | Some rest \<Rightarrow> rest)"

definition get_dotted :: "gval \<Rightarrow> string \<Rightarrow> gval option" where
  "get_dotted v path =
     (let p = trim_dot path in if p = [] then Some v else member_path v (split_at CHR ''.'' p))"

definition value_get :: "'a core_text_scheme \<Rightarrow> gval \<Rightarrow> string \<Rightarrow> gval option" where
  "value_get c v path =
     (if \<not> has_prefix path ''$'' then get_dotted v path
      else (case select_path c path of
              None \<Rightarrow> None
            | Some sel \<Rightarrow>
                (case sel v of [] \<Rightarrow> None | [x] \<Rightarrow> Some x | xs \<Rightarrow> Some (GList xs))))"

text \<open>\<open>Value.String\<close>: a failed \<open>json.Marshal\<close> leaves the empty text.\<close>

fun value_string :: "'a core_text_scheme \<Rightarrow> gval \<Rightarrow> string" where
  "value_string c (GStr s) = s"
| "value_string c GNil = []"
| "value_string c v = (case marshal c v of Inl e \<Rightarrow> [] | Inr t \<Rightarrow> t)"

definition value_list :: "gval \<Rightarrow> gval list option" where
  "value_list v = (case v of GList vs \<Rightarrow> Some vs | _ \<Rightarrow> None)"

definition value_json :: "'a core_text_scheme \<Rightarrow> string \<Rightarrow> gval" where
  "value_json c raw =
     (if raw = [] then GNil else (case unmarshal_any c raw of Inl e \<Rightarrow> GNil | Inr v \<Rightarrow> v))"

text \<open>\<open>jsonOrString\<close> of \<open>nodes/consts.go\<close>.\<close>

definition json_or_string :: "'a core_text_scheme \<Rightarrow> string \<Rightarrow> gval" where
  "json_or_string c raw = (case unmarshal_any c raw of Inr v \<Rightarrow> v | Inl e \<Rightarrow> GStr raw)"

section \<open>Assertions and outputs\<close>

datatype core_op =
    OpEquals | OpNotEquals | OpContains | OpNotContains | OpStartsWith | OpEndsWith | OpRegex
  | OpEmpty | OpNotEmpty | OpGreaterThan | OpLessThan | OpGTE | OpLTE | OpBetween | OpExists
  | OpOther string

fun op_text :: "core_op \<Rightarrow> string" where
  "op_text OpEquals = ''equals''"
| "op_text OpNotEquals = ''not_equals''"
| "op_text OpContains = ''contains''"
| "op_text OpNotContains = ''not_contains''"
| "op_text OpStartsWith = ''starts_with''"
| "op_text OpEndsWith = ''ends_with''"
| "op_text OpRegex = ''regex''"
| "op_text OpEmpty = ''empty''"
| "op_text OpNotEmpty = ''not_empty''"
| "op_text OpGreaterThan = ''gt''"
| "op_text OpLessThan = ''lt''"
| "op_text OpGTE = ''gte''"
| "op_text OpLTE = ''lte''"
| "op_text OpBetween = ''between''"
| "op_text OpExists = ''exists''"
| "op_text (OpOther s) = s"

record core_spec =
  sp_path :: string
  sp_op :: core_op
  sp_expected :: gval

record core_check =
  ck_spec :: core_spec
  ck_actual :: gval
  ck_passed :: bool
  ck_err :: string

definition all_passed :: "core_check list \<Rightarrow> bool" where
  "all_passed rs = list_all ck_passed rs"

definition core_float :: "'a core_text_scheme \<Rightarrow> gval \<Rightarrow> go_error + go_float" where
  "core_float c v =
     (case v of
        GFloat x \<Rightarrow> Inr x
      | GInt i \<Rightarrow> Inr (float_of_int i)
      | _ \<Rightarrow> parse_float c (value_string c v))"

definition numeric_holds :: "core_op \<Rightarrow> go_float \<Rightarrow> go_float \<Rightarrow> bool" where
  "numeric_holds op a e =
     (if op = OpGreaterThan then float_less e a
      else if op = OpLessThan then float_less a e
      else if op = OpGTE then float_le e a
      else float_le a e)"

definition core_numeric :: "'a core_text_scheme \<Rightarrow> core_op \<Rightarrow> gval \<Rightarrow> gval \<Rightarrow> go_error + bool" where
  "core_numeric c op actual expected =
     (case (core_float c actual, core_float c expected) of
        (Inr a, Inr e) \<Rightarrow> Inr (numeric_holds op a e)
      | _ \<Rightarrow> Inl (PlainError (''operator '' @ dquote (op_text op) @ '' needs numbers'')))"

definition core_between :: "'a core_text_scheme \<Rightarrow> gval \<Rightarrow> gval \<Rightarrow> go_error + bool" where
  "core_between c actual expected =
     (case value_list expected of
        Some [low, high] \<Rightarrow>
          (case (core_float c actual, core_float c low, core_float c high) of
             (Inr a, Inr lo, Inr hi) \<Rightarrow> Inr (float_le lo a \<and> float_le a hi)
           | _ \<Rightarrow> Inl (PlainError ''between needs numbers''))
      | _ \<Rightarrow> Inl (PlainError ''between needs [min, max]''))"

fun core_empty :: "gval \<Rightarrow> bool" where
  "core_empty GNil = True"
| "core_empty (GStr s) = (s = [])"
| "core_empty (GList vs) = (vs = [])"
| "core_empty (GMap kvs) = (kvs = [])"
| "core_empty _ = False"

fun core_compare :: "'a core_text_scheme \<Rightarrow> core_op \<Rightarrow> gval \<Rightarrow> gval \<Rightarrow> go_error + bool" where
  "core_compare c OpEquals a e = Inr (value_string c a = value_string c e)"
| "core_compare c OpNotEquals a e = Inr (value_string c a \<noteq> value_string c e)"
| "core_compare c OpContains a e = Inr (contains (value_string c a) (value_string c e))"
| "core_compare c OpNotContains a e = Inr (\<not> contains (value_string c a) (value_string c e))"
| "core_compare c OpStartsWith a e = Inr (has_prefix (value_string c a) (value_string c e))"
| "core_compare c OpEndsWith a e = Inr (has_prefix (rev (value_string c a)) (rev (value_string c e)))"
| "core_compare c OpRegex a e = match_string c (value_string c e) (value_string c a)"
| "core_compare c OpEmpty a e = Inr (core_empty a)"
| "core_compare c OpNotEmpty a e = Inr (\<not> core_empty a)"
| "core_compare c OpExists a e = Inr True"
| "core_compare c OpGreaterThan a e = core_numeric c OpGreaterThan a e"
| "core_compare c OpLessThan a e = core_numeric c OpLessThan a e"
| "core_compare c OpGTE a e = core_numeric c OpGTE a e"
| "core_compare c OpLTE a e = core_numeric c OpLTE a e"
| "core_compare c OpBetween a e = core_between c a e"
| "core_compare c (OpOther s) a e = Inl (PlainError (''unknown operator '' @ dquote s))"

definition core_eval :: "'a core_text_scheme \<Rightarrow> gval \<Rightarrow> core_spec \<Rightarrow> core_check" where
  "core_eval c v s =
     (let found = value_get c v (sp_path s);
          actual = (case found of None \<Rightarrow> GNil | Some x \<Rightarrow> x);
          r = \<lparr>ck_spec = s, ck_actual = actual, ck_passed = False, ck_err = []\<rparr> in
      if sp_op s = OpExists then r\<lparr>ck_passed := (found \<noteq> None)\<rparr>
      else if found = None then r\<lparr>ck_err := ''path '' @ dquote (sp_path s) @ '' not found''\<rparr>
      else (case core_compare c (sp_op s) actual (sp_expected s) of
              Inl e \<Rightarrow> r\<lparr>ck_err := error_text e\<rparr>
            | Inr passed \<Rightarrow> r\<lparr>ck_passed := passed\<rparr>))"

definition run_specs :: "'a core_text_scheme \<Rightarrow> gval \<Rightarrow> core_spec list \<Rightarrow> core_check list" where
  "run_specs c v specs = map (core_eval c v) specs"

record output_spec =
  os_name :: string
  os_path :: string

definition extract_specs :: "'a core_text_scheme \<Rightarrow> gval \<Rightarrow> output_spec list \<Rightarrow> value_map" where
  "extract_specs c v specs =
     fold (\<lambda>s out. case value_get c v (os_path s) of None \<Rightarrow> out | Some x \<Rightarrow> AList.update (os_name s) x out)
       specs []"

end
