(* ===== verification/Core_Tmpl.thy ===== *)
theory Core_Tmpl
  imports Core_Value
begin

text \<open>
  \<open>pkg/core/tmpl\<close>: the templates in the raw JSON text of a node are replaced before the text is
  decoded. The text is rewritten byte by byte; only string values with a template change. The
  dynamic variables draw from the world \<open>'w\<close> that is threaded through.
\<close>

abbreviation template_token :: string where "template_token \<equiv> [open_brace, open_brace]"
abbreviation quote_mark :: char where "quote_mark \<equiv> CHR 0x22"
abbreviation back_slash :: char where "back_slash \<equiv> CHR 0x5C"

record 'w tmpl_resolver =
  tr_view :: gval
  tr_dyn :: "'w dynamic_resolver option"

text \<open>\<open>stringEnd\<close>: how many bytes of a text after an opening quote belong to the literal.\<close>

fun string_end :: "string \<Rightarrow> nat" where
  "string_end [] = 0"
| "string_end (ch # s) =
     (if ch = back_slash then (case s of [] \<Rightarrow> 1 | d # t \<Rightarrow> 2 + string_end t)
      else if ch = quote_mark then 1
      else Suc (string_end s))"

definition is_key :: "string \<Rightarrow> bool" where
  "is_key rest =
     (case dropWhile (\<lambda>ch. of_char ch \<in> {9, 10, 13, 32 :: nat}) rest of ch # t \<Rightarrow> ch = CHR '':'' | [] \<Rightarrow> False)"

definition parse_dyn :: "string \<Rightarrow> string \<times> string list" where
  "parse_dyn s = (let parts = split_at CHR '':'' s in (hd parts, tl parts))"

definition resolve_value ::
    "'a core_text_scheme \<Rightarrow> 'w tmpl_resolver \<Rightarrow> string \<Rightarrow> 'w \<Rightarrow> gval option \<times> 'w" where
  "resolve_value c r ref w =
     (let ref = trim_space ref in
      case strip_prefix ''$'' ref of
        Some rest \<Rightarrow>
          (case tr_dyn r of
             None \<Rightarrow> (None, w)
           | Some dyn \<Rightarrow>
               (let (name, args) = parse_dyn rest in
                case dyn name args w of
                  (Inl e, w') \<Rightarrow> (None, w')
                | (Inr s, w') \<Rightarrow> (Some (GStr s), w')))
      | None \<Rightarrow> (value_get c (tr_view r) ref, w))"

text \<open>
  \<open>refPattern\<close> at the front of a text, as what is between the braces, and \<open>rawPattern\<close> over the
  whole of it. What the group captures is \<open>captured\<close>.
\<close>

definition match_ref :: "string \<Rightarrow> (string \<times> string) option" where
  "match_ref s =
     (case strip_prefix template_token s of
        None \<Rightarrow> None
      | Some t \<Rightarrow>
          (let body = takeWhile (\<lambda>ch. ch \<noteq> open_brace \<and> ch \<noteq> close_brace) t in
           if body = [] then None
           else (case strip_prefix [close_brace, close_brace] (drop (length body) t) of
                   None \<Rightarrow> None
                 | Some rest \<Rightarrow> Some (body, rest))))"

definition match_raw :: "string \<Rightarrow> string option" where
  "match_raw s =
     (case strip_prefix [open_brace] s of
        None \<Rightarrow> None
      | Some t \<Rightarrow> (case match_ref t of Some (body, rest) \<Rightarrow> if rest = [close_brace] then Some (captured body) else None
                   | None \<Rightarrow> None))"

lemma match_ref_shape:
  "match_ref s = Some (body, rest) \<Longrightarrow>
     s = template_token @ body @ [close_brace, close_brace] @ rest \<and> body \<noteq> []"
proof -
  assume "match_ref s = Some (body, rest)"
  then obtain t where t: "s = template_token @ t" and b: "body = takeWhile (\<lambda>ch. ch \<noteq> open_brace \<and> ch \<noteq> close_brace) t"
    "body \<noteq> []" and r: "drop (length body) t = [close_brace, close_brace] @ rest"
    by (auto simp: match_ref_def Let_def strip_prefix_iff split: option.splits if_splits)
  have "t = body @ drop (length body) t" by (metis b(1) takeWhile_eq_take append_take_drop_id)
  with t b r show ?thesis by simp
qed

lemma match_ref_shorter: "match_ref s = Some (body, rest) \<Longrightarrow> length rest < length s"
  by (drule match_ref_shape) auto

definition replace_ref ::
    "'a core_text_scheme \<Rightarrow> 'w tmpl_resolver \<Rightarrow> string \<Rightarrow> 'w \<Rightarrow> string \<times> 'w" where
  "replace_ref c r body w =
     (case resolve_value c r (captured body) w of
        (Some v, w') \<Rightarrow> (value_string c v, w')
      | (None, w') \<Rightarrow> (template_token @ body @ [close_brace, close_brace], w'))"

function replace_refs :: "'a core_text_scheme \<Rightarrow> 'w tmpl_resolver \<Rightarrow> string \<Rightarrow> 'w \<Rightarrow> string \<times> 'w" where
  "replace_refs c r [] w = ([], w)"
| "replace_refs c r (ch # s) w =
     (case match_ref (ch # s) of
        Some (body, rest) \<Rightarrow>
          (let (text, w1) = replace_ref c r body w; (more, w2) = replace_refs c r rest w1 in (text @ more, w2))
      | None \<Rightarrow> (let (more, w1) = replace_refs c r s w in (ch # more, w1)))"
  by pat_completeness auto
termination
  by (relation "measure (\<lambda>(c, r, s, w). length s)") (auto dest: match_ref_shorter)

declare replace_refs.simps(2) [simp del]

definition resolve_literal ::
    "'a core_text_scheme \<Rightarrow> 'w tmpl_resolver \<Rightarrow> string \<Rightarrow> 'w \<Rightarrow> gval \<times> 'w" where
  "resolve_literal c r s w =
     (if \<not> contains s template_token then (GStr s, w)
      else (case match_raw s of
              Some ref \<Rightarrow>
                (case resolve_value c r ref w of (Some v, w') \<Rightarrow> (v, w') | (None, w') \<Rightarrow> (GStr s, w'))
            | None \<Rightarrow> (let (t, w') = replace_refs c r s w in (GStr t, w'))))"

text \<open>One string value of the text: its new text, or the error of the codec.\<close>

definition resolve_span ::
    "'a core_text_scheme \<Rightarrow> 'w tmpl_resolver \<Rightarrow> string \<Rightarrow> 'w \<Rightarrow> (go_error + string) \<times> 'w" where
  "resolve_span c r lit w =
     (case unmarshal_string c lit of
        Inl e \<Rightarrow> (Inl (WrapError (''template parse: '' @ error_text e) e), w)
      | Inr s \<Rightarrow>
          (let (v, w') = resolve_literal c r s w in
           if v = GStr s then (Inr lit, w')
           else (case marshal c v of
                   Inl e \<Rightarrow> (Inl (WrapError (''template remarshal: '' @ error_text e) e), w')
                 | Inr enc \<Rightarrow> (Inr enc, w'))))"

definition copied :: "string \<Rightarrow> string \<Rightarrow> bool" where
  "copied lit rest \<longleftrightarrow>
     is_key rest \<or> (\<not> contains lit template_token \<and> \<not> contains lit [back_slash, CHR ''u''])"

function resolve_text ::
    "'a core_text_scheme \<Rightarrow> 'w tmpl_resolver \<Rightarrow> string \<Rightarrow> 'w \<Rightarrow> (go_error + string) \<times> 'w" where
  "resolve_text c r [] w = (Inr [], w)"
| "resolve_text c r (ch # s) w =
     (let lit = ch # (if ch = quote_mark then take (string_end s) s else []);
          rest = (if ch = quote_mark then drop (string_end s) s else s);
          (new, w1) = (if ch \<noteq> quote_mark \<or> copied lit rest then (Inr lit, w) else resolve_span c r lit w) in
      case new of
        Inl e \<Rightarrow> (Inl e, w1)
      | Inr text \<Rightarrow>
          (case resolve_text c r rest w1 of
             (Inl e, w2) \<Rightarrow> (Inl e, w2)
           | (Inr after, w2) \<Rightarrow> (Inr (text @ after), w2)))"
  by pat_completeness auto
termination
  by (relation "measure (\<lambda>(c, r, s, w). length s)") auto

declare resolve_text.simps(2) [simp del]

definition resolve_templates ::
    "'a core_text_scheme \<Rightarrow> gval \<Rightarrow> 'w dynamic_resolver option \<Rightarrow> string \<Rightarrow> 'w \<Rightarrow> (go_error + string) \<times> 'w" where
  "resolve_templates c view dyn raw w =
     (if \<not> contains raw template_token then (Inr raw, w)
      else resolve_text c \<lparr>tr_view = view, tr_dyn = dyn\<rparr> raw w)"

section \<open>What is left as it is\<close>

text \<open>No reference resolves, in no state of the world: no value at the path, no dynamic variable.\<close>

definition resolves_nothing :: "'a core_text_scheme \<Rightarrow> 'w tmpl_resolver \<Rightarrow> bool" where
  "resolves_nothing c r \<longleftrightarrow> (\<forall>ref w. fst (resolve_value c r ref w) = None)"

lemma resolve_value_nothing:
  "resolves_nothing c r \<Longrightarrow> \<exists>w'. resolve_value c r ref w = (None, w')"
  unfolding resolves_nothing_def by (metis prod.collapse)

lemma replace_ref_nothing:
  assumes "resolves_nothing c r"
  obtains w' where "replace_ref c r body w = (template_token @ body @ [close_brace, close_brace], w')"
  using resolve_value_nothing [OF assms, of "captured body" w] by (auto simp: replace_ref_def)

lemma replace_refs_nothing:
  assumes "resolves_nothing c r"
  shows "\<exists>w'. replace_refs c r s w = (s, w')"
  using assms
proof (induction c r s w rule: replace_refs.induct)
  case (1 c r w)
  then show ?case by simp
next
  case (2 c r ch s w)
  show ?case
  proof (cases "match_ref (ch # s)")
    case None
    with 2 show ?thesis by (fastforce simp: replace_refs.simps(2))
  next
    case (Some m)
    obtain body rest where m: "m = (body, rest)" by (cases m)
    obtain w' where w': "replace_ref c r body w = (template_token @ body @ [close_brace, close_brace], w')"
      using 2(3) by (rule replace_ref_nothing)
    obtain w2 where "replace_refs c r rest w' = (rest, w2)"
      using 2(2) [OF Some m [symmetric] w' [symmetric] refl] 2(3) by blast
    with w' Some m match_ref_shape [of "ch # s" body rest] show ?thesis
      by (simp add: replace_refs.simps(2))
  qed
qed

lemma resolve_literal_nothing:
  assumes "resolves_nothing c r"
  shows "\<exists>w'. resolve_literal c r s w = (GStr s, w')"
proof (cases "match_raw s")
  case None
  then show ?thesis using replace_refs_nothing [OF assms, of s w] by (auto simp: resolve_literal_def)
next
  case (Some ref)
  then show ?thesis using resolve_value_nothing [OF assms, of ref w] by (auto simp: resolve_literal_def)
qed

lemma resolve_span_nothing:
  assumes "resolves_nothing c r" and "\<And>l. \<exists>s. unmarshal_string c l = Inr s"
  shows "\<exists>w'. resolve_span c r lit w = (Inr lit, w')"
proof -
  obtain s where "unmarshal_string c lit = Inr s" using assms(2) by blast
  then show ?thesis using resolve_literal_nothing [OF assms(1), of s w] by (auto simp: resolve_span_def)
qed

lemma resolve_text_nothing:
  assumes "resolves_nothing c r" and "\<And>l. \<exists>s. unmarshal_string c l = Inr s"
  shows "\<exists>w'. resolve_text c r raw w = (Inr raw, w')"
  using assms
proof (induction c r raw w rule: resolve_text.induct)
  case (1 c r w)
  then show ?case by simp
next
  case (2 c r ch s w)
  define lit where "lit = ch # (if ch = quote_mark then take (string_end s) s else [])"
  define rest where "rest = (if ch = quote_mark then drop (string_end s) s else s)"
  obtain w1 where w1: "(if ch \<noteq> quote_mark \<or> copied lit rest then (Inr lit, w) else resolve_span c r lit w) = (Inr lit, w1)"
    using resolve_span_nothing [OF 2(2) 2(3), of lit w] by (cases "ch = quote_mark \<longrightarrow> copied lit rest") auto
  have "\<exists>w2. resolve_text c r rest w1 = (Inr rest, w2)"
    using 2(1) [OF lit_def rest_def w1 [symmetric] refl refl] 2(2,3) by blast
  then obtain w2 where "resolve_text c r rest w1 = (Inr rest, w2)" by blast
  then have "resolve_text c r (ch # s) w = (Inr (lit @ rest), w2)"
    using w1 by (simp only: resolve_text.simps(2) Let_def lit_def [symmetric] rest_def [symmetric]) simp
  then show ?case by (simp add: lit_def rest_def)
qed

lemma resolve_templates_nothing:
  assumes "resolves_nothing c \<lparr>tr_view = view, tr_dyn = dyn\<rparr>" and "\<And>l. \<exists>s. unmarshal_string c l = Inr s"
  shows "\<exists>w'. resolve_templates c view dyn raw w = (Inr raw, w')"
  using resolve_text_nothing [OF assms] by (simp add: resolve_templates_def)

end
