(* ===== verification/Core_Nodes.thy ===== *)
theory Core_Nodes
  imports Core_Tmpl
begin

text \<open>
  The flows and nodes of the library form of the engine: the parsed flow and its validation
  (\<open>pkg/core/flow\<close>), the typed configurations with the registry that decodes them
  (\<open>pkg/core/node\<close>), and the built-in kinds (\<open>pkg/core/nodes\<close>). The type-erased closure of the
  registry is a datatype of configurations. A node runs against a world \<open>'w\<close> through the effects
  of its runtime, and against the engine through a runner of child flows; \<open>None\<close> is a call that has
  used up the call depth it was given, or a loop over a stream that does not end.
\<close>

section \<open>Flows\<close>

record engine_node =
  en_id :: string
  en_kind :: string
  en_run_when :: string
  en_raw :: string

record engine_flow =
  ef_name :: string
  ef_version :: int
  ef_nodes :: "engine_node list"
  ef_edges :: "(string \<times> string) list"
  ef_inputs :: value_map

text \<open>What the JSON codec yields for a flow document and for the head of a node.\<close>

record flow_document =
  fd_name :: string
  fd_version :: int
  fd_nodes :: "string list"
  fd_edges :: "(string \<times> string) list"
  fd_inputs :: value_map

record head_document =
  nh_id :: string
  nh_type :: string
  nh_run_when :: string

section \<open>Node configurations\<close>

record node_base =
  eb_id :: string
  eb_assertions :: "core_spec list"
  eb_outputs :: "output_spec list"

record request_cfg = node_base +
  rq_method :: string
  rq_url :: string
  rq_headers :: "(string \<times> string) list"
  rq_body :: string
  rq_timeout_ms :: int

record delay_cfg = node_base +
  dl_duration_ms :: int

record module_cfg = node_base +
  md_body :: string
  md_inputs :: value_map

record set_variable_cfg = node_base +
  sv_variables :: "value_map option"

record loop_cfg = node_base +
  lp_items :: string
  lp_body :: string
  lp_item_var :: string
  lp_index_var :: string
  lp_max_iterations :: int
  lp_continue_on_error :: bool

record poll_cfg = node_base +
  pl_body :: string
  pl_max_attempts :: int
  pl_interval_ms :: int
  pl_timeout_ms :: int

record case_cfg =
  cs_when :: core_spec
  cs_target :: string

record branch_cfg = node_base +
  br_cases :: "case_cfg list"
  br_default :: string

record sse_cfg = node_base +
  ss_method :: string
  ss_url :: string
  ss_headers :: "(string \<times> string) list"
  ss_max_events :: int
  ss_timeout_ms :: int
  ss_completion_event :: string
  ss_stop_on_failure :: "bool option"

datatype node_cfg =
    RequestCfg request_cfg
  | DelayCfg delay_cfg
  | ModuleCfg module_cfg
  | SetVariableCfg set_variable_cfg
  | LoopCfg loop_cfg
  | PollCfg poll_cfg
  | AssertCfg node_base
  | BranchCfg branch_cfg
  | SseCfg sse_cfg

text \<open>
  \<open>json.Unmarshal\<close> into the document types above and into each configuration type, and the checks
  of \<open>http.NewRequestWithContext\<close> on a method and an address.
\<close>

record core_codec = core_text +
  unmarshal_flow :: "string \<Rightarrow> go_error + flow_document"
  unmarshal_head :: "string \<Rightarrow> go_error + head_document"
  unmarshal_request :: "string \<Rightarrow> go_error + request_cfg"
  unmarshal_delay :: "string \<Rightarrow> go_error + delay_cfg"
  unmarshal_module :: "string \<Rightarrow> go_error + module_cfg"
  unmarshal_set_variable :: "string \<Rightarrow> go_error + set_variable_cfg"
  unmarshal_loop :: "string \<Rightarrow> go_error + loop_cfg"
  unmarshal_poll :: "string \<Rightarrow> go_error + poll_cfg"
  unmarshal_assert :: "string \<Rightarrow> go_error + node_base"
  unmarshal_branch :: "string \<Rightarrow> go_error + branch_cfg"
  unmarshal_sse :: "string \<Rightarrow> go_error + sse_cfg"
  new_request :: "string \<Rightarrow> string \<Rightarrow> go_error option"

definition parse_node :: "('a core_codec_scheme) \<Rightarrow> string \<Rightarrow> go_error + engine_node" where
  "parse_node c rn =
     (case unmarshal_head c rn of
        Inl e \<Rightarrow> Inl (WrapError (''parse node head: '' @ error_text e) e)
      | Inr h \<Rightarrow>
          Inr \<lparr>en_id = nh_id h, en_kind = nh_type h,
               en_run_when = (if nh_run_when h = [] then run_when_on_success else nh_run_when h), en_raw = rn\<rparr>)"

fun parse_nodes :: "('a core_codec_scheme) \<Rightarrow> string list \<Rightarrow> go_error + engine_node list" where
  "parse_nodes c [] = Inr []"
| "parse_nodes c (rn # rns) =
     (case parse_node c rn of
        Inl e \<Rightarrow> Inl e
      | Inr n \<Rightarrow> (case parse_nodes c rns of Inl e \<Rightarrow> Inl e | Inr ns \<Rightarrow> Inr (n # ns)))"

definition current_schema_version :: int where
  "current_schema_version = 1"

definition parse_core_flow :: "('a core_codec_scheme) \<Rightarrow> string \<Rightarrow> go_error + engine_flow" where
  "parse_core_flow c b =
     (case unmarshal_flow c b of
        Inl e \<Rightarrow> Inl (WrapError (''parse flow: '' @ error_text e) e)
      | Inr raw \<Rightarrow>
          (case parse_nodes c (fd_nodes raw) of
             Inl e \<Rightarrow> Inl e
           | Inr ns \<Rightarrow>
               Inr \<lparr>ef_name = fd_name raw,
                    ef_version = (if fd_version raw = 0 then current_schema_version else fd_version raw),
                    ef_nodes = ns, ef_edges = fd_edges raw, ef_inputs = fd_inputs raw\<rparr>))"

fun check_node_ids :: "string list \<Rightarrow> engine_node list \<Rightarrow> go_error option" where
  "check_node_ids ids [] = None"
| "check_node_ids ids (n # ns) =
     (if en_id n = [] then Some (PlainError ''node with empty id'')
      else if en_id n \<in> set ids then Some (PlainError (''duplicate node id '' @ dquote (en_id n)))
      else check_node_ids (en_id n # ids) ns)"

fun check_edge_ends :: "string list \<Rightarrow> (string \<times> string) list \<Rightarrow> go_error option" where
  "check_edge_ends ids [] = None"
| "check_edge_ends ids ((source, target) # es) =
     (if source \<notin> set ids then Some (PlainError (''edge source '' @ dquote source @ '' is not a declared node''))
      else if target \<notin> set ids then Some (PlainError (''edge target '' @ dquote target @ '' is not a declared node''))
      else check_edge_ends ids es)"

definition validate_structure :: "engine_flow \<Rightarrow> go_error option" where
  "validate_structure f =
     (if ef_version f > current_schema_version then
        Some (PlainError (''flow schema version '' @ int_text (ef_version f) @
          '' is newer than this runner supports ('' @ int_text current_schema_version @ ''); upgrade the runner''))
      else (case check_node_ids [] (ef_nodes f) of
              Some e \<Rightarrow> Some e
            | None \<Rightarrow> check_edge_ends (map en_id (ef_nodes f)) (ef_edges f)))"

section \<open>The registry\<close>

definition decoded :: "string \<Rightarrow> ('c \<Rightarrow> node_cfg) \<Rightarrow> go_error + 'c \<Rightarrow> go_error + node_cfg" where
  "decoded k con r =
     (case r of Inl e \<Rightarrow> Inl (WrapError (''decode '' @ k @ '' node: '' @ error_text e) e) | Inr cfg \<Rightarrow> Inr (con cfg))"

definition decode_node :: "('a core_codec_scheme) \<Rightarrow> string \<Rightarrow> string \<Rightarrow> go_error + node_cfg" where
  "decode_node c k raw =
     (if k = ''request'' then decoded k RequestCfg (unmarshal_request c raw)
      else if k = ''delay'' then decoded k DelayCfg (unmarshal_delay c raw)
      else if k = ''module'' then decoded k ModuleCfg (unmarshal_module c raw)
      else if k = ''set_variable'' then decoded k SetVariableCfg (unmarshal_set_variable c raw)
      else if k = ''loop'' then decoded k LoopCfg (unmarshal_loop c raw)
      else if k = ''poll'' then decoded k PollCfg (unmarshal_poll c raw)
      else if k = ''assert'' then decoded k AssertCfg (unmarshal_assert c raw)
      else if k = ''branch'' then decoded k BranchCfg (unmarshal_branch c raw)
      else if k = ''sse'' then decoded k SseCfg (unmarshal_sse c raw)
      else Inl (PlainError (''unknown node kind '' @ dquote k)))"

fun cfg_base :: "node_cfg \<Rightarrow> node_base" where
  "cfg_base (RequestCfg d) = node_base.truncate d"
| "cfg_base (DelayCfg d) = node_base.truncate d"
| "cfg_base (ModuleCfg d) = node_base.truncate d"
| "cfg_base (SetVariableCfg d) = node_base.truncate d"
| "cfg_base (LoopCfg d) = node_base.truncate d"
| "cfg_base (PollCfg d) = node_base.truncate d"
| "cfg_base (AssertCfg d) = d"
| "cfg_base (BranchCfg d) = node_base.truncate d"
| "cfg_base (SseCfg d) = node_base.truncate d"

definition kind_routes :: "string \<Rightarrow> bool" where
  "kind_routes k \<longleftrightarrow> k = ''branch''"

definition kind_references :: "string \<Rightarrow> bool" where
  "kind_references k \<longleftrightarrow> k = ''module''"

definition route_targets :: "branch_cfg \<Rightarrow> string list" where
  "route_targets d =
     filter (\<lambda>t. t \<noteq> []) (map cs_target (br_cases d)) @ (if br_default d \<noteq> [] then [br_default d] else [])"

definition referenced_flows :: "module_cfg \<Rightarrow> string list" where
  "referenced_flows d = (if md_body d = [] then [] else [md_body d])"

definition cfg_targets :: "node_cfg \<Rightarrow> string list" where
  "cfg_targets cfg = (case cfg of BranchCfg d \<Rightarrow> route_targets d | _ \<Rightarrow> [])"

definition cfg_refs :: "node_cfg \<Rightarrow> string list" where
  "cfg_refs cfg = (case cfg of ModuleCfg d \<Rightarrow> referenced_flows d | _ \<Rightarrow> [])"

section \<open>The runtime of a node\<close>

text \<open>
  A Go context is the deadline it carries and the stack of child flows being run. A request is
  given by the \<open>Set\<close> calls on its headers, in order.
\<close>

record call_ctx =
  cc_deadline :: "int option"
  cc_stack :: "string list"

record core_request =
  cq_method :: string
  cq_url :: string
  cq_headers :: "(string \<times> string) list"
  cq_body :: "string option"

record core_response =
  cp_status :: int
  cp_headers :: "(string \<times> string list) list"
  cp_body :: "go_error + string"

datatype core_scan = ScanLine string | ScanStop "go_error option"

text \<open>
  \<open>HTTP.Do\<close> with the whole body read, \<open>HTTP.Do\<close> with a body that is scanned line by line (the status
  of its response, then its lines), \<open>Clock.Sleep\<close>, the dynamic variables, \<open>ctx.Err\<close> under a
  deadline, the time, and the wait between retries, which tells whether the context was done.
\<close>

record 'w node_runtime =
  http_do :: "int option \<Rightarrow> core_request \<Rightarrow> 'w \<Rightarrow> (go_error + core_response) \<times> 'w"
  http_open :: "int option \<Rightarrow> core_request \<Rightarrow> 'w \<Rightarrow> (go_error + int) \<times> 'w"
  scan_line :: "int option \<Rightarrow> 'w \<Rightarrow> core_scan \<times> 'w"
  clock_sleep :: "int option \<Rightarrow> int \<Rightarrow> 'w \<Rightarrow> go_error option \<times> 'w"
  rt_vars :: "'w dynamic_resolver option"
  ctx_err :: "int option \<Rightarrow> 'w \<Rightarrow> go_error option"
  time_now :: "'w \<Rightarrow> int"
  retry_wait :: "int option \<Rightarrow> int \<Rightarrow> 'w \<Rightarrow> bool \<times> 'w"

text \<open>\<open>SubflowRunner\<close>: a child flow by id, an inline body.\<close>

type_synonym child_result = "go_error + value_map"

record 'w subflow_runner =
  run_subflow :: "call_ctx \<Rightarrow> string \<Rightarrow> value_map \<Rightarrow> 'w \<Rightarrow> (child_result \<times> 'w) option"
  run_inline :: "call_ctx \<Rightarrow> engine_flow \<Rightarrow> value_map \<Rightarrow> 'w \<Rightarrow> (child_result \<times> 'w) option"

text \<open>\<open>time.Duration(ms) * time.Millisecond\<close>, which wraps at 64 bits, and \<open>context.WithTimeout\<close>.\<close>

definition go_millis :: "int \<Rightarrow> int" where
  "go_millis ms = (ms * 1000000 + 2 ^ 63) mod 2 ^ 64 - 2 ^ 63"

definition with_timeout :: "'w node_runtime \<Rightarrow> int \<Rightarrow> 'w \<Rightarrow> call_ctx \<Rightarrow> call_ctx" where
  "with_timeout rt d w ctx =
     ctx\<lparr>cc_deadline := Some (case cc_deadline ctx of None \<Rightarrow> time_now rt w + d | Some t \<Rightarrow> min t (time_now rt w + d))\<rparr>"

definition user_errf :: "string \<Rightarrow> string \<Rightarrow> go_error" where
  "user_errf code msg = UserError code msg None"

record node_out =
  no_outputs :: "value_map option"
  no_assert :: gval
  no_provided :: bool
  no_assertions :: "core_check list"
  no_routed :: "string list option"

definition zero_out :: node_out where
  "zero_out = \<lparr>no_outputs = None, no_assert = GNil, no_provided = False, no_assertions = [], no_routed = None\<rparr>"

type_synonym 'w node_run = "((go_error + node_out) \<times> 'w) option"

section \<open>References of assertions\<close>

definition ref_root :: "string \<Rightarrow> string" where
  "ref_root path =
     (let p = (case strip_prefix ''$'' path of None \<Rightarrow> path | Some rest \<Rightarrow> rest) in
      takeWhile (\<lambda>ch. ch \<noteq> CHR ''.'' \<and> ch \<noteq> CHR ''['') (trim_dot p))"

fun require_refs :: "'a core_text_scheme \<Rightarrow> gval \<Rightarrow> core_spec list \<Rightarrow> go_error option" where
  "require_refs c input [] = None"
| "require_refs c input (s # specs) =
     (let root = ref_root (sp_path s) in
      if root = [] then require_refs c input specs
      else (case value_get c input root of
              Some v \<Rightarrow> require_refs c input specs
            | None \<Rightarrow> Some (user_errf ''UNKNOWN_REFERENCE'' (''references unknown node or input '' @ dquote root))))"

section \<open>The built-in kinds\<close>

definition run_assert :: "'a core_text_scheme \<Rightarrow> node_base \<Rightarrow> gval \<Rightarrow> go_error + node_out" where
  "run_assert c d input =
     (case require_refs c input (eb_assertions d) of
        Some e \<Rightarrow> Inl e
      | None \<Rightarrow> Inr (zero_out\<lparr>no_assert := input, no_provided := True\<rparr>))"

fun matching_case :: "'a core_text_scheme \<Rightarrow> gval \<Rightarrow> int \<Rightarrow> case_cfg list \<Rightarrow> string \<times> int" where
  "matching_case c input i [] = ([], - 1)"
| "matching_case c input i (cs # css) =
     (if all_passed (run_specs c input [cs_when cs]) then (cs_target cs, i) else matching_case c input (i + 1) css)"

definition run_branch :: "'a core_text_scheme \<Rightarrow> branch_cfg \<Rightarrow> gval \<Rightarrow> go_error + node_out" where
  "run_branch c d input =
     (case require_refs c input (map cs_when (br_cases d)) of
        Some e \<Rightarrow> Inl e
      | None \<Rightarrow>
          (let (target, i) = matching_case c input 0 (br_cases d);
               matched = (if target = [] then br_default d else target) in
           Inr (zero_out
             \<lparr>no_outputs := Some [(''matched'', GStr matched), (''matched_index'', GInt i)],
              no_routed := Some (if matched = [] then [] else [matched])\<rparr>)))"

definition run_set_variable :: "set_variable_cfg \<Rightarrow> node_out" where
  "run_set_variable d = zero_out\<lparr>no_outputs := sv_variables d, no_provided := True\<rparr>"

definition run_delay :: "'w node_runtime \<Rightarrow> call_ctx \<Rightarrow> delay_cfg \<Rightarrow> 'w \<Rightarrow> (go_error + node_out) \<times> 'w" where
  "run_delay rt ctx d w =
     (case clock_sleep rt (cc_deadline ctx) (go_millis (dl_duration_ms d)) w of
        (Some e, w') \<Rightarrow> (Inl e, w')
      | (None, w') \<Rightarrow> (Inr (zero_out\<lparr>no_outputs := Some [(''delayed_ms'', GInt (dl_duration_ms d))]\<rparr>), w'))"

definition run_module :: "'w subflow_runner \<Rightarrow> call_ctx \<Rightarrow> module_cfg \<Rightarrow> 'w \<Rightarrow> 'w node_run" where
  "run_module sub ctx d w =
     (case run_subflow sub ctx (md_body d) (md_inputs d) w of
        None \<Rightarrow> None
      | Some (Inl e, w') \<Rightarrow> Some (Inl e, w')
      | Some (Inr outs, w') \<Rightarrow> Some (Inr (zero_out\<lparr>no_outputs := Some outs\<rparr>), w'))"

definition header_map :: "(string \<times> string list) list \<Rightarrow> value_map" where
  "header_map h =
     fold (\<lambda>(k, vs) out. case vs of [] \<Rightarrow> out | v # _ \<Rightarrow> AList.update (map ascii_lower k) (GStr v) out) h []"

definition request_error :: "string \<Rightarrow> go_error \<Rightarrow> go_error" where
  "request_error what e = user_errf ''REQUEST_FAILED'' (what @ '': '' @ error_text e)"

definition run_request ::
    "('a core_codec_scheme) \<Rightarrow> 'w node_runtime \<Rightarrow> call_ctx \<Rightarrow> request_cfg \<Rightarrow> 'w \<Rightarrow> (go_error + node_out) \<times> 'w" where
  "run_request c rt ctx d w =
     (let ctx = (if 0 < rq_timeout_ms d then with_timeout rt (go_millis (rq_timeout_ms d)) w ctx else ctx);
          verb = (if rq_method d = [] then ''GET'' else rq_method d) in
      case new_request c verb (rq_url d) of
        Some e \<Rightarrow> (Inl (request_error ''build request'' e), w)
      | None \<Rightarrow>
          (case http_do rt (cc_deadline ctx)
                  \<lparr>cq_method = verb, cq_url = rq_url d, cq_headers = rq_headers d,
                   cq_body = (if rq_body d = [] then None else Some (rq_body d))\<rparr> w of
             (Inl e, w') \<Rightarrow> (Inl (request_error ''http'' e), w')
           | (Inr resp, w') \<Rightarrow>
               (case cp_body resp of
                  Inl e \<Rightarrow> (Inl (request_error ''read body'' e), w')
                | Inr raw \<Rightarrow>
                    (Inr (zero_out
                       \<lparr>no_outputs := Some [(''status'', GInt (cp_status resp)), (''headers'', GMap (header_map (cp_headers resp))),
                                           (''body'', json_or_string c raw)],
                        no_provided := True\<rparr>), w'))))"

section \<open>Loop and poll\<close>

definition or_default :: "string \<Rightarrow> string \<Rightarrow> string" where
  "or_default s d = (if s = [] then d else s)"

definition iteration_inputs :: "loop_cfg \<Rightarrow> nat \<Rightarrow> gval \<Rightarrow> value_map" where
  "iteration_inputs d i item =
     AList.update (or_default (lp_index_var d) ''index'') (GInt (int i)) [(or_default (lp_item_var d) ''item'', item)]"

definition loop_count :: "loop_cfg \<Rightarrow> gval list \<Rightarrow> nat" where
  "loop_count d items =
     (if 0 < lp_max_iterations d \<and> lp_max_iterations d < int (length items) then nat (lp_max_iterations d) else length items)"

fun run_iterations ::
    "'w node_runtime \<Rightarrow> 'w subflow_runner \<Rightarrow> call_ctx \<Rightarrow> loop_cfg \<Rightarrow> engine_flow \<Rightarrow> nat \<Rightarrow> gval list \<Rightarrow> gval list \<Rightarrow> 'w \<Rightarrow>
     ((go_error + gval list) \<times> 'w) option" where
  "run_iterations rt sub ctx d body i [] results w = Some (Inr results, w)"
| "run_iterations rt sub ctx d body i (item # items) results w =
     (case ctx_err rt (cc_deadline ctx) w of
        Some e \<Rightarrow> Some (Inl e, w)
      | None \<Rightarrow>
          (case run_inline sub ctx body (iteration_inputs d i item) w of
             None \<Rightarrow> None
           | Some (Inl e, w') \<Rightarrow>
               if lp_continue_on_error d then
                 run_iterations rt sub ctx d body (Suc i) items
                   (results @ [GMap [(''index'', GInt (int i)), (''error'', GStr (error_text e))]]) w'
               else Some (Inl (user_errf ''LOOP_FAILED''
                      (''loop iteration '' @ nat_text i @ '' failed: '' @ error_text e)), w')
           | Some (Inr outs, w') \<Rightarrow>
               run_iterations rt sub ctx d body (Suc i) items (results @ [boxed outs]) w'))"

definition run_loop ::
    "('a core_codec_scheme) \<Rightarrow> 'w node_runtime \<Rightarrow> 'w subflow_runner \<Rightarrow> call_ctx \<Rightarrow> loop_cfg \<Rightarrow> 'w \<Rightarrow> 'w node_run" where
  "run_loop c rt sub ctx d w =
     (case value_list (value_json c (lp_items d)) of
        None \<Rightarrow> Some (Inl (user_errf ''LOOP_FAILED'' ''loop items must resolve to a list''), w)
      | Some items \<Rightarrow>
          (case parse_core_flow c (lp_body d) of
             Inl e \<Rightarrow> Some (Inl (user_errf ''LOOP_FAILED'' (''loop body: '' @ error_text e)), w)
           | Inr body \<Rightarrow>
               (case run_iterations rt sub ctx d body 0 (take (loop_count d items) items) [] w of
                  None \<Rightarrow> None
                | Some (Inl e, w') \<Rightarrow> Some (Inl e, w')
                | Some (Inr results, w') \<Rightarrow>
                    Some (Inr (zero_out
                      \<lparr>no_outputs := Some [(''results'', GList results), (''count'', GInt (int (length results)))],
                       no_provided := True\<rparr>), w'))))"

definition poll_err :: "'w node_runtime \<Rightarrow> call_ctx \<Rightarrow> nat \<Rightarrow> go_error \<Rightarrow> 'w \<Rightarrow> go_error" where
  "poll_err rt ctx attempt fallback w =
     (if ctx_err rt (cc_deadline ctx) w = Some ContextDeadlineExceeded
      then user_errf ''POLL_TIMEOUT'' (''poll timed out on attempt '' @ nat_text attempt) else fallback)"

definition poll_attempt_limit :: "poll_cfg \<Rightarrow> nat" where
  "poll_attempt_limit d = (if pl_max_attempts d \<le> 0 then 10 else nat (pl_max_attempts d))"

definition poll_pause :: "poll_cfg \<Rightarrow> int" where
  "poll_pause d = (if 0 < pl_interval_ms d then go_millis (pl_interval_ms d) else 1000000000)"

definition poll_success :: "nat \<Rightarrow> value_map \<Rightarrow> core_check list \<Rightarrow> node_out" where
  "poll_success attempt outs results =
     zero_out\<lparr>no_outputs := Some [(''attempts'', GInt (int attempt)), (''result'', boxed outs)], no_assertions := results\<rparr>"

text \<open>The attempts from one on, with those that are left after it.\<close>

fun poll_from ::
    "'a core_text_scheme \<Rightarrow> 'w node_runtime \<Rightarrow> 'w subflow_runner \<Rightarrow> call_ctx \<Rightarrow> poll_cfg \<Rightarrow> engine_flow \<Rightarrow> nat \<Rightarrow> nat \<Rightarrow> 'w \<Rightarrow>
     'w node_run" where
  "poll_from c rt sub ctx d body attempt left w =
     (case run_inline sub ctx body [(''attempt'', GInt (int attempt))] w of
        None \<Rightarrow> None
      | Some (Inl e, w') \<Rightarrow>
          Some (Inl (poll_err rt ctx attempt (user_errf ''POLL_BODY_FAILED''
            (''poll body failed on attempt '' @ nat_text attempt @ '': '' @ error_text e)) w'), w')
      | Some (Inr outs, w') \<Rightarrow>
          (let results = run_specs c (boxed outs) (eb_assertions d) in
           if all_passed results then Some (Inr (poll_success attempt outs results), w')
           else (case left of
                   0 \<Rightarrow> Some (Inl (user_errf ''POLL_CONDITION_NOT_MET''
                          (''poll exit condition not met after '' @ nat_text (poll_attempt_limit d) @ '' attempts'')), w')
                 | Suc rest \<Rightarrow>
                     (case clock_sleep rt (cc_deadline ctx) (poll_pause d) w' of
                        (Some e, w2) \<Rightarrow> Some (Inl (poll_err rt ctx attempt e w2), w2)
                      | (None, w2) \<Rightarrow> poll_from c rt sub ctx d body (Suc attempt) rest w2))))"

declare poll_from.simps [simp del]

definition run_poll ::
    "('a core_codec_scheme) \<Rightarrow> 'w node_runtime \<Rightarrow> 'w subflow_runner \<Rightarrow> call_ctx \<Rightarrow> poll_cfg \<Rightarrow> 'w \<Rightarrow> 'w node_run" where
  "run_poll c rt sub ctx d w =
     (if eb_assertions d = [] then Some (Inl (user_errf ''POLL_FAILED'' ''poll needs at least one exit condition''), w)
      else (case parse_core_flow c (pl_body d) of
              Inl e \<Rightarrow> Some (Inl (user_errf ''POLL_FAILED'' (''poll body: '' @ error_text e)), w)
            | Inr body \<Rightarrow>
                (let ctx = (if 0 < pl_timeout_ms d then with_timeout rt (go_millis (pl_timeout_ms d)) w ctx else ctx) in
                 poll_from c rt sub ctx d body 1 (poll_attempt_limit d - 1) w)))"

section \<open>Event streams\<close>

record stream_parser =
  pr_data_lines :: "string list"
  pr_event_name :: string

definition sse_field :: "string \<Rightarrow> string \<times> string" where
  "sse_field line =
     (let field = takeWhile (\<lambda>ch. ch \<noteq> CHR '':'') line in
      case drop (length field) line of
        [] \<Rightarrow> (line, [])
      | _ # val \<Rightarrow> (field, case strip_prefix '' '' val of None \<Rightarrow> val | Some rest \<Rightarrow> rest))"

text \<open>\<open>feed\<close>: the data and the name of the event a blank line completes.\<close>

definition feed_line :: "stream_parser \<Rightarrow> string \<Rightarrow> stream_parser \<times> (string \<times> string) option" where
  "feed_line p line =
     (if has_prefix line '':'' then (p, None)
      else if line \<noteq> [] then
        (let (field, val) = sse_field line in
         (if field = ''data'' then p\<lparr>pr_data_lines := pr_data_lines p @ [val]\<rparr>
          else if field = ''event'' then p\<lparr>pr_event_name := val\<rparr> else p, None))
      else if pr_data_lines p = [] then (p\<lparr>pr_event_name := []\<rparr>, None)
      else (\<lparr>pr_data_lines = [], pr_event_name = []\<rparr>,
            Some (join_with [CHR 0x0A] (pr_data_lines p), pr_event_name p)))"

definition sse_max_events :: "sse_cfg \<Rightarrow> nat" where
  "sse_max_events d = (if ss_max_events d \<le> 0 then 100 else nat (ss_max_events d))"

definition sse_stops_on_failure :: "sse_cfg \<Rightarrow> bool" where
  "sse_stops_on_failure d = (case ss_stop_on_failure d of None \<Rightarrow> True | Some b \<Rightarrow> b)"

definition sse_event_stop ::
    "sse_cfg \<Rightarrow> core_check list \<Rightarrow> string \<Rightarrow> string \<Rightarrow> nat \<Rightarrow> (string \<times> go_error option) option" where
  "sse_event_stop d results data name count =
     (if eb_assertions d \<noteq> [] \<and> \<not> all_passed results \<and> sse_stops_on_failure d then
        Some (''assertion_failure'', Some (user_errf ''SSE_FAILED'' (''sse assertion failed at event '' @ nat_text (count - 1))))
      else if ss_completion_event d \<noteq> [] \<and> (name = ss_completion_event d \<or> data = ss_completion_event d) then
        Some (''completion_event'', None)
      else if sse_max_events d \<le> count then Some (''max_events'', None)
      else None)"

type_synonym stream_read = "gval list \<times> core_check list \<times> string \<times> go_error option"

text \<open>\<open>readSseStream\<close>: a stream whose lines never end keeps it reading.\<close>

partial_function (option) read_stream ::
    "'a core_text_scheme \<Rightarrow> 'w node_runtime \<Rightarrow> int option \<Rightarrow> sse_cfg \<Rightarrow> stream_parser \<Rightarrow> gval list \<Rightarrow> core_check list \<Rightarrow> 'w \<Rightarrow>
     (stream_read \<times> 'w) option" where
  "read_stream c rt dl d p events results w =
     (case scan_line rt dl w of
        (ScanStop err, w') \<Rightarrow> Some ((events, results, ''eof'', err), w')
      | (ScanLine line, w') \<Rightarrow>
          (case feed_line p line of
             (p', None) \<Rightarrow> read_stream c rt dl d p' events results w'
           | (p', Some (data, name)) \<Rightarrow>
               (let parsed = json_or_string c data;
                    events' = events @ [parsed];
                    new = (if eb_assertions d \<noteq> [] then run_specs c parsed (eb_assertions d) else []) in
                case sse_event_stop d new data name (length events') of
                  Some (reason, err) \<Rightarrow> Some ((events', results @ new, reason, err), w')
                | None \<Rightarrow> read_stream c rt dl d p' events' (results @ new) w')))"

definition stream_request :: "sse_cfg \<Rightarrow> core_request" where
  "stream_request d =
     \<lparr>cq_method = or_default (ss_method d) ''GET'', cq_url = ss_url d,
      cq_headers = (''Accept'', ''text/event-stream'') # (''Cache-Control'', ''no-cache'') # ss_headers d, cq_body = None\<rparr>"

definition sse_error :: "string \<Rightarrow> go_error \<Rightarrow> go_error" where
  "sse_error what e = user_errf ''SSE_FAILED'' (''sse '' @ what @ '': '' @ error_text e)"

definition sse_connect :: "('a core_codec_scheme) \<Rightarrow> 'w node_runtime \<Rightarrow> int option \<Rightarrow> sse_cfg \<Rightarrow> 'w \<Rightarrow> go_error option \<times> 'w" where
  "sse_connect c rt dl d w =
     (case new_request c (cq_method (stream_request d)) (ss_url d) of
        Some e \<Rightarrow> (Some (sse_error ''build request'' e), w)
      | None \<Rightarrow>
          (case http_open rt dl (stream_request d) w of
             (Inl e, w') \<Rightarrow> (Some (sse_error ''connect'' e), w')
           | (Inr status, w') \<Rightarrow>
               (if status < 200 \<or> 300 \<le> status
                then Some (user_errf ''SSE_FAILED'' (''sse non-2xx status '' @ int_text status)) else None, w')))"

definition sse_out :: "gval list \<Rightarrow> core_check list \<Rightarrow> string \<Rightarrow> node_out" where
  "sse_out events results reason =
     zero_out\<lparr>no_outputs := Some [(''events'', GList events), (''count'', GInt (int (length events))),
                (''last'', if events = [] then GNil else last events), (''stop_reason'', GStr reason)],
              no_assertions := results\<rparr>"

definition sse_outcome :: "bool \<Rightarrow> stream_read \<Rightarrow> go_error + node_out" where
  "sse_outcome timed_out r =
     (case r of
        (events, results, reason, Some err) \<Rightarrow>
          if reason = ''assertion_failure'' then Inl err
          else if \<not> timed_out then Inl (sse_error ''read'' err)
          else Inr (sse_out events results ''timeout'')
      | (events, results, reason, None) \<Rightarrow> Inr (sse_out events results (if timed_out then ''timeout'' else reason)))"

definition run_sse :: "('a core_codec_scheme) \<Rightarrow> 'w node_runtime \<Rightarrow> call_ctx \<Rightarrow> sse_cfg \<Rightarrow> 'w \<Rightarrow> 'w node_run" where
  "run_sse c rt ctx d w =
     (let ctx = with_timeout rt (if 0 < ss_timeout_ms d then go_millis (ss_timeout_ms d) else 30000000000) w ctx;
          dl = cc_deadline ctx in
      case sse_connect c rt dl d w of
        (Some e, w') \<Rightarrow> Some (Inl e, w')
      | (None, w') \<Rightarrow>
          (case read_stream c rt dl d \<lparr>pr_data_lines = [], pr_event_name = []\<rparr> [] [] w' of
             None \<Rightarrow> None
           | Some (r, w2) \<Rightarrow> Some (sse_outcome (ctx_err rt dl w2 = Some ContextDeadlineExceeded) r, w2)))"

text \<open>A decoded node's \<open>Run\<close>.\<close>

fun run_cfg ::
    "('a core_codec_scheme) \<Rightarrow> 'w node_runtime \<Rightarrow> 'w subflow_runner \<Rightarrow> gval \<Rightarrow> call_ctx \<Rightarrow> node_cfg \<Rightarrow> 'w \<Rightarrow> 'w node_run" where
  "run_cfg c rt sub input ctx (RequestCfg d) w = Some (run_request c rt ctx d w)"
| "run_cfg c rt sub input ctx (DelayCfg d) w = Some (run_delay rt ctx d w)"
| "run_cfg c rt sub input ctx (ModuleCfg d) w = run_module sub ctx d w"
| "run_cfg c rt sub input ctx (SetVariableCfg d) w = Some (Inr (run_set_variable d), w)"
| "run_cfg c rt sub input ctx (LoopCfg d) w = run_loop c rt sub ctx d w"
| "run_cfg c rt sub input ctx (PollCfg d) w = run_poll c rt sub ctx d w"
| "run_cfg c rt sub input ctx (AssertCfg d) w = Some (run_assert c d input, w)"
| "run_cfg c rt sub input ctx (BranchCfg d) w = Some (run_branch c d input, w)"
| "run_cfg c rt sub input ctx (SseCfg d) w = run_sse c rt ctx d w"

section \<open>Runs return\<close>

text \<open>
  Streams end when no sequence of lines goes on forever; a child runner answers when it returns on
  every call it is given. Then every node returns.
\<close>

definition streams_end :: "'w node_runtime \<Rightarrow> bool" where
  "streams_end rt \<longleftrightarrow> wf {(w', w) |w' w. \<exists>dl line. scan_line rt dl w = (ScanLine line, w')}"

lemma read_stream_returns:
  assumes "streams_end rt"
  shows "read_stream c rt dl d p events results w \<noteq> None"
proof -
  have "\<forall>p events results. read_stream c rt dl d p events results w \<noteq> None"
    using assms unfolding streams_end_def
  proof (induction w rule: wf_induct_rule)
    case (less w)
    show ?case
    proof (intro allI)
      fix p events results
      show "read_stream c rt dl d p events results w \<noteq> None"
      proof (cases "scan_line rt dl w")
        case (Pair sc w')
        show ?thesis
        proof (cases sc)
          case (ScanStop err)
          with Pair show ?thesis by (subst read_stream.simps) simp
        next
          case (ScanLine line)
          with Pair less have ih: "read_stream c rt dl d p' ev rs w' \<noteq> None" for p' ev rs by blast
          show ?thesis using ScanLine Pair
            by (subst read_stream.simps) (simp add: Let_def ih del: not_None_eq split: option.split prod.split)
        qed
      qed
    qed
  qed
  then show ?thesis by blast
qed

end
