(* ===== verification/Core_Engine.thy ===== *)
theory Core_Engine
  imports Core_Nodes
begin

text \<open>
  The library form of the engine (\<open>pkg/core/engine\<close>): the checks before a run, the scheduler that
  drains a sorted queue of ready nodes one at a time, the run of one node with its templates, its
  assertions and outputs and the middleware around them, and the recursion into child flows. The
  engine is its own runner of child flows: \<open>engine_at n\<close> runs flows whose child flows nest up to \<open>n\<close>
  deep, and returns \<open>None\<close> where a call goes deeper.
\<close>

section \<open>Results and events\<close>

datatype node_status = StatusSuccess | StatusFailed | StatusSkipped

record node_result =
  nr_id :: string
  nr_kind :: string
  nr_status :: node_status
  nr_outputs :: "value_map option"
  nr_assertions :: "core_check list"
  nr_error :: string
  nr_code :: string
  nr_skip_reason :: string

record flow_result =
  er_success :: bool
  er_nodes :: "string \<rightharpoonup> node_result"
  er_outputs :: value_map
  er_error :: string
  er_code :: string

text \<open>A flow event points to the flow's result, which is still empty when the flow starts.\<close>

datatype core_event =
    FlowStarted
  | NodeBegan string
  | NodeCompleted string node_result
  | NodeFailed string node_result
  | FlowCompleted flow_result
  | FlowFailed flow_result

definition emit :: "bool \<Rightarrow> core_event \<Rightarrow> core_event list \<Rightarrow> core_event list" where
  "emit obs ev evs = (if obs then evs @ [ev] else evs)"

section \<open>The scheduler\<close>

datatype node_state = StatePending | StateDone | StateFailed

record core_scheduler =
  es_node :: "string \<rightharpoonup> engine_node"
  es_indeg :: "string \<Rightarrow> int"
  es_succ :: "string \<Rightarrow> string list"
  es_preds :: "string \<Rightarrow> string list"
  es_store :: "string \<rightharpoonup> value_map"
  es_view :: value_map
  es_state :: "string \<Rightarrow> node_state"
  es_dead :: "(string \<times> string) set"
  es_main_failed :: bool
  es_processed :: nat
  es_ready :: "string list"
  es_result :: flow_result
  es_events :: "core_event list"

definition overlay_inputs :: "value_map \<Rightarrow> value_map \<Rightarrow> value_map" where
  "overlay_inputs defaults override = (if defaults = [] then override else copy_entries defaults override)"

definition edge_succ :: "(string \<times> string) list \<Rightarrow> string \<Rightarrow> string list" where
  "edge_succ es i = map snd (filter (\<lambda>e. fst e = i) es)"

definition edge_preds :: "(string \<times> string) list \<Rightarrow> string \<Rightarrow> string list" where
  "edge_preds es i = map fst (filter (\<lambda>e. snd e = i) es)"

definition new_scheduler :: "engine_flow \<Rightarrow> value_map \<Rightarrow> flow_result \<Rightarrow> core_event list \<Rightarrow> core_scheduler" where
  "new_scheduler f inputs fr evs =
     (let es = ef_edges f; ids = map en_id (ef_nodes f); indeg = (\<lambda>i. int (length (edge_preds es i)));
          merged = overlay_inputs (ef_inputs f) inputs in
      \<lparr>es_node = map_of (rev (map (\<lambda>n. (en_id n, n)) (ef_nodes f))),
       es_indeg = indeg, es_succ = edge_succ es, es_preds = edge_preds es,
       es_store = [[] \<mapsto> merged], es_view = merged, es_state = (\<lambda>i. StatePending), es_dead = {},
       es_main_failed = False, es_processed = 0,
       es_ready = sort (if es = [] then ids else filter (\<lambda>i. indeg i = 0) ids),
       es_result = fr, es_events = evs\<rparr>)"

text \<open>A lookup of an unknown node yields Go's zero node.\<close>

definition node_of :: "core_scheduler \<Rightarrow> string \<Rightarrow> engine_node" where
  "node_of s i =
     (case es_node s i of None \<Rightarrow> \<lparr>en_id = [], en_kind = [], en_run_when = [], en_raw = []\<rparr> | Some n \<Rightarrow> n)"

definition is_always :: "engine_node \<Rightarrow> bool" where
  "is_always n \<longleftrightarrow> en_run_when n = run_when_always"

text \<open>The pass over the predecessors: whether one is live, and the reason so far.\<close>

fun scan_preds :: "core_scheduler \<Rightarrow> string \<Rightarrow> bool \<Rightarrow> string \<Rightarrow> string list \<Rightarrow> bool \<times> string" where
  "scan_preds s i live reason [] = (live, reason)"
| "scan_preds s i live reason (p # ps) =
     (if es_state s p = StateDone \<and> (p, i) \<notin> es_dead s then scan_preds s i True reason ps
      else if es_state s p = StateFailed then scan_preds s i live ''dependency_failed'' ps
      else if es_state s p = StateDone \<and> (p, i) \<in> es_dead s then
        scan_preds s i live (if reason = ''dependency_skipped'' then ''routed_away_by_branch'' else reason) ps
      else scan_preds s i live reason ps)"

text \<open>\<open>classify\<close>: nothing where the node runs, the reason where it is skipped.\<close>

definition classify_node :: "core_scheduler \<Rightarrow> string \<Rightarrow> bool \<Rightarrow> string option" where
  "classify_node s i always =
     (if es_preds s i = [] then None
      else (let (live, reason) = scan_preds s i False ''dependency_skipped'' (es_preds s i) in
            if live then (if \<not> always \<and> es_main_failed s then Some ''aborted_after_failure'' else None)
            else if always then Some ''missing_inputs'' else Some reason))"

fun release_succ :: "string list \<Rightarrow> (string \<Rightarrow> int) \<Rightarrow> string list \<Rightarrow> (string \<Rightarrow> int) \<times> string list" where
  "release_succ [] indeg queue = (indeg, queue)"
| "release_succ (i # is) indeg queue =
     (let indeg' = indeg(i := indeg i - 1) in
      release_succ is indeg' (if indeg' i = 0 then queue @ [i] else queue))"

definition release_node :: "string \<Rightarrow> core_scheduler \<Rightarrow> core_scheduler" where
  "release_node i s =
     (let (indeg, queue) = release_succ (es_succ s i) (es_indeg s) (es_ready s) in
      s\<lparr>es_indeg := indeg,
        es_ready := (if length queue > length (es_ready s) \<and> length queue > 1 then sort queue else queue)\<rparr>)"

definition record_routing :: "string \<Rightarrow> string list option \<Rightarrow> core_scheduler \<Rightarrow> core_scheduler" where
  "record_routing i routed s =
     (case routed of
        None \<Rightarrow> s
      | Some taken \<Rightarrow> s\<lparr>es_dead := es_dead s \<union> set (map (\<lambda>t. (i, t)) (filter (\<lambda>t. t \<notin> set taken) (es_succ s i)))\<rparr>)"

definition put_result :: "string \<Rightarrow> node_result \<Rightarrow> core_scheduler \<Rightarrow> core_scheduler" where
  "put_result i nr s = s\<lparr>es_result := (es_result s)\<lparr>er_nodes := (er_nodes (es_result s))(i \<mapsto> nr)\<rparr>\<rparr>"

definition emitted :: "bool \<Rightarrow> core_event \<Rightarrow> core_scheduler \<Rightarrow> core_scheduler" where
  "emitted obs ev s = s\<lparr>es_events := emit obs ev (es_events s)\<rparr>"

definition start_node :: "string \<Rightarrow> core_scheduler \<Rightarrow> core_scheduler" where
  "start_node i s = s\<lparr>es_ready := tl (es_ready s), es_processed := Suc (es_processed s)\<rparr>"

definition skip_ready :: "bool \<Rightarrow> string \<Rightarrow> string \<Rightarrow> core_scheduler \<Rightarrow> core_scheduler" where
  "skip_ready obs i reason s =
     (let nr = \<lparr>nr_id = i, nr_kind = en_kind (node_of s i), nr_status = StatusSkipped, nr_outputs = None,
                nr_assertions = [], nr_error = [], nr_code = [], nr_skip_reason = reason\<rparr> in
      release_node i (emitted obs (NodeCompleted i nr) (put_result i nr s)))"

text \<open>The first failure of the main phase gives the flow its code and message.\<close>

definition fail_main :: "string \<Rightarrow> string \<Rightarrow> string \<Rightarrow> core_scheduler \<Rightarrow> core_scheduler" where
  "fail_main i code msg s =
     (let fr = (es_result s)\<lparr>er_success := False\<rparr> in
      s\<lparr>es_main_failed := True,
        es_result := (if er_code fr = []
                      then fr\<lparr>er_code := code, er_error := ''node '' @ dquote i @ '': '' @ msg\<rparr> else fr)\<rparr>)"

definition fail_node ::
    "bool \<Rightarrow> string \<Rightarrow> go_error \<Rightarrow> node_out \<Rightarrow> core_check list \<Rightarrow> core_scheduler \<Rightarrow> core_scheduler" where
  "fail_node obs i e res checks s =
     (let code = (if error_code e = [] then ''RUNNER_ERROR'' else error_code e);
          nr = \<lparr>nr_id = i, nr_kind = en_kind (node_of s i), nr_status = StatusFailed, nr_outputs = no_outputs res,
                nr_assertions = checks, nr_error = error_text e, nr_code = code, nr_skip_reason = []\<rparr>;
          s1 = (put_result i nr s)\<lparr>es_state := (es_state s)(i := StateFailed)\<rparr>;
          s2 = (if is_always (node_of s i) then s1 else fail_main i code (error_text e) s1) in
      release_node i (emitted obs (NodeFailed i nr) s2))"

definition complete_node ::
    "bool \<Rightarrow> string \<Rightarrow> node_out \<Rightarrow> core_check list \<Rightarrow> core_scheduler \<Rightarrow> core_scheduler" where
  "complete_node obs i res checks s =
     (let outs = entries (no_outputs res);
          nr = \<lparr>nr_id = i, nr_kind = en_kind (node_of s i), nr_status = StatusSuccess, nr_outputs = no_outputs res,
                nr_assertions = checks, nr_error = [], nr_code = [], nr_skip_reason = []\<rparr>;
          s1 = s\<lparr>es_store := (es_store s)(i \<mapsto> outs), es_view := AList.update i (boxed outs) (es_view s),
                 es_state := (es_state s)(i := StateDone)\<rparr> in
      release_node i (record_routing i (no_routed res) (emitted obs (NodeCompleted i nr) (put_result i nr s1))))"

text \<open>What a node is run with, and what its run yields: result, assertion results, error.\<close>

type_synonym node_verdict = "node_out \<times> core_check list \<times> go_error option"
type_synonym 'w node_runner = "engine_node \<Rightarrow> gval \<Rightarrow> 'w \<Rightarrow> (node_verdict \<times> 'w) option"

definition step_node ::
    "'w node_runner \<Rightarrow> bool \<Rightarrow> string \<Rightarrow> core_scheduler \<Rightarrow> 'w \<Rightarrow> (core_scheduler \<times> 'w) option" where
  "step_node run obs i s w =
     (let s1 = start_node i s; n = node_of s1 i in
      case classify_node s1 i (is_always n) of
        Some reason \<Rightarrow> Some (skip_ready obs i reason s1, w)
      | None \<Rightarrow>
          (let s2 = emitted obs (NodeBegan i) s1 in
           case run n (boxed (es_view s2)) w of
             None \<Rightarrow> None
           | Some ((res, checks, Some e), w') \<Rightarrow> Some (fail_node obs i e res checks s2, w')
           | Some ((res, checks, None), w') \<Rightarrow> Some (complete_node obs i res checks s2, w')))"

text \<open>The loop over the queue, which a done context ends.\<close>

partial_function (option) drain_ready ::
    "'w node_runner \<Rightarrow> ('w \<Rightarrow> go_error option) \<Rightarrow> bool \<Rightarrow> core_scheduler \<Rightarrow> 'w \<Rightarrow>
     (go_error option \<times> core_scheduler \<times> 'w) option" where
  "drain_ready run done_err obs s w =
     (case es_ready s of
        [] \<Rightarrow> Some (None, s, w)
      | i # rest \<Rightarrow>
          (case done_err w of
             Some e \<Rightarrow> Some (Some e, s, w)
           | None \<Rightarrow>
               (case step_node run obs i s w of
                  None \<Rightarrow> None
                | Some (s', w') \<Rightarrow> drain_ready run done_err obs s' w')))"

declare drain_ready.simps [code]

text \<open>
  \<open>collect\<close>: the outputs of every node that has some, under its id. The order of Go's map is open;
  the model takes the order of the flow's nodes.
\<close>

definition collect_outputs :: "engine_flow \<Rightarrow> core_scheduler \<Rightarrow> value_map" where
  "collect_outputs f s =
     map (\<lambda>i. (i, case map_of (es_view s) i of None \<Rightarrow> GNil | Some v \<Rightarrow> v))
       (filter (\<lambda>i. i \<noteq> [] \<and> es_store s i \<noteq> None) (map en_id (ef_nodes f)))"

abbreviation flow_validation_code :: string where "flow_validation_code \<equiv> ''FLOW_VALIDATION_FAILED''"

definition close_run :: "engine_flow \<Rightarrow> go_error option \<Rightarrow> core_scheduler \<Rightarrow> flow_result" where
  "close_run f cancelled s =
     (let fr = (es_result s)\<lparr>er_outputs := collect_outputs f s\<rparr> in
      case cancelled of
        Some e \<Rightarrow> fr\<lparr>er_success := False, er_error := ''flow cancelled: '' @ error_text e, er_code := ''CANCELLED''\<rparr>
      | None \<Rightarrow>
          if es_processed s \<noteq> length (ef_nodes f) then
            fr\<lparr>er_success := False,
               er_error := ''cycle or unreachable nodes: processed '' @ nat_text (es_processed s) @
                           '' of '' @ nat_text (length (ef_nodes f)),
               er_code := flow_validation_code\<rparr>
          else fr)"

definition schedule_flow ::
    "'w node_runner \<Rightarrow> ('w \<Rightarrow> go_error option) \<Rightarrow> bool \<Rightarrow> engine_flow \<Rightarrow> value_map \<Rightarrow> flow_result \<Rightarrow> core_event list \<Rightarrow>
     'w \<Rightarrow> (flow_result \<times> core_event list \<times> 'w) option" where
  "schedule_flow run done_err obs f inputs fr evs w =
     (case drain_ready run done_err obs (new_scheduler f inputs fr evs) w of
        None \<Rightarrow> None
      | Some (cancelled, s, w') \<Rightarrow> Some (close_run f cancelled s, es_events s, w'))"

section \<open>Checks before a run\<close>

fun missing_target :: "(string \<times> string) list \<Rightarrow> string \<Rightarrow> string list \<Rightarrow> go_error option" where
  "missing_target es i [] = None"
| "missing_target es i (t # ts) =
     (if t \<noteq> [] \<and> (i, t) \<notin> set es
      then Some (PlainError (''node '' @ dquote i @ '' routes to '' @ dquote t @ '' but has no edge to it''))
      else missing_target es i ts)"

fun check_targets :: "('a core_codec_scheme) \<Rightarrow> (string \<times> string) list \<Rightarrow> engine_node list \<Rightarrow> go_error option" where
  "check_targets c es [] = None"
| "check_targets c es (n # ns) =
     (if \<not> kind_routes (en_kind n) then check_targets c es ns
      else (case decode_node c (en_kind n) (en_raw n) of
              Inl e \<Rightarrow> check_targets c es ns
            | Inr cfg \<Rightarrow>
                (case missing_target es (en_id n) (cfg_targets cfg) of
                   Some e \<Rightarrow> Some e
                 | None \<Rightarrow> check_targets c es ns)))"

definition validate_targets :: "('a core_codec_scheme) \<Rightarrow> engine_flow \<Rightarrow> go_error option" where
  "validate_targets c f =
     (if \<not> list_ex (\<lambda>n. kind_routes (en_kind n)) (ef_nodes f) then None else check_targets c (ef_edges f) (ef_nodes f))"

text \<open>
  \<open>walkRefs\<close>: the references of one node, of the nodes of a flow, and the walk itself, which goes
  into a child flow by one unit of its fuel.
\<close>

fun walk_node_refs ::
    "(engine_flow \<Rightarrow> string list \<Rightarrow> go_error option option) \<Rightarrow> (string \<rightharpoonup> engine_flow) \<Rightarrow> string list \<Rightarrow> string \<Rightarrow>
     string list \<Rightarrow> go_error option option" where
  "walk_node_refs walk flows stack i [] = Some None"
| "walk_node_refs walk flows stack i (ref # refs) =
     (if ref \<in> set stack then
        Some (Some (PlainError (''flow cycle detected: '' @ join_with '' -> '' stack @ '' -> '' @ ref)))
      else (case flows ref of
              None \<Rightarrow> Some (Some (PlainError (''node '' @ dquote i @ '' references unknown flow '' @ dquote ref)))
            | Some child \<Rightarrow>
                (case walk child (stack @ [ref]) of
                   None \<Rightarrow> None
                 | Some (Some e) \<Rightarrow> Some (Some e)
                 | Some None \<Rightarrow> walk_node_refs walk flows stack i refs)))"

definition node_flow_refs :: "('a core_codec_scheme) \<Rightarrow> engine_node \<Rightarrow> string list" where
  "node_flow_refs c n =
     (if \<not> kind_references (en_kind n) then []
      else (case decode_node c (en_kind n) (en_raw n) of Inl e \<Rightarrow> [] | Inr cfg \<Rightarrow> cfg_refs cfg))"

fun walk_nodes ::
    "(engine_flow \<Rightarrow> string list \<Rightarrow> go_error option option) \<Rightarrow> ('a core_codec_scheme) \<Rightarrow> (string \<rightharpoonup> engine_flow) \<Rightarrow>
     string list \<Rightarrow> engine_node list \<Rightarrow> go_error option option" where
  "walk_nodes walk c flows stack [] = Some None"
| "walk_nodes walk c flows stack (n # ns) =
     (case walk_node_refs walk flows stack (en_id n) (node_flow_refs c n) of
        None \<Rightarrow> None
      | Some (Some e) \<Rightarrow> Some (Some e)
      | Some None \<Rightarrow> walk_nodes walk c flows stack ns)"

primrec walk_refs ::
    "nat \<Rightarrow> ('a core_codec_scheme) \<Rightarrow> (string \<rightharpoonup> engine_flow) \<Rightarrow> engine_flow \<Rightarrow> string list \<Rightarrow> go_error option option" where
  "walk_refs 0 c flows f stack = None"
| "walk_refs (Suc n) c flows f stack = walk_nodes (walk_refs n c flows) c flows stack (ef_nodes f)"

section \<open>The run of a node\<close>

text \<open>
  The unit the middleware wraps. The maps of a decoded configuration are shared by its runs: the
  configuration is threaded with the world, since extracted outputs are copied into the variables
  of a set-variable node, which are its outputs.
\<close>

type_synonym 'w node_exec = "call_ctx \<Rightarrow> node_cfg \<times> 'w \<Rightarrow> (node_verdict \<times> node_cfg \<times> 'w) option"
type_synonym 'w middleware = "'w node_exec \<Rightarrow> 'w node_exec"

definition chain_middleware :: "'w node_exec \<Rightarrow> 'w middleware list \<Rightarrow> 'w node_exec" where
  "chain_middleware base mws = foldr (\<lambda>mw next. mw next) mws base"

text \<open>\<open>Retry\<close>: the tries from the given one on, with those left after it.\<close>

fun retry_from :: "'w node_runtime \<Rightarrow> 'w node_exec \<Rightarrow> call_ctx \<Rightarrow> nat \<Rightarrow> nat \<Rightarrow> node_cfg \<times> 'w \<Rightarrow>
     (node_verdict \<times> node_cfg \<times> 'w) option" where
  "retry_from rt exec ctx i left st =
     (case exec ctx st of
        None \<Rightarrow> None
      | Some ((res, checks, err), cfg, w) \<Rightarrow>
          (if err = None then Some ((res, checks, err), cfg, w)
           else (case left of
                   0 \<Rightarrow> Some ((res, checks, err), cfg, w)
                 | Suc rest \<Rightarrow>
                     (case retry_wait rt (cc_deadline ctx) (int (Suc i) * 100000000) w of
                        (True, w') \<Rightarrow> Some ((res, checks, err), cfg, w')
                      | (False, w') \<Rightarrow> retry_from rt exec ctx (Suc i) rest (cfg, w')))))"

declare retry_from.simps [simp del]

definition retry :: "'w node_runtime \<Rightarrow> int \<Rightarrow> 'w middleware" where
  "retry rt attempts exec ctx st = retry_from rt exec ctx 0 (nat (max attempts 1) - 1) st"

definition node_timeout :: "'w node_runtime \<Rightarrow> int \<Rightarrow> 'w middleware" where
  "node_timeout rt d exec ctx st = exec (with_timeout rt d (snd st) ctx) st"

text \<open>The variables of the configuration after a copy into them.\<close>

fun with_variables :: "value_map \<Rightarrow> node_cfg \<Rightarrow> node_cfg" where
  "with_variables vars (SetVariableCfg d) =
     SetVariableCfg (if sv_variables d = None then d else d\<lparr>sv_variables := Some vars\<rparr>)"
| "with_variables vars cfg = cfg"

definition post_step ::
    "'a core_text_scheme \<Rightarrow> node_cfg \<Rightarrow> node_out \<Rightarrow> node_verdict \<times> node_cfg" where
  "post_step c cfg res =
     (let base = cfg_base cfg in
      if \<not> no_provided res then ((res, no_assertions res, None), cfg)
      else if eb_assertions base = [] \<and> eb_outputs base = [] then ((res, [], None), cfg)
      else
        (let target = (if no_assert res = GNil then boxed (entries (no_outputs res)) else no_assert res);
             results = run_specs c target (eb_assertions base);
             extracted = extract_specs c target (eb_outputs base);
             outs = copy_entries (entries (no_outputs res)) extracted;
             res' = (if extracted = [] then res else res\<lparr>no_outputs := Some outs\<rparr>);
             cfg' = (if extracted = [] then cfg else with_variables outs cfg) in
         if all_passed results then ((res', results, None), cfg')
         else ((res', results, Some (user_errf ''ASSERTION_FAILED'' (''assertion failed on '' @ eb_id base))), cfg')))"

definition exec_node ::
    "('a core_codec_scheme) \<Rightarrow> 'w node_runtime \<Rightarrow> 'w subflow_runner \<Rightarrow> gval \<Rightarrow> 'w node_exec" where
  "exec_node c rt sub view ctx st =
     (case run_cfg c rt sub view ctx (fst st) (snd st) of
        None \<Rightarrow> None
      | Some (Inl e, w) \<Rightarrow> Some ((zero_out, [], Some e), fst st, w)
      | Some (Inr res, w) \<Rightarrow> (let (v, cfg) = post_step c (fst st) res in Some (v, cfg, w)))"

section \<open>The engine\<close>

record ('a, 'w) core_engine =
  ce_codec :: "'a core_codec_scheme"
  ce_runtime :: "'w node_runtime"
  ce_flows :: "(string \<rightharpoonup> engine_flow) option"
  ce_middleware :: "'w middleware list"

definition config_error :: "string \<Rightarrow> string \<Rightarrow> go_error \<Rightarrow> go_error" where
  "config_error what k e = user_errf ''INVALID_NODE_CONFIG'' (what @ '' '' @ k @ '': '' @ error_text e)"

definition run_node :: "('a, 'w) core_engine \<Rightarrow> 'w subflow_runner \<Rightarrow> call_ctx \<Rightarrow> 'w node_runner" where
  "run_node e sub ctx n view w =
     (case resolve_templates (ce_codec e) view (rt_vars (ce_runtime e)) (en_raw n) w of
        (Inl err, w1) \<Rightarrow> Some ((zero_out, [], Some (config_error ''template'' (en_kind n) err)), w1)
      | (Inr raw, w1) \<Rightarrow>
          (case decode_node (ce_codec e) (en_kind n) raw of
             Inl err \<Rightarrow> Some ((zero_out, [], Some (config_error ''decode'' (en_kind n) err)), w1)
           | Inr cfg \<Rightarrow>
               (case chain_middleware (exec_node (ce_codec e) (ce_runtime e) sub view) (ce_middleware e) ctx (cfg, w1) of
                  None \<Rightarrow> None
                | Some (verdict, cfg', w2) \<Rightarrow> Some (verdict, w2))))"

definition invalid_flow :: "string \<Rightarrow> flow_result \<Rightarrow> flow_result" where
  "invalid_flow msg fr =
     fr\<lparr>er_success := False, er_error := msg, er_code := flow_validation_code, er_outputs := []\<rparr>"

definition validate_core_flow ::
    "nat \<Rightarrow> ('a, 'w) core_engine \<Rightarrow> engine_flow \<Rightarrow> bool \<Rightarrow> go_error option option" where
  "validate_core_flow n e f top_level =
     (case validate_structure f of
        Some err \<Rightarrow> Some (Some err)
      | None \<Rightarrow>
          (case validate_targets (ce_codec e) f of
             Some err \<Rightarrow> Some (Some err)
           | None \<Rightarrow>
               (case ce_flows e of
                  Some flows \<Rightarrow> if top_level then walk_refs n (ce_codec e) flows f [] else Some None
                | None \<Rightarrow> Some None)))"

definition run_checked ::
    "nat \<Rightarrow> ('a, 'w) core_engine \<Rightarrow> 'w subflow_runner \<Rightarrow> call_ctx \<Rightarrow> engine_flow \<Rightarrow> value_map \<Rightarrow> bool \<Rightarrow> bool \<Rightarrow> flow_result \<Rightarrow>
     core_event list \<Rightarrow> 'w \<Rightarrow> (flow_result \<times> core_event list \<times> 'w) option" where
  "run_checked n e sub ctx f inputs obs top_level fr evs w =
     (if ef_nodes f = [] then Some (invalid_flow ''no nodes to execute'' fr, evs, w)
      else (case validate_core_flow n e f top_level of
              None \<Rightarrow> None
            | Some (Some err) \<Rightarrow> Some (invalid_flow (error_text err) fr, evs, w)
            | Some None \<Rightarrow>
                schedule_flow (run_node e sub ctx) (ctx_err (ce_runtime e) (cc_deadline ctx)) obs f inputs fr evs w))"

definition run_core ::
    "nat \<Rightarrow> ('a, 'w) core_engine \<Rightarrow> 'w subflow_runner \<Rightarrow> call_ctx \<Rightarrow> engine_flow \<Rightarrow> value_map \<Rightarrow> bool \<Rightarrow> bool \<Rightarrow> 'w \<Rightarrow>
     (flow_result \<times> core_event list \<times> 'w) option" where
  "run_core n e sub ctx f inputs obs top_level w =
     (let fr = \<lparr>er_success = True, er_nodes = Map.empty, er_outputs = [], er_error = [], er_code = []\<rparr> in
      case run_checked n e sub ctx f inputs obs top_level fr (emit obs FlowStarted []) w of
        None \<Rightarrow> None
      | Some (fr', evs, w') \<Rightarrow>
          Some (fr', emit obs (if er_success fr' then FlowCompleted fr' else FlowFailed fr') evs, w'))"

text \<open>A child's result as its caller sees it.\<close>

definition child_outcome :: "string \<Rightarrow> string \<Rightarrow> flow_result \<Rightarrow> child_result" where
  "child_outcome what fallback fr =
     (if er_success fr then Inr (er_outputs fr)
      else Inl (user_errf (or_default (er_code fr) fallback) (what @ '' failed: '' @ er_error fr)))"

definition subflow_of ::
    "('a, 'w) core_engine \<Rightarrow> (call_ctx \<Rightarrow> engine_flow \<Rightarrow> value_map \<Rightarrow> 'w \<Rightarrow> (flow_result \<times> 'w) option) \<Rightarrow> call_ctx \<Rightarrow>
     string \<Rightarrow> value_map \<Rightarrow> 'w \<Rightarrow> (child_result \<times> 'w) option" where
  "subflow_of e run ctx i inputs w =
     (case ce_flows e of
        None \<Rightarrow> Some (Inl (user_errf ''MODULE_FLOW_NOT_FOUND'' ''no sub-flow resolver configured''), w)
      | Some flows \<Rightarrow>
          if i \<in> set (cc_stack ctx) then
            Some (Inl (user_errf ''MODULE_CYCLE_DETECTED'' (''module cycle detected at '' @ dquote i)), w)
          else (case flows i of
                  None \<Rightarrow> Some (Inl (user_errf ''MODULE_FLOW_NOT_FOUND'' (''child flow '' @ dquote i @ '' not found'')), w)
                | Some child \<Rightarrow>
                    (case run (ctx\<lparr>cc_stack := cc_stack ctx @ [i]\<rparr>) child inputs w of
                       None \<Rightarrow> None
                     | Some (fr, w') \<Rightarrow> Some (child_outcome (''child flow '' @ dquote i) ''MODULE_FAILED'' fr, w'))))"

definition runner_of ::
    "('a, 'w) core_engine \<Rightarrow> (call_ctx \<Rightarrow> engine_flow \<Rightarrow> value_map \<Rightarrow> 'w \<Rightarrow> (flow_result \<times> 'w) option) \<Rightarrow> 'w subflow_runner" where
  "runner_of e run =
     \<lparr>run_subflow = subflow_of e run,
      run_inline = (\<lambda>ctx f inputs w.
        case run ctx f inputs w of
          None \<Rightarrow> None
        | Some (fr, w') \<Rightarrow> Some (child_outcome ''inline body'' ''SUBFLOW_FAILED'' fr, w'))\<rparr>"

text \<open>A child flow is run without an observer and without the walk of the module references.\<close>

primrec child_run ::
    "nat \<Rightarrow> ('a, 'w) core_engine \<Rightarrow> call_ctx \<Rightarrow> engine_flow \<Rightarrow> value_map \<Rightarrow> 'w \<Rightarrow> (flow_result \<times> 'w) option" where
  "child_run 0 e = (\<lambda>ctx f inputs w. None)"
| "child_run (Suc n) e =
     (\<lambda>ctx f inputs w.
        case run_core n e (runner_of e (child_run n e)) ctx f inputs False False w of
          None \<Rightarrow> None
        | Some (fr, evs, w') \<Rightarrow> Some (fr, w'))"

definition engine_at :: "nat \<Rightarrow> ('a, 'w) core_engine \<Rightarrow> 'w subflow_runner" where
  "engine_at n e = runner_of e (child_run n e)"

text \<open>\<open>RunFlow\<close> with call depth \<open>n\<close>: the result and, for an observer, the events.\<close>

definition run_flow ::
    "nat \<Rightarrow> ('a, 'w) core_engine \<Rightarrow> int option \<Rightarrow> bool \<Rightarrow> engine_flow \<Rightarrow> value_map \<Rightarrow> 'w \<Rightarrow>
     (flow_result \<times> core_event list \<times> 'w) option" where
  "run_flow n e deadline obs f inputs w =
     run_core n e (engine_at n e) \<lparr>cc_deadline = deadline, cc_stack = []\<rparr> f inputs obs True w"

end
