(* ===== verification/Core_Run.thy ===== *)
theory Core_Run
  imports Core_Engine
begin

text \<open>
  What the scheduler of the library form promises: an invariant of its configurations, a scheduler
  with the world its nodes act on, kept by every step, whatever the nodes return.
\<close>

section \<open>Well-formed flows\<close>

definition node_ids :: "engine_flow \<Rightarrow> string list" where
  "node_ids f = map en_id (ef_nodes f)"

definition well_formed :: "engine_flow \<Rightarrow> bool" where
  "well_formed f \<longleftrightarrow>
     distinct (node_ids f) \<and> [] \<notin> set (node_ids f) \<and> set (ef_edges f) \<subseteq> set (node_ids f) \<times> set (node_ids f)"

lemma check_node_ids_ok:
  "check_node_ids ids ns = None \<longleftrightarrow>
     distinct (map en_id ns) \<and> [] \<notin> set (map en_id ns) \<and> set ids \<inter> set (map en_id ns) = {}"
  by (induction ids ns rule: check_node_ids.induct) auto

lemma check_edge_ends_ok:
  "check_edge_ends ids es = None \<longleftrightarrow> set es \<subseteq> set ids \<times> set ids"
  by (induction ids es rule: check_edge_ends.induct) auto

lemma validated_structure: "validate_structure f = None \<Longrightarrow> well_formed f"
  by (auto simp: validate_structure_def well_formed_def node_ids_def check_node_ids_ok check_edge_ends_ok
      split: if_splits option.splits)

lemma edge_preds_iff [simp]: "p \<in> set (edge_preds es i) \<longleftrightarrow> (p, i) \<in> set es"
  by (force simp: edge_preds_def)

lemma edge_succ_iff [simp]: "t \<in> set (edge_succ es i) \<longleftrightarrow> (i, t) \<in> set es"
  by (force simp: edge_succ_def)

lemma count_edge_succ: "count_list (edge_succ es i) t = count_list es (i, t)"
  by (induction es) (auto simp: edge_succ_def)

lemma count_edge_preds: "count_list (edge_preds es t) i = count_list es (i, t)"
  by (induction es) (auto simp: edge_preds_def)

lemma node_by_id:
  assumes "well_formed f" and "n \<in> set (ef_nodes f)"
  shows "map_of (rev (map (\<lambda>n. (en_id n, n)) (ef_nodes f))) (en_id n) = Some n"
proof -
  have "distinct (map fst (rev (map (\<lambda>n. (en_id n, n)) (ef_nodes f))))"
    using assms(1) by (simp add: well_formed_def node_ids_def rev_map [symmetric] comp_def)
  then show ?thesis using assms(2) by (intro map_of_is_SomeI) auto
qed

section \<open>Releasing a node\<close>

lemma release_succ_indeg:
  "fst (release_succ js indeg queue) = (\<lambda>x. indeg x - int (count_list js x))"
  by (induction js arbitrary: indeg queue) (auto simp: Let_def)

lemma release_succ_queue:
  assumes "\<forall>x. int (count_list js x) \<le> indeg x" and "distinct queue" and "set queue \<inter> set js = {}"
  shows "distinct (snd (release_succ js indeg queue)) \<and>
         set (snd (release_succ js indeg queue)) = set queue \<union> {x \<in> set js. indeg x = int (count_list js x)}"
  using assms
proof (induction js arbitrary: indeg queue)
  case Nil
  then show ?case by simp
next
  case (Cons i js)
  let ?indeg = "indeg(i := indeg i - 1)" and ?queue = "if indeg i - 1 = 0 then queue @ [i] else queue"
  have le: "\<forall>x. int (count_list js x) \<le> ?indeg x"
  proof
    fix x
    show "int (count_list js x) \<le> ?indeg x" using Cons.prems(1) [rule_format, of x] by (auto split: if_splits)
  qed
  have "i \<notin> set js" if "indeg i - 1 = 0"
    using le [rule_format, of i] that by (simp add: count_list_0_iff)
  then have dj: "distinct ?queue" "set ?queue \<inter> set js = {}" using Cons.prems(2,3) by auto
  have st: "set queue \<union> {x \<in> set (i # js). indeg x = int (count_list (i # js) x)} =
        set ?queue \<union> {x \<in> set js. ?indeg x = int (count_list js x)}"
    using le [rule_format, of i] by (auto simp: count_list_0_iff)
  have eq: "release_succ (i # js) indeg queue = release_succ js ?indeg ?queue" by (simp add: Let_def)
  show ?case unfolding eq st by (rule Cons.IH [OF le dj])
qed

section \<open>The topology\<close>

definition settled :: "core_scheduler \<Rightarrow> string set" where
  "settled s = dom (er_nodes (es_result s))"

definition waiting_preds :: "engine_flow \<Rightarrow> core_scheduler \<Rightarrow> string \<Rightarrow> string list" where
  "waiting_preds f s i = filter (\<lambda>p. p \<notin> settled s) (edge_preds (ef_edges f) i)"

definition topology :: "engine_flow \<Rightarrow> core_scheduler \<Rightarrow> bool" where
  "topology f s \<longleftrightarrow>
     es_node s = map_of (rev (map (\<lambda>n. (en_id n, n)) (ef_nodes f))) \<and>
     es_succ s = edge_succ (ef_edges f) \<and> es_preds s = edge_preds (ef_edges f) \<and>
     settled s \<subseteq> set (node_ids f) \<and> es_processed s = card (settled s) \<and>
     distinct (es_ready s) \<and> sorted (es_ready s) \<and> set (es_ready s) \<subseteq> set (node_ids f) - settled s \<and>
     (\<forall>i. es_indeg s i = int (length (waiting_preds f s i))) \<and>
     (\<forall>i \<in> set (node_ids f). i \<in> settled s \<union> set (es_ready s) \<longleftrightarrow> waiting_preds f s i = []) \<and>
     acyclic {e \<in> set (ef_edges f). snd e \<in> settled s}"

lemma topologyD:
  assumes "topology f s"
  shows "es_node s = map_of (rev (map (\<lambda>n. (en_id n, n)) (ef_nodes f)))"
    and "es_succ s = edge_succ (ef_edges f)" and "es_preds s = edge_preds (ef_edges f)"
    and "settled s \<subseteq> set (node_ids f)" and "es_processed s = card (settled s)"
    and "distinct (es_ready s)" and "sorted (es_ready s)"
    and "set (es_ready s) \<subseteq> set (node_ids f) - settled s"
    and "\<And>i. es_indeg s i = int (length (waiting_preds f s i))"
    and "\<And>i. i \<in> set (node_ids f) \<Longrightarrow> i \<in> settled s \<union> set (es_ready s) \<longleftrightarrow> waiting_preds f s i = []"
    and "acyclic {e \<in> set (ef_edges f). snd e \<in> settled s}"
  using assms unfolding topology_def by blast+

lemma new_scheduler_fields:
  "es_node (new_scheduler f inputs fr evs) = map_of (rev (map (\<lambda>n. (en_id n, n)) (ef_nodes f)))"
  "es_succ (new_scheduler f inputs fr evs) = edge_succ (ef_edges f)"
  "es_preds (new_scheduler f inputs fr evs) = edge_preds (ef_edges f)"
  "es_indeg (new_scheduler f inputs fr evs) = (\<lambda>i. int (length (edge_preds (ef_edges f) i)))"
  "es_ready (new_scheduler f inputs fr evs) = sort (filter (\<lambda>i. edge_preds (ef_edges f) i = []) (node_ids f))"
  "es_processed (new_scheduler f inputs fr evs) = 0"
  "es_state (new_scheduler f inputs fr evs) = (\<lambda>i. StatePending)"
  "es_dead (new_scheduler f inputs fr evs) = {}"
  "es_main_failed (new_scheduler f inputs fr evs) = False"
  "es_result (new_scheduler f inputs fr evs) = fr"
  "es_events (new_scheduler f inputs fr evs) = evs"
  "es_store (new_scheduler f inputs fr evs) = [[] \<mapsto> overlay_inputs (ef_inputs f) inputs]"
  "es_view (new_scheduler f inputs fr evs) = overlay_inputs (ef_inputs f) inputs"
  by (auto simp: new_scheduler_def Let_def node_ids_def edge_preds_def intro!: arg_cong [where f = sort])

lemma new_scheduler_topology:
  assumes "well_formed f" and "er_nodes fr = Map.empty"
  shows "topology f (new_scheduler f inputs fr evs)"
  using assms
  by (simp add: topology_def new_scheduler_fields settled_def waiting_preds_def well_formed_def acyclic_def)

lemma release_fields [simp]:
  "es_node (release_node i s) = es_node s" "es_succ (release_node i s) = es_succ s"
  "es_preds (release_node i s) = es_preds s" "es_processed (release_node i s) = es_processed s"
  "es_state (release_node i s) = es_state s" "es_dead (release_node i s) = es_dead s"
  "es_main_failed (release_node i s) = es_main_failed s" "es_result (release_node i s) = es_result s"
  "es_events (release_node i s) = es_events s" "es_store (release_node i s) = es_store s"
  "es_view (release_node i s) = es_view s"
  by (simp_all add: release_node_def case_prod_beta)

lemma release_indeg: "es_indeg (release_node i s) = (\<lambda>x. es_indeg s x - int (count_list (es_succ s i) x))"
  by (simp add: release_node_def case_prod_beta release_succ_indeg)

lemma release_ready:
  assumes "\<forall>x. int (count_list (es_succ s i) x) \<le> es_indeg s x" and "distinct (es_ready s)"
    and "set (es_ready s) \<inter> set (es_succ s i) = {}" and "sorted (es_ready s)"
  shows "distinct (es_ready (release_node i s))" and "sorted (es_ready (release_node i s))"
    and "set (es_ready (release_node i s)) =
         set (es_ready s) \<union> {x \<in> set (es_succ s i). es_indeg s x = int (count_list (es_succ s i) x)}"
proof -
  let ?q = "snd (release_succ (es_succ s i) (es_indeg s) (es_ready s))"
  have q: "distinct ?q \<and> set ?q = set (es_ready s) \<union> {x \<in> set (es_succ s i). es_indeg s x = int (count_list (es_succ s i) x)}"
    by (rule release_succ_queue [OF assms(1-3)])
  have same: "?q = es_ready s \<or> length (es_ready s) < length ?q"
  proof -
    have "\<exists>zs. snd (release_succ js indeg queue) = queue @ zs" for js indeg and queue :: "string list"
      by (induction js arbitrary: indeg queue) (auto simp: Let_def, (metis append_assoc)+)
    then obtain zs where "?q = es_ready s @ zs" by blast
    then show ?thesis by (cases zs) auto
  qed
  have r: "es_ready (release_node i s) = (if length ?q > length (es_ready s) \<and> length ?q > 1 then sort ?q else ?q)"
    by (simp add: release_node_def case_prod_beta)
  have "sorted ?q" if "\<not> (length ?q > length (es_ready s) \<and> length ?q > 1)"
  proof (cases "length ?q > 1")
    case True
    with same that assms(4) show ?thesis by auto
  next
    case False
    then show ?thesis by (cases ?q) auto
  qed
  with q show "distinct (es_ready (release_node i s))" "sorted (es_ready (release_node i s))"
    "set (es_ready (release_node i s)) =
         set (es_ready s) \<union> {x \<in> set (es_succ s i). es_indeg s x = int (count_list (es_succ s i) x)}"
    unfolding r by auto
qed

text \<open>A step settles one node, the first of the queue, and releases its successors.\<close>

definition same_graph :: "core_scheduler \<Rightarrow> core_scheduler \<Rightarrow> bool" where
  "same_graph s u \<longleftrightarrow>
     es_node u = es_node s \<and> es_succ u = es_succ s \<and> es_preds u = es_preds s \<and> es_indeg u = es_indeg s"

lemma waiting_count:
  "i \<notin> S \<Longrightarrow> length (filter (\<lambda>p. p \<notin> S) ps) = length (filter (\<lambda>p. p \<notin> insert i S) ps) + count_list ps i"
  by (induction ps) auto

lemma acyclic_settle:
  assumes "acyclic {e \<in> E. snd e \<in> S}" and "i \<notin> S" and "\<And>p. (p, i) \<in> E \<Longrightarrow> p \<in> S"
    and "\<And>p q. (p, q) \<in> E \<Longrightarrow> q \<in> S \<Longrightarrow> p \<in> S"
  shows "acyclic {e \<in> E. snd e \<in> insert i S}"
proof (rule acyclicI, rule allI, rule notI)
  let ?R = "{e \<in> E. snd e \<in> insert i S}"
  fix x assume cyc: "(x, x) \<in> ?R\<^sup>+"
  have path: "a \<in> S \<and> (b = i \<or> (a, b) \<in> {e \<in> E. snd e \<in> S}\<^sup>+)" if "(a, b) \<in> ?R\<^sup>+" for a b
    using that
  proof (induction rule: trancl_induct)
    case (base y)
    then show ?case using assms(3,4) by auto
  next
    case (step y z)
    have "y \<in> S" using step.hyps(2) assms(3,4) by auto
    with step assms(2) show ?case by (auto intro: trancl_into_trancl)
  qed
  from path [OF cyc] assms(1,2) show False unfolding acyclic_def by blast
qed

lemma settle_topology:
  assumes wf: "well_formed f" and top: "topology f s" and ready: "es_ready s = i # rest" and graph: "same_graph s u"
    and u: "es_ready u = rest" "es_processed u = Suc (es_processed s)" "settled u = insert i (settled s)"
  shows "topology f (release_node i u)"
proof -
  note t = topologyD [OF top]
  let ?t = "release_node i u" and ?E = "set (ef_edges f)"
  have i: "i \<in> set (node_ids f)" "i \<notin> settled s" using t(8) ready by auto
  then have wi: "waiting_preds f s i = []" using t(10) ready by force
  have set_t: "settled ?t = insert i (settled s)" using u(3) by (simp add: settled_def)
  have len: "length (waiting_preds f s x) = length (waiting_preds f ?t x) + count_list (edge_succ (ef_edges f) i) x" for x
    unfolding waiting_preds_def set_t count_edge_succ count_edge_preds [symmetric] by (rule waiting_count [OF i(2)])
  have g: "es_succ u i = edge_succ (ef_edges f) i" "es_indeg u = (\<lambda>x. int (length (waiting_preds f s x)))"
    using graph t(2,9) by (auto simp: same_graph_def)
  have indeg: "es_indeg ?t x = int (length (waiting_preds f ?t x))" for x
    by (simp add: release_indeg g len)
  have fresh: "x \<notin> settled s \<union> set (es_ready s)" if "(i, x) \<in> ?E" "x \<in> set (node_ids f)" for x
    using that t(10) [of x] i(2) by (auto simp: waiting_preds_def filter_empty_conv)
  have disjoint: "set (es_ready u) \<inter> set (es_succ u i) = {}"
    using fresh t(8) ready u(1) unfolding g by fastforce
  have dis: "distinct (es_ready u)" "sorted (es_ready u)" using t(6,7) ready u(1) by auto
  have "\<forall>x. int (count_list (es_succ u i) x) \<le> es_indeg u x" unfolding g len by simp
  note rel = release_ready [OF this dis(1) disjoint dis(2)]
  have queue: "set (es_ready ?t) = set rest \<union> {x. (i, x) \<in> ?E \<and> waiting_preds f ?t x = []}"
    unfolding rel(3) u(1) g len by auto
  have edge: "x \<in> set (node_ids f)" if "(i, x) \<in> ?E" for x using that wf by (auto simp: well_formed_def)
  have sub: "set (es_ready ?t) \<subseteq> set (node_ids f) - settled ?t"
    using queue fresh edge i(2) wi t(6,8) ready by (fastforce simp: set_t waiting_preds_def)
  have waits: "x \<in> settled ?t \<union> set (es_ready ?t) \<longleftrightarrow> waiting_preds f ?t x = []" if x: "x \<in> set (node_ids f)" for x
  proof (cases "x = i \<or> (i, x) \<in> ?E")
    case True
    then show ?thesis using queue len [of x] wi fresh [OF _ x] ready by (auto simp: set_t)
  next
    case False
    then have "count_list (edge_succ (ef_edges f) i) x = 0" by (simp add: count_list_0_iff)
    then have "waiting_preds f ?t x = [] \<longleftrightarrow> waiting_preds f s x = []" using len [of x] by auto
    then show ?thesis using t(10) [OF x] queue ready False by (auto simp: set_t)
  qed
  have "acyclic {e \<in> ?E. snd e \<in> settled ?t}" unfolding set_t
  proof (rule acyclic_settle [OF t(11) i(2)])
    show "p \<in> settled s" if "(p, i) \<in> ?E" for p using that wi by (auto simp: waiting_preds_def filter_empty_conv)
    show "p \<in> settled s" if "(p, q) \<in> ?E" "q \<in> settled s" for p q
      using that t(10) [of q] t(4) by (auto simp: waiting_preds_def filter_empty_conv)
  qed
  moreover have "finite (settled s)" using t(4) by (rule finite_subset) simp
  ultimately show ?thesis
    unfolding topology_def using graph t(1-5) u(2) i rel(1,2) sub indeg waits
    by (simp add: same_graph_def set_t)
qed

section \<open>Outcomes\<close>

text \<open>What a node's predecessors, and nothing else, decide about it.\<close>

definition live_pred :: "engine_flow \<Rightarrow> core_scheduler \<Rightarrow> string \<Rightarrow> string \<Rightarrow> bool" where
  "live_pred f s i p \<longleftrightarrow> (p, i) \<in> set (ef_edges f) \<and> es_state s p = StateDone \<and> (p, i) \<notin> es_dead s"

definition has_pred_in :: "engine_flow \<Rightarrow> core_scheduler \<Rightarrow> node_state \<Rightarrow> string \<Rightarrow> bool" where
  "has_pred_in f s st i \<longleftrightarrow> (\<exists>p. (p, i) \<in> set (ef_edges f) \<and> es_state s p = st)"

definition no_live_reason :: "engine_flow \<Rightarrow> core_scheduler \<Rightarrow> string \<Rightarrow> string" where
  "no_live_reason f s i =
     (if is_always (node_of s i) then ''missing_inputs''
      else if has_pred_in f s StateFailed i then ''dependency_failed''
      else if has_pred_in f s StateDone i then ''routed_away_by_branch''
      else ''dependency_skipped'')"

definition skip_justified :: "engine_flow \<Rightarrow> core_scheduler \<Rightarrow> string \<Rightarrow> string \<Rightarrow> bool" where
  "skip_justified f s i reason \<longleftrightarrow>
     edge_preds (ef_edges f) i \<noteq> [] \<and>
     (if \<exists>p. live_pred f s i p
      then reason = ''aborted_after_failure'' \<and> es_main_failed s \<and> \<not> is_always (node_of s i)
      else reason = no_live_reason f s i)"

definition run_justified :: "engine_flow \<Rightarrow> core_scheduler \<Rightarrow> string \<Rightarrow> bool" where
  "run_justified f s i \<longleftrightarrow> edge_preds (ef_edges f) i = [] \<or> (\<exists>p. live_pred f s i p)"

definition justified :: "engine_flow \<Rightarrow> core_scheduler \<Rightarrow> string \<Rightarrow> node_result \<Rightarrow> bool" where
  "justified f s i nr \<longleftrightarrow>
     (if nr_status nr = StatusSkipped then skip_justified f s i (nr_skip_reason nr) else run_justified f s i)"

lemma scan_preds_live:
  "fst (scan_preds s i live reason ps) \<longleftrightarrow> live \<or> (\<exists>p \<in> set ps. es_state s p = StateDone \<and> (p, i) \<notin> es_dead s)"
  by (induction ps arbitrary: live reason) auto

lemma scan_preds_reason:
  assumes "\<forall>p \<in> set ps. \<not> (es_state s p = StateDone \<and> (p, i) \<notin> es_dead s)"
  shows "snd (scan_preds s i live reason ps) =
     (if \<exists>p \<in> set ps. es_state s p = StateFailed then ''dependency_failed''
      else if reason = ''dependency_skipped'' \<and> (\<exists>p \<in> set ps. es_state s p = StateDone) then ''routed_away_by_branch''
      else reason)"
  using assms by (induction ps arbitrary: live reason) auto

lemma classify_skip:
  assumes "es_preds s = edge_preds (ef_edges f)" and "classify_node s i (is_always (node_of s i)) = Some reason"
  shows "skip_justified f s i reason"
proof -
  let ?r = "scan_preds s i False ''dependency_skipped'' (edge_preds (ef_edges f) i)"
  have live: "fst ?r \<longleftrightarrow> (\<exists>p. live_pred f s i p)" by (auto simp: scan_preds_live live_pred_def)
  have reason: "snd ?r = (if has_pred_in f s StateFailed i then ''dependency_failed''
      else if has_pred_in f s StateDone i then ''routed_away_by_branch'' else ''dependency_skipped'')"
    if "\<not> (\<exists>p. live_pred f s i p)"
    using that by (subst scan_preds_reason) (auto simp: live_pred_def has_pred_in_def)
  have "edge_preds (ef_edges f) i \<noteq> []" using assms by (auto simp: classify_node_def)
  with assms live reason show ?thesis
    by (auto simp: classify_node_def skip_justified_def no_live_reason_def case_prod_beta split: if_splits)
qed

lemma classify_run:
  assumes "es_preds s = edge_preds (ef_edges f)" and "classify_node s i always = None"
  shows "run_justified f s i"
  using assms
  by (auto simp: classify_node_def run_justified_def case_prod_beta scan_preds_live live_pred_def split: if_splits)

text \<open>Once a node is settled its predecessors are, so later steps do not change what decided it.\<close>

definition settled_unchanged :: "core_scheduler \<Rightarrow> core_scheduler \<Rightarrow> bool" where
  "settled_unchanged s u \<longleftrightarrow>
     es_node u = es_node s \<and> (es_main_failed s \<longrightarrow> es_main_failed u) \<and>
     (\<forall>p \<in> settled s. es_state u p = es_state s p \<and> (\<forall>x. (p, x) \<in> es_dead u \<longleftrightarrow> (p, x) \<in> es_dead s))"

lemma justified_unchanged:
  assumes "settled_unchanged s u" and "\<And>p. (p, j) \<in> set (ef_edges f) \<Longrightarrow> p \<in> settled s"
  shows "justified f s j nr \<Longrightarrow> justified f u j nr"
proof -
  have eq: "live_pred f u j p \<longleftrightarrow> live_pred f s j p" "has_pred_in f u st j \<longleftrightarrow> has_pred_in f s st j" for p st
    using assms by (auto simp: live_pred_def has_pred_in_def settled_unchanged_def)
  have "node_of u j = node_of s j" "es_main_failed s \<Longrightarrow> es_main_failed u"
    using assms(1) by (auto simp: node_of_def settled_unchanged_def)
  then show "justified f s j nr \<Longrightarrow> justified f u j nr"
    by (auto simp: justified_def skip_justified_def run_justified_def no_live_reason_def eq split: if_splits)
qed

definition state_after :: "node_result option \<Rightarrow> node_state" where
  "state_after r =
     (case r of None \<Rightarrow> StatePending
      | Some nr \<Rightarrow> (case nr_status nr of StatusSuccess \<Rightarrow> StateDone | StatusFailed \<Rightarrow> StateFailed | StatusSkipped \<Rightarrow> StatePending))"

definition main_failure :: "core_scheduler \<Rightarrow> bool" where
  "main_failure s \<longleftrightarrow> (\<exists>i. es_state s i = StateFailed \<and> \<not> is_always (node_of s i))"

definition outcomes :: "engine_flow \<Rightarrow> value_map \<Rightarrow> core_scheduler \<Rightarrow> bool" where
  "outcomes f merged s \<longleftrightarrow>
     (\<forall>i. es_state s i = state_after (er_nodes (es_result s) i)) \<and>
     (\<forall>i nr. er_nodes (es_result s) i = Some nr \<longrightarrow> nr_id nr = i \<and> justified f s i nr) \<and>
     (es_main_failed s \<longleftrightarrow> main_failure s) \<and>
     (er_success (es_result s) \<longleftrightarrow> \<not> es_main_failed s) \<and>
     (es_main_failed s \<longleftrightarrow> er_code (es_result s) \<noteq> []) \<and>
     (\<forall>p i. (p, i) \<in> es_dead s \<longrightarrow> (p, i) \<in> set (ef_edges f) \<and> es_state s p = StateDone) \<and>
     (\<forall>k. k \<notin> set (node_ids f) \<longrightarrow> map_of (es_view s) k = map_of merged k) \<and>
     (\<forall>i \<in> set (node_ids f). es_store s i =
        (case er_nodes (es_result s) i of
           None \<Rightarrow> None
         | Some nr \<Rightarrow> if nr_status nr = StatusSuccess then Some (entries (nr_outputs nr)) else None)) \<and>
     (\<forall>i outs. i \<noteq> [] \<and> es_store s i = Some outs \<longrightarrow> map_of (es_view s) i = Some (boxed outs))"

lemma outcomesD:
  assumes "outcomes f merged s"
  shows "\<And>i. es_state s i = state_after (er_nodes (es_result s) i)"
    and "\<And>i nr. er_nodes (es_result s) i = Some nr \<Longrightarrow> nr_id nr = i \<and> justified f s i nr"
    and "es_main_failed s \<longleftrightarrow> main_failure s"
    and "er_success (es_result s) \<longleftrightarrow> \<not> es_main_failed s"
    and "es_main_failed s \<longleftrightarrow> er_code (es_result s) \<noteq> []"
    and "\<And>p i. (p, i) \<in> es_dead s \<Longrightarrow> (p, i) \<in> set (ef_edges f) \<and> es_state s p = StateDone"
    and "\<And>k. k \<notin> set (node_ids f) \<Longrightarrow> map_of (es_view s) k = map_of merged k"
    and "\<And>i. i \<in> set (node_ids f) \<Longrightarrow> es_store s i =
        (case er_nodes (es_result s) i of
           None \<Rightarrow> None
         | Some nr \<Rightarrow> if nr_status nr = StatusSuccess then Some (entries (nr_outputs nr)) else None)"
    and "\<And>i outs. i \<noteq> [] \<Longrightarrow> es_store s i = Some outs \<Longrightarrow> map_of (es_view s) i = Some (boxed outs)"
  using assms unfolding outcomes_def by blast+

text \<open>What a step does to the outcomes: it adds the result of one node.\<close>

definition failed_main :: "core_scheduler \<Rightarrow> string \<Rightarrow> node_result \<Rightarrow> bool" where
  "failed_main s i nr \<longleftrightarrow> nr_status nr = StatusFailed \<and> \<not> is_always (node_of s i)"

definition settles_node :: "engine_flow \<Rightarrow> core_scheduler \<Rightarrow> string \<Rightarrow> node_result \<Rightarrow> core_scheduler \<Rightarrow> bool" where
  "settles_node f s i nr t \<longleftrightarrow>
     es_node t = es_node s \<and> nr_id nr = i \<and> justified f s i nr \<and>
     er_nodes (es_result t) = (er_nodes (es_result s))(i \<mapsto> nr) \<and>
     es_state t = (es_state s)(i := state_after (Some nr)) \<and>
     es_dead s \<subseteq> es_dead t \<and>
     (\<forall>e \<in> es_dead t - es_dead s. fst e = i \<and> e \<in> set (ef_edges f) \<and> nr_status nr = StatusSuccess) \<and>
     (es_main_failed t \<longleftrightarrow> es_main_failed s \<or> failed_main s i nr) \<and>
     (er_success (es_result t) \<longleftrightarrow> er_success (es_result s) \<and> \<not> failed_main s i nr) \<and>
     (er_code (es_result t) \<noteq> [] \<longleftrightarrow> er_code (es_result s) \<noteq> [] \<or> failed_main s i nr) \<and>
     (if nr_status nr = StatusSuccess
      then es_store t = (es_store s)(i \<mapsto> entries (nr_outputs nr)) \<and>
           es_view t = AList.update i (boxed (entries (nr_outputs nr))) (es_view s)
      else es_store t = es_store s \<and> es_view t = es_view s)"

lemma settled_preds:
  assumes "topology f s" and "j \<in> settled s \<union> set (es_ready s)" and "(p, j) \<in> set (ef_edges f)"
  shows "p \<in> settled s"
proof -
  have "j \<in> set (node_ids f)" using topologyD(4,8) [OF assms(1)] assms(2) by blast
  with topologyD(10) [OF assms(1)] assms(2) have "waiting_preds f s j = []" by blast
  then show ?thesis using assms(3) by (auto simp: waiting_preds_def filter_empty_conv)
qed

lemma settles_fields:
  assumes "settles_node f s i nr t"
  shows "er_nodes (es_result t) = (er_nodes (es_result s))(i \<mapsto> nr)" and "es_node t = es_node s"
    and "es_state t = (es_state s)(i := state_after (Some nr))"
    and "map_of (es_view t) = (if nr_status nr = StatusSuccess
           then (map_of (es_view s))(i \<mapsto> boxed (entries (nr_outputs nr))) else map_of (es_view s))"
    and "es_store t = (if nr_status nr = StatusSuccess
           then (es_store s)(i \<mapsto> entries (nr_outputs nr)) else es_store s)"
  using assms by (auto simp: settles_node_def update_conv' split: if_splits)

lemma settles_dead:
  assumes "settles_node f s i nr t" and "(p, x) \<in> es_dead t"
  shows "(p, x) \<in> es_dead s \<or> p = i \<and> (p, x) \<in> set (ef_edges f) \<and> nr_status nr = StatusSuccess"
proof -
  have "\<forall>e \<in> es_dead t - es_dead s. fst e = i \<and> e \<in> set (ef_edges f) \<and> nr_status nr = StatusSuccess"
    using assms(1) by (simp add: settles_node_def)
  with assms(2) show ?thesis by (metis DiffI fst_conv)
qed

lemma settles_unchanged:
  assumes "settles_node f s i nr t" and "i \<notin> settled s"
  shows "settled_unchanged s t"
  unfolding settled_unchanged_def
  using assms settles_fields(2,3) [OF assms(1)] settles_dead [OF assms(1)] by (auto simp: settles_node_def)

lemma settles_main_failure:
  assumes "settles_node f s i nr t" and "es_state s i = StatePending"
  shows "main_failure t \<longleftrightarrow> main_failure s \<or> failed_main s i nr"
proof -
  note t = settles_fields [OF assms(1)]
  have "node_of t x = node_of s x" for x by (simp add: node_of_def t)
  moreover have "state_after (Some nr) = StateFailed \<longleftrightarrow> nr_status nr = StatusFailed"
    by (simp add: state_after_def split: node_status.split)
  ultimately show ?thesis
    unfolding main_failure_def failed_main_def t using assms(2) by (metis fun_upd_apply node_state.distinct(3))
qed

lemma settles_justified:
  assumes top: "topology f s" and out: "outcomes f m s" and ready: "i \<in> set (es_ready s)"
    and st: "settles_node f s i nr t" and r: "er_nodes (es_result t) j = Some r"
  shows "nr_id r = j" and "justified f t j r"
proof -
  note t = settles_fields(1) [OF st]
  have i: "i \<notin> settled s" using topologyD(8) [OF top] ready by auto
  show "nr_id r = j" using r st outcomesD(2) [OF out, of j r] by (auto simp: t settles_node_def split: if_splits)
  show "justified f t j r"
  proof (rule justified_unchanged [OF settles_unchanged [OF st i]])
    have j: "j \<in> settled s \<union> set (es_ready s)" using r ready by (auto simp: t settled_def split: if_splits)
    show "p \<in> settled s" if "(p, j) \<in> set (ef_edges f)" for p by (rule settled_preds [OF top j that])
    show "justified f s j r"
      using r st outcomesD(2) [OF out, of j r] by (auto simp: t settles_node_def split: if_splits)
  qed
qed

lemma outcomes_settle:
  assumes top: "topology f s" and out: "outcomes f m s" and ready: "i \<in> set (es_ready s)" and st: "settles_node f s i nr t"
  shows "outcomes f m t"
proof -
  note o = outcomesD [OF out] and t = settles_fields [OF st]
  have i: "i \<in> set (node_ids f)" "i \<notin> settled s" using topologyD(8) [OF top] ready by auto
  then have none: "er_nodes (es_result s) i = None" by (auto simp: settled_def)
  then have pending: "es_state s i = StatePending" by (simp add: o(1) state_after_def)
  show ?thesis unfolding outcomes_def
  proof (intro conjI allI ballI impI)
    show "es_state t x = state_after (er_nodes (es_result t) x)" for x by (simp add: t o(1))
    show "nr_id r = j" "justified f t j r" if "er_nodes (es_result t) j = Some r" for j r
      by (rule settles_justified [OF top out ready st that])+
    show "es_main_failed t \<longleftrightarrow> main_failure t"
      using st o(3) settles_main_failure [OF st pending] by (auto simp: settles_node_def)
    show "er_success (es_result t) \<longleftrightarrow> \<not> es_main_failed t" using st o(4) by (auto simp: settles_node_def)
    show "es_main_failed t \<longleftrightarrow> er_code (es_result t) \<noteq> []" using st o(5) by (auto simp: settles_node_def)
    show "(p, x) \<in> set (ef_edges f)" "es_state t p = StateDone" if "(p, x) \<in> es_dead t" for p x
      using settles_dead [OF st that] o(6) [of p x] pending by (auto simp: t state_after_def)
    show "map_of (es_view t) k = map_of m k" if "k \<notin> set (node_ids f)" for k
      using o(7) [OF that] that i(1) by (auto simp: t)
    show "es_store t x = (case er_nodes (es_result t) x of None \<Rightarrow> None
         | Some nr \<Rightarrow> if nr_status nr = StatusSuccess then Some (entries (nr_outputs nr)) else None)"
      if "x \<in> set (node_ids f)" for x
      using o(8) [OF that] none by (auto simp: t)
    show "map_of (es_view t) x = Some (boxed outs)" if "x \<noteq> [] \<and> es_store t x = Some outs" for x outs
      using that o(9) [of x outs] none by (auto simp: t split: if_splits)
  qed
qed

section \<open>A step\<close>

lemma start_node_fields [simp]:
  "es_node (start_node i s) = es_node s" "es_succ (start_node i s) = es_succ s" "es_preds (start_node i s) = es_preds s"
  "es_indeg (start_node i s) = es_indeg s" "es_ready (start_node i s) = tl (es_ready s)"
  "es_processed (start_node i s) = Suc (es_processed s)" "es_state (start_node i s) = es_state s"
  "es_dead (start_node i s) = es_dead s" "es_main_failed (start_node i s) = es_main_failed s"
  "es_result (start_node i s) = es_result s" "es_store (start_node i s) = es_store s"
  "es_view (start_node i s) = es_view s" "es_events (start_node i s) = es_events s"
  by (simp_all add: start_node_def)

lemma node_of_same: "es_node t = es_node s \<Longrightarrow> node_of t i = node_of s i"
  by (simp add: node_of_def)

lemma decided_by_start [simp]:
  "node_of (start_node i s) j = node_of s j"
  "live_pred f (start_node i s) j p \<longleftrightarrow> live_pred f s j p"
  "has_pred_in f (start_node i s) st j \<longleftrightarrow> has_pred_in f s st j"
  by (simp_all add: node_of_def live_pred_def has_pred_in_def)

lemma justified_start:
  "skip_justified f (start_node i s) j r = skip_justified f s j r"
  "run_justified f (start_node i s) j = run_justified f s j"
  by (simp_all only: skip_justified_def run_justified_def no_live_reason_def decided_by_start start_node_fields)

lemma step_node_cases:
  assumes "step_node run obs i s w = Some (t, w')" and "es_preds s = edge_preds (ef_edges f)"
  obtains (skip) reason where "skip_justified f s i reason" and "w' = w" and "t = skip_ready obs i reason (start_node i s)"
  | (fail) res checks e where "run_justified f s i" and "run (node_of s i) (boxed (es_view s)) w = Some ((res, checks, Some e), w')"
      and "t = fail_node obs i e res checks (emitted obs (NodeBegan i) (start_node i s))"
  | (finish) res checks where "run_justified f s i" and "run (node_of s i) (boxed (es_view s)) w = Some ((res, checks, None), w')"
      and "t = complete_node obs i res checks (emitted obs (NodeBegan i) (start_node i s))"
proof -
  have preds: "es_preds (start_node i s) = edge_preds (ef_edges f)" using assms(2) by simp
  have node: "node_of (start_node i s) i = node_of s i" by (rule node_of_same) simp
  have view: "es_view (emitted obs (NodeBegan i) (start_node i s)) = es_view s" by (simp add: emitted_def)
  show thesis
  proof (cases "classify_node (start_node i s) i (is_always (node_of s i))")
    case (Some reason)
    then have "skip_justified f s i reason" using classify_skip [OF preds, of i reason] node by (simp add: justified_start)
    with assms(1) Some node show thesis by (intro skip) (auto simp: step_node_def)
  next
    case None
    then have run: "run_justified f s i" using classify_run [OF preds, of i] by (simp add: justified_start)
    from assms(1) None node view show thesis
      by (auto simp: step_node_def Let_def split: option.splits prod.splits intro: fail [OF run] finish [OF run])
  qed
qed

text \<open>What every kind of step has in common, before the release.\<close>

definition settled_state :: "core_scheduler \<Rightarrow> string \<Rightarrow> core_scheduler \<Rightarrow> bool" where
  "settled_state s i u \<longleftrightarrow>
     same_graph s u \<and> es_ready u = tl (es_ready s) \<and> es_processed u = Suc (es_processed s) \<and>
     settled u = insert i (settled s)"

lemmas node_steps = skip_ready_def fail_node_def complete_node_def emitted_def put_result_def record_routing_def
  fail_main_def settled_state_def same_graph_def settled_def

definition one_settled :: "engine_flow \<Rightarrow> core_scheduler \<Rightarrow> string \<Rightarrow> node_result \<Rightarrow> core_scheduler \<Rightarrow> bool" where
  "one_settled f s i nr t \<longleftrightarrow> (\<exists>u. t = release_node i u \<and> settled_state s i u \<and> settles_node f s i nr t)"

lemma one_settledI:
  "t = release_node i u \<Longrightarrow> settled_state s i u \<Longrightarrow> settles_node f s i nr u \<Longrightarrow> one_settled f s i nr t"
  by (auto simp: one_settled_def settles_node_def)

lemma skip_settles:
  assumes "skip_justified f s i reason" and "es_state s i = StatePending"
  obtains nr where "one_settled f s i nr (skip_ready obs i reason (start_node i s))" and "nr_status nr = StatusSkipped"
proof -
  let ?nr = "\<lparr>nr_id = i, nr_kind = en_kind (node_of s i), nr_status = StatusSkipped, nr_outputs = None,
                nr_assertions = [], nr_error = [], nr_code = [], nr_skip_reason = reason\<rparr>"
  have "one_settled f s i ?nr (skip_ready obs i reason (start_node i s))"
    by (rule one_settledI [of _ _ "emitted obs (NodeCompleted i ?nr) (put_result i ?nr (start_node i s))"])
      (use assms in \<open>auto simp: node_steps Let_def settles_node_def justified_def state_after_def failed_main_def fun_upd_idem\<close>)
  then show thesis by (rule that) simp
qed

lemma fail_settles:
  assumes "run_justified f s i"
  obtains nr where "one_settled f s i nr (fail_node obs i e res checks (emitted obs (NodeBegan i) (start_node i s)))"
    and "nr_status nr = StatusFailed"
proof -
  let ?s1 = "emitted obs (NodeBegan i) (start_node i s)"
  let ?code = "if error_code e = [] then ''RUNNER_ERROR'' else error_code e"
  let ?nr = "\<lparr>nr_id = i, nr_kind = en_kind (node_of s i), nr_status = StatusFailed, nr_outputs = no_outputs res,
                nr_assertions = checks, nr_error = error_text e, nr_code = ?code, nr_skip_reason = []\<rparr>"
  let ?s2 = "(put_result i ?nr ?s1)\<lparr>es_state := (es_state s)(i := StateFailed)\<rparr>"
  let ?u = "emitted obs (NodeFailed i ?nr) (if is_always (node_of s i) then ?s2 else fail_main i ?code (error_text e) ?s2)"
  have node: "node_of ?s1 i = node_of s i" by (simp add: node_of_def emitted_def)
  have "one_settled f s i ?nr (fail_node obs i e res checks ?s1)"
  proof (rule one_settledI [of _ _ ?u])
    show "fail_node obs i e res checks ?s1 = release_node i ?u"
      unfolding fail_node_def Let_def node by (simp add: emitted_def)
    show "settled_state s i ?u" by (auto simp: node_steps Let_def)
    show "settles_node f s i ?nr ?u"
      using assms by (auto simp: node_steps Let_def settles_node_def justified_def state_after_def failed_main_def)
  qed
  then show thesis by (rule that) simp
qed

lemma finish_settles:
  assumes "run_justified f s i" and "es_succ s = edge_succ (ef_edges f)"
  obtains nr where "one_settled f s i nr (complete_node obs i res checks (emitted obs (NodeBegan i) (start_node i s)))"
    and "nr_status nr = StatusSuccess" and "nr_outputs nr = no_outputs res"
proof -
  let ?s1 = "emitted obs (NodeBegan i) (start_node i s)" and ?outs = "entries (no_outputs res)"
  let ?nr = "\<lparr>nr_id = i, nr_kind = en_kind (node_of s i), nr_status = StatusSuccess, nr_outputs = no_outputs res,
                nr_assertions = checks, nr_error = [], nr_code = [], nr_skip_reason = []\<rparr>"
  let ?s2 = "?s1\<lparr>es_store := (es_store s)(i \<mapsto> ?outs), es_view := AList.update i (boxed ?outs) (es_view s),
                 es_state := (es_state s)(i := StateDone)\<rparr>"
  let ?u = "record_routing i (no_routed res) (emitted obs (NodeCompleted i ?nr) (put_result i ?nr ?s2))"
  have node: "node_of ?s1 i = node_of s i" by (simp add: node_of_def emitted_def)
  have "one_settled f s i ?nr (complete_node obs i res checks ?s1)"
  proof (rule one_settledI [of _ _ ?u])
    show "complete_node obs i res checks ?s1 = release_node i ?u"
      unfolding complete_node_def Let_def node by (simp add: emitted_def)
    show "settled_state s i ?u" by (auto simp: node_steps Let_def split: option.split)
    show "settles_node f s i ?nr ?u"
      using assms by (auto simp: node_steps Let_def settles_node_def justified_def state_after_def failed_main_def split: option.splits)
  qed
  then show thesis by (rule that) simp_all
qed

section \<open>Configurations\<close>

text \<open>A runner that writes down its calls: which node it ran, on which inputs.\<close>

type_synonym run_log = "(engine_node \<times> gval) list"

definition logged :: "'w node_runner \<Rightarrow> ('w \<times> run_log) node_runner" where
  "logged run n view wl =
     (case run n view (fst wl) of None \<Rightarrow> None | Some (r, w') \<Rightarrow> Some (r, (w', snd wl @ [(n, view)])))"

definition fresh_result :: "flow_result \<Rightarrow> bool" where
  "fresh_result fr \<longleftrightarrow> er_success fr \<and> er_nodes fr = Map.empty \<and> er_code fr = []"

text \<open>What a node is run on: the outputs of the predecessors that have some, and the flow's inputs.\<close>

definition sees_inputs :: "engine_flow \<Rightarrow> value_map \<Rightarrow> (string \<rightharpoonup> value_map) \<Rightarrow> string \<Rightarrow> gval \<Rightarrow> bool" where
  "sees_inputs f m store i v \<longleftrightarrow>
     (\<exists>kvs. v = GMap kvs \<and>
        (\<forall>p outs. (p, i) \<in> set (ef_edges f) \<and> store p = Some outs \<longrightarrow> map_of kvs p = Some (boxed outs)) \<and>
        (\<forall>k. k \<notin> set (node_ids f) \<longrightarrow> map_of kvs k = map_of m k))"

definition ran_nodes :: "core_scheduler \<Rightarrow> string set" where
  "ran_nodes s = {i. \<exists>nr. er_nodes (es_result s) i = Some nr \<and> nr_status nr \<noteq> StatusSkipped}"

definition log_right :: "engine_flow \<Rightarrow> value_map \<Rightarrow> core_scheduler \<Rightarrow> run_log \<Rightarrow> bool" where
  "log_right f m s calls \<longleftrightarrow>
     distinct (map (en_id \<circ> fst) calls) \<and> set (map (en_id \<circ> fst) calls) = ran_nodes s \<and>
     (\<forall>(n, v) \<in> set calls. n \<in> set (ef_nodes f) \<and> sees_inputs f m (es_store s) (en_id n) v)"

type_synonym 'w core_config = "core_scheduler \<times> 'w \<times> run_log"

definition core_start :: "engine_flow \<Rightarrow> value_map \<Rightarrow> 'w core_config \<Rightarrow> bool" where
  "core_start f inputs c \<longleftrightarrow>
     well_formed f \<and> (\<exists>fr evs w. fresh_result fr \<and> c = (new_scheduler f inputs fr evs, w, []))"

definition core_step :: "'w node_runner \<Rightarrow> bool \<Rightarrow> 'w core_config \<Rightarrow> 'w core_config \<Rightarrow> bool" where
  "core_step run obs c c' \<longleftrightarrow>
     (\<exists>i rest. es_ready (fst c) = i # rest \<and> step_node (logged run) obs i (fst c) (snd c) = Some c')"

definition core_inv :: "engine_flow \<Rightarrow> value_map \<Rightarrow> 'w core_config \<Rightarrow> bool" where
  "core_inv f inputs c \<longleftrightarrow>
     (let m = overlay_inputs (ef_inputs f) inputs in
      well_formed f \<and> topology f (fst c) \<and> outcomes f m (fst c) \<and> log_right f m (fst c) (snd (snd c)))"

lemma new_scheduler_outcomes:
  assumes "well_formed f" and "fresh_result fr"
  shows "outcomes f (overlay_inputs (ef_inputs f) inputs) (new_scheduler f inputs fr evs)"
  using assms
  by (auto simp: outcomes_def new_scheduler_fields fresh_result_def state_after_def main_failure_def well_formed_def)

lemma settled_step:
  assumes wf: "well_formed f" and top: "topology f s" and out: "outcomes f m s" and ready: "es_ready s = i # rest"
    and one: "one_settled f s i nr t"
  shows "topology f t" and "outcomes f m t" and "settled t = insert i (settled s)"
    and "ran_nodes t = (if nr_status nr = StatusSkipped then ran_nodes s else insert i (ran_nodes s))"
    and "\<And>p. p \<noteq> i \<Longrightarrow> es_store t p = es_store s p"
proof -
  from one obtain u where u: "t = release_node i u" "settled_state s i u" and st: "settles_node f s i nr t"
    by (auto simp: one_settled_def)
  show "topology f t" unfolding u(1)
    using u(2) ready by (intro settle_topology [OF wf top ready]) (auto simp: settled_state_def)
  show "outcomes f m t" by (rule outcomes_settle [OF top out _ st]) (simp add: ready)
  show "settled t = insert i (settled s)" using u by (simp add: settled_state_def settled_def)
  have "i \<notin> settled s" using topologyD(8) [OF top] ready by auto
  then show "ran_nodes t = (if nr_status nr = StatusSkipped then ran_nodes s else insert i (ran_nodes s))"
    using st by (auto simp: ran_nodes_def settles_node_def settled_def)
  show "es_store t p = es_store s p" if "p \<noteq> i" for p using st that by (auto simp: settles_node_def split: if_splits)
qed

text \<open>A logged step is a skip, or the run of the first node of the queue, written down.\<close>

lemma logged_step_cases:
  assumes "step_node (logged run) obs i s wl = Some (t, wl')" and "topology f s" and "es_state s i = StatePending"
  obtains (skip) nr where "one_settled f s i nr t" and "nr_status nr = StatusSkipped" and "wl' = wl"
  | (ran) nr w' where "one_settled f s i nr t" and "nr_status nr \<noteq> StatusSkipped"
      and "wl' = (w', snd wl @ [(node_of s i, boxed (es_view s))])"
proof (rule step_node_cases [OF assms(1) topologyD(3) [OF assms(2)]])
  fix reason
  assume "skip_justified f s i reason" "wl' = wl" "t = skip_ready obs i reason (start_node i s)"
  with assms(3) skip show thesis by (metis skip_settles)
next
  fix res checks e
  assume run: "run_justified f s i" and call: "logged run (node_of s i) (boxed (es_view s)) wl = Some ((res, checks, Some e), wl')"
    and t: "t = fail_node obs i e res checks (emitted obs (NodeBegan i) (start_node i s))"
  from call obtain w' where "wl' = (w', snd wl @ [(node_of s i, boxed (es_view s))])"
    by (auto simp: logged_def split: option.splits)
  with run t ran show thesis by (metis fail_settles node_status.distinct(5))
next
  fix res checks
  assume run: "run_justified f s i" and call: "logged run (node_of s i) (boxed (es_view s)) wl = Some ((res, checks, None), wl')"
    and t: "t = complete_node obs i res checks (emitted obs (NodeBegan i) (start_node i s))"
  from call obtain w' where "wl' = (w', snd wl @ [(node_of s i, boxed (es_view s))])"
    by (auto simp: logged_def split: option.splits)
  with run t ran topologyD(2) [OF assms(2)] show thesis by (metis finish_settles node_status.distinct(3))
qed

lemma sees_view:
  assumes "well_formed f" and "outcomes f m s"
  shows "sees_inputs f m (es_store s) i (boxed (es_view s))"
proof -
  have "p \<noteq> []" if "(p, i) \<in> set (ef_edges f)" for p using assms(1) that by (auto simp: well_formed_def)
  then show ?thesis unfolding sees_inputs_def using outcomesD(7,9) [OF assms(2)] by blast
qed

lemma node_of_ready:
  assumes "well_formed f" and "topology f s" and "i \<in> set (node_ids f)"
  shows "node_of s i \<in> set (ef_nodes f)" and "en_id (node_of s i) = i"
proof -
  obtain n where n: "n \<in> set (ef_nodes f)" "i = en_id n" using assms(3) by (auto simp: node_ids_def)
  with node_by_id [OF assms(1) n(1)] topologyD(1) [OF assms(2)] have "node_of s i = n" by (simp add: node_of_def)
  with n show "node_of s i \<in> set (ef_nodes f)" "en_id (node_of s i) = i" by simp_all
qed

lemma sees_inputs_kept:
  assumes "well_formed f" and top: "topology f s" and "outcomes f m s" and ready: "es_ready s = i # rest"
    and "one_settled f s i nr t" and "j \<in> settled s \<union> set (es_ready s)" and sees: "sees_inputs f m (es_store s) j v"
  shows "sees_inputs f m (es_store t) j v"
proof -
  have "i \<notin> settled s" using topologyD(8) [OF top] ready by auto
  then have "es_store t p = es_store s p" if "(p, j) \<in> set (ef_edges f)" for p
    using settled_step(5) [OF assms(1-5), of p] settled_preds [OF top assms(6) that] by blast
  with sees show ?thesis unfolding sees_inputs_def by metis
qed

lemma core_step_inv:
  assumes inv: "core_inv f inputs c" and step: "core_step run obs c c'"
  shows "core_inv f inputs c'"
proof -
  obtain s w calls t w' calls' where c: "c = (s, w, calls)" "c' = (t, w', calls')" by (cases c, cases c')
  define m where "m = overlay_inputs (ef_inputs f) inputs"
  have wf: "well_formed f" and top: "topology f s" and out: "outcomes f m s" and log_s: "log_right f m s calls"
    using inv by (auto simp: core_inv_def c m_def Let_def)
  obtain i rest where ready: "es_ready s = i # rest" and st: "step_node (logged run) obs i s (w, calls) = Some (t, w', calls')"
    using step by (auto simp: core_step_def c)
  have i: "i \<in> set (node_ids f)" "i \<notin> settled s" using topologyD(8) [OF top] ready by auto
  then have pend: "es_state s i = StatePending" by (simp add: outcomesD(1) [OF out] state_after_def settled_def domIff)
  note node = node_of_ready [OF wf top i(1)]
  have old: "sees_inputs f m (es_store t) j v" if "one_settled f s i nr t" "j \<in> settled s \<union> set (es_ready s)"
    "sees_inputs f m (es_store s) j v" for nr j v
    by (rule sees_inputs_kept [OF wf top out ready that])
  have ran_settled: "ran_nodes s \<subseteq> settled s" by (auto simp: ran_nodes_def settled_def)
  have logs: "distinct (map (en_id \<circ> fst) calls)" "set (map (en_id \<circ> fst) calls) = ran_nodes s"
    using log_s by (simp_all add: log_right_def)
  have seen: "n \<in> set (ef_nodes f)" "en_id n \<in> settled s" "sees_inputs f m (es_store s) (en_id n) v"
    if "(n, v) \<in> set calls" for n v
    using log_s that ran_settled by (force simp: log_right_def)+
  from st top pend show ?thesis
  proof (cases rule: logged_step_cases)
    case (skip nr)
    note n = settled_step [OF wf top out ready skip(1)]
    have "log_right f m t calls"
      unfolding log_right_def using logs n(4) skip(2) old [OF skip(1)] seen by auto
    with wf n skip(3) show ?thesis by (simp add: core_inv_def c m_def Let_def)
  next
    case (ran nr w2)
    note n = settled_step [OF wf top out ready ran(1)]
    have new: "sees_inputs f m (es_store t) i (boxed (es_view s))"
      by (rule old [OF ran(1) _ sees_view [OF wf out]]) (simp add: ready)
    have "i \<notin> set (map (en_id \<circ> fst) calls)" using log_s ran_settled i(2) by (auto simp: log_right_def)
    then have "log_right f m t (calls @ [(node_of s i, boxed (es_view s))])"
      unfolding log_right_def using logs n(4) ran(2) old [OF ran(1)] seen new node by auto
    with wf n ran(3) show ?thesis by (simp add: core_inv_def c m_def Let_def)
  qed
qed

interpretation core: invariant_system "core_start f inputs" "core_step run obs" "core_inv f inputs"
  for f inputs run obs
proof
  show "core_inv f inputs c" if "core_start f inputs c" for c :: "'w core_config"
    using that new_scheduler_topology new_scheduler_outcomes
    by (fastforce simp: core_start_def core_inv_def Let_def log_right_def ran_nodes_def new_scheduler_fields fresh_result_def)
qed (rule core_step_inv)

end
