(* ===== verification/Core_Demo.thy ===== *)
theory Core_Demo
  imports Core_Run
begin

text \<open>Concrete flows, codecs and runtimes for the library form of the engine.\<close>

section \<open>A flow and a runner\<close>

definition demo_engine_node :: "string \<Rightarrow> string \<Rightarrow> string \<Rightarrow> string \<Rightarrow> engine_node" where
  "demo_engine_node i k phase raw = \<lparr>en_id = i, en_kind = k, en_run_when = phase, en_raw = raw\<rparr>"

definition demo_engine_flow :: engine_flow where
  "demo_engine_flow =
     \<lparr>ef_name = ''demo'', ef_version = 1,
      ef_nodes = [demo_engine_node ''c'' ''request'' ''always'' [], demo_engine_node ''a'' ''request'' ''on_success'' [],
                  demo_engine_node ''b'' ''request'' ''on_success'' [], demo_engine_node ''d'' ''request'' ''on_success'' []],
      ef_edges = [(''a'', ''b''), (''b'', ''c''), (''a'', ''c''), (''b'', ''d'')], ef_inputs = []\<rparr>"

text \<open>Every node but \<open>b\<close> yields a number.\<close>

definition demo_runner :: "nat node_runner" where
  "demo_runner n view w =
     (if en_id n = ''b'' then Some ((zero_out, [], Some (PlainError ''no'')), Suc w)
      else Some ((zero_out\<lparr>no_outputs := Some [(''x'', GInt (int w))]\<rparr>, [], None), Suc w))"

definition demo_fresh :: flow_result where
  "demo_fresh = \<lparr>er_success = True, er_nodes = Map.empty, er_outputs = [], er_error = [], er_code = []\<rparr>"

definition demo_scheduler :: core_scheduler where
  "demo_scheduler = new_scheduler demo_engine_flow [] demo_fresh []"

text \<open>\<open>b\<close> fails: the cleanup node \<open>c\<close> still runs, \<open>d\<close> is skipped.\<close>

lemma demo_drains:
  "(case drain_ready demo_runner (\<lambda>w. None) False demo_scheduler 0 of
      None \<Rightarrow> False
    | Some (c, s, w) \<Rightarrow> c = None \<and> w = 3 \<and>
        map_option nr_status (er_nodes (es_result s) ''c'') = Some StatusSuccess \<and>
        map_option nr_status (er_nodes (es_result s) ''b'') = Some StatusFailed \<and>
        map_option nr_status (er_nodes (es_result s) ''d'') = Some StatusSkipped)"
  by code_simp

lemma demo_drained:
  obtains s b c d where "drain_ready demo_runner (\<lambda>w. None) False (new_scheduler demo_engine_flow [] demo_fresh []) 0 = Some (None, s, 3)"
    and "er_nodes (es_result s) ''b'' = Some b" and "nr_status b = StatusFailed"
    and "er_nodes (es_result s) ''c'' = Some c" and "nr_status c = StatusSuccess"
    and "er_nodes (es_result s) ''d'' = Some d" and "nr_status d = StatusSkipped"
  using demo_drains unfolding demo_scheduler_def by (auto split: option.splits)

lemma demo_engine_flow_valid: "validate_structure demo_engine_flow = None" "fresh_result demo_fresh"
  by (code_simp, simp add: fresh_result_def demo_fresh_def)

section \<open>Modules\<close>

text \<open>
  A codec under which the text of a module node is the id it names, and the text of a set-variable
  node is not read: its variable \<open>x\<close> holds an object, of which the node extracts a member as \<open>x\<close>.
\<close>

definition demo_base :: node_base where
  "demo_base = \<lparr>eb_id = ''v'', eb_assertions = [\<lparr>sp_path = ''x'', sp_op = OpEquals, sp_expected = GStr ''done''\<rparr>],
     eb_outputs = [\<lparr>os_name = ''x'', os_path = ''x.state''\<rparr>]\<rparr>"

definition demo_variables_cfg :: set_variable_cfg where
  "demo_variables_cfg =
     node_base.extend demo_base \<lparr>sv_variables = Some [(''x'', GMap [(''state'', GStr ''done'')])]\<rparr>"

definition undecodable :: "'b \<Rightarrow> go_error + 'a" where
  "undecodable raw = Inl (PlainError ''not in the demo'')"

definition demo_core_codec :: core_codec where
  "demo_core_codec =
     \<lparr>format_float = (\<lambda>x. ''0''), float_v = (\<lambda>x. ''0''), parse_float = undecodable, match_string = (\<lambda>p. undecodable),
      select_path = (\<lambda>p. None), marshal = (\<lambda>v. Inr ''{}''), unmarshal_string = Inr, unmarshal_any = undecodable,
      unmarshal_flow = undecodable, unmarshal_head = undecodable, unmarshal_request = undecodable,
      unmarshal_delay = undecodable,
      unmarshal_module = (\<lambda>raw. Inr (node_base.extend \<lparr>eb_id = ''m'', eb_assertions = [], eb_outputs = []\<rparr>
        \<lparr>md_body = raw, md_inputs = []\<rparr>)),
      unmarshal_set_variable = (\<lambda>raw. Inr demo_variables_cfg),
      unmarshal_loop = undecodable, unmarshal_poll = undecodable, unmarshal_assert = undecodable,
      unmarshal_branch = undecodable, unmarshal_sse = undecodable, new_request = (\<lambda>verb url. None)\<rparr>"

definition demo_runtime :: "nat node_runtime" where
  "demo_runtime =
     \<lparr>http_do = (\<lambda>dl req w. (Inl (PlainError ''offline''), w)), http_open = (\<lambda>dl req w. (Inl (PlainError ''offline''), w)),
      scan_line = (\<lambda>dl w. (ScanStop None, w)), clock_sleep = (\<lambda>dl d w. (None, w)), rt_vars = None,
      ctx_err = (\<lambda>dl w. None), time_now = int, retry_wait = (\<lambda>dl d w. (False, w))\<rparr>"

definition single_node_flow :: "engine_node \<Rightarrow> engine_flow" where
  "single_node_flow n = \<lparr>ef_name = [], ef_version = 1, ef_nodes = [n], ef_edges = [], ef_inputs = []\<rparr>"

definition demo_caller :: engine_flow where
  "demo_caller = single_node_flow (demo_engine_node ''m'' ''module'' ''on_success'' ''child'')"

definition demo_child :: engine_flow where
  "demo_child = single_node_flow (demo_engine_node ''v'' ''set_variable'' ''on_success'' [])"

definition demo_core_engine :: "(unit, nat) core_engine" where
  "demo_core_engine =
     \<lparr>ce_codec = demo_core_codec, ce_runtime = demo_runtime, ce_flows = Some [''child'' \<mapsto> demo_child],
      ce_middleware = [retry demo_runtime 2]\<rparr>"

lemmas demo_module_defs = demo_core_engine_def demo_caller_def demo_child_def single_node_flow_def demo_engine_node_def
  demo_core_codec_def demo_runtime_def

end
