(* ===== verification/Core_Props.thy ===== *)
theory Core_Props
  imports Core_Demo
begin

text \<open>
  The properties of the library form of the engine: how a run of a flow ends and what every result
  of it rests on, what a node is run on, that runs return, what the walk of the module references
  guarantees, and a check that passes when it is tried again.
\<close>

section \<open>The loop over the queue\<close>

lemma drain_induct [consumes 1, case_names empty cancelled step]:
  assumes "drain_ready run d obs s w = Some (c, t, w')"
    and empty: "\<And>s w. es_ready s = [] \<Longrightarrow> P s w None s w"
    and cancelled: "\<And>s w i rest e. es_ready s = i # rest \<Longrightarrow> d w = Some e \<Longrightarrow> P s w (Some e) s w"
    and step: "\<And>s w i rest s1 w1 c t w'. es_ready s = i # rest \<Longrightarrow> d w = None \<Longrightarrow>
      step_node run obs i s w = Some (s1, w1) \<Longrightarrow> P s1 w1 c t w' \<Longrightarrow> P s w c t w'"
  shows "P s w c t w'"
proof -
  let ?Q = "\<lambda>run' d' obs' s w r. run' = run \<longrightarrow> d' = d \<longrightarrow> obs' = obs \<longrightarrow> P s w (fst r) (fst (snd r)) (snd (snd r))"
  have "?Q run d obs s w (c, t, w')"
  proof (rule drain_ready.raw_induct [where P = ?Q, OF _ assms(1)])
    fix drain run' d' obs' s w r
    assume ih: "\<And>run' d' obs' s w r. drain run' d' obs' s w = Some r \<Longrightarrow> ?Q run' d' obs' s w r"
      and body: "(case es_ready s of [] \<Rightarrow> Some (None, s, w)
        | i # rest \<Rightarrow> (case d' w of Some e \<Rightarrow> Some (Some e, s, w)
            | None \<Rightarrow> (case step_node run' obs' i s w of None \<Rightarrow> None | Some (s', w') \<Rightarrow> drain run' d' obs' s' w'))) = Some r"
    show "?Q run' d' obs' s w r"
      using body empty cancelled by (auto split: list.splits option.splits dest: ih intro: step)
  qed
  then show ?thesis by simp
qed

lemma step_node_logged:
  "step_node (logged run) obs i s (w, calls) =
     (case step_node run obs i s w of
        None \<Rightarrow> None
      | Some (t, w') \<Rightarrow>
          Some (t, w', calls @ (if classify_node (start_node i s) i (is_always (node_of s i)) = None
                                then [(node_of s i, boxed (es_view s))] else [])))"
  by (cases "classify_node (start_node i s) i (is_always (node_of s i))";
      cases "run (node_of s i) (boxed (es_view s)) w")
    (auto simp: step_node_def logged_def Let_def emitted_def split: option.splits)

lemma drain_logged:
  assumes "drain_ready run d obs s w = Some (c, t, w')"
  shows "\<exists>calls'. drain_ready (logged run) (d \<circ> fst) obs s (w, calls) = Some (c, t, w', calls')"
  using assms
proof (induction arbitrary: calls rule: drain_induct)
  case (step s w i rest s1 w1 c t w')
  then obtain calls1 where "step_node (logged run) obs i s (w, calls) = Some (s1, w1, calls1)"
    by (auto simp: step_node_logged)
  with step show ?case by (subst drain_ready.simps) (simp add: comp_def)
qed (simp_all add: drain_ready.simps)

lemma drain_reaches:
  assumes "drain_ready (logged run) d obs s wl = Some (c, t, wl')" and "reach (core_start f inputs) (core_step run obs) (s, wl)"
  shows "reach (core_start f inputs) (core_step run obs) (t, wl') \<and> (c = None \<longrightarrow> es_ready t = [])"
  using assms
proof (induction rule: drain_induct)
  case (step s w i rest s1 w1 c t w')
  have "core_step run obs (s, w) (s1, w1)" using step.hyps by (auto simp: core_step_def)
  with step.prems step.IH show ?case by (blast intro: reach_step)
qed simp_all

text \<open>A drained flow, as the scheduler it ends in and the calls it made.\<close>

lemma drained:
  assumes "validate_structure f = None" and "fresh_result fr"
    and "drain_ready run d obs (new_scheduler f inputs fr evs) w = Some (c, t, w')"
  obtains calls where "drain_ready (logged run) (d \<circ> fst) obs (new_scheduler f inputs fr evs) (w, []) = Some (c, t, w', calls)"
    and "core_inv f inputs (t, w', calls)" and "c = None \<Longrightarrow> es_ready t = []"
proof -
  obtain calls where calls: "drain_ready (logged run) (d \<circ> fst) obs (new_scheduler f inputs fr evs) (w, []) = Some (c, t, w', calls)"
    using drain_logged [OF assms(3)] by blast
  have "reach (core_start f inputs) (core_step run obs) (new_scheduler f inputs fr evs, w, [])"
    using validated_structure [OF assms(1)] assms(2) by (intro reach_start) (auto simp: core_start_def)
  from drain_reaches [OF calls this] core.reach_inv that calls show thesis by blast
qed

section \<open>How a run ends\<close>

lemma finished_settles:
  assumes "well_formed f" and "topology f t" and "es_ready t = []"
  shows "acyclic (set (ef_edges f)) \<longleftrightarrow> settled t = set (node_ids f)"
    and "es_processed t = length (ef_nodes f) \<longleftrightarrow> settled t = set (node_ids f)"
proof -
  note t = topologyD [OF assms(2)]
  have len: "card (set (node_ids f)) = length (ef_nodes f)"
    using assms(1) distinct_card [of "node_ids f"] by (simp add: well_formed_def node_ids_def)
  show "es_processed t = length (ef_nodes f) \<longleftrightarrow> settled t = set (node_ids f)"
    unfolding t(5) len [symmetric] using card_subset_eq [OF _ t(4)] by auto
  show "acyclic (set (ef_edges f)) \<longleftrightarrow> settled t = set (node_ids f)"
  proof
    assume all: "settled t = set (node_ids f)"
    have "{e \<in> set (ef_edges f). snd e \<in> settled t} = set (ef_edges f)"
      using assms(1) unfolding all well_formed_def by auto
    with t(11) show "acyclic (set (ef_edges f))" by simp
  next
    assume ac: "acyclic (set (ef_edges f))"
    show "settled t = set (node_ids f)"
    proof (rule ccontr)
      let ?U = "set (node_ids f) - settled t"
      assume "settled t \<noteq> set (node_ids f)"
      with t(4) obtain i where i: "i \<in> ?U" by blast
      have "wf (set (ef_edges f))" by (rule finite_acyclic_wf [OF _ ac]) simp
      from wfE_min [OF this i] obtain z where z: "z \<in> ?U" "\<And>y. (y, z) \<in> set (ef_edges f) \<Longrightarrow> y \<notin> ?U" by blast
      have "waiting_preds f t z \<noteq> []" using t(10) [of z] z(1) assms(3) by auto
      then obtain p where "(p, z) \<in> set (ef_edges f)" "p \<notin> settled t"
        by (auto simp: waiting_preds_def filter_empty_conv)
      with z(2) assms(1) show False by (auto simp: well_formed_def)
    qed
  qed
qed

lemma close_run_result:
  "er_nodes (close_run f None s) = er_nodes (es_result s)"
  "er_outputs (close_run f None s) = collect_outputs f s"
  "er_success (close_run f None s) \<longleftrightarrow> er_success (es_result s) \<and> es_processed s = length (ef_nodes f)"
  "es_processed s \<noteq> length (ef_nodes f) \<Longrightarrow> er_code (close_run f None s) = flow_validation_code"
  by (simp_all add: close_run_def Let_def)

lemma collected_output:
  assumes "well_formed f" and "outcomes f m s" and "i \<in> set (node_ids f)"
  shows "map_of (collect_outputs f s) i = map_option boxed (es_store s i)"
proof -
  let ?ids = "filter (\<lambda>i. i \<noteq> [] \<and> es_store s i \<noteq> None) (node_ids f)"
  have ne: "i \<noteq> []" using assms(1,3) by (auto simp: well_formed_def)
  have "map_of (map (\<lambda>i. (i, g i)) xs) i = (if i \<in> set xs then Some (g i) else None)" for g :: "string \<Rightarrow> gval" and xs
    by (simp add: map_of_map_restrict restrict_map_def)
  then have "map_of (collect_outputs f s) i =
     (if i \<in> set ?ids then Some (case map_of (es_view s) i of None \<Rightarrow> GNil | Some v \<Rightarrow> v) else None)"
    unfolding collect_outputs_def node_ids_def .
  also have "\<dots> = map_option boxed (es_store s i)"
    using ne assms(3) outcomesD(9) [OF assms(2) ne] by (cases "es_store s i") auto
  finally show ?thesis .
qed

lemma main_phase_failures:
  assumes "well_formed f" and "topology f s" and "outcomes f m s"
  shows "es_main_failed s \<longleftrightarrow>
    (\<exists>n \<in> set (ef_nodes f). \<not> is_always n \<and> map_option nr_status (er_nodes (es_result s) (en_id n)) = Some StatusFailed)"
proof -
  note o = outcomesD [OF assms(3)]
  have failed: "es_state s i = StateFailed \<longleftrightarrow> map_option nr_status (er_nodes (es_result s) i) = Some StatusFailed" for i
    by (auto simp: o(1) state_after_def split: option.splits node_status.splits)
  have node: "node_of s (en_id n) = n" if "n \<in> set (ef_nodes f)" for n
    using node_by_id [OF assms(1) that] topologyD(1) [OF assms(2)] by (simp add: node_of_def)
  have known: "\<exists>n \<in> set (ef_nodes f). i = en_id n" if "es_state s i = StateFailed" for i
  proof -
    have "i \<in> settled s" using that unfolding failed by (auto simp: settled_def)
    then show ?thesis using topologyD(4) [OF assms(2)] by (auto simp: node_ids_def)
  qed
  show ?thesis unfolding o(3) main_failure_def failed [symmetric] using known node by metis
qed



text \<open>
  Claim C13. Every result of a run is accounted for by the results of the node's predecessors. A node
  ran when it has no predecessor or one that succeeded and did not route away from it. A skipped node
  has predecessors and states why: it is not a cleanup node and the main phase had failed, or no
  predecessor leads to it, because one failed, or one routed away, or all were skipped, or, for a
  cleanup node, its inputs are missing.
\<close>

theorem core_results_are_accounted_for:
  assumes "validate_structure f = None" and "fresh_result fr"
    and "drain_ready run d obs (new_scheduler f inputs fr evs) w = Some (c, s, w')"
    and "er_nodes (close_run f c s) i = Some nr"
  shows "i \<in> set (node_ids f) \<and> nr_id nr = i \<and>
    (if nr_status nr = StatusSkipped then skip_justified f s i (nr_skip_reason nr) else run_justified f s i)"
proof -
  obtain calls where inv: "core_inv f inputs (s, w', calls)" using drained [OF assms(1-3)] by blast
  then have top: "topology f s" and out: "outcomes f (overlay_inputs (ef_inputs f) inputs) s"
    by (auto simp: core_inv_def Let_def)
  have nr: "er_nodes (es_result s) i = Some nr"
    using assms(4) by (auto simp: close_run_def Let_def split: option.splits if_splits)
  then have "i \<in> settled s" by (auto simp: settled_def)
  then have "i \<in> set (node_ids f)" using topologyD(4) [OF top] by blast
  with outcomesD(2) [OF out nr] show ?thesis by (simp add: justified_def)
qed

theorem core_results_are_accounted_for_witness:
  "\<exists>s d. drain_ready demo_runner (\<lambda>w. None) False (new_scheduler demo_engine_flow [] demo_fresh []) 0 = Some (None, s, 3) \<and>
     er_nodes (close_run demo_engine_flow None s) ''d'' = Some d \<and> nr_status d = StatusSkipped \<and>
     skip_justified demo_engine_flow s ''d'' (nr_skip_reason d)"
proof (rule demo_drained)
  fix s d
  assume run: "drain_ready demo_runner (\<lambda>w. None) False (new_scheduler demo_engine_flow [] demo_fresh []) 0 = Some (None, s, 3)"
    and d: "er_nodes (es_result s) ''d'' = Some d" "nr_status d = StatusSkipped"
  have "er_nodes (close_run demo_engine_flow None s) ''d'' = Some d" using d by (simp add: close_run_result)
  with core_results_are_accounted_for [OF demo_engine_flow_valid run this] run d show ?thesis by auto
qed



section \<open>A check that is tried again\<close>

lemmas demo_exec_defs = exec_node_def demo_variables_cfg_def demo_base_def run_set_variable_def zero_out_def
  post_step_def node_base.defs set_variable_cfg.defs entries_def run_specs_def core_eval_def value_get_def get_dotted_def
  trim_dot_def demo_core_codec_def demo_runtime_def extract_specs_def copy_entries_def all_passed_def Let_def

lemma demo_first_try:
  obtains res checks where "exec_node demo_core_codec demo_runtime sub GNil ctx (SetVariableCfg demo_variables_cfg, w) =
    Some ((res, checks, Some (user_errf ''ASSERTION_FAILED'' ''assertion failed on v'')),
          SetVariableCfg (demo_variables_cfg\<lparr>sv_variables := Some [(''x'', GStr ''done'')]\<rparr>), w)"
  by (simp add: demo_exec_defs)

lemma demo_second_try:
  obtains res checks cfg where "exec_node demo_core_codec demo_runtime sub GNil ctx
      (SetVariableCfg (demo_variables_cfg\<lparr>sv_variables := Some [(''x'', GStr ''done'')]\<rparr>), w) =
    Some ((res, checks, None), cfg, w)"
  by (simp add: demo_exec_defs)

text \<open>
  \<open>Retry\<close> can make a failing check pass although the node does the same every time: a
  set-variable node's extracted outputs are copied into the variables of its configuration, and the
  next try is checked against them.
\<close>

theorem retried_check_reads_its_own_output:
  "map_option (\<lambda>r. snd (snd (fst r)))
       (retry demo_runtime 1 (exec_node demo_core_codec demo_runtime sub GNil) ctx (SetVariableCfg demo_variables_cfg, w)) =
     Some (Some (user_errf ''ASSERTION_FAILED'' ''assertion failed on v'')) \<and>
   map_option (\<lambda>r. snd (snd (fst r)))
       (retry demo_runtime 2 (exec_node demo_core_codec demo_runtime sub GNil) ctx (SetVariableCfg demo_variables_cfg, w)) =
     Some None"
proof -
  let ?run = "exec_node demo_core_codec demo_runtime sub GNil" and ?cfg = "SetVariableCfg demo_variables_cfg"
  obtain res1 checks1 where first: "?run ctx (?cfg, w) =
      Some ((res1, checks1, Some (user_errf ''ASSERTION_FAILED'' ''assertion failed on v'')),
            SetVariableCfg (demo_variables_cfg\<lparr>sv_variables := Some [(''x'', GStr ''done'')]\<rparr>), w)"
    by (rule demo_first_try)
  obtain res2 checks2 cfg where second: "?run ctx (SetVariableCfg (demo_variables_cfg\<lparr>sv_variables := Some [(''x'', GStr ''done'')]\<rparr>), w) =
      Some ((res2, checks2, None), cfg, w)"
    by (rule demo_second_try)
  have wait: "retry_wait demo_runtime dl d w = (False, w)" for dl d by (simp add: demo_runtime_def)
  have one: "nat (max 1 1) - 1 = 0" "nat (max 2 1) - 1 = Suc 0" by simp_all
  have "retry demo_runtime 1 ?run ctx (?cfg, w) =
      Some ((res1, checks1, Some (user_errf ''ASSERTION_FAILED'' ''assertion failed on v'')),
            SetVariableCfg (demo_variables_cfg\<lparr>sv_variables := Some [(''x'', GStr ''done'')]\<rparr>), w)"
    unfolding retry_def one by (subst retry_from.simps) (simp add: first)
  moreover have "retry demo_runtime 2 ?run ctx (?cfg, w) = Some ((res2, checks2, None), cfg, w)"
    unfolding retry_def one by (subst retry_from.simps) (simp add: first wait, subst retry_from.simps, simp add: second)
  ultimately show ?thesis by simp
qed

end
