(* ===== verification/Core_Calls.thy ===== *)
theory Core_Calls
  imports Core_Props
begin

text \<open>
  Child flows of the library form of the engine: what the walk of the module references accepts, and
  why a run returns. A chain of module calls never has a flow twice, since a run refuses to call a
  flow it is inside of, so with finitely many flows it is bounded; bodies of loops and polls are
  bounded by how deep they nest in the text of a node.
\<close>

section \<open>The walk of the module references\<close>

definition flow_refs :: "('a core_codec_scheme) \<Rightarrow> engine_flow \<Rightarrow> string set" where
  "flow_refs c f = (\<Union>n \<in> set (ef_nodes f). set (node_flow_refs c n))"

text \<open>Which flow calls which, by id.\<close>

definition flow_calls :: "('a core_codec_scheme) \<Rightarrow> (string \<rightharpoonup> engine_flow) \<Rightarrow> (string \<times> string) set" where
  "flow_calls c flows = {(i, j). \<exists>f. flows i = Some f \<and> j \<in> flow_refs c f}"

lemma walk_node_refs_ok:
  "walk_node_refs walk flows stack i refs = Some None \<longleftrightarrow>
     (\<forall>r \<in> set refs. r \<notin> set stack \<and> (\<exists>child. flows r = Some child \<and> walk child (stack @ [r]) = Some None))"
  by (induction refs) (auto split: option.splits)

lemma walk_nodes_ok:
  "walk_nodes walk c flows stack ns = Some None \<longleftrightarrow>
     (\<forall>n \<in> set ns. walk_node_refs walk flows stack (en_id n) (node_flow_refs c n) = Some None)"
  by (induction ns) (auto split: option.splits)

lemma walk_refs_ok:
  "walk_refs (Suc n) c flows f stack = Some None \<longleftrightarrow>
     (\<forall>r \<in> flow_refs c f. r \<notin> set stack \<and>
        (\<exists>child. flows r = Some child \<and> walk_refs n c flows child (stack @ [r]) = Some None))"
  by (auto simp: walk_nodes_ok walk_node_refs_ok flow_refs_def)

text \<open>An accepted walk was at every flow that is called, on a stack that ends in it.\<close>

definition walked :: "('a core_codec_scheme) \<Rightarrow> (string \<rightharpoonup> engine_flow) \<Rightarrow> string list \<Rightarrow> string \<Rightarrow> bool" where
  "walked c flows stack i \<longleftrightarrow> i \<in> set stack \<and> (\<exists>n f. flows i = Some f \<and> walk_refs n c flows f stack = Some None)"

lemma walked_call:
  assumes "walked c flows stack i" and "(i, j) \<in> flow_calls c flows"
  shows "j \<notin> set stack" and "walked c flows (stack @ [j]) j"
proof -
  obtain n f where f: "flows i = Some f" "walk_refs n c flows f stack = Some None" using assms(1) by (auto simp: walked_def)
  then obtain m where "n = Suc m" by (cases n) auto
  with f assms(2) have "j \<notin> set stack \<and> (\<exists>child. flows j = Some child \<and> walk_refs m c flows child (stack @ [j]) = Some None)"
    by (auto simp: flow_calls_def walk_refs_ok simp del: walk_refs.simps)
  then show "j \<notin> set stack" "walked c flows (stack @ [j]) j" by (auto simp: walked_def)
qed

lemma walked_chain:
  assumes "(i, j) \<in> (flow_calls c flows)\<^sup>+" and "walked c flows stack i"
  shows "j \<notin> set stack \<and> (\<exists>stack'. set stack \<subseteq> set stack' \<and> walked c flows stack' j)"
  using assms
proof (induction arbitrary: rule: trancl_induct)
  case (base y)
  from walked_call [OF base(2) base(1)] show ?case by (intro conjI exI [of _ "stack @ [y]"]) auto
next
  case (step y z)
  then obtain stack' where st: "set stack \<subseteq> set stack'" "walked c flows stack' y" by blast
  with walked_call [OF st(2) step.hyps(2)] show ?case by (intro conjI exI [of _ "stack' @ [z]"]) auto
qed



section \<open>The walk returns\<close>

lemma walk_node_refs_returns:
  assumes "\<And>r child. r \<in> set refs \<Longrightarrow> r \<notin> set stack \<Longrightarrow> flows r = Some child \<Longrightarrow> walk child (stack @ [r]) \<noteq> None"
  shows "walk_node_refs walk flows stack i refs \<noteq> None"
  using assms by (induction refs) (force split: option.splits)+

lemma walk_nodes_returns:
  assumes "\<And>r child. r \<notin> set stack \<Longrightarrow> flows r = Some child \<Longrightarrow> walk child (stack @ [r]) \<noteq> None"
  shows "walk_nodes walk c flows stack ns \<noteq> None"
proof (induction ns)
  case (Cons n ns)
  have "walk_node_refs walk flows stack (en_id n) (node_flow_refs c n) \<noteq> None"
    by (rule walk_node_refs_returns) (rule assms)
  with Cons show ?case by (auto split: option.splits)
qed simp

lemma unvisited_less:
  "finite D \<Longrightarrow> r \<in> D \<Longrightarrow> r \<notin> set stack \<Longrightarrow> card (D - set stack) = Suc (card (D - set (stack @ [r])))"
proof -
  assume D: "finite D" "r \<in> D" "r \<notin> set stack"
  then have "D - set (stack @ [r]) = (D - set stack) - {r}" "r \<in> D - set stack" by auto
  with D(1) show ?thesis by (metis card.remove finite_Diff)
qed

lemma walk_refs_returns:
  assumes "finite (dom flows)" and "card (dom flows - set stack) < n"
  shows "walk_refs n c flows f stack \<noteq> None"
  using assms(2)
proof (induction n arbitrary: f stack)
  case (Suc n)
  have "walk_refs n c flows child (stack @ [r]) \<noteq> None" if "r \<notin> set stack" "flows r = Some child" for r child
    using Suc.IH [of "stack @ [r]" child] Suc.prems unvisited_less [OF assms(1) _ that(1)] that(2) by (simp add: domI)
  then show ?case by (simp del: not_None_eq add: walk_nodes_returns)
qed simp

section \<open>A drained queue\<close>

lemma drain_returns:
  assumes "core_inv f inputs (s, w, calls)" and run: "\<And>n view w. n \<in> set (ef_nodes f) \<Longrightarrow> run n view w \<noteq> None"
  shows "drain_ready run d obs s w \<noteq> None"
  using assms(1)
proof (induction "card (set (node_ids f) - settled s)" arbitrary: s w calls rule: less_induct)
  case less
  define m where "m = overlay_inputs (ef_inputs f) inputs"
  have wf: "well_formed f" and top: "topology f s" and out: "outcomes f m s"
    using less.prems by (auto simp: core_inv_def Let_def m_def)
  show ?case
  proof (cases "es_ready s")
    case Nil
    then show ?thesis by (subst drain_ready.simps) simp
  next
    case ready: (Cons i rest)
    have i: "i \<in> set (node_ids f)" "i \<notin> settled s" using topologyD(8) [OF top] ready by auto
    have pend: "es_state s i = StatePending" using i(2) by (simp add: outcomesD(1) [OF out] state_after_def settled_def domIff)
    have "step_node run obs i s w \<noteq> None"
      using run [OF node_of_ready(1) [OF wf top i(1)], of "boxed (es_view s)" w]
      by (auto simp: step_node_def Let_def emitted_def split: option.splits)
    then obtain t w' where step: "step_node run obs i s w = Some (t, w')" by auto
    then obtain calls' where logged: "step_node (logged run) obs i s (w, calls) = Some (t, w', calls')"
      by (auto simp: step_node_logged)
    then obtain nr where one: "one_settled f s i nr t" using top pend by (cases rule: logged_step_cases) auto
    have inv: "core_inv f inputs (t, w', calls')"
      by (rule core_step_inv [OF less.prems, of run obs]) (auto simp: core_step_def ready logged)
    have "set (node_ids f) - settled t \<subset> set (node_ids f) - settled s"
      using i settled_step(3) [OF wf top out ready one] by auto
    then have "drain_ready run d obs t w' \<noteq> None" by (intro less.hyps [OF _ inv] psubset_card_mono) simp
    then show ?thesis using ready step by (subst drain_ready.simps) (simp split: option.split)
  qed
qed

lemma schedule_returns:
  assumes "validate_structure f = None" and "fresh_result fr" and "\<And>n view w. n \<in> set (ef_nodes f) \<Longrightarrow> run n view w \<noteq> None"
  shows "schedule_flow run d obs f inputs fr evs w \<noteq> None"
proof -
  have "core_inv f inputs (new_scheduler f inputs fr evs, w, [])"
    using validated_structure [OF assms(1)] assms(2) by (intro core.start_inv) (auto simp: core_start_def)
  from drain_returns [OF this assms(3)] show ?thesis by (auto simp: schedule_flow_def split: option.splits)
qed

section \<open>Runs of nodes return\<close>

text \<open>A runner of child flows answers every call from inside the given flows, for the given bodies.\<close>

definition answers :: "'w subflow_runner \<Rightarrow> string list \<Rightarrow> (engine_flow \<Rightarrow> bool) \<Rightarrow> bool" where
  "answers sub stack bodies \<longleftrightarrow>
     (\<forall>ctx i inputs w. cc_stack ctx = stack \<longrightarrow> run_subflow sub ctx i inputs w \<noteq> None) \<and>
     (\<forall>ctx body inputs w. cc_stack ctx = stack \<longrightarrow> bodies body \<longrightarrow> run_inline sub ctx body inputs w \<noteq> None)"

definition inline_body :: "node_cfg \<Rightarrow> string option" where
  "inline_body cfg = (case cfg of LoopCfg d \<Rightarrow> Some (lp_body d) | PollCfg d \<Rightarrow> Some (pl_body d) | _ \<Rightarrow> None)"

lemma stack_with_timeout [simp]: "cc_stack (with_timeout rt d w ctx) = cc_stack ctx"
  by (simp add: with_timeout_def)

lemma run_iterations_returns:
  assumes "answers sub (cc_stack ctx) bodies" and "bodies body"
  shows "run_iterations rt sub ctx d body i items results w \<noteq> None"
  using assms
proof (induction items arbitrary: i results w)
  case (Cons item items)
  have "run_inline sub ctx body (iteration_inputs d i item) w \<noteq> None"
    using Cons.prems by (simp add: answers_def del: not_None_eq)
  with Cons show ?case by (auto simp del: not_None_eq split: option.split sum.split)
qed simp

lemma poll_from_returns:
  assumes "answers sub (cc_stack ctx) bodies" and "bodies body"
  shows "poll_from c rt sub ctx d body attempt left w \<noteq> None"
  using assms
proof (induction left arbitrary: attempt w)
  case 0
  then have "run_inline sub ctx body [(''attempt'', GInt (int attempt))] w \<noteq> None"
    by (simp add: answers_def del: not_None_eq)
  then show ?case by (subst poll_from.simps) (auto simp: Let_def split: option.split sum.split)
next
  case (Suc left)
  have "run_inline sub ctx body [(''attempt'', GInt (int attempt))] w \<noteq> None"
    using Suc.prems by (simp add: answers_def del: not_None_eq)
  with Suc show ?case
    by (subst poll_from.simps) (auto simp: Let_def simp del: not_None_eq split: option.split sum.split prod.split)
qed

lemma run_cfg_returns:
  assumes "streams_end rt" and sub: "answers sub (cc_stack ctx) bodies"
    and body: "\<And>text b. inline_body cfg = Some text \<Longrightarrow> parse_core_flow c text = Inr b \<Longrightarrow> bodies b"
  shows "run_cfg c rt sub view ctx cfg w \<noteq> None"
proof (cases cfg)
  case (ModuleCfg d)
  then show ?thesis using sub
    by (simp add: run_module_def answers_def del: not_None_eq split: option.split sum.split prod.split)
next
  case (LoopCfg d)
  have "run_iterations rt sub ctx d b 0 items [] w \<noteq> None" if "parse_core_flow c (lp_body d) = Inr b" for b items
    by (rule run_iterations_returns [OF sub]) (use body LoopCfg that in \<open>simp add: inline_body_def\<close>)
  with LoopCfg show ?thesis
    by (auto simp: run_loop_def simp del: not_None_eq split: option.split sum.split prod.split)
next
  case (PollCfg d)
  have "poll_from c rt sub ctx' d b 1 k w \<noteq> None"
    if "parse_core_flow c (pl_body d) = Inr b" "cc_stack ctx' = cc_stack ctx" for b k ctx'
    using sub that body PollCfg by (intro poll_from_returns [of _ _ bodies]) (simp_all add: inline_body_def)
  with PollCfg show ?thesis by (simp add: run_poll_def Let_def del: not_None_eq split: option.split sum.split prod.split)
next
  case (SseCfg d)
  then show ?thesis using read_stream_returns [OF assms(1), of c]
    by (simp add: run_sse_def Let_def del: not_None_eq split: option.split sum.split prod.split)
qed simp_all

text \<open>
  A unit of work returns on a class of configurations, inside given flows, and stays in the class;
  a middleware returns when what it wraps does. \<open>Retry\<close> and \<open>Timeout\<close> do.
\<close>

definition returns_on :: "node_cfg set \<Rightarrow> string list \<Rightarrow> 'w node_exec \<Rightarrow> bool" where
  "returns_on C stack exec \<longleftrightarrow>
     (\<forall>ctx cfg w. cc_stack ctx = stack \<longrightarrow> cfg \<in> C \<longrightarrow> (\<exists>v cfg' w'. exec ctx (cfg, w) = Some (v, cfg', w') \<and> cfg' \<in> C))"

definition total_middleware :: "'w middleware \<Rightarrow> bool" where
  "total_middleware mw \<longleftrightarrow> (\<forall>C stack exec. returns_on C stack exec \<longrightarrow> returns_on C stack (mw exec))"

lemma returns_onE:
  assumes "returns_on C (cc_stack ctx) exec" and "fst st \<in> C"
  obtains res checks err cfg w where "exec ctx st = Some ((res, checks, err), cfg, w)" and "cfg \<in> C"
proof -
  obtain v cfg w where "exec ctx (fst st, snd st) = Some (v, cfg, w)" "cfg \<in> C"
    using assms unfolding returns_on_def by blast
  then show thesis using that by (cases v) simp
qed

lemma retry_from_returns:
  assumes exec: "returns_on C (cc_stack ctx) exec" and "fst st \<in> C"
  shows "\<exists>v cfg' w'. retry_from rt exec ctx i left st = Some (v, cfg', w') \<and> cfg' \<in> C"
  using assms(2)
proof (induction left arbitrary: i st)
  case 0
  obtain res checks err cfg w where "exec ctx st = Some ((res, checks, err), cfg, w)" "cfg \<in> C"
    by (rule returns_onE [OF exec 0])
  then show ?case by (subst retry_from.simps) auto
next
  case (Suc left)
  obtain res checks err cfg w where ex: "exec ctx st = Some ((res, checks, err), cfg, w)" "cfg \<in> C"
    by (rule returns_onE [OF exec Suc.prems])
  obtain stop w' where wait: "retry_wait rt (cc_deadline ctx) (int (Suc i) * 100000000) w = (stop, w')" by fastforce
  have "\<exists>v cfg' w2. retry_from rt exec ctx (Suc i) left (cfg, w') = Some (v, cfg', w2) \<and> cfg' \<in> C"
    by (rule Suc.IH) (simp add: ex)
  with ex wait show ?case by (subst retry_from.simps) (cases stop; simp)
qed

lemma retry_total: "total_middleware (retry (rt :: 'w node_runtime) attempts)"
  unfolding total_middleware_def
proof (intro allI impI)
  fix C stack and exec :: "'w node_exec"
  assume exec: "returns_on C stack exec"
  show "returns_on C stack (retry rt attempts exec)"
    unfolding returns_on_def retry_def
  proof (intro allI impI)
    fix ctx :: call_ctx and cfg and w :: 'w
    assume "cc_stack ctx = stack" and "cfg \<in> C"
    with exec show "\<exists>v cfg' w'. retry_from rt exec ctx 0 (nat (max attempts 1) - 1) (cfg, w) = Some (v, cfg', w') \<and> cfg' \<in> C"
      by (intro retry_from_returns) simp_all
  qed
qed

lemma node_timeout_total: "total_middleware (node_timeout rt d)"
  by (auto simp: total_middleware_def returns_on_def node_timeout_def)

lemma chain_returns:
  assumes "returns_on C stack exec" and "\<forall>mw \<in> set mws. total_middleware mw"
  shows "returns_on C stack (chain_middleware exec mws)"
  unfolding chain_middleware_def using assms by (induction mws) (auto simp: total_middleware_def)

text \<open>The configurations that run: copying outputs into the variables of a node keeps them.\<close>

definition returning_cfgs ::
    "('a core_codec_scheme) \<Rightarrow> 'w node_runtime \<Rightarrow> 'w subflow_runner \<Rightarrow> gval \<Rightarrow> string list \<Rightarrow> node_cfg set" where
  "returning_cfgs c rt sub view stack =
     {cfg. \<forall>ctx w. cc_stack ctx = stack \<longrightarrow> run_cfg c rt sub view ctx cfg w \<noteq> None}"

lemma with_variables_returning:
  "cfg \<in> returning_cfgs c rt sub view stack \<Longrightarrow> with_variables vars cfg \<in> returning_cfgs c rt sub view stack"
  by (cases cfg) (auto simp: returning_cfgs_def)

lemma post_step_returning:
  "cfg \<in> returning_cfgs c rt sub view stack \<Longrightarrow> snd (post_step c cfg res) \<in> returning_cfgs c rt sub view stack"
  by (auto simp: post_step_def Let_def with_variables_returning)

lemma exec_node_returns: "returns_on (returning_cfgs c rt sub view stack) stack (exec_node c rt sub view)"
  unfolding returns_on_def
proof (intro allI impI)
  fix ctx :: call_ctx and cfg w
  assume "cc_stack ctx = stack" and cfg: "cfg \<in> returning_cfgs c rt sub view stack"
  then have "run_cfg c rt sub view ctx cfg w \<noteq> None" by (auto simp: returning_cfgs_def)
  then obtain r w' where run: "run_cfg c rt sub view ctx cfg w = Some (r, w')" by auto
  show "\<exists>v cfg' w'. exec_node c rt sub view ctx (cfg, w) = Some (v, cfg', w') \<and> cfg' \<in> returning_cfgs c rt sub view stack"
  proof (cases r)
    case (Inl e)
    with run cfg show ?thesis by (simp add: exec_node_def)
  next
    case (Inr res)
    obtain v cfg' where "post_step c cfg res = (v, cfg')" by fastforce
    with run cfg Inr post_step_returning [OF cfg, of res] show ?thesis
      by (cases v) (simp add: exec_node_def Let_def)
  qed
qed

section \<open>Runs return\<close>

text \<open>
  How deep bodies nest: whatever the templates of a node resolve to, the body it is decoded with
  parses to a flow whose own bodies nest less deep.
\<close>

primrec nests_within :: "nat \<Rightarrow> ('a, 'w) core_engine \<Rightarrow> engine_flow \<Rightarrow> bool" where
  "nests_within 0 e f = False"
| "nests_within (Suc k) e f =
     (\<forall>n \<in> set (ef_nodes f). \<forall>view w raw w' cfg text b.
        resolve_templates (ce_codec e) view (rt_vars (ce_runtime e)) (en_raw n) w = (Inr raw, w') \<longrightarrow>
        decode_node (ce_codec e) (en_kind n) raw = Inr cfg \<longrightarrow> inline_body cfg = Some text \<longrightarrow>
        parse_core_flow (ce_codec e) text = Inr b \<longrightarrow> nests_within k e b)"

definition engine_total :: "('a, 'w) core_engine \<Rightarrow> bool" where
  "engine_total e \<longleftrightarrow> streams_end (ce_runtime e) \<and> (\<forall>mw \<in> set (ce_middleware e). total_middleware mw)"

lemma run_node_returns:
  assumes e: "engine_total e" and sub: "answers sub (cc_stack ctx) (nests_within k e)" and f: "nests_within (Suc k) e f"
    and n: "n \<in> set (ef_nodes f)"
  shows "run_node e sub ctx n view w \<noteq> None"
proof (cases "resolve_templates (ce_codec e) view (rt_vars (ce_runtime e)) (en_raw n) w")
  case (Pair r w1)
  have "chain_middleware (exec_node (ce_codec e) (ce_runtime e) sub view) (ce_middleware e) ctx (cfg, w1) \<noteq> None"
    if raw: "r = Inr raw" and cfg: "decode_node (ce_codec e) (en_kind n) raw = Inr cfg" for raw cfg
  proof -
    have bodies: "nests_within k e b" if "inline_body cfg = Some t" "parse_core_flow (ce_codec e) t = Inr b" for t b
      using f n Pair raw cfg that unfolding nests_within.simps by blast
    have "run_cfg (ce_codec e) (ce_runtime e) sub view ctx' cfg w' \<noteq> None" if "cc_stack ctx' = cc_stack ctx" for ctx' w'
      by (rule run_cfg_returns [of _ _ _ "nests_within k e"]) (use e sub that bodies in \<open>simp_all add: engine_total_def\<close>)
    then have "cfg \<in> returning_cfgs (ce_codec e) (ce_runtime e) sub view (cc_stack ctx)"
      by (simp add: returning_cfgs_def del: not_None_eq)
    moreover have "returns_on (returning_cfgs (ce_codec e) (ce_runtime e) sub view (cc_stack ctx)) (cc_stack ctx)
        (chain_middleware (exec_node (ce_codec e) (ce_runtime e) sub view) (ce_middleware e))"
      using e by (intro chain_returns exec_node_returns) (simp add: engine_total_def)
    ultimately show ?thesis by (fastforce simp: returns_on_def)
  qed
  then show ?thesis by (auto simp: run_node_def Pair simp del: not_None_eq split: sum.split option.split prod.split)
qed

lemma run_core_returns:
  assumes e: "engine_total e" and sub: "answers sub (cc_stack ctx) (nests_within k e)" and f: "nests_within (Suc k) e f"
    and walk: "\<And>flows. ce_flows e = Some flows \<Longrightarrow> top_level \<Longrightarrow> walk_refs n (ce_codec e) flows f [] \<noteq> None"
  shows "run_core n e sub ctx f inputs obs top_level w \<noteq> None"
proof -
  let ?fr = "\<lparr>er_success = True, er_nodes = Map.empty, er_outputs = [], er_error = [], er_code = []\<rparr>"
  have "schedule_flow (run_node e sub ctx) d obs f inputs ?fr evs w \<noteq> None" if "validate_structure f = None" for d evs
    by (rule schedule_returns [OF that]) (simp add: fresh_result_def, rule run_node_returns [OF e sub f])
  moreover have "validate_core_flow n e f top_level \<noteq> None"
    using walk by (auto simp: validate_core_flow_def split: option.split)
  moreover have "validate_structure f = None" if "validate_core_flow n e f top_level = Some None"
    using that by (auto simp: validate_core_flow_def split: option.splits)
  ultimately have "run_checked n e sub ctx f inputs obs top_level ?fr evs w \<noteq> None" for evs
    by (auto simp: run_checked_def split: option.split)
  then show ?thesis by (auto simp: run_core_def Let_def split: option.split)
qed

text \<open>The call depth that is enough inside given flows: each flow not yet entered can add its bodies.\<close>

definition enough_depth :: "nat \<Rightarrow> (string \<rightharpoonup> engine_flow) \<Rightarrow> string list \<Rightarrow> nat \<Rightarrow> nat" where
  "enough_depth D flows stack k = card (dom flows - set stack) * Suc D + k"

definition known_flows :: "('a, 'w) core_engine \<Rightarrow> (string \<rightharpoonup> engine_flow)" where
  "known_flows e = (case ce_flows e of None \<Rightarrow> Map.empty | Some flows \<Rightarrow> flows)"

lemma runner_answers:
  assumes fin: "finite (dom (known_flows e))" and all: "\<And>i child. known_flows e i = Some child \<Longrightarrow> nests_within D e child"
    and k: "enough_depth D (known_flows e) stack k \<le> n"
    and run: "\<And>ctx f inputs w k. nests_within k e f \<Longrightarrow> enough_depth D (known_flows e) (cc_stack ctx) k \<le> n \<Longrightarrow>
      child_run n e ctx f inputs w \<noteq> None"
  shows "answers (engine_at n e) stack (nests_within k e)"
  unfolding answers_def engine_at_def runner_of_def
proof (intro conjI allI impI; simp del: not_None_eq)
  fix ctx :: call_ctx and body inputs w
  assume "cc_stack ctx = stack" and "nests_within k e body"
  then have "child_run n e ctx body inputs w \<noteq> None" using run k by simp
  then show "(case child_run n e ctx body inputs w of None \<Rightarrow> None
       | Some (fr, w') \<Rightarrow> Some (child_outcome ''inline body'' ''SUBFLOW_FAILED'' fr, w')) \<noteq> None"
    by (auto split: option.split)
next
  fix ctx :: call_ctx and i inputs w
  assume stack: "cc_stack ctx = stack"
  have "child_run n e (ctx\<lparr>cc_stack := stack @ [i]\<rparr>) child inputs w \<noteq> None"
    if flow: "known_flows e i = Some child" and new: "i \<notin> set stack" for child
  proof (rule run [OF all [OF flow]])
    have "card (dom (known_flows e) - set stack) = Suc (card (dom (known_flows e) - set (stack @ [i])))"
      using unvisited_less [OF fin _ new] flow by (simp add: domI)
    with k show "enough_depth D (known_flows e) (cc_stack (ctx\<lparr>cc_stack := stack @ [i]\<rparr>)) D \<le> n"
      by (simp add: enough_depth_def)
  qed
  then show "subflow_of e (child_run n e) ctx i inputs w \<noteq> None"
    using stack by (auto simp: subflow_of_def known_flows_def split: option.splits)
qed

lemma child_run_returns:
  assumes e: "engine_total e" and fin: "finite (dom (known_flows e))"
    and all: "\<And>i child. known_flows e i = Some child \<Longrightarrow> nests_within D e child"
  shows "nests_within k e f \<Longrightarrow> enough_depth D (known_flows e) (cc_stack ctx) k \<le> n \<Longrightarrow> child_run n e ctx f inputs w \<noteq> None"
proof (induction n arbitrary: k f ctx inputs w)
  case 0
  then show ?case by (cases k) (auto simp: enough_depth_def)
next
  case (Suc n)
  obtain j where j: "k = Suc j" using Suc.prems(1) by (cases k) auto
  then have "enough_depth D (known_flows e) (cc_stack ctx) j \<le> n" using Suc.prems(2) by (simp add: enough_depth_def)
  from runner_answers [OF fin all this Suc.IH]
  have "answers (runner_of e (child_run n e)) (cc_stack ctx) (nests_within j e)" by (simp add: engine_at_def)
  then have "run_core n e (runner_of e (child_run n e)) ctx f inputs False False w \<noteq> None"
    by (rule run_core_returns [OF e]) (use Suc.prems(1) j in simp_all)
  then show ?case by (auto split: option.split)
qed

text \<open>
  Claim C16. A run returns, whatever the nodes and the flows they call do, when the flows that can be
  called are finitely many, bodies of loops and polls nest to a finite depth, streams end and the
  middleware returns, as retrying and the time limit do. A call depth of one more than the depth of
  the bodies for each flow, and the depth of the flow itself, is enough.
\<close>

theorem core_run_returns:
  assumes "streams_end (ce_runtime e)" and "\<forall>mw \<in> set (ce_middleware e). total_middleware mw"
    and "finite (dom (known_flows e))" and "\<forall>child \<in> ran (known_flows e). nests_within D e child"
    and "nests_within k e f" and "card (dom (known_flows e)) * Suc D + k \<le> n"
  shows "run_flow n e deadline obs f inputs w \<noteq> None"
proof -
  have e: "engine_total e" using assms(1,2) by (simp add: engine_total_def)
  have all: "nests_within D e child" if "known_flows e i = Some child" for i child using assms(4) that by (auto simp: ran_def)
  obtain j where j: "k = Suc j" using assms(5) by (cases k) auto
  let ?ctx = "\<lparr>cc_deadline = deadline, cc_stack = []\<rparr>"
  have "enough_depth D (known_flows e) [] j \<le> n" using assms(6) j by (simp add: enough_depth_def)
  from runner_answers [OF assms(3) all this child_run_returns [OF e assms(3) all]]
  have sub: "answers (engine_at n e) (cc_stack ?ctx) (nests_within j e)" by simp
  have "walk_refs n (ce_codec e) flows f [] \<noteq> None" if "ce_flows e = Some flows" for flows
    using assms(3,6) j that by (intro walk_refs_returns) (auto simp: known_flows_def)
  then show ?thesis unfolding run_flow_def
    by (intro run_core_returns [OF e sub]) (use assms(5) j in simp_all)
qed

theorem core_run_returns_witness:
  "run_flow 3 demo_core_engine None True demo_caller [] 0 \<noteq> None"
proof (rule core_run_returns)
  show "streams_end (ce_runtime demo_core_engine)" by (simp add: streams_end_def demo_module_defs)
  show "\<forall>mw \<in> set (ce_middleware demo_core_engine). total_middleware mw"
    by (simp add: demo_core_engine_def retry_total)
  have bodies: "inline_body cfg = None" if "decode_node demo_core_codec k raw = Inr cfg" for k raw cfg
    using that by (auto simp: decode_node_def decoded_def demo_core_codec_def undecodable_def inline_body_def
        split: sum.splits if_splits)
  have nest: "nests_within 1 demo_core_engine f" for f
    using bodies by (auto simp: demo_core_engine_def)
  then show "nests_within 1 demo_core_engine demo_caller"
    "\<forall>child \<in> ran (known_flows demo_core_engine). nests_within 1 demo_core_engine child" by blast+
  show "finite (dom (known_flows demo_core_engine))" "card (dom (known_flows demo_core_engine)) * Suc 1 + 1 \<le> 3"
    by (simp_all add: known_flows_def demo_core_engine_def)
qed

end
