(* ===== verification/Spec2Isabelle.thy ===== *)
theory Spec2Isabelle
  imports Engine_Props Routing Skip_Props Http_Calls Reporter Runtime Webhooks Module_Graph Requests Module_Node Event_Stream Flow_Library Core_Calls
begin

text \<open>
  Verification of the echopoint runner.

  The program. A control plane hands jobs to a runner; a job is a flow, a graph of nodes (requests,
  checks, branches, loops, waits, modules). \<open>internal/runtime\<close> claims jobs into a bounded number of
  slots, parses the flow (\<open>pkg/flow\<close>), executes it (\<open>pkg/runner\<close>, \<open>pkg/engine\<close>) and reports progress
  and the end. The engine runs the nodes of \<open>pkg/node\<close> concurrently: a scheduler loop owns the state,
  starts every ready node in a goroutine and receives its result over a channel; a first phase runs
  the nodes marked on-success, a second one the always (cleanup) nodes. A node reads the outputs of
  others through templates, is checked by assertions (\<open>pkg/operators\<close>, \<open>pkg/extractors\<close>), and its
  outgoing HTTP calls are limited, paced, grouped and bounded in memory (\<open>pkg/httpcall\<close>,
  \<open>response_budget.go\<close>). Secret inputs and outputs are masked in whatever a run reports
  (\<open>pkg/redact\<close>).

  Theories and code, in the order of the imports.
  \<open>Prelude\<close>, \<open>Go_Strings\<close>, \<open>Values\<close>: generic lemmas, the locales \<open>invariant_system\<close> and
  \<open>measured_system\<close> every state machine below is an interpretation of, the functions of Go's
  \<open>strings\<close> and \<open>strconv\<close> the code calls, and \<open>gval\<close>, the values behind \<open>any\<close>.
  \<open>Refs\<close>: \<open>LookupPath\<close>, \<open>walkPath\<close> (\<open>pkg/node/template_resolver.go\<close>), the output view, \<open>parseDataRef\<close>,
  \<open>resolveDataRef\<close> (\<open>pkg/engine/engine.go\<close>). \<open>Spi\<close>: errors, results, trace context (\<open>pkg/spi\<close>).
  \<open>Graph\<close>: \<open>NewFlowEngine\<close>. \<open>Skips\<close>: \<open>executionState\<close>, input validation and assembly, the skip
  conditions of \<open>execution.go\<close> and the reported reasons of \<open>skipped.go\<close>.
  \<open>Scheduler\<close>: \<open>execution.go\<close>. A configuration is the loop's program counter, the execution state,
  the goroutines and the channel; an action is one iteration of the loop, the start or the end of a
  goroutine (with any result), or a receive, and \<open>engine_step\<close> takes any enabled one, so a theorem on
  reachable configurations holds for every interleaving and whatever the nodes return.
  \<open>Scheduler_Inv\<close>, \<open>Settle\<close>, \<open>Containment\<close>, \<open>Dataflow\<close>, \<open>Phases\<close>: the invariants, each proved once
  for the small acts the loop's functions decompose into. \<open>Demo\<close>: concrete flows and runs.
  \<open>Engine_Props\<close>, \<open>Routing\<close>, \<open>Skip_Props\<close>: the properties of the scheduler. A run of \<open>n\<close> nodes ends
  within \<open>6 n + 4\<close> steps: a measure that falls with every step counts two loop iterations, a start,
  an end and a receive for each node.
  \<open>Validation\<close> (\<open>pkg/flow/validation.go\<close>), \<open>Module_Graph\<close> (\<open>module_cycle_validation.go\<close>,
  \<open>ExecuteModule\<close>, module inputs and outputs): what a flow must satisfy before it runs.
  \<open>Assertions\<close>: operators, assertions, outputs and the engine's pass over a result. \<open>Templates\<close>:
  resolution of templates and the references data declares, composed with the engine's input
  assembly. \<open>Nodes\<close>: \<open>Execute\<close> of the branch, loop, poll, set-variable, assert and delay nodes.
  \<open>Budget\<close>: the memory budget and the reading of a response body, as interleaved readers.
  \<open>Event_Stream\<close>: the event stream node, whose line by line parser refines the reading of a whole
  stream; its loop is a partial function, and that it returns is proved on its own.
  \<open>Requests\<close>: the request node up to the transport. \<open>Webhooks\<close>: the webhook wait.
  \<open>Redact_Text\<close>, \<open>Redact\<close> (\<open>pkg/redact\<close>): the texts masked, base64, the JSON tree a report is masked
  as, what a masked tree may hold, and the redactor with its learned and withheld outputs and its
  cache as a state machine whose steps are learning, withholding and reporting. \<open>Module_Node\<close>: the module
  node and the boundary of a run, where everything that leaves is masked.
  \<open>Flow_Checks\<close>: the lines a flow file states its checks in, read (\<open>expect.go\<close>) and written
  (\<open>decompile.go\<close>). \<open>Flow_Graph\<close>: the compiled form of a flow file (\<open>ir.go\<close>), the stored form
  (\<open>wire/types.go\<close>), lowering with the edges of a graph (\<open>lower.go\<close>), and closed flows.
  \<open>Flow_Resolve\<close>: the resolution of module references between files as a depth-first search, the checks
  of edges, references and exports, compilation (\<open>resolve.go\<close>, \<open>compile.go\<close>). \<open>Flow_Library\<close>: what a
  compiled library promises; the fuel of the search is one more than the number of files, and a set of
  unvisited paths that shrinks with every visit shows that it is enough.
  \<open>Core_Value\<close>, \<open>Core_Tmpl\<close>, \<open>Core_Nodes\<close>, \<open>Core_Engine\<close>: the library form of the engine (\<open>pkg/core\<close>),
  which is for embedding and runs the nodes of a flow one at a time: values, assertions and outputs; the
  templates in the JSON text of a node; flows, configurations, the registry and the built-in kinds; the
  scheduler, the run of a node and the recursion into child flows, to a call depth. \<open>Core_Run\<close>: the
  invariant of its configurations, kept by every step. \<open>Core_Props\<close>: how a run ends, what its results
  rest on, what a node is run on. \<open>Core_Calls\<close>: the walk of the module references, and that runs
  return: a chain of module calls has no flow twice, so one level for each flow that can be called, and
  as many below each as its bodies nest, is a call depth that is enough. \<open>Core_Demo\<close>: concrete flows.
  \<open>Http_Calls\<close>: limiter, collector, path templates, pacer. \<open>Reporter\<close>: the progress event queue with
  its batches and retries. \<open>Runtime\<close>: slots, claims, leases and completion.

  Parameters. Code that is not in the repository is an argument: the text forms of floats and JSON
  (\<open>go_text\<close>, \<open>json_text\<close>, \<open>request_text\<close>), regular expressions, the extractors (JSONPath, XPath), the
  decoding of flow documents, the control plane's replies, the HTTP transport, the dynamic
  variables, the module executor a loop, a poll or a module node is given, time and cancellation. A
  node's effects act on a world \<open>'w\<close> the model does not look into. The weighted semaphore of the
  budget grants a request within its capacity, in any order. Go maps are iterated in an order the
  model leaves open wherever the result depends on it. The JSON codec of the redactor is an argument;
  it is only assumed to decode what it encoded, and a decoded tree to hold less text than the body it
  was read from, which bounds the masking of bodies inside bodies.

  Machine integers. Counts and sizes are \<open>nat\<close> or \<open>int\<close>: in-degrees, sequence numbers, attempt counts
  and byte counts are bounded by the lengths of documents and bodies far below 64 bits. Positions of
  array elements written in a reference are parsed as Go's \<open>Atoi\<close> does.

  Not modelled. The reading of the YAML tree of a flow file and the rest of its decompiler
  (\<open>pkg/flowdsl\<close>), the generators of dynamic variables, and ephemeral runs. The control plane client,
  configuration, logging, cloud dialling and the JSON registry of node kinds: input and output of the process, or third-party code.
\<close>

end
